(* ===== verification/JsPrelude.thy ===== *)
theory JsPrelude
  imports Main "HOL-Library.Word"
begin

text \<open>
  Shared vocabulary of the development: the JavaScript values the sources under
  \<^verbatim>\<open>src/js\<close> work on, and the generic lemmas about them.

  \<^item> A JavaScript string is a sequence of 16-bit code units, so \<open>jsstring\<close> is a list
    of \<open>16 word\<close>; \<open>js\<close> turns an ASCII literal into one.
  \<^item> An array is a list. \<open>js_slice\<close>, \<open>js_slice_from\<close> and \<open>js_splice\<close> are
    \<^verbatim>\<open>slice\<close> and \<^verbatim>\<open>splice\<close> of the language, negative indices included.
  \<^item> A thrown exception is the left injection of a sum; \<open>rbind\<close> sequences two
    computations that may throw.
\<close>

section \<open>Strings and arrays\<close>

type_synonym jchar = "16 word"
type_synonym jsstring = "jchar list"

definition cc :: "char \<Rightarrow> jchar" where
  "cc c = of_char c"

definition js :: "string \<Rightarrow> jsstring" where
  "js s = map cc s"

text \<open>\<^verbatim>\<open>s.charCodeAt(i)\<close> for an index in range and \<^verbatim>\<open>String.fromCharCode(n)\<close>, which
  reduces its argument modulo \<open>2 ^ 16\<close>.\<close>

definition char_code :: "jchar \<Rightarrow> int" where
  "char_code c = uint c"

definition from_char_code :: "int \<Rightarrow> jchar" where
  "from_char_code n = word_of_int n"

definition js_rel_index :: "nat \<Rightarrow> int \<Rightarrow> nat" where
  "js_rel_index n i = (if i < 0 then nat (int n + i) else min n (nat i))"

definition js_slice :: "'a list \<Rightarrow> int \<Rightarrow> int \<Rightarrow> 'a list" where
  "js_slice xs a b =
     (let i = js_rel_index (length xs) a; j = js_rel_index (length xs) b
      in take (j - i) (drop i xs))"

definition js_slice_from :: "'a list \<Rightarrow> int \<Rightarrow> 'a list" where
  "js_slice_from xs a = drop (js_rel_index (length xs) a) xs"

definition js_splice :: "'a list \<Rightarrow> nat \<Rightarrow> nat \<Rightarrow> 'a list \<Rightarrow> 'a list" where
  "js_splice xs i n ins = take i xs @ ins @ drop (i + n) xs"

text \<open>Reading an array or a string at an index: out of range gives \<^verbatim>\<open>undefined\<close>.\<close>

definition js_at :: "'a list \<Rightarrow> int \<Rightarrow> 'a option" where
  "js_at xs i = (if 0 \<le> i \<and> i < int (length xs) then Some (xs ! nat i) else None)"

fun js_join :: "'a list \<Rightarrow> 'a list list \<Rightarrow> 'a list" where
  "js_join sep [] = []"
| "js_join sep [x] = x"
| "js_join sep (x # y # zs) = x @ sep @ js_join sep (y # zs)"

section \<open>Exceptions\<close>

fun rbind :: "'e + 'a \<Rightarrow> ('a \<Rightarrow> 'e + 'b) \<Rightarrow> 'e + 'b" where
  "rbind (Inl e) f = Inl e"
| "rbind (Inr x) f = f x"

section \<open>Regular expressions made from strings\<close>

text \<open>
  The constructor \<^verbatim>\<open>RegExp\<close>: for a pattern it gives the function \<^verbatim>\<open>test\<close> of the regular expression, or
  throws a \<^verbatim>\<open>SyntaxError\<close> (\<open>None\<close>). The sources put the name of a class between two fixed patterns. A name
  without special characters matches itself, so that \<open>regexp_around\<close> knows the meaning of the whole; any
  other name is left to the constructor.
\<close>

type_synonym regexps = "jsstring \<Rightarrow> (jsstring \<Rightarrow> bool) option"

definition special_chars :: jsstring where
  "special_chars = 0x5C # js ''^$.*+?()[]{}|''"

definition plain_pattern :: "jsstring \<Rightarrow> bool" where
  "plain_pattern s \<longleftrightarrow> list_all (\<lambda>c. c \<notin> set special_chars) s"

definition regexp_around :: "regexps \<Rightarrow> jsstring \<Rightarrow> jsstring \<Rightarrow> jsstring \<Rightarrow> (jsstring \<Rightarrow> bool) \<Rightarrow> (jsstring \<Rightarrow> bool) option" where
  "regexp_around rx before s behind meaning = (if plain_pattern s then Some meaning else rx (before @ s @ behind))"

section \<open>Collections of facts\<close>

named_theorems js_eval \<open>unfolding rules that evaluate the model on concrete input\<close>
named_theorems js_str \<open>facts on slices and splices of strings and arrays\<close>

lemmas [js_eval] = cc_def js_def char_code_def from_char_code_def js_rel_index_def
  js_slice_def js_slice_from_def js_splice_def js_at_def

section \<open>Generic lemmas\<close>

lemma char_code_bounds [simp]: "0 \<le> char_code c" "char_code c < 65536"
  using uint_lt2p [of c] by (simp_all add: char_code_def)

lemma from_char_code_char_code [simp]: "from_char_code (char_code c) = c"
  by (simp add: from_char_code_def char_code_def)

lemma char_code_from_char_code: "char_code (from_char_code n) = n mod 65536"
  by (simp add: from_char_code_def char_code_def uint_word_of_int)

lemma char_code_cc [simp]: "char_code (cc c) = of_char c"
proof -
  have "(of_char c :: nat) < 256" by simp
  then have "(of_char c :: nat) < 65536" by (rule less_trans) simp
  then have "uint (of_nat (of_char c) :: 16 word) = int (of_char c)"
    by (simp add: uint_nat unat_of_nat)
  moreover have "(of_nat (of_char c) :: 16 word) = of_char c" by (simp add: of_char_def)
  moreover have "int (of_char c) = of_char c" by (simp add: of_char_def)
  ultimately show ?thesis by (simp add: char_code_def cc_def)
qed
lemma cc_eq_iff [simp]: "cc a = cc b \<longleftrightarrow> a = b"
  using char_code_cc [of a] char_code_cc [of b] by (metis of_char_eq_iff)

lemma js_rel_index_le [simp]: "js_rel_index n i \<le> n"
  by (auto simp: js_rel_index_def)

lemma js_rel_index_nat [simp]: "i \<le> n \<Longrightarrow> js_rel_index n (int i) = i"
  by (simp add: js_rel_index_def)

lemma js_slice_nat [js_str]:
  "i \<le> j \<Longrightarrow> j \<le> length xs \<Longrightarrow> js_slice xs (int i) (int j) = take (j - i) (drop i xs)"
  by (simp add: js_slice_def)

lemma js_slice_prefix [js_str]: "0 \<le> b \<Longrightarrow> js_slice xs 0 b = take (nat b) xs"
  by (auto simp: js_slice_def js_rel_index_def min_def)

lemma js_slice_from_nonneg [js_str]: "0 \<le> a \<Longrightarrow> js_slice_from xs a = drop (nat a) xs"
  by (auto simp: js_slice_from_def js_rel_index_def min_def)

lemma js_slice_nonneg [js_str]:
  "0 \<le> a \<Longrightarrow> a \<le> b \<Longrightarrow> js_slice xs a b = take (nat b - nat a) (drop (nat a) xs)"
  by (auto simp: js_slice_def js_rel_index_def min_def Let_def)

lemma length_js_splice [js_str]:
  "i + n \<le> length xs \<Longrightarrow> length (js_splice xs i n ins) = length xs - n + length ins"
  by (simp add: js_splice_def)

lemma js_splice_append [js_str]:
  "length us = i \<Longrightarrow> length vs = n \<Longrightarrow> js_splice (us @ vs @ ws) i n ins = us @ ins @ ws"
  by (auto simp: js_splice_def)

lemma js_at_Some_iff: "js_at xs i = Some x \<longleftrightarrow> 0 \<le> i \<and> i < int (length xs) \<and> xs ! nat i = x"
  by (auto simp: js_at_def)

lemma js_at_nat [simp]: "i < length xs \<Longrightarrow> js_at xs (int i) = Some (xs ! i)"
  by (simp add: js_at_def)

lemma rbind_Inr_iff: "rbind m f = Inr y \<longleftrightarrow> (\<exists>x. m = Inr x \<and> f x = Inr y)"
  by (cases m) auto

lemma rbind_Inl_iff: "rbind m f = Inl e \<longleftrightarrow> m = Inl e \<or> (\<exists>x. m = Inr x \<and> f x = Inl e)"
  by (cases m) auto

lemma js_join_Nil [simp]: "js_join [] xss = concat xss"
  by (induction "[] :: 'a list" xss rule: js_join.induct) auto

lemma nth_append_middle [simp]: "(xs @ y # ys) ! length xs = y"
  by simp

end
