(* ===== verification/JsNumbers.thy ===== *)
theory JsNumbers
  imports Complex_Main JsPrelude "HOL-Library.Log_Nat"
begin

text \<open>
  The arithmetic of the language that the runtime uses on integers: the conversions to
  32 bits behind the bitwise operators, the truncating remainder, and the division of
  two integers, which is the rational quotient rounded to a double (round to nearest, ties
  to even, 53-bit significand) and hence \<^emph>\<open>not\<close> exact. \<open>floor_quotient_exact\<close> and
  \<open>ceil_quotient_exact\<close> show that the rounding never disturbs \<^verbatim>\<open>Math.floor\<close> and
  \<^verbatim>\<open>Math.ceil\<close> of a quotient whose numerator is an exactly representable integer.

  Integer values are \<open>int\<close>: every sum, product and difference the runtime forms of 32-bit
  operands and passes to these primitives is judged by the value given.
\<close>

unbundle bit_operations_syntax

section \<open>Bitwise operators\<close>

definition to_int32 :: "int \<Rightarrow> int" where
  "to_int32 x = sint (word_of_int x :: 32 word)"

definition js_and :: "int \<Rightarrow> int \<Rightarrow> int" where
  "js_and x y = sint (word_of_int x AND word_of_int y :: 32 word)"

definition js_or :: "int \<Rightarrow> int \<Rightarrow> int" where
  "js_or x y = sint (word_of_int x OR word_of_int y :: 32 word)"

definition js_shl :: "int \<Rightarrow> int \<Rightarrow> int" where
  "js_shl x n = sint (push_bit (nat (n mod 32)) (word_of_int x :: 32 word))"

section \<open>Remainder and rounded division\<close>

definition js_rem :: "int \<Rightarrow> int \<Rightarrow> int" where
  "js_rem x y = sgn x * (\<bar>x\<bar> mod \<bar>y\<bar>)"

definition round_half_even :: "rat \<Rightarrow> int" where
  "round_half_even x =
     (let n = \<lfloor>x\<rfloor>; d = x - of_int n
      in if d < 1/2 then n
         else if d > 1/2 then n + 1
         else if even n then n else n + 1)"

text \<open>\<open>pow2 e\<close> is two to the power \<open>e\<close>, for any integer \<open>e\<close>.\<close>

definition pow2 :: "int \<Rightarrow> rat" where
  "pow2 e = (if 0 \<le> e then 2 ^ nat e else 1 / 2 ^ nat (- e))"

text \<open>
  The exponent of the last significant bit of a double near \<open>x\<close>: the \<open>e\<close> with
  \<open>2 ^ 52 \<le> \<bar>x\<bar> / 2 ^ e < 2 ^ 53\<close>, found from the bit lengths of numerator and denominator.
\<close>

definition ulp_exp :: "rat \<Rightarrow> int" where
  "ulp_exp x =
     (let (n, d) = quotient_of x; k = bitlen \<bar>n\<bar> - bitlen d
      in if \<bar>x\<bar> < pow2 k then k - 53 else k - 52)"

definition double_round :: "rat \<Rightarrow> rat" where
  "double_round x =
     (if x = 0 then 0
      else let u = pow2 (ulp_exp x) in of_int (round_half_even (x / u)) * u)"

definition js_div :: "int \<Rightarrow> int \<Rightarrow> rat" where
  "js_div x y = double_round (of_int x / of_int y)"

lemmas [js_eval] = to_int32_def js_and_def js_or_def js_shl_def js_rem_def
  round_half_even_def pow2_def ulp_exp_def double_round_def js_div_def

section \<open>Remainder\<close>

lemma js_rem_mult_quot: "x = js_rem x y + y * (sgn x * sgn y * (\<bar>x\<bar> div \<bar>y\<bar>))"
proof -
  have "\<bar>y\<bar> * (\<bar>x\<bar> div \<bar>y\<bar>) + \<bar>x\<bar> mod \<bar>y\<bar> = \<bar>x\<bar>"
    by simp
  moreover have "x = sgn x * \<bar>x\<bar>" "\<bar>y\<bar> = y * sgn y"
    by (simp_all add: sgn_if abs_if)
  ultimately show ?thesis
    unfolding js_rem_def by (metis distrib_left mult.assoc mult.left_commute add.commute)
qed

lemma js_rem_pos: "0 \<le> x \<Longrightarrow> 0 < y \<Longrightarrow> js_rem x y = x mod y"
  by (cases "x = 0") (auto simp: js_rem_def)

section \<open>The rounding error\<close>

lemma round_half_even_error: "\<bar>of_int (round_half_even x) - x\<bar> \<le> 1/2"
proof -
  define n :: rat where "n = of_int \<lfloor>x\<rfloor>"
  have "n \<le> x" "x < n + 1"
    using floor_correct [of x] by (simp_all add: n_def)
  then show ?thesis
    by (simp add: round_half_even_def Let_def abs_if flip: n_def)
qed

lemma round_half_even_of_int [simp]: "round_half_even (of_int n) = n"
  by (simp add: round_half_even_def Let_def)

lemma pow2_pos [simp]: "0 < pow2 e" "0 \<le> pow2 e" "pow2 e \<noteq> 0"
  by (simp_all add: pow2_def)

lemma pow2_add: "pow2 (a + b) = pow2 a * pow2 b"
proof -
  have "pow2 e = 2 powi e" for e
    by (simp add: pow2_def power_int_def field_simps)
  then show ?thesis by (simp add: power_int_add)
qed

lemma pow2_nat [simp]: "pow2 (int n) = 2 ^ n"
  by (simp add: pow2_def)

lemma pow2_bitlen:
  assumes "0 < (a :: int)"
  shows "pow2 (bitlen a - 1) \<le> of_int a" "of_int a < pow2 (bitlen a)"
proof -
  have "1 \<le> bitlen a"
    using assms bitlen_nonneg [of a] bitlen_eq_zero_iff [of a] by linarith
  then have "pow2 (bitlen a - 1) = of_int (2 ^ nat (bitlen a - 1))"
    and "pow2 (bitlen a) = of_int (2 ^ nat (bitlen a))"
    by (simp_all add: pow2_def)
  with bitlen_bounds [OF assms]
  show "pow2 (bitlen a - 1) \<le> of_int a" "of_int a < pow2 (bitlen a)"
    by (simp_all only: of_int_le_iff of_int_less_iff)
qed

lemma ulp_exp_lower:
  assumes "x \<noteq> 0"
  shows "2 ^ 52 * pow2 (ulp_exp x) \<le> \<bar>x\<bar>"
proof -
  obtain n d where nd: "quotient_of x = (n, d)"
    by (cases "quotient_of x")
  then have d: "0 < d" and x: "x = of_int n / of_int d"
    using quotient_of_denom_pos quotient_of_div by auto
  with assms have n: "0 < \<bar>n\<bar>" by auto
  let ?k = "bitlen \<bar>n\<bar> - bitlen d"
  have "pow2 (bitlen \<bar>n\<bar> - 1) = pow2 (?k - 1) * pow2 (bitlen d)"
    by (simp flip: pow2_add)
  moreover have "pow2 (?k - 1) * of_int d \<le> pow2 (?k - 1) * pow2 (bitlen d)"
    using pow2_bitlen(2) [OF d] by (intro mult_left_mono) auto
  ultimately have "pow2 (?k - 1) * of_int d \<le> of_int \<bar>n\<bar>"
    using pow2_bitlen(1) [OF n] by linarith
  then have low: "pow2 (?k - 1) \<le> \<bar>x\<bar>"
    using d by (simp add: x field_simps)
  have "2 ^ 52 * pow2 (?k - 53) = pow2 (?k - 1)" "2 ^ 52 * pow2 (?k - 52) = pow2 ?k"
    using pow2_add [of 52 "?k - 53"] pow2_add [of 52 "?k - 52"] by (simp_all add: pow2_def)
  with low nd show ?thesis
    by (simp add: ulp_exp_def Let_def)
qed

lemma double_round_error: "\<bar>double_round x - x\<bar> \<le> \<bar>x\<bar> / 2 ^ 53"
proof (cases "x = 0")
  case False
  let ?u = "pow2 (ulp_exp x)"
  have "double_round x - x = (of_int (round_half_even (x / ?u)) - x / ?u) * ?u"
    using False by (simp add: double_round_def Let_def field_simps)
  then have "\<bar>double_round x - x\<bar> = \<bar>of_int (round_half_even (x / ?u)) - x / ?u\<bar> * ?u"
    by (simp add: abs_mult)
  also have "\<dots> \<le> 1 / 2 * ?u"
    using round_half_even_error by (intro mult_right_mono) auto
  also have "\<dots> \<le> \<bar>x\<bar> / 2 ^ 53"
    using ulp_exp_lower [OF False] by simp
  finally show ?thesis .
qed (simp add: double_round_def)

lemma double_round_of_int:
  assumes "\<bar>q\<bar> < 2 ^ 53"
  shows "double_round (of_int q) = of_int q"
proof (cases "q = 0")
  case False
  let ?x = "of_int q :: rat"
  let ?e = "ulp_exp ?x"
  have "of_int \<bar>q\<bar> < (of_int (2 ^ 53) :: rat)"
    using assms by (simp only: of_int_less_iff)
  then have "2 ^ 52 * pow2 ?e < 2 ^ 53"
    using ulp_exp_lower [of ?x] False by simp
  then have "pow2 ?e < 2" by simp
  have "?e \<le> 0"
  proof (rule ccontr)
    assume "\<not> ?e \<le> 0"
    then have "(2 :: rat) ^ 1 \<le> 2 ^ nat ?e"
      by (intro power_increasing) auto
    with \<open>pow2 ?e < 2\<close> \<open>\<not> ?e \<le> 0\<close> show False by (simp add: pow2_def)
  qed
  then have "pow2 ?e = 1 / 2 ^ nat (- ?e)"
    by (auto simp: pow2_def)
  then have "?x / pow2 ?e = of_int (q * 2 ^ nat (- ?e))"
    by simp
  then have "of_int (round_half_even (?x / pow2 ?e)) = ?x / pow2 ?e"
    by (simp only: round_half_even_of_int)
  with False show ?thesis by (simp add: double_round_def Let_def)
qed (simp add: double_round_def)

section \<open>Rounded quotients of integers\<close>

text \<open>
  A quotient that is not an integer keeps a distance of \<open>1 / \<bar>y\<bar>\<close> from every integer, and the
  rounding error is smaller than that as long as the numerator is below \<open>2 ^ 53\<close>.
\<close>

lemma quotient_gap:
  assumes "y \<noteq> 0" and "\<not> y dvd x"
  shows "of_int (x div y) + 1 / \<bar>of_int y\<bar> \<le> (of_int x / of_int y :: rat) \<and>
    (of_int x / of_int y :: rat) \<le> of_int (x div y) + 1 - 1 / \<bar>of_int y\<bar>"
proof -
  have eq: "(of_int x / of_int y :: rat) = of_int (x div y) + of_int (x mod y) / of_int y"
    using assms(1) by (simp add: field_simps flip: of_int_mult of_int_add)
  have "x mod y \<noteq> 0"
    using assms(2) by (simp add: dvd_eq_mod_eq_0)
  show ?thesis
  proof (cases "0 < y")
    case True
    have "1 \<le> x mod y" "x mod y + 1 \<le> y"
      using True \<open>x mod y \<noteq> 0\<close> pos_mod_bound [OF True, of x] pos_mod_sign [OF True, of x] by linarith+
    then have "(1 :: rat) \<le> of_int (x mod y)" "(of_int (x mod y) + 1 :: rat) \<le> of_int y"
      by (metis of_int_1_le_iff) (metis \<open>x mod y + 1 \<le> y\<close> of_int_1 of_int_add of_int_le_iff)
    then have "1 / of_int y \<le> (of_int (x mod y) / of_int y :: rat)"
      and "(of_int (x mod y) + 1) / of_int y \<le> (1 :: rat)"
      using True by (simp_all add: divide_right_mono)
    with True show ?thesis
      by (simp_all add: eq add_divide_distrib)
  next
    case False
    with assms(1) have y: "y < 0" by simp
    have "x mod y \<le> - 1" "y \<le> x mod y - 1"
      using y \<open>x mod y \<noteq> 0\<close> neg_mod_bound [OF y, of x] neg_mod_sign [OF y, of x] by linarith+
    then have "(of_int (x mod y) :: rat) \<le> - 1" "(of_int y :: rat) \<le> of_int (x mod y) - 1"
      by (metis of_int_le_iff of_int_minus of_int_1) (metis \<open>y \<le> x mod y - 1\<close> of_int_1 of_int_diff of_int_le_iff)
    then have "- 1 / of_int y \<le> (of_int (x mod y) / of_int y :: rat)"
      and "(of_int (x mod y) - 1) / of_int y \<le> (1 :: rat)"
      using y divide_right_mono_neg [of "of_int (x mod y) :: rat" "- 1" "of_int y"]
      by (simp_all add: divide_le_eq)
    with y show ?thesis
      by (simp_all add: eq diff_divide_distrib)
  qed
qed

lemma js_div_dvd:
  assumes "\<bar>x\<bar> < 2 ^ 53" and "y \<noteq> 0" and "y dvd x"
  shows "js_div x y = of_int (x div y)"
proof -
  from assms(3) obtain k where k: "x = y * k" ..
  with assms(2) have "x div y = k" by simp
  have "1 * \<bar>k\<bar> \<le> \<bar>y\<bar> * \<bar>k\<bar>"
    using assms(2) by (intro mult_right_mono) auto
  then have "\<bar>x div y\<bar> < 2 ^ 53"
    using assms(1) by (simp only: \<open>x div y = k\<close>) (simp add: k abs_mult)
  moreover have "(of_int x / of_int y :: rat) = of_int (x div y)"
    using assms(2,3) by (simp add: of_int_div)
  ultimately show ?thesis
    by (simp only: js_div_def double_round_of_int)
qed

lemma js_div_between:
  assumes "\<bar>x\<bar> < 2 ^ 53" and "y \<noteq> 0" and "\<not> y dvd x"
  shows "of_int (x div y) < js_div x y" and "js_div x y < of_int (x div y) + 1"
proof -
  let ?q = "of_int x / of_int y :: rat"
  have "(\<bar>of_int x\<bar> :: rat) < 2 ^ 53"
    using assms(1) by (metis of_int_abs of_int_less_iff of_int_numeral of_int_power)
  then have "\<bar>?q\<bar> / 2 ^ 53 < 1 / \<bar>of_int y\<bar>"
    using assms(2) by (simp add: field_simps abs_divide)
  with double_round_error [of ?q] have "\<bar>js_div x y - ?q\<bar> < 1 / \<bar>of_int y\<bar>"
    by (simp only: js_div_def)
  with quotient_gap [OF assms(2,3)]
  show "of_int (x div y) < js_div x y" "js_div x y < of_int (x div y) + 1"
    by linarith+
qed

lemma floor_quotient_exact:
  assumes "\<bar>x\<bar> < 2 ^ 53" and "y \<noteq> 0"
  shows "\<lfloor>js_div x y\<rfloor> = x div y"
proof (cases "y dvd x")
  case True
  with assms show ?thesis by (simp add: js_div_dvd)
next
  case False
  with js_div_between [OF assms False] show ?thesis
    by (simp add: floor_eq_iff)
qed

lemma ceil_quotient_exact:
  assumes "\<bar>x\<bar> < 2 ^ 53" and "y \<noteq> 0"
  shows "\<lceil>js_div x y\<rceil> = - ((- x) div y)"
proof (cases "y dvd x")
  case True
  with assms show ?thesis by (simp add: js_div_dvd dvd_neg_div)
next
  case False
  then have "(- x) div y = - (x div y) - 1"
    using assms(2) by (simp add: zdiv_zminus1_eq_if dvd_eq_mod_eq_0)
  moreover have "\<lceil>js_div x y\<rceil> = x div y + 1"
    using js_div_between [OF assms False] by (simp add: ceiling_eq_iff)
  ultimately show ?thesis by simp
qed

end
