(* ===== verification/SmlPrims.thy ===== *)
theory SmlPrims
  imports JsNumbers
begin

text \<open>
  The runtime primitives that code compiled by SMLtoJs calls, \<^verbatim>\<open>src/js/prims.js\<close>: the
  exception values of the initial basis, lists and strings, arrays, overflow-checked integer
  and word arithmetic, the byte images of reals and array buffers, and the search for a working
  request factory. The calendar primitives are in \<open>SmlTime\<close>.

  An SML list is a chain of two-element arrays ended by \<^verbatim>\<open>null\<close> (\<open>cell\<close>); an SML character is
  its code; a thrown SML exception is \<open>Inl (Sml e)\<close>. A double is identified with its 64-bit
  pattern where only its bytes matter.
\<close>

section \<open>Values and exceptions\<close>

datatype sml_exn = Bind | Match | Div | Interrupt | Overflow | Subscript | Size

datatype js_exn = Sml sml_exn | RangeError | Unsupported_Browser

datatype js_val = JUndefined | JNull | JBool bool | JNum int | JStr jsstring | JObj nat

fun truthy :: "js_val \<Rightarrow> bool" where
  "truthy JUndefined = False"
| "truthy JNull = False"
| "truthy (JBool b) = b"
| "truthy (JNum n) = (n \<noteq> 0)"
| "truthy (JStr s) = (s \<noteq> [])"
| "truthy (JObj a) = True"

definition option :: "js_val \<Rightarrow> js_val option" where
  "option e = (if truthy e then Some e else None)"

section \<open>Lists and strings\<close>

datatype 'a cell = Null | Cell 'a "'a cell"

fun explode_loop :: "jsstring \<Rightarrow> nat \<Rightarrow> int cell \<Rightarrow> int cell" where
  "explode_loop s 0 res = res"
| "explode_loop s (Suc i) res = explode_loop s i (Cell (char_code (s ! i)) res)"

definition explode :: "jsstring \<Rightarrow> int cell" where
  "explode s = explode_loop s (length s) Null"

fun implode_loop :: "int cell \<Rightarrow> jsstring list \<Rightarrow> jsstring list" where
  "implode_loop Null a = a"
| "implode_loop (Cell x xs) a = implode_loop xs (a @ [[from_char_code x]])"

definition implode :: "int cell \<Rightarrow> jsstring" where
  "implode xs = js_join [] (implode_loop xs [])"

fun to_array_loop :: "'a cell \<Rightarrow> 'a list \<Rightarrow> 'a list" where
  "to_array_loop Null a = a"
| "to_array_loop (Cell x xs) a = to_array_loop xs (a @ [x])"

definition charsToCharArray :: "int cell \<Rightarrow> int list" where
  "charsToCharArray xs = to_array_loop xs []"

definition listToArray :: "'a cell \<Rightarrow> 'a list" where
  "listToArray xs = to_array_loop xs []"

fun charArraysConcat_loop :: "'a list cell \<Rightarrow> 'a list \<Rightarrow> 'a list" where
  "charArraysConcat_loop Null a = a"
| "charArraysConcat_loop (Cell x xs) a = charArraysConcat_loop xs (a @ x)"

definition charArraysConcat :: "'a list cell \<Rightarrow> 'a list" where
  "charArraysConcat xs = charArraysConcat_loop xs []"

definition concat_strings :: "jsstring cell \<Rightarrow> jsstring" where
  "concat_strings xs = js_join [] (to_array_loop xs [])"

fun cell_length :: "'a cell \<Rightarrow> nat" where
  "cell_length Null = 0"
| "cell_length (Cell x xs) = 1 + cell_length xs"

function arrayMap_loop :: "('a \<Rightarrow> 'b) \<Rightarrow> 'a list \<Rightarrow> nat \<Rightarrow> 'b list \<Rightarrow> 'b list" where
  "arrayMap_loop f a i a2 =
     (if i < length a then arrayMap_loop f a (Suc i) (a2 @ [f (a ! i)]) else a2)"
  by pat_completeness auto
termination
  by (relation "measure (\<lambda>(f, a, i, a2). length a - i)") auto

declare arrayMap_loop.simps [simp del]

definition arrayMap :: "('a \<Rightarrow> 'b) \<Rightarrow> 'a list \<Rightarrow> 'b list" where
  "arrayMap f a = arrayMap_loop f a 0 []"

definition charArrayToString :: "int list \<Rightarrow> jsstring" where
  "charArrayToString a = js_join [] (arrayMap (\<lambda>c. [from_char_code c]) a)"

function wordTableInit_loop :: "nat \<Rightarrow> 'a \<Rightarrow> nat \<Rightarrow> 'a list \<Rightarrow> 'a list" where
  "wordTableInit_loop n x i a =
     (if i < n then wordTableInit_loop n x (Suc i) (a @ [x]) else a)"
  by pat_completeness auto
termination
  by (relation "measure (\<lambda>(n, x, i, a). n - i)") auto

declare wordTableInit_loop.simps [simp del]

text \<open>\<^verbatim>\<open>new Array(n)\<close> throws a \<^verbatim>\<open>RangeError\<close> unless \<open>n\<close> is an array length.\<close>

definition wordTableInit :: "int \<Rightarrow> 'a \<Rightarrow> js_exn + 'a list" where
  "wordTableInit n x =
     (if n < 0 \<or> 2 ^ 32 - 1 < n then Inl RangeError
      else Inr (wordTableInit_loop (nat n) x 0 []))"

section \<open>Integers and words\<close>

definition chk_ovf_i32 :: "int \<Rightarrow> js_exn + int" where
  "chk_ovf_i32 i = (if i < -2147483648 \<or> i > 2147483647 then Inl (Sml Overflow) else Inr i)"

definition chk_ovf_i31 :: "int \<Rightarrow> js_exn + int" where
  "chk_ovf_i31 i = (if i < -1073741824 \<or> i > 1073741823 then Inl (Sml Overflow) else Inr i)"

definition cut_w32 :: "int \<Rightarrow> int" where
  "cut_w32 w = js_and w 0xFFFFFFFF"

definition cut_w31 :: "int \<Rightarrow> int" where
  "cut_w31 w = js_and w 0x7FFFFFFF"

definition mod_i32 :: "int \<Rightarrow> int \<Rightarrow> js_exn \<Rightarrow> js_exn + int" where
  "mod_i32 x y exn =
     (if y = 0 then Inl exn
      else if (x > 0 \<and> y > 0) \<or> (x < 0 \<and> y < 0) \<or> js_rem x y = 0 then Inr (js_rem x y)
      else Inr (js_rem x y + y))"

definition div_i32 :: "int \<Rightarrow> int \<Rightarrow> js_exn \<Rightarrow> js_exn + int" where
  "div_i32 x y exn =
     (if y = 0 then Inl exn
      else if y = -1 \<and> x = -2147483648 then Inl (Sml Overflow)
      else Inr \<lfloor>js_div x y\<rfloor>)"

definition mod_i31 :: "int \<Rightarrow> int \<Rightarrow> js_exn \<Rightarrow> js_exn + int" where
  "mod_i31 x y exn =
     (if y = 0 then Inl exn
      else if (x > 0 \<and> y > 0) \<or> (x < 0 \<and> y < 0) \<or> js_rem x y = 0 then Inr (js_rem x y)
      else Inr (js_rem x y + y))"

definition div_i31 :: "int \<Rightarrow> int \<Rightarrow> js_exn \<Rightarrow> js_exn + int" where
  "div_i31 x y exn =
     (if y = 0 then Inl exn
      else if y = -1 \<and> x = -1073741824 then Inl (Sml Overflow)
      else Inr \<lfloor>js_div x y\<rfloor>)"

definition div_w31 :: "int \<Rightarrow> int \<Rightarrow> js_exn \<Rightarrow> js_exn + int" where
  "div_w31 x y exn = (if y = 0 then Inl exn else Inr \<lfloor>js_div x y\<rfloor>)"

definition div_w32 :: "int \<Rightarrow> int \<Rightarrow> js_exn \<Rightarrow> js_exn + int" where
  "div_w32 x y exn = (if y = 0 then Inl exn else Inr \<lfloor>js_div x y\<rfloor>)"

definition mod_w31 :: "int \<Rightarrow> int \<Rightarrow> js_exn \<Rightarrow> js_exn + int" where
  "mod_w31 x y exn = (if y = 0 then Inl exn else Inr (js_rem x y))"

definition mod_w32 :: "int \<Rightarrow> int \<Rightarrow> js_exn \<Rightarrow> js_exn + int" where
  "mod_w32 x y exn = (if y = 0 then Inl exn else Inr (js_rem x y))"

text \<open>For a zero divisor \<^verbatim>\<open>x / y\<close> is an infinity or not a number, which is no integer: \<open>None\<close>.\<close>

definition quot :: "int \<Rightarrow> int \<Rightarrow> int option" where
  "quot x y =
     (if y = 0 then None
      else if (x < 0 \<and> y \<ge> 0) \<or> (x \<ge> 0 \<and> y < 0) then Some \<lceil>js_div x y\<rceil>
      else Some \<lfloor>js_div x y\<rfloor>)"

definition w32_to_i32_X :: "int \<Rightarrow> int" where
  "w32_to_i32_X x = (if x > 0x7FFFFFFF then - (0xFFFFFFFF - x) - 1 else x)"

definition w31_to_i32_X :: "int \<Rightarrow> int" where
  "w31_to_i32_X x = (if x > 0x3FFFFFFF then - (0x7FFFFFFF - x) - 1 else x)"

definition w31_to_w32_X :: "int \<Rightarrow> int" where
  "w31_to_w32_X x =
     (if x > 0x3FFFFFFF then js_or (js_and x 0x3FFFFFFF) (js_shl 1 31) else x)"

definition i32_to_w32 :: "int \<Rightarrow> int" where
  "i32_to_w32 x = (if x < 0 then 0xFFFFFFFF - (- x) + 1 else x)"

definition i32_to_w31 :: "int \<Rightarrow> int" where
  "i32_to_w31 x =
     (if x < 0 then cut_w31 (0xFFFFFFFF - (- x) + 1) else cut_w31 x)"

section \<open>Reals\<close>

text \<open>
  The hyperbolic functions are stated over the exact reals; \<open>trunc\<close> takes the value of a finite
  double.
\<close>

definition sml_sinh :: "real \<Rightarrow> real" where
  "sml_sinh x = (let tmp = exp x in (tmp - 1 / tmp) / 2)"

definition sml_cosh :: "real \<Rightarrow> real" where
  "sml_cosh x = (let tmp = exp x in (tmp + 1 / tmp) / 2)"

definition sml_tanh :: "real \<Rightarrow> real" where
  "sml_tanh x = (let tmp = exp x in (tmp - 1 / tmp) / (tmp + 1 / tmp))"

definition trunc :: "rat \<Rightarrow> int" where
  "trunc x = (if x \<ge> 0 then \<lfloor>x\<rfloor> else \<lceil>x\<rceil>)"

text \<open>
  The eight bytes of a double, as a \<^verbatim>\<open>Uint8Array\<close> over the buffer of a \<^verbatim>\<open>Float64Array\<close> shows
  them; \<open>le\<close> says whether the platform is little-endian. Storing into a \<^verbatim>\<open>Uint8Array\<close> keeps the
  value modulo 256.
\<close>

definition double_bytes :: "bool \<Rightarrow> 64 word \<Rightarrow> 8 word list" where
  "double_bytes le r =
     (let bs = map (\<lambda>i. ucast (drop_bit (8 * i) r)) [0..<8] in if le then bs else rev bs)"

definition bytes_double :: "bool \<Rightarrow> 8 word list \<Rightarrow> 64 word" where
  "bytes_double le bs =
     (let cs = (if le then bs else rev bs)
      in foldr (\<lambda>b w. ucast b + push_bit 8 w) cs 0)"

definition real_to_bytes :: "bool \<Rightarrow> 64 word \<Rightarrow> jsstring" where
  "real_to_bytes le r =
     js_join [] (arrayMap (\<lambda>b. [from_char_code (uint b)]) (double_bytes le r))"

function store_bytes_loop :: "jsstring \<Rightarrow> nat \<Rightarrow> 8 word list \<Rightarrow> 8 word list" where
  "store_bytes_loop s i arr =
     (if i < 8 \<and> i < length s
      then store_bytes_loop s (Suc i) (arr[i := word_of_int (char_code (s ! i))])
      else arr)"
  by pat_completeness auto
termination
  by (relation "measure (\<lambda>(s, i, arr). 8 - i)") auto

declare store_bytes_loop.simps [simp del]

definition bytes_to_real :: "bool \<Rightarrow> jsstring \<Rightarrow> 64 word" where
  "bytes_to_real le s = bytes_double le (store_bytes_loop s 0 (replicate 8 0))"

section \<open>Array buffers\<close>

function buffer_blocks :: "8 word list \<Rightarrow> nat \<Rightarrow> jsstring list \<Rightarrow> jsstring list" where
  "buffer_blocks arr i ss =
     (if i * 0xffff < length arr
      then buffer_blocks arr (Suc i)
             (ss @ [map (\<lambda>b. from_char_code (uint b))
                      (js_slice arr (int (i * 0xffff)) (int ((i + 1) * 0xffff)))])
      else ss)"
  by pat_completeness auto
termination
  by (relation "measure (\<lambda>(arr, i, ss). length arr - i * 0xffff)") auto

declare buffer_blocks.simps [simp del]

definition arraybufferToString :: "8 word list option \<Rightarrow> jsstring option" where
  "arraybufferToString ab =
     (case ab of None \<Rightarrow> None | Some arr \<Rightarrow> Some (js_join [] (buffer_blocks arr 0 [])))"

function fill_buffer :: "jsstring \<Rightarrow> nat \<Rightarrow> 8 word list \<Rightarrow> 8 word list" where
  "fill_buffer s i barr =
     (if i < length barr
      then fill_buffer s (Suc i) (barr[i := word_of_int (char_code (s ! i))])
      else barr)"
  by pat_completeness auto
termination
  by (relation "measure (\<lambda>(s, i, barr). length barr - i)") auto

declare fill_buffer.simps [simp del]

definition stringToArrayBuffer :: "jsstring \<Rightarrow> 8 word list" where
  "stringToArrayBuffer s = fill_buffer s 0 (replicate (length s) 0)"

section \<open>Request factories\<close>

text \<open>
  A factory is called through \<open>run\<close>: it throws, gives \<^verbatim>\<open>null\<close> (\<open>Inr None\<close>) or a request. The
  state is \<^verbatim>\<open>SmlPrims._factory\<close>: nothing yet, a factory that worked, or the one that always
  throws.
\<close>

datatype 'f factory = Fac 'f | Throwing

definition call_factory :: "('f \<Rightarrow> js_exn + 'r option) \<Rightarrow> 'f factory \<Rightarrow> js_exn + 'r option" where
  "call_factory run f = (case f of Fac g \<Rightarrow> run g | Throwing \<Rightarrow> Inl Unsupported_Browser)"

fun newRequest_loop ::
  "('f \<Rightarrow> js_exn + 'r option) \<Rightarrow> 'f list \<Rightarrow> (js_exn + 'r option) \<times> 'f factory option" where
  "newRequest_loop run [] = (call_factory run Throwing, Some Throwing)"
| "newRequest_loop run (f # fs) =
     (case run f of
        Inl e \<Rightarrow> newRequest_loop run fs
      | Inr None \<Rightarrow> newRequest_loop run fs
      | Inr (Some r) \<Rightarrow> (Inr (Some r), Some (Fac f)))"

definition newRequest ::
  "('f \<Rightarrow> js_exn + 'r option) \<Rightarrow> 'f list \<Rightarrow> 'f factory option \<Rightarrow>
   (js_exn + 'r option) \<times> 'f factory option" where
  "newRequest run facs st =
     (case st of
        Some f \<Rightarrow> (call_factory run f, Some f)
      | None \<Rightarrow> newRequest_loop run facs)"

lemmas [js_eval] = option_def explode_def implode_def charsToCharArray_def listToArray_def
  charArraysConcat_def concat_strings_def charArrayToString_def chk_ovf_i32_def chk_ovf_i31_def
  cut_w32_def cut_w31_def mod_i32_def div_i32_def mod_i31_def div_i31_def div_w31_def div_w32_def
  mod_w31_def mod_w32_def quot_def w32_to_i32_X_def w31_to_i32_X_def w31_to_w32_X_def
  i32_to_w32_def i32_to_w31_def trunc_def newRequest_def call_factory_def

section \<open>Overflow-checked integers\<close>

lemma mod_of_js_rem:
  assumes "y \<noteq> 0"
  shows "x mod y =
    (if (x > 0 \<and> y > 0) \<or> (x < 0 \<and> y < 0) \<or> js_rem x y = 0 then js_rem x y else js_rem x y + y)"
proof -
  consider "x = 0" | "x > 0" "y > 0" | "x < 0" "y < 0" | "x > 0" "y < 0" | "x < 0" "y > 0"
    using assms by linarith
  then show ?thesis
  proof cases
    case 3
    then show ?thesis using mod_minus_minus [of "- x" "- y"] by (simp add: js_rem_def)
  next
    case 4
    then show ?thesis
      using zmod_zminus2_eq_if [of x "- y"] by (auto simp: js_rem_def split: if_splits)
  next
    case 5
    then show ?thesis
      using zmod_zminus1_eq_if [of "- x" y] by (auto simp: js_rem_def split: if_splits)
  qed (auto simp: js_rem_def)
qed

lemma div_pos_between:
  fixes z w :: int
  assumes "0 < w"
  shows "min z 0 \<le> z div w" and "z div w \<le> max z 0"
proof -
  show "min z 0 \<le> z div w"
    using assms zdiv_mono2_neg [of z 1 w] pos_imp_zdiv_nonneg_iff [OF assms, of z] by (auto simp: min_def)
  show "z div w \<le> max z 0"
    using assms zdiv_mono2 [of z 1 w] pos_imp_zdiv_neg_iff [OF assms, of z] by (auto simp: max_def)
qed

lemma div_in_range:
  fixes x y h :: int
  assumes "- h - 1 \<le> x" "x \<le> h" "y \<noteq> 0" "\<not> (y = - 1 \<and> x = - h - 1)"
  shows "- h - 1 \<le> x div y \<and> x div y \<le> h"
proof -
  have "0 \<le> h" using assms by linarith
  consider "0 < y" | "y = - 1" | "2 \<le> - y" using assms(3) by linarith
  then show ?thesis
  proof cases
    case 1
    then show ?thesis using div_pos_between [of y x] assms \<open>0 \<le> h\<close> by linarith
  next
    case 2
    then show ?thesis using assms by auto
  next
    case 3
    have eq: "x div y = (- x) div (- y)" by simp
    have "- x div - y \<le> h"
    proof (cases "0 \<le> - x")
      case True
      then have "- x div - y \<le> - x div 2" using 3 by (intro zdiv_mono2) auto
      moreover have "- x div 2 \<le> h" using assms \<open>0 \<le> h\<close> by linarith
      ultimately show ?thesis by linarith
    next
      case False
      then show ?thesis using div_pos_between(2) [of "- y" "- x"] 3 \<open>0 \<le> h\<close> by linarith
    qed
    then show ?thesis
      unfolding eq using div_pos_between(1) [of "- y" "- x"] 3 assms by linarith
  qed
qed

text \<open>
  The contract of a family of checked integer primitives with largest value \<open>hi\<close>: the check
  lets exactly the representable values through, and division and remainder round towards
  minus infinity, as the Standard ML Basis Library wants of \<^verbatim>\<open>div\<close> and \<^verbatim>\<open>mod\<close>.
\<close>

locale checked_int =
  fixes hi :: int
    and chk :: "int \<Rightarrow> js_exn + int"
    and divp :: "int \<Rightarrow> int \<Rightarrow> js_exn \<Rightarrow> js_exn + int"
    and modp :: "int \<Rightarrow> int \<Rightarrow> js_exn \<Rightarrow> js_exn + int"
  assumes hi: "0 < hi" "hi < 2 ^ 52"
    and chk: "chk i = (if - hi - 1 \<le> i \<and> i \<le> hi then Inr i else Inl (Sml Overflow))"
    and divp: "divp x y e =
      (if y = 0 then Inl e
       else if y = - 1 \<and> x = - hi - 1 then Inl (Sml Overflow) else Inr \<lfloor>js_div x y\<rfloor>)"
    and modp: "modp x y e =
      (if y = 0 then Inl e
       else if (x > 0 \<and> y > 0) \<or> (x < 0 \<and> y < 0) \<or> js_rem x y = 0 then Inr (js_rem x y)
       else Inr (js_rem x y + y))"
begin

definition repr :: "int \<Rightarrow> bool" where
  "repr x \<longleftrightarrow> - hi - 1 \<le> x \<and> x \<le> hi"

lemma divp_floor:
  assumes "repr x"
  shows "divp x y e = (if y = 0 then Inl e else chk (x div y))"
proof -
  have "\<bar>x\<bar> < 2 ^ 53" using assms hi by (auto simp: repr_def)
  then have "y \<noteq> 0 \<Longrightarrow> \<lfloor>js_div x y\<rfloor> = x div y" by (rule floor_quotient_exact)
  then show ?thesis
    using assms hi div_in_range [of hi x y] by (auto simp: divp chk repr_def)
qed

lemma modp_floor: "modp x y e = (if y = 0 then Inl e else Inr (x mod y))"
  using mod_of_js_rem [of y x] by (simp add: modp)

lemma div_mod_identity:
  assumes "repr x" and "divp x y e = Inr q" and "modp x y e = Inr r"
  shows "x = q * y + r \<and> repr q \<and> (0 < y \<longrightarrow> 0 \<le> r \<and> r < y) \<and> (y < 0 \<longrightarrow> y < r \<and> r \<le> 0)"
  using assms
  by (auto simp: divp_floor modp_floor chk repr_def split: if_splits)

end

interpretation i32: checked_int 2147483647 chk_ovf_i32 div_i32 mod_i32
  by unfold_locales (auto simp: chk_ovf_i32_def div_i32_def mod_i32_def)

interpretation i31: checked_int 1073741823 chk_ovf_i31 div_i31 mod_i31
  by unfold_locales (auto simp: chk_ovf_i31_def div_i31_def mod_i31_def)

text \<open>C2: On 32-bit operands \<^verbatim>\<open>div_i32\<close> and \<^verbatim>\<open>mod_i32\<close> are the flooring division of Standard ML, in
  spite of the rounded floating-point quotient: division by zero raises the exception passed
  in, the one quotient out of range raises Overflow, and otherwise quotient and remainder
  satisfy \<open>x = q * y + r\<close> with the remainder between zero and the divisor.\<close>

theorem div_mod_i32_correct:
  assumes "-2147483648 \<le> x" "x \<le> 2147483647"
  shows "div_i32 x y e = (if y = 0 then Inl e else chk_ovf_i32 (x div y)) \<and>
    mod_i32 x y e = (if y = 0 then Inl e else Inr (x mod y)) \<and>
    (\<forall>q r. div_i32 x y e = Inr q \<and> mod_i32 x y e = Inr r \<longrightarrow>
      x = q * y + r \<and> (0 < y \<longrightarrow> 0 \<le> r \<and> r < y) \<and> (y < 0 \<longrightarrow> y < r \<and> r \<le> 0))"
proof -
  have x: "i32.repr x" using assms by (simp add: i32.repr_def)
  from i32.div_mod_identity [OF x] i32.divp_floor [OF x] i32.modp_floor show ?thesis by blast
qed

theorem div_mod_i32_correct_witness:
  "div_i32 (-7) 2 (Sml Div) = Inr (-4) \<and> mod_i32 (-7) 2 (Sml Div) = Inr 1 \<and> (-7 :: int) = -4 * 2 + 1"
  using div_mod_i32_correct [of "-7" 2 "Sml Div"]
  by (simp add: chk_ovf_i32_def)

text \<open>The same for the 31-bit integers: flooring quotient and remainder, the divisor zero and
  the single overflowing quotient being the only exceptions.\<close>

theorem div_mod_i31_correct:
  assumes "-1073741824 \<le> x" "x \<le> 1073741823"
  shows "div_i31 x y e =
      (if y = 0 then Inl e
       else if x = -1073741824 \<and> y = -1 then Inl (Sml Overflow) else Inr (x div y)) \<and>
    mod_i31 x y e = (if y = 0 then Inl e else Inr (x mod y))"
proof -
  have "y \<noteq> 0 \<Longrightarrow> \<not> (x = -1073741824 \<and> y = -1) \<Longrightarrow> chk_ovf_i31 (x div y) = Inr (x div y)"
    using div_in_range [of 1073741823 x y] assms by (auto simp: chk_ovf_i31_def)
  moreover have "chk_ovf_i31 (-1073741824 div -1) = Inl (Sml Overflow)"
    by (simp add: chk_ovf_i31_def)
  ultimately show ?thesis
    using assms i31.divp_floor [of x y e] i31.modp_floor [of x y e] by (auto simp: i31.repr_def)
qed

theorem div_mod_i31_correct_witness:
  "div_i31 (-1073741824) (-1) (Sml Div) = Inl (Sml Overflow) \<and>
   div_i31 9 (-2) (Sml Div) = Inr (-5) \<and> mod_i31 9 (-2) (Sml Div) = Inr (-1)"
  using div_mod_i31_correct [of "-1073741824" "-1" "Sml Div"]
    div_mod_i31_correct [of 9 "-2" "Sml Div"] by simp

text \<open>\<^verbatim>\<open>quot\<close> truncates towards zero, and together with the remainder operator of the
  language (which compiled code uses for \<^verbatim>\<open>rem\<close>) it satisfies the division identity.\<close>

theorem quot_truncates:
  assumes "\<bar>x\<bar> < 2 ^ 53" "y \<noteq> 0"
  shows "quot x y = Some (sgn x * sgn y * (\<bar>x\<bar> div \<bar>y\<bar>)) \<and>
    x = the (quot x y) * y + js_rem x y"
proof -
  have "quot x y = Some (sgn x * sgn y * (\<bar>x\<bar> div \<bar>y\<bar>))"
  proof (cases "x = 0")
    case True
    then show ?thesis
      using assms floor_quotient_exact [of 0 y] ceil_quotient_exact [of 0 y] by (simp add: quot_def)
  next
    case False
    consider "x > 0" "y > 0" | "x < 0" "y < 0" | "x > 0" "y < 0" | "x < 0" "y > 0"
      using assms False by linarith
    then show ?thesis
      by cases (use assms floor_quotient_exact [of x y] ceil_quotient_exact [of x y]
        div_minus_right [of x y] in \<open>auto simp: quot_def\<close>)
  qed
  with js_rem_mult_quot [of x y] show ?thesis by (simp add: algebra_simps)
qed

theorem quot_truncates_witness: "quot (-7) 2 = Some (-3) \<and> (-7 :: int) = -3 * 2 + js_rem (-7) 2"
  using quot_truncates [of "-7" 2] by (simp add: js_rem_def)

section \<open>Words\<close>

lemma sint_word_of_int_32:
  "0 \<le> x \<Longrightarrow> x < 2 ^ 32 \<Longrightarrow>
    sint (word_of_int x :: 32 word) = (if x < 2 ^ 31 then x else x - 2 ^ 32)"
proof -
  assume "0 \<le> x" "x < 2 ^ 32"
  moreover have "(x + 2 ^ 31) mod 2 ^ 32 = (if x < 2 ^ 31 then x + 2 ^ 31 else x - 2 ^ 31)"
    using \<open>0 \<le> x\<close> \<open>x < 2 ^ 32\<close> mod_pos_geq [of "2 ^ 32" "x + 2 ^ 31"] by simp
  ultimately show ?thesis by (simp add: int_word_sint)
qed

lemma sint_word_of_int_small:
  "0 \<le> x \<Longrightarrow> x < 2 ^ 31 \<Longrightarrow> sint (word_of_int x :: 32 word) = x"
  by (simp add: sint_word_of_int_32)

lemma uint_word_of_int_32: "uint (word_of_int x :: 32 word) = x mod 2 ^ 32"
  by (simp add: uint_word_of_int)

lemma js_and_mask:
  assumes "n < 32"
  shows "js_and x (2 ^ n - 1) = x mod 2 ^ n"
proof -
  have "(word_of_int x AND word_of_int (mask n) :: 32 word) = word_of_int (take_bit n x)"
    by (rule bit_word_eqI) (auto simp: bit_simps)
  then have "(word_of_int x AND word_of_int (2 ^ n - 1) :: 32 word) = word_of_int (take_bit n x)"
    by (simp only: mask_eq_exp_minus_1)
  moreover have "take_bit n x < 2 ^ n" "(2 :: int) ^ n \<le> 2 ^ 31"
    using assms by (auto intro: power_increasing simp del: power_numeral)
  then have "sint (word_of_int (take_bit n x) :: 32 word) = take_bit n x"
    by (intro sint_word_of_int_small) (simp, linarith)
  ultimately show ?thesis
    by (simp only: js_and_def take_bit_eq_mod)
qed

lemma cut_w31_mod: "cut_w31 w = w mod 2 ^ 31"
  using js_and_mask [of 31 w] by (simp add: cut_w31_def)

lemma cut_w32_signed: "cut_w32 w = sint (word_of_int w :: 32 word)"
proof -
  have "(word_of_int 0xFFFFFFFF :: 32 word) = - 1" by simp
  then show ?thesis unfolding cut_w32_def js_and_def by (simp only: and.right_neutral)
qed

lemma js_or_sign_bit:
  assumes "0 \<le> y" "y < 2 ^ 30"
  shows "js_or y (js_shl 1 31) = y - 2 ^ 31"
proof -
  let ?y = "word_of_int y :: 32 word" and ?b = "push_bit 31 1 :: 32 word"
  have "?y = word_of_int (take_bit 30 y)"
    using assms by (simp add: take_bit_int_eq_self)
  then have "bit ?y n \<Longrightarrow> n < 30" for n
    by (simp add: bit_simps)
  moreover have "bit ?b n \<Longrightarrow> 31 \<le> n" for n
    by (simp only: bit_push_bit_iff)
  ultimately have "?y AND ?b = 0"
    by (intro bit_word_eqI) (fastforce simp only: bit_and_iff bit_0_eq)
  then have "?y OR ?b = ?y + ?b"
    using word_plus_and_or [of ?y ?b] by simp
  moreover have "nat (31 mod 32) = 31" by simp
  then have "js_or y (js_shl 1 31) = sint (?y OR ?b)"
    by (simp only: js_or_def js_shl_def of_int_sint of_int_1 scast_id)
  ultimately have "js_or y (js_shl 1 31) = sint (word_of_int (y + 2 ^ 31) :: 32 word)"
    by simp
  then show ?thesis
    using assms sint_word_of_int_32 [of "y + 2 ^ 31"] by simp
qed

text \<open>C34: The conversions between integers and unsigned words are those of two's complement: the
  unsigned image of a 32-bit integer, its signed reading back, the 31-bit image, and the signed
  reading of a 31-bit word, and converting to a word and back is the identity.\<close>

theorem word_conversions:
  assumes "-2147483648 \<le> i" "i \<le> 2147483647" "0 \<le> w" "w < 2 ^ 32" "0 \<le> v" "v < 2 ^ 31"
  shows "i32_to_w32 i = uint (word_of_int i :: 32 word) \<and>
    w32_to_i32_X w = sint (word_of_int w :: 32 word) \<and>
    w32_to_i32_X (i32_to_w32 i) = i \<and> i32_to_w32 (w32_to_i32_X w) = w \<and>
    i32_to_w31 i = i mod 2 ^ 31 \<and>
    w31_to_i32_X v = (if v < 2 ^ 30 then v else v - 2 ^ 31)"
proof -
  have "i mod 2 ^ 32 = (if i < 0 then i + 2 ^ 32 else i)"
    using assms mod_pos_neg_trivial [of "- i" "2 ^ 32"] zmod_zminus1_eq_if [of "- i" "2 ^ 32"]
    by (auto simp: mod_pos_pos_trivial)
  then have "i32_to_w32 i = uint (word_of_int i :: 32 word)"
    unfolding uint_word_of_int_32 by (simp add: i32_to_w32_def)
  moreover have "w32_to_i32_X w = sint (word_of_int w :: 32 word)"
    using assms by (simp add: sint_word_of_int_32 w32_to_i32_X_def)
  moreover have "i32_to_w31 i = i mod 2 ^ 31"
  proof -
    have "(i + 2 * 2 ^ 31) mod 2 ^ 31 = i mod 2 ^ 31" by (rule mod_mult_self1)
    then show ?thesis by (simp add: i32_to_w31_def cut_w31_mod add.commute)
  qed
  moreover have "w32_to_i32_X (i32_to_w32 i) = i" "i32_to_w32 (w32_to_i32_X w) = w"
    and "w31_to_i32_X v = (if v < 2 ^ 30 then v else v - 2 ^ 31)"
    using assms by (simp_all add: i32_to_w32_def w32_to_i32_X_def w31_to_i32_X_def)
  ultimately show ?thesis by blast
qed

theorem word_conversions_witness:
  "i32_to_w32 (-1) = 4294967295 \<and> w32_to_i32_X 4294967295 = -1 \<and> i32_to_w31 (-1) = 2147483647 \<and>
   w31_to_i32_X 2147483647 = -1"
  using word_conversions [of "-1" 4294967295 2147483647]
  by (simp add: unsigned_minus_1_eq_mask mask_eq_exp_minus_1)

text \<open>C35: \<^verbatim>\<open>w31_to_w32_X\<close> is not the sign extension of a 31-bit word: it clears bit 30 of a negative
  word, so its result is \<open>2 ^ 30\<close> too small on every word whose sign bit is set, while it is
  right on every other word.\<close>

theorem w31_to_w32_X_drops_bit30:
  assumes "0 \<le> x" "x < 2 ^ 31"
  shows "w31_to_w32_X x = (if x < 2 ^ 30 then w31_to_i32_X x else w31_to_i32_X x - 2 ^ 30)"
proof (cases "x < 2 ^ 30")
  case True
  then show ?thesis by (simp add: w31_to_w32_X_def w31_to_i32_X_def)
next
  case False
  have "js_and x 0x3FFFFFFF = x mod 2 ^ 30"
    using js_and_mask [of 30 x] by simp
  also have "\<dots> = x - 2 ^ 30"
    by (subst mod_pos_geq) (use assms False in \<open>auto simp del: minus_mod_self2\<close>)
  finally show ?thesis
    using assms False js_or_sign_bit [of "x - 2 ^ 30"]
    by (simp add: w31_to_w32_X_def w31_to_i32_X_def)
qed

theorem w31_to_w32_X_drops_bit30_witness:
  "w31_to_w32_X 2147483647 = -1073741825 \<and> w31_to_i32_X 2147483647 = -1"
  using w31_to_w32_X_drops_bit30 [of 2147483647] by (simp add: w31_to_i32_X_def)

text \<open>The wrap-around of 32-bit words gives the signed reading of the word, while the conversion
  from integers gives the unsigned one: on a negative integer the two primitives represent the
  same word by different numbers, which compiled code then compares with \<^verbatim>\<open>==\<close> and \<^verbatim>\<open><\<close>.\<close>

theorem cut_w32_other_representation:
  assumes "-2147483648 \<le> i" "i < 0"
  shows "cut_w32 (i32_to_w32 i) = i \<and> i32_to_w32 i = i + 2 ^ 32 \<and>
    (word_of_int (cut_w32 (i32_to_w32 i)) :: 32 word) = word_of_int (i32_to_w32 i)"
proof -
  have w: "i32_to_w32 i = i + 2 ^ 32" using assms by (simp add: i32_to_w32_def)
  then have "cut_w32 (i32_to_w32 i) = i"
    using assms sint_word_of_int_32 [of "i + 2 ^ 32"] by (simp only: cut_w32_signed) simp
  with w show ?thesis by simp
qed

theorem cut_w32_other_representation_witness: "cut_w32 (i32_to_w32 (-1)) = -1 \<and> i32_to_w32 (-1) = 4294967295"
  using cut_w32_other_representation [of "-1"] by auto

section \<open>Types of the numbers\<close>

text \<open>
  Compiled code has the same JavaScript numbers for four types; the values of a type are the numbers that may
  stand for it.
\<close>

datatype num_type = Int31 | Int32 | Word31 | Word32

fun num_values :: "num_type \<Rightarrow> int set" where
  "num_values Int31 = {-1073741824..1073741823}"
| "num_values Int32 = {-2147483648..2147483647}"
| "num_values Word31 = {0..<2 ^ 31}"
| "num_values Word32 = {0..<2 ^ 32}"

text \<open>A primitive gives a value of the type, or raises one of the exceptions.\<close>

definition gives :: "js_exn + int \<Rightarrow> num_type \<Rightarrow> js_exn set \<Rightarrow> bool" where
  "gives r t es \<longleftrightarrow> (case r of Inl e \<Rightarrow> e \<in> es | Inr v \<Rightarrow> v \<in> num_values t)"

lemma word_quotient:
  assumes "0 \<le> x" "x < 2 ^ 32" "0 < y"
  shows "0 \<le> \<lfloor>js_div x y\<rfloor> \<and> \<lfloor>js_div x y\<rfloor> \<le> x"
proof -
  have "\<lfloor>js_div x y\<rfloor> = x div y" by (rule floor_quotient_exact) (use assms in auto)
  moreover have "0 \<le> x div y" using assms pos_imp_zdiv_nonneg_iff by simp
  moreover have "x div y \<le> x" using zdiv_mono2 [of x 1 y] assms by simp
  ultimately show ?thesis by simp
qed

lemma word_remainder: "0 \<le> x \<Longrightarrow> 0 < y \<Longrightarrow> 0 \<le> js_rem x y \<and> js_rem x y < y"
  by (simp add: js_rem_pos)

lemma mod_between: "y \<noteq> 0 \<Longrightarrow> lo \<le> y \<Longrightarrow> y \<le> hi \<Longrightarrow> lo \<le> 0 \<Longrightarrow> 0 \<le> hi \<Longrightarrow> lo \<le> x mod y \<and> x mod y \<le> hi" for x y :: int
  using pos_mod_bound [of y x] pos_mod_sign [of y x] neg_mod_bound [of y x] neg_mod_sign [of y x] by linarith

lemma checked_well_typed:
  "x \<in> num_values Int32 \<Longrightarrow> y \<in> num_values Int32 \<Longrightarrow>
     gives (div_i32 x y e) Int32 {e, Sml Overflow} \<and> gives (mod_i32 x y e) Int32 {e}"
  "x \<in> num_values Int31 \<Longrightarrow> y \<in> num_values Int31 \<Longrightarrow>
     gives (div_i31 x y e) Int31 {e, Sml Overflow} \<and> gives (mod_i31 x y e) Int31 {e}"
  using i32.divp_floor [of x y e] i32.modp_floor [of x y e] i31.divp_floor [of x y e] i31.modp_floor [of x y e]
    mod_between [of y "-2147483648" 2147483647 x] mod_between [of y "-1073741824" 1073741823 x]
  by (auto simp: gives_def i32.repr_def i31.repr_def chk_ovf_i32_def chk_ovf_i31_def)

lemma words_well_typed:
  "x \<in> num_values Word32 \<Longrightarrow> y \<in> num_values Word32 \<Longrightarrow>
     gives (div_w32 x y e) Word32 {e} \<and> gives (mod_w32 x y e) Word32 {e}"
  "x \<in> num_values Word31 \<Longrightarrow> y \<in> num_values Word31 \<Longrightarrow>
     gives (div_w31 x y e) Word31 {e} \<and> gives (mod_w31 x y e) Word31 {e}"
  using word_quotient [of x y] word_remainder [of x y]
  by (auto simp: gives_def div_w32_def mod_w32_def div_w31_def mod_w31_def simp del: floor_less_numeral zero_le_floor)

text \<open>C33: The arithmetic primitives are well typed: checked integer division and remainder, word division and remainder, the
  overflow checks, the wrap-around of 31-bit words and the conversions between integers and words return,
  for operands of their types, a number of their result type, and raise nothing but Overflow and the
  exception passed for a zero divisor, which the conversions and the word wrap-around never raise.\<close>

theorem arithmetic_well_typed:
  "(\<forall>x \<in> num_values Int32. \<forall>y \<in> num_values Int32. gives (div_i32 x y e) Int32 {e, Sml Overflow} \<and> gives (mod_i32 x y e) Int32 {e}) \<and>
   (\<forall>x \<in> num_values Int31. \<forall>y \<in> num_values Int31. gives (div_i31 x y e) Int31 {e, Sml Overflow} \<and> gives (mod_i31 x y e) Int31 {e}) \<and>
   (\<forall>x \<in> num_values Word32. \<forall>y \<in> num_values Word32. gives (div_w32 x y e) Word32 {e} \<and> gives (mod_w32 x y e) Word32 {e}) \<and>
   (\<forall>x \<in> num_values Word31. \<forall>y \<in> num_values Word31. gives (div_w31 x y e) Word31 {e} \<and> gives (mod_w31 x y e) Word31 {e}) \<and>
   (\<forall>x. gives (chk_ovf_i32 x) Int32 {Sml Overflow} \<and> gives (chk_ovf_i31 x) Int31 {Sml Overflow} \<and> cut_w31 x \<in> num_values Word31) \<and>
   (\<forall>x \<in> num_values Int32. i32_to_w32 x \<in> num_values Word32 \<and> i32_to_w31 x \<in> num_values Word31) \<and>
   (\<forall>x \<in> num_values Word32. w32_to_i32_X x \<in> num_values Int32) \<and>
   (\<forall>x \<in> num_values Word31. w31_to_i32_X x \<in> num_values Int31)"
proof (intro conjI)
  show "\<forall>x. gives (chk_ovf_i32 x) Int32 {Sml Overflow} \<and> gives (chk_ovf_i31 x) Int31 {Sml Overflow} \<and> cut_w31 x \<in> num_values Word31"
    by (simp add: gives_def chk_ovf_i32_def chk_ovf_i31_def cut_w31_mod)
  show "\<forall>x \<in> num_values Int32. i32_to_w32 x \<in> num_values Word32 \<and> i32_to_w31 x \<in> num_values Word31"
    by (auto simp: i32_to_w32_def i32_to_w31_def cut_w31_mod)
  show "\<forall>x \<in> num_values Word32. w32_to_i32_X x \<in> num_values Int32" "\<forall>x \<in> num_values Word31. w31_to_i32_X x \<in> num_values Int31"
    by (auto simp: w32_to_i32_X_def w31_to_i32_X_def)
qed (use checked_well_typed words_well_typed in blast)+

theorem arithmetic_well_typed_witness:
  "gives (div_i32 (-2147483648) (-1) (Sml Div)) Int32 {Sml Div, Sml Overflow} \<and> i32_to_w32 (-2147483648) \<in> num_values Word32"
  using arithmetic_well_typed [of "Sml Div"] by simp

section \<open>Lists and strings\<close>

fun list_of_cell :: "'a cell \<Rightarrow> 'a list" where
  "list_of_cell Null = []"
| "list_of_cell (Cell x xs) = x # list_of_cell xs"

lemma list_of_cell_inject: "list_of_cell xs = list_of_cell ys \<Longrightarrow> xs = ys"
proof (induction xs arbitrary: ys)
  case Null
  then show ?case by (cases ys) auto
next
  case (Cell x xs)
  then show ?case by (cases ys) auto
qed

lemma explode_loop_list:
  "i \<le> length s \<Longrightarrow>
    list_of_cell (explode_loop s i res) = map char_code (take i s) @ list_of_cell res"
  by (induction i arbitrary: res) (auto simp: take_Suc_conv_app_nth)

lemma explode_list: "list_of_cell (explode s) = map char_code s"
  by (simp add: explode_def explode_loop_list)

lemma implode_loop_list:
  "implode_loop xs a = a @ map (\<lambda>x. [from_char_code x]) (list_of_cell xs)"
  by (induction xs arbitrary: a) auto

lemma implode_list: "implode xs = map from_char_code (list_of_cell xs)"
  by (simp add: implode_def implode_loop_list concat_map_singleton)

lemma to_array_loop_list: "to_array_loop xs a = a @ list_of_cell xs"
  by (induction xs arbitrary: a) auto

lemma charArraysConcat_loop_list: "charArraysConcat_loop xs a = a @ concat (list_of_cell xs)"
  by (induction xs arbitrary: a) auto

lemma cell_length_list: "cell_length xs = length (list_of_cell xs)"
  by (induction xs) auto

lemma arrayMap_loop_map: "i \<le> length a \<Longrightarrow> arrayMap_loop f a i a2 = a2 @ map f (drop i a)"
proof (induction f a i a2 rule: arrayMap_loop.induct)
  case (1 f a i a2)
  then show ?case
    by (subst arrayMap_loop.simps) (auto simp: Cons_nth_drop_Suc [symmetric])
qed

lemma arrayMap_map: "arrayMap f a = map f a"
  by (simp add: arrayMap_def arrayMap_loop_map)

lemma wordTableInit_loop_replicate: "wordTableInit_loop n x i a = a @ replicate (n - i) x"
proof (induction n x i a rule: wordTableInit_loop.induct)
  case (1 n x i a)
  then show ?case
    by (subst wordTableInit_loop.simps) (auto simp: Suc_diff_Suc [symmetric])
qed

text \<open>Strings and their lists of character codes correspond one to one: imploding an exploded
  string gives the string, and exploding an imploded list of code units gives the list.\<close>

theorem implode_explode_roundtrip:
  "implode (explode s) = s \<and>
   ((\<forall>c \<in> set (list_of_cell xs). 0 \<le> c \<and> c < 65536) \<longrightarrow> explode (implode xs) = xs)"
proof
  show "implode (explode s) = s"
    by (simp add: implode_list explode_list comp_def)
  show "(\<forall>c \<in> set (list_of_cell xs). 0 \<le> c \<and> c < 65536) \<longrightarrow> explode (implode xs) = xs"
  proof
    assume "\<forall>c \<in> set (list_of_cell xs). 0 \<le> c \<and> c < 65536"
    then have "map (\<lambda>c. c mod 65536) (list_of_cell xs) = list_of_cell xs"
      by (intro map_idI) auto
    then show "explode (implode xs) = xs"
      by (intro list_of_cell_inject)
        (simp add: explode_list implode_list comp_def char_code_from_char_code)
  qed
qed

theorem implode_explode_roundtrip_witness:
  "implode (explode [104, 105]) = [104, 105] \<and> explode (implode (Cell 104 (Cell 105 Null))) = Cell 104 (Cell 105 Null)"
  using implode_explode_roundtrip [of "[104, 105]" "Cell 104 (Cell 105 Null)"] by simp

text \<open>The list and array primitives compute what their names say: the array of a list, the
  concatenation of character arrays and of strings, the length of a list, the image of an array,
  the string of a character array, and a table of copies or a range error.\<close>

theorem list_array_primitives:
  "listToArray xs = list_of_cell xs \<and> charsToCharArray cs = list_of_cell cs \<and>
   charArraysConcat xss = concat (list_of_cell xss) \<and>
   concat_strings ss = concat (list_of_cell ss) \<and>
   cell_length xs = length (listToArray xs) \<and>
   arrayMap f a = map f a \<and> charArrayToString codes = map from_char_code codes \<and>
   wordTableInit n v =
     (if 0 \<le> n \<and> n < 2 ^ 32 then Inr (replicate (nat n) v) else Inl RangeError)"
  by (simp add: listToArray_def charsToCharArray_def to_array_loop_list charArraysConcat_def
      charArraysConcat_loop_list concat_strings_def cell_length_list arrayMap_map
      charArrayToString_def concat_map_singleton wordTableInit_def wordTableInit_loop_replicate)

section \<open>Byte images\<close>

lemma fill_buffer_eq:
  "length barr = length s \<Longrightarrow> i \<le> length s \<Longrightarrow>
    fill_buffer s i barr = take i barr @ map (\<lambda>c. word_of_int (char_code c)) (drop i s)"
proof (induction s i barr rule: fill_buffer.induct)
  case (1 s i barr)
  show ?case
  proof (cases "i < length barr")
    case True
    with 1 have "fill_buffer s (Suc i) (barr[i := word_of_int (char_code (s ! i))]) =
      take (Suc i) (barr[i := word_of_int (char_code (s ! i))]) @
        map (\<lambda>c. word_of_int (char_code c)) (drop (Suc i) s)"
      by simp
    with True 1(2) show ?thesis
      by (subst fill_buffer.simps) (simp add: take_Suc_conv_app_nth Cons_nth_drop_Suc [symmetric])
  next
    case False
    with 1 show ?thesis by (subst fill_buffer.simps) simp
  qed
qed

lemma stringToArrayBuffer_map: "stringToArrayBuffer s = map (\<lambda>c. word_of_int (char_code c)) s"
  by (simp add: stringToArrayBuffer_def fill_buffer_eq)

lemma buffer_blocks_concat:
  "concat (buffer_blocks arr i ss) =
     concat ss @ map (\<lambda>b. from_char_code (uint b)) (drop (i * 0xffff) arr)"
proof (induction arr i ss rule: buffer_blocks.induct)
  case (1 arr i ss)
  let ?blk = "js_slice arr (int (i * 0xffff)) (int ((i + 1) * 0xffff))"
  show ?case
  proof (cases "i * 0xffff < length arr")
    case True
    have "?blk = take 0xffff (drop (i * 0xffff) arr)"
      by (subst js_slice_nonneg) (simp_all add: nat_mult_distrib nat_add_distrib)
    moreover have "drop ((i + 1) * 0xffff) arr = drop 0xffff (drop (i * 0xffff) arr)"
      by (simp add: add.commute)
    ultimately have "?blk @ drop ((i + 1) * 0xffff) arr = drop (i * 0xffff) arr"
      by (simp only: append_take_drop_id)
    then have "map f (drop (i * 0xffff) arr) = map f ?blk @ map f (drop (Suc i * 0xffff) arr)" for f :: "8 word \<Rightarrow> jchar"
      by (metis Suc_eq_plus1 map_append)
    with True 1 show ?thesis
      by (subst buffer_blocks.simps) simp
  next
    case False
    then show ?thesis by (subst buffer_blocks.simps) simp
  qed
qed

lemma arraybufferToString_map:
  "arraybufferToString (Some arr) = Some (map (\<lambda>b. from_char_code (uint b)) arr)"
  by (simp add: arraybufferToString_def buffer_blocks_concat)

lemma byte_char_byte: "(word_of_int (char_code (from_char_code (uint b))) :: 8 word) = b"
proof -
  have "uint b < 256" using uint_lt2p [of b] by simp
  then have "uint b mod 65536 = uint b" by simp
  then show ?thesis by (simp only: char_code_from_char_code) simp
qed

lemma char_byte_char: "char_code c < 256 \<Longrightarrow> from_char_code (uint (word_of_int (char_code c) :: 8 word)) = c"
proof -
  assume "char_code c < 256"
  then have "uint (word_of_int (char_code c) :: 8 word) = char_code c"
    by (simp add: uint_word_of_int)
  then show ?thesis by simp
qed

text \<open>A byte buffer survives the trip through a string, however many blocks of 65535 bytes it
  takes, and a string of characters below 256 survives the trip through a buffer.\<close>

theorem array_buffer_roundtrip:
  "map_option stringToArrayBuffer (arraybufferToString (Some arr)) = Some arr \<and>
   ((\<forall>c \<in> set s. char_code c < 256) \<longrightarrow>
     arraybufferToString (Some (stringToArrayBuffer s)) = Some s) \<and>
   arraybufferToString None = None"
proof (intro conjI impI)
  show "map_option stringToArrayBuffer (arraybufferToString (Some arr)) = Some arr"
    by (simp add: arraybufferToString_map stringToArrayBuffer_map comp_def byte_char_byte)
next
  assume "\<forall>c \<in> set s. char_code c < 256"
  then show "arraybufferToString (Some (stringToArrayBuffer s)) = Some s"
    by (simp add: arraybufferToString_map stringToArrayBuffer_map char_byte_char map_idI)
qed (simp add: arraybufferToString_def)

theorem array_buffer_roundtrip_witness:
  "arraybufferToString (Some (stringToArrayBuffer [104, 105])) = Some [104, 105]"
  using array_buffer_roundtrip [of "[1]" "[104, 105]"] by (simp add: char_code_def)

lemma store_bytes_loop_nth:
  "length arr = 8 \<Longrightarrow>
    length (store_bytes_loop s i arr) = 8 \<and>
    (\<forall>k < 8. store_bytes_loop s i arr ! k =
      (if i \<le> k \<and> k < length s then word_of_int (char_code (s ! k)) else arr ! k))"
proof (induction s i arr rule: store_bytes_loop.induct)
  case (1 s i arr)
  show ?case
  proof (cases "i < 8 \<and> i < length s")
    case True
    with 1 have "length (store_bytes_loop s (Suc i) (arr[i := word_of_int (char_code (s ! i))])) = 8 \<and>
      (\<forall>k < 8. store_bytes_loop s (Suc i) (arr[i := word_of_int (char_code (s ! i))]) ! k =
        (if Suc i \<le> k \<and> k < length s then word_of_int (char_code (s ! k))
         else (arr[i := word_of_int (char_code (s ! i))]) ! k))"
      by simp
    with True 1(2) show ?thesis
      by (subst store_bytes_loop.simps, subst store_bytes_loop.simps) (auto simp: nth_list_update)
  next
    case False
    with 1(2) show ?thesis
      by (subst store_bytes_loop.simps, subst store_bytes_loop.simps) auto
  qed
qed

lemma store_all_bytes:
  assumes "length s = 8" "length arr = 8"
  shows "store_bytes_loop s 0 arr = map (\<lambda>c. word_of_int (char_code c)) s"
  using assms store_bytes_loop_nth [of arr s 0] by (auto intro: nth_equalityI)

lemma byte_recombine:
  "take_bit 8 x + push_bit 8 (take_bit m (drop_bit 8 x)) = take_bit (8 + m) (x :: 64 word)"
  using bits_ident [of 8 "take_bit (8 + m) x"]
  by (simp add: drop_bit_take_bit add.commute)

lemma foldr_bytes:
  "k \<le> n \<Longrightarrow>
    foldr (\<lambda>(b :: 8 word) w. ucast b + push_bit 8 w) (map (\<lambda>i. ucast (drop_bit (8 * i) r)) [k..<n]) 0 =
    take_bit (8 * (n - k)) (drop_bit (8 * k) (r :: 64 word))"
proof (induction "n - k" arbitrary: k)
  case (Suc d)
  then have k: "k < n" "d = n - Suc k" by auto
  have cast: "(ucast (ucast x :: 8 word) :: 64 word) = take_bit 8 x" for x :: "64 word"
    by (rule bit_word_eqI) (auto simp: bit_simps)
  have "drop_bit (8 * Suc k) r = drop_bit 8 (drop_bit (8 * k) r)"
    by (simp add: drop_bit_drop_bit add.commute)
  moreover have "8 * (n - k) = 8 + 8 * (n - Suc k)" using k by simp
  ultimately show ?case
    using k Suc(1) [of "Suc k"] byte_recombine [of "drop_bit (8 * k) r" "8 * (n - Suc k)"]
    by (simp add: upt_conv_Cons cast)
qed simp

lemma bytes_double_bytes: "bytes_double le (double_bytes le r) = r"
proof -
  have "foldr (\<lambda>(b :: 8 word) w. ucast b + push_bit 8 w) (map (\<lambda>i. ucast (drop_bit (8 * i) r)) [0..<8]) 0 = r"
    using foldr_bytes [of 0 8 r] by (simp add: take_bit_word_eq_self del: upt_rec_numeral)
  then show ?thesis
    by (simp add: bytes_double_def double_bytes_def Let_def rev_rev_ident del: upt_rec_numeral)
qed

text \<open>The eight-character byte image of a real determines it: reading back the bytes that
  \<^verbatim>\<open>real_to_bytes\<close> wrote gives the same double, on a platform of either byte order.\<close>

theorem real_bytes_roundtrip:
  "bytes_to_real le (real_to_bytes le r) = r \<and> length (real_to_bytes le r) = 8"
proof -
  have len: "length (double_bytes le r) = 8"
    by (simp add: double_bytes_def Let_def)
  have img: "real_to_bytes le r = map (\<lambda>b. from_char_code (uint b)) (double_bytes le r)"
    by (simp add: real_to_bytes_def arrayMap_map concat_map_singleton)
  have "store_bytes_loop (real_to_bytes le r) 0 (replicate 8 0) = double_bytes le r"
    using len by (simp add: img store_all_bytes comp_def byte_char_byte)
  with len img show ?thesis
    by (simp add: bytes_to_real_def bytes_double_bytes)
qed

section \<open>Reals and requests\<close>

text \<open>\<^verbatim>\<open>sinh\<close>, \<^verbatim>\<open>cosh\<close> and \<^verbatim>\<open>tanh\<close> are, over the exact reals, the hyperbolic functions, and
  \<^verbatim>\<open>trunc\<close> rounds towards zero.\<close>

theorem hyperbolic_and_trunc:
  "sml_sinh x = sinh x \<and> sml_cosh x = cosh x \<and> sml_tanh x = tanh x \<and>
   \<bar>of_int (trunc q)\<bar> \<le> \<bar>q\<bar> \<and> \<bar>q\<bar> < \<bar>of_int (trunc q)\<bar> + 1 \<and> 0 \<le> of_int (trunc q) * q"
proof -
  have "\<bar>of_int (trunc q)\<bar> \<le> \<bar>q\<bar> \<and> \<bar>q\<bar> < \<bar>of_int (trunc q)\<bar> + 1 \<and> 0 \<le> of_int (trunc q) * q"
  proof (cases "0 \<le> q")
    case True
    then have "(0 :: rat) \<le> of_int \<lfloor>q\<rfloor>" by simp
    with True floor_correct [of q] show ?thesis by (simp add: trunc_def)
  next
    case False
    then have "(of_int \<lceil>q\<rceil> :: rat) \<le> 0" by simp
    with False ceiling_correct [of q] show ?thesis by (simp add: trunc_def mult_nonpos_nonpos)
  qed
  moreover have "sml_sinh x = sinh x" "sml_cosh x = cosh x"
    by (simp_all add: sml_sinh_def sml_cosh_def sinh_def cosh_def Let_def exp_minus inverse_eq_divide)
  moreover have "(a / 2) / (b / 2) = a / b" for a b :: real
    by simp
  then have "sml_tanh x = sml_sinh x / sml_cosh x"
    by (simp only: sml_sinh_def sml_cosh_def sml_tanh_def Let_def)
  ultimately show ?thesis
    by (simp add: tanh_def)
qed

lemma newRequest_loop_cases:
  "(\<exists>f \<in> set fs. \<exists>r. run f = Inr (Some r) \<and> newRequest_loop run fs = (Inr (Some r), Some (Fac f))) \<or>
   ((\<forall>f \<in> set fs. \<forall>r. run f \<noteq> Inr (Some r)) \<and>
     newRequest_loop run fs = (Inl Unsupported_Browser, Some Throwing))"
  by (induction fs) (auto simp: call_factory_def split: sum.splits option.splits)

text \<open>\<^verbatim>\<open>newRequest\<close> remembers its choice: the first call makes a request with some factory of the
  list that works and every later call uses the same one, and if no factory works every call
  throws.\<close>

theorem newRequest_memoises:
  assumes "newRequest run facs None = (res, st)"
  shows "newRequest run facs st = (res, st) \<and>
    ((\<exists>f \<in> set facs. \<exists>r. run f = Inr (Some r)) \<longrightarrow>
      (\<exists>f \<in> set facs. \<exists>r. run f = Inr (Some r) \<and> res = Inr (Some r) \<and> st = Some (Fac f))) \<and>
    ((\<forall>f \<in> set facs. \<forall>r. run f \<noteq> Inr (Some r)) \<longrightarrow> res = Inl Unsupported_Browser)"
proof -
  have "newRequest_loop run facs = (res, st)"
    using assms by (simp add: newRequest_def)
  with newRequest_loop_cases [of facs run] show ?thesis
    by (auto simp: newRequest_def call_factory_def)
qed

theorem newRequest_memoises_witness:
  "newRequest (\<lambda>f. if f = 1 then Inr (Some ''xhr'') else Inl RangeError) [0 :: nat, 1, 2] (Some (Fac 1)) =
     (Inr (Some ''xhr''), Some (Fac 1))"
  using newRequest_memoises [of "\<lambda>f. if f = 1 then Inr (Some ''xhr'') else Inl RangeError" "[0 :: nat, 1, 2]"
      "Inr (Some ''xhr'')" "Some (Fac 1)"]
  by (simp add: newRequest_def)

end
