(* ===== verification/SmlTime.thy ===== *)
theory SmlTime
  imports SmlPrims
begin

text \<open>
  The calendar primitives of \<^verbatim>\<open>src/js/prims.js\<close>, over a model of the language's \<^verbatim>\<open>Date\<close> objects:
  days since the epoch, the year of a day, the month of a day of the year, as the language
  definition gives them. The rules of the local time zone belong to the host and are the two
  arguments \<open>local_ms\<close> (the local reading of a UTC time) and \<open>utc_ms\<close> (the UTC time of a local
  reading). Beyond its range the time of a \<^verbatim>\<open>Date\<close> is \<^verbatim>\<open>NaN\<close>, here \<^const>\<open>None\<close>.
\<close>

section \<open>Dates of the language\<close>

definition days_in_year :: "int \<Rightarrow> int" where
  "days_in_year y =
     (if y mod 4 \<noteq> 0 then 365 else if y mod 100 \<noteq> 0 then 366
      else if y mod 400 \<noteq> 0 then 365 else 366)"

definition day_from_year :: "int \<Rightarrow> int" where
  "day_from_year y = 365 * (y - 1970) + (y - 1969) div 4 - (y - 1901) div 100 + (y - 1601) div 400"

lemma div_Suc_int:
  fixes k n :: int
  assumes "0 < n"
  shows "(k + 1) div n = k div n + (if (k + 1) mod n = 0 then 1 else 0)"
proof -
  have eq: "k + 1 = n * (k div n) + (k mod n + 1)" by simp
  show ?thesis
  proof (cases "k mod n + 1 = n")
    case True
    then have "k + 1 = n * (k div n + 1)" using eq by (simp add: algebra_simps)
    then have "(k + 1) div n = k div n + 1" "(k + 1) mod n = 0" using assms by simp_all
    then show ?thesis by simp
  next
    case False
    moreover have "0 \<le> k mod n" "k mod n < n" using assms by simp_all
    ultimately have "(k + 1) div n = k div n" "(k + 1) mod n = k mod n + 1"
      using int_div_pos_eq [OF eq] int_mod_pos_eq [OF eq] by auto
    with \<open>0 \<le> k mod n\<close> show ?thesis by simp
  qed
qed

lemma div_step:
  fixes y a n :: int
  assumes "0 < n" "(a - 1) mod n = 0"
  shows "(y + 1 - a) div n = (y - a) div n + (if y mod n = 0 then 1 else 0)"
proof -
  have "(y - a + 1) mod n = (y - (a - 1)) mod n" by (simp add: algebra_simps)
  also have "\<dots> = y mod n" using assms(2) by (metis diff_zero mod_diff_right_eq)
  finally have "(y - a + 1) mod n = y mod n" .
  moreover have "y + 1 - a = y - a + 1" by simp
  ultimately show ?thesis using div_Suc_int [OF assms(1), of "y - a"] by (simp only:)
qed

lemma day_from_year_Suc: "day_from_year (y + 1) = day_from_year y + days_in_year y"
proof -
  have steps:
    "(y + 1 - 1969) div 4 = (y - 1969) div 4 + (if y mod 4 = 0 then 1 else 0)"
    "(y + 1 - 1901) div 100 = (y - 1901) div 100 + (if y mod 100 = 0 then 1 else 0)"
    "(y + 1 - 1601) div 400 = (y - 1601) div 400 + (if y mod 400 = 0 then 1 else 0)"
    by (rule div_step; simp)+
  have "y mod 100 = 0 \<Longrightarrow> y mod 4 = 0" "y mod 400 = 0 \<Longrightarrow> y mod 100 = 0"
    using dvd_trans [of 4 100 y] dvd_trans [of 100 400 y] by (simp_all add: dvd_eq_mod_eq_0)
  then show ?thesis
    unfolding day_from_year_def days_in_year_def steps by simp
qed

function year_search :: "int \<Rightarrow> int \<Rightarrow> int" where
  "year_search d y = (if day_from_year (y + 1) \<le> d then year_search d (y + 1) else y)"
  by pat_completeness auto
termination
  by (relation "measure (\<lambda>(d, y). nat (d + 1 - day_from_year y))")
    (auto simp: day_from_year_Suc days_in_year_def)

declare year_search.simps [simp del]

text \<open>The search starts at an estimate that is never late.\<close>

definition year_from_day :: "int \<Rightarrow> int" where
  "year_from_day d = year_search d (1970 + (if 0 \<le> d then d div 366 else d div 365))"

definition leap :: "int \<Rightarrow> int" where
  "leap y = (if days_in_year y = 366 then 1 else 0)"

text \<open>The day of the year on which a month begins.\<close>

definition month_start :: "int \<Rightarrow> int \<Rightarrow> int" where
  "month_start y m =
     (if m = 0 then 0 else if m = 1 then 31
      else leap y + (if m = 2 then 59 else if m = 3 then 90 else if m = 4 then 120
        else if m = 5 then 151 else if m = 6 then 181 else if m = 7 then 212
        else if m = 8 then 243 else if m = 9 then 273 else if m = 10 then 304
        else if m = 11 then 334 else 365))"

definition month_of :: "int \<Rightarrow> int \<Rightarrow> int" where
  "month_of y n =
     (if n < month_start y 1 then 0 else if n < month_start y 2 then 1
      else if n < month_start y 3 then 2 else if n < month_start y 4 then 3
      else if n < month_start y 5 then 4 else if n < month_start y 6 then 5
      else if n < month_start y 7 then 6 else if n < month_start y 8 then 7
      else if n < month_start y 9 then 8 else if n < month_start y 10 then 9
      else if n < month_start y 11 then 10 else 11)"

definition month_from_day :: "int \<Rightarrow> int" where
  "month_from_day d = month_of (year_from_day d) (d - day_from_year (year_from_day d))"

definition date_from_day :: "int \<Rightarrow> int" where
  "date_from_day d =
     d - day_from_year (year_from_day d) - month_start (year_from_day d) (month_from_day d) + 1"

definition day_of_ms :: "int \<Rightarrow> int" where
  "day_of_ms t = t div 86400000"

definition hours :: "int \<Rightarrow> int" where
  "hours t = t div 3600000 mod 24"

definition minutes :: "int \<Rightarrow> int" where
  "minutes t = t div 60000 mod 60"

definition seconds :: "int \<Rightarrow> int" where
  "seconds t = t div 1000 mod 60"

definition week_day :: "int \<Rightarrow> int" where
  "week_day t = (day_of_ms t + 4) mod 7"

text \<open>\<^verbatim>\<open>new Date(Y, m, D, H, M, S, 0)\<close>: the years 0 to 99 mean 1900 to 1999.\<close>

definition make_date :: "int \<Rightarrow> int \<Rightarrow> int \<Rightarrow> int \<Rightarrow> int \<Rightarrow> int \<Rightarrow> int" where
  "make_date y m d h mi s =
     (let yr = (if 0 \<le> y \<and> y \<le> 99 then 1900 + y else y); ym = yr + m div 12
      in (day_from_year ym + month_start ym (m mod 12) + d - 1) * 86400000
         + (h * 3600000 + mi * 60000 + s * 1000))"

text \<open>A \<^verbatim>\<open>Date\<close> holds times of up to 100 million days before or after the epoch.\<close>

definition time_clip :: "int \<Rightarrow> int option" where
  "time_clip t = (if \<bar>t\<bar> \<le> 8640000000000000 then Some t else None)"

section \<open>The primitives\<close>

definition monthDays :: "int \<Rightarrow> int \<Rightarrow> int" where
  "monthDays Y m =
     (if m = 0 \<or> m = 2 \<or> m = 4 \<or> m = 6 \<or> m = 7 \<or> m = 9 \<or> m = 11 then 31
      else if m = 1 then
        (if js_rem Y 4 = 0 \<and> (js_rem Y 100 \<noteq> 0 \<or> js_rem Y 400 = 0) then 29 else 28)
      else 30)"

function yearDays_loop :: "int \<Rightarrow> int \<Rightarrow> int \<Rightarrow> int \<Rightarrow> int" where
  "yearDays_loop Y m i d =
     (if i < m then yearDays_loop Y m (i + 1) (d + monthDays Y i) else d)"
  by pat_completeness auto
termination
  by (relation "measure (\<lambda>(Y, m, i, d). nat (m - i))") auto

declare yearDays_loop.simps [simp del]

definition yearDays :: "int \<Rightarrow> int \<Rightarrow> int \<Rightarrow> int" where
  "yearDays Y m D = yearDays_loop Y m 0 (D - 1)"

text \<open>
  The nine-element array the time functions return: hours, dst, day of the month, minutes,
  month, seconds, day of the week, day of the year, year.
\<close>

record tm =
  tm_hour :: int
  tm_isdst :: int
  tm_mday :: int
  tm_min :: int
  tm_mon :: int
  tm_sec :: int
  tm_wday :: int
  tm_yday :: int
  tm_year :: int

definition tm_of_ms :: "int \<Rightarrow> tm" where
  "tm_of_ms t =
     (let Y = year_from_day (day_of_ms t); D = date_from_day (day_of_ms t);
          m = month_from_day (day_of_ms t)
      in \<lparr>tm_hour = hours t, tm_isdst = -1, tm_mday = D, tm_min = minutes t, tm_mon = m,
          tm_sec = seconds t, tm_wday = week_day t, tm_yday = yearDays Y m D, tm_year = Y\<rparr>)"

text \<open>When the \<^verbatim>\<open>Date\<close> is out of range, all fields but dst are \<^verbatim>\<open>NaN\<close>: such an array is \<^const>\<open>None\<close>.\<close>

definition localtime :: "(int \<Rightarrow> int) \<Rightarrow> int \<Rightarrow> tm option" where
  "localtime local_ms t = map_option (\<lambda>ms. tm_of_ms (local_ms ms)) (time_clip (t * 1000))"

definition gmtime :: "int \<Rightarrow> tm option" where
  "gmtime t = map_option tm_of_ms (time_clip (t * 1000))"

definition mktime :: "(int \<Rightarrow> int) \<Rightarrow> tm option \<Rightarrow> int option" where
  "mktime utc_ms arr =
     (case arr of
        None \<Rightarrow> None
      | Some r \<Rightarrow>
          map_option (\<lambda>t. t div 1000)
            (time_clip (utc_ms (make_date (tm_year r) (tm_mon r) (tm_mday r) (tm_hour r) (tm_min r) (tm_sec r)))))"

text \<open>\<open>now\<close> is the current time in milliseconds, \<open>tz_minutes\<close> the host's \<^verbatim>\<open>getTimezoneOffset\<close>.\<close>

definition getrealtime :: "int \<Rightarrow> js_exn + int \<times> int" where
  "getrealtime now =
     rbind (chk_ovf_i32 (now div 1000 + (-2147483648)))
       (\<lambda>s. rbind (chk_ovf_i32 (js_rem now 1000 * 1000)) (\<lambda>u. Inr (s, u)))"

definition localoffset :: "int \<Rightarrow> int" where
  "localoffset tz_minutes = 60 * tz_minutes"

section \<open>The calendar\<close>

lemma days_in_year_cases: "days_in_year y = 365 \<or> days_in_year y = 366"
  by (simp add: days_in_year_def)

lemma days_in_year_leap: "days_in_year y = 365 + leap y"
  using days_in_year_cases [of y] by (auto simp: leap_def)

lemma leap_bounds [simp]: "0 \<le> leap y" "leap y \<le> 1"
  by (simp_all add: leap_def)

lemma year_search_correct:
  "day_from_year y \<le> d \<Longrightarrow>
    day_from_year (year_search d y) \<le> d \<and> d < day_from_year (year_search d y + 1)"
proof (induction d y rule: year_search.induct)
  case (1 d y)
  then show ?case
    by (cases "day_from_year (y + 1) \<le> d") (simp_all add: year_search.simps [of d y])
qed

lemma mult_div_bounds:
  fixes a n :: int
  assumes "0 < n"
  shows "n * (a div n) \<le> a \<and> a < n * (a div n) + n"
  using mult_div_mod_eq [of n a] pos_mod_sign [OF assms, of a] pos_mod_bound [OF assms, of a]
  by linarith

lemma year_estimate_early:
  "day_from_year (1970 + (if 0 \<le> d then d div 366 else d div 365)) \<le> d"
proof -
  have *: "day_from_year (1970 + k) = 365 * k + ((k + 1) div 4 - (k + 69) div 100 + (k + 369) div 400)" for k
    by (simp add: day_from_year_def add.commute)
  have div_bounds: "4 * ((k + 1) div 4) \<le> k + 1" "k + 69 < 100 * ((k + 69) div 100) + 100"
    "400 * ((k + 369) div 400) \<le> k + 369" for k :: int
    using mult_div_bounds [of 4 "k + 1"] mult_div_bounds [of 100 "k + 69"]
      mult_div_bounds [of 400 "k + 369"] by simp_all
  show ?thesis
  proof (cases "0 \<le> d")
    case True
    define k where "k = d div 366"
    have "0 \<le> k" "366 * k \<le> d"
      using True by (simp_all add: k_def pos_imp_zdiv_nonneg_iff)
    moreover have "(k + 1) div 4 - (k + 69) div 100 + (k + 369) div 400 \<le> k"
    proof (cases "2 \<le> k")
      case True
      with div_bounds [of k] show ?thesis by linarith
    next
      case False
      then have "k = 0 \<or> k = 1" using \<open>0 \<le> k\<close> by linarith
      then show ?thesis by auto
    qed
    ultimately show ?thesis using True by (simp add: * flip: k_def)
  next
    case False
    define k where "k = d div 365"
    have "k < 0" "365 * k \<le> d"
      using False by (simp_all add: k_def pos_imp_zdiv_neg_iff)
    moreover have "(k + 1) div 4 - (k + 69) div 100 + (k + 369) div 400 \<le> 0"
    proof (cases "k \<le> -8")
      case False
      then have "k = -7 \<or> k = -6 \<or> k = -5 \<or> k = -4 \<or> k = -3 \<or> k = -2 \<or> k = -1"
        using \<open>k < 0\<close> by linarith
      then show ?thesis by auto
    next
      case True
      with div_bounds [of k] show ?thesis by linarith
    qed
    ultimately show ?thesis using False by (simp add: * flip: k_def)
  qed
qed

lemma year_from_day_bounds:
  "day_from_year (year_from_day d) \<le> d"
  "d < day_from_year (year_from_day d) + days_in_year (year_from_day d)"
  using year_search_correct [OF year_estimate_early [of d]]
  by (simp_all add: year_from_day_def day_from_year_Suc)

lemma month_start_numeral:
  "month_start y 0 = 0" "month_start y 1 = 31" "month_start y 2 = 59 + leap y"
  "month_start y 3 = 90 + leap y" "month_start y 4 = 120 + leap y" "month_start y 5 = 151 + leap y"
  "month_start y 6 = 181 + leap y" "month_start y 7 = 212 + leap y" "month_start y 8 = 243 + leap y"
  "month_start y 9 = 273 + leap y" "month_start y 10 = 304 + leap y"
  "month_start y 11 = 334 + leap y" "month_start y 12 = 365 + leap y"
  by (simp_all add: month_start_def)

lemma month_of_bounds:
  assumes "0 \<le> n" "n < 365 + leap y"
  shows "0 \<le> month_of y n" "month_of y n \<le> 11"
    "month_start y (month_of y n) \<le> n" "n < month_start y (month_of y n + 1)"
proof -
  show "0 \<le> month_of y n" "month_of y n \<le> 11"
    by (simp_all add: month_of_def)
  show "month_start y (month_of y n) \<le> n"
    unfolding month_of_def if_distrib [of "month_start y"] month_start_numeral
    using assms by simp
  show "n < month_start y (month_of y n + 1)"
    unfolding month_of_def if_distrib [of "\<lambda>m. month_start y (m + 1)"]
    using assms by (simp add: month_start_numeral)
qed

text \<open>The two leap year rules, of the language and of \<^verbatim>\<open>monthDays\<close>, are the same.\<close>

lemma js_rem_zero_iff: "y \<noteq> 0 \<Longrightarrow> js_rem x y = 0 \<longleftrightarrow> x mod y = 0"
  by (auto simp: js_rem_def sgn_0_0 simp flip: dvd_eq_mod_eq_0)

lemma monthDays_step:
  assumes "0 \<le> m" "m \<le> 11"
  shows "month_start y (m + 1) = month_start y m + monthDays y m"
proof -
  have "m = 0 \<or> m = 1 \<or> m = 2 \<or> m = 3 \<or> m = 4 \<or> m = 5 \<or> m = 6 \<or> m = 7 \<or> m = 8 \<or> m = 9 \<or> m = 10 \<or> m = 11"
    using assms by presburger
  moreover have "leap y = (if js_rem y 4 = 0 \<and> (js_rem y 100 \<noteq> 0 \<or> js_rem y 400 = 0) then 1 else 0)"
    by (auto simp: leap_def days_in_year_def js_rem_zero_iff)
  ultimately show ?thesis
    by (elim disjE) (simp_all add: month_start_numeral monthDays_def)
qed

lemma yearDays_loop_start:
  "0 \<le> i \<Longrightarrow> i \<le> m \<Longrightarrow> m \<le> 12 \<Longrightarrow>
    yearDays_loop y m i d = d + month_start y m - month_start y i"
proof (induction y m i d rule: yearDays_loop.induct)
  case (1 y m i d)
  then show ?case
    by (subst yearDays_loop.simps) (auto simp: monthDays_step)
qed

lemma yearDays_month_start: "0 \<le> m \<Longrightarrow> m \<le> 12 \<Longrightarrow> yearDays y m D = month_start y m + D - 1"
  by (simp add: yearDays_def yearDays_loop_start month_start_numeral)

lemmas date_defs = month_from_day_def date_from_day_def day_of_ms_def

lemma day_within_year: "0 \<le> d - day_from_year (year_from_day d)"
  "d - day_from_year (year_from_day d) < 365 + leap (year_from_day d)"
  using year_from_day_bounds [of d] days_in_year_leap [of "year_from_day d"] by linarith+

lemmas month_bounds = month_of_bounds [OF day_within_year, folded month_from_day_def]

lemma clock_bounds:
  "0 \<le> hours t \<and> hours t < 24 \<and> 0 \<le> minutes t \<and> minutes t < 60 \<and>
   0 \<le> seconds t \<and> seconds t < 60 \<and> 0 \<le> week_day t \<and> week_day t < 7"
  by (simp add: hours_def minutes_def seconds_def week_day_def)

lemma clock_of_seconds:
  "(day_of_ms (t * 1000) * 24 + hours (t * 1000)) * 3600 + minutes (t * 1000) * 60 + seconds (t * 1000) = t"
proof -
  have "t * 1000 div (n * 1000) = t div n" for n :: int
    by (rule div_mult_mult2) simp
  from this [of 3600] this [of 60] this [of 86400] this [of 1]
  have ms: "t * 1000 div 3600000 = t div 3600" "t * 1000 div 60000 = t div 60"
    "t * 1000 div 86400000 = t div 86400" "t * 1000 div 1000 = t"
    by simp_all
  have "t div 86400 = t div 3600 div 24" "t div 3600 = t div 60 div 60"
    using zdiv_zmult2_eq [of 24 t 3600] zdiv_zmult2_eq [of 60 t 60] by simp_all
  then have "t div 86400 * 24 + t div 3600 mod 24 = t div 3600"
    "t div 3600 * 60 + t div 60 mod 60 = t div 60" "t div 60 * 60 + t mod 60 = t"
    by simp_all
  moreover have "(D * 24 + H) * 3600 + M * 60 + S = T"
    if "D * 24 + H = X" "X * 60 + M = Y" "Y * 60 + S = T" for D H M S X Y T :: int
    unfolding that [symmetric] by (simp add: algebra_simps)
  ultimately show ?thesis
    unfolding day_of_ms_def hours_def minutes_def seconds_def ms by blast
qed

text \<open>\<^verbatim>\<open>gmtime\<close> gives a valid calendar date of the second it is asked for: every field is in its
  range, the day is a day of its month, the day of the year computed by \<^verbatim>\<open>yearDays\<close> from month and
  day is the number of days since the start of the year, and the fields add up to the time.\<close>

theorem gmtime_valid:
  assumes "gmtime t = Some r"
  shows "0 \<le> tm_hour r \<and> tm_hour r < 24 \<and> 0 \<le> tm_min r \<and> tm_min r < 60 \<and>
     0 \<le> tm_sec r \<and> tm_sec r < 60 \<and> 0 \<le> tm_mon r \<and> tm_mon r \<le> 11 \<and>
     1 \<le> tm_mday r \<and> tm_mday r \<le> monthDays (tm_year r) (tm_mon r) \<and>
     0 \<le> tm_wday r \<and> tm_wday r < 7 \<and>
     0 \<le> tm_yday r \<and> tm_yday r < days_in_year (tm_year r) \<and>
     ((day_from_year (tm_year r) + tm_yday r) * 24 + tm_hour r) * 3600 + tm_min r * 60 + tm_sec r = t"
proof -
  have r: "r = tm_of_ms (t * 1000)" using assms by (auto simp: gmtime_def time_clip_def split: if_splits)
  define d where "d = day_of_ms (t * 1000)"
  define y where "y = year_from_day d"
  define m where "m = month_from_day d"
  have m: "0 \<le> m" "m \<le> 11" "month_start y m \<le> d - day_from_year y"
    "d - day_from_year y < month_start y (m + 1)"
    using month_bounds [of d] by (simp_all add: m_def y_def)
  have D: "date_from_day d = d - day_from_year y - month_start y m + 1"
    by (simp add: date_from_day_def m_def y_def)
  have yd: "yearDays y m (date_from_day d) = d - day_from_year y"
    using m by (simp add: yearDays_month_start D)
  have "date_from_day d \<le> monthDays y m" "1 \<le> date_from_day d"
    using m monthDays_step [of m y] by (simp_all add: D)
  moreover have "0 \<le> d - day_from_year y" "d - day_from_year y < days_in_year y"
    using year_from_day_bounds [of d] by (simp_all add: y_def)
  moreover have "(d * 24 + hours (t * 1000)) * 3600 + minutes (t * 1000) * 60 + seconds (t * 1000) = t"
    using clock_of_seconds [of t] by (simp add: d_def)
  moreover have "tm_hour r = hours (t * 1000)" "tm_min r = minutes (t * 1000)"
    "tm_sec r = seconds (t * 1000)" "tm_mon r = m" "tm_year r = y"
    "tm_mday r = date_from_day d" "tm_wday r = week_day (t * 1000)"
    "tm_yday r = d - day_from_year y"
    by (simp_all add: r tm_of_ms_def Let_def flip: yd) (simp_all add: d_def m_def y_def)
  moreover have "day_from_year y + (d - day_from_year y) = d" by simp
  ultimately show ?thesis
    using m clock_bounds [of "t * 1000"] by (simp only:)
qed

text \<open>The date made of the fields of a local reading is that reading.\<close>

lemma make_date_fields:
  assumes "\<not> (0 \<le> year_from_day (day_of_ms (k * 1000)) \<and> year_from_day (day_of_ms (k * 1000)) \<le> 99)"
  shows "make_date (year_from_day (day_of_ms (k * 1000))) (month_from_day (day_of_ms (k * 1000)))
    (date_from_day (day_of_ms (k * 1000))) (hours (k * 1000)) (minutes (k * 1000)) (seconds (k * 1000)) = k * 1000"
proof -
  define d where "d = day_of_ms (k * 1000)"
  have m: "0 \<le> month_from_day d" "month_from_day d < 12"
    using month_bounds(1,2) [of d] by auto
  then have m12: "month_from_day d div 12 = 0" "month_from_day d mod 12 = month_from_day d"
    by simp_all
  have ms: "day_from_year (year_from_day d) + month_start (year_from_day d) (month_from_day d)
      + date_from_day d - 1 = d"
    by (simp add: date_from_day_def)
  have "make_date (year_from_day d) (month_from_day d) (date_from_day d)
      (hours (k * 1000)) (minutes (k * 1000)) (seconds (k * 1000)) =
    d * 86400000 + (hours (k * 1000) * 3600000 + minutes (k * 1000) * 60000 + seconds (k * 1000) * 1000)"
    using assms unfolding d_def [symmetric] by (simp only: make_date_def Let_def if_False m12 add_0_right ms)
  also have "\<dots> = ((d * 24 + hours (k * 1000)) * 3600 + minutes (k * 1000) * 60 + seconds (k * 1000)) * 1000"
    by (simp add: algebra_simps)
  also have "\<dots> = k * 1000"
    unfolding d_def clock_of_seconds ..
  finally show ?thesis by (simp only: d_def)
qed

text \<open>C36: \<^verbatim>\<open>mktime\<close> undoes \<^verbatim>\<open>localtime\<close>: within the 8640000000000 seconds around the epoch that a date of the
  language can hold, the second is recovered from the fields, and beyond them the result is \<^verbatim>\<open>NaN\<close>. This holds for any
  time zone in which local readings are whole seconds that can be turned back into UTC, as long as the local year
  is not one of the years 0 to 99 that the date constructor takes for years of the twentieth century.\<close>

theorem mktime_localtime:
  assumes "utc_ms (local_ms (t * 1000)) = t * 1000" and "local_ms (t * 1000) = k * 1000"
    and "\<forall>r. localtime local_ms t = Some r \<longrightarrow> \<not> (0 \<le> tm_year r \<and> tm_year r \<le> 99)"
  shows "mktime utc_ms (localtime local_ms t) = (if \<bar>t\<bar> \<le> 8640000000000 then Some t else None)"
proof (cases "\<bar>t\<bar> \<le> 8640000000000")
  case True
  define d where "d = day_of_ms (k * 1000)"
  have clip: "time_clip (t * 1000) = Some (t * 1000)" using True by (simp add: time_clip_def)
  then have l: "localtime local_ms t = Some (tm_of_ms (k * 1000))" using assms(2) by (simp add: localtime_def)
  have "\<not> (0 \<le> year_from_day d \<and> year_from_day d \<le> 99)"
    using assms(3) by (simp add: l tm_of_ms_def Let_def d_def)
  then have "make_date (year_from_day d) (month_from_day d) (date_from_day d)
      (hours (k * 1000)) (minutes (k * 1000)) (seconds (k * 1000)) = k * 1000"
    unfolding d_def by (rule make_date_fields)
  then show ?thesis
    using assms(1,2) clip True by (simp add: mktime_def l tm_of_ms_def Let_def d_def)
next
  case False
  then have "time_clip (t * 1000) = None" by (simp add: time_clip_def abs_mult)
  then show ?thesis using False by (simp add: localtime_def mktime_def)
qed

theorem mktime_localtime_witness:
  "mktime (\<lambda>t. t - 3600000) (localtime (\<lambda>t. t + 3600000) 86399) = Some 86399"
proof -
  have "localtime (\<lambda>t. t + 3600000) 86399 = Some (tm_of_ms 89999000)" "tm_year (tm_of_ms 89999000) = 1970"
    by (simp_all add: localtime_def time_clip_def tm_of_ms_def Let_def day_of_ms_def year_from_day_def
        year_search.simps day_from_year_def)
  then show ?thesis
    using mktime_localtime [of "\<lambda>t. t - 3600000" "\<lambda>t. t + 3600000" 86399 89999] by simp
qed

text \<open>\<^verbatim>\<open>getrealtime\<close> splits a time of the years 1970 to 2106 into seconds, shifted to the range
  of a 32-bit integer, and microseconds, and never overflows there.\<close>

theorem getrealtime_splits:
  assumes "0 \<le> now" "now < 4294967296 * 1000"
  shows "getrealtime now = Inr (now div 1000 - 2147483648, now mod 1000 * 1000) \<and>
    (now div 1000) * 1000000 + now mod 1000 * 1000 = now * 1000"
proof -
  define q r where "q = now div 1000" and "r = now mod 1000"
  have "now = 1000 * q + r" "0 \<le> r" "r < 1000"
    by (simp_all add: q_def r_def)
  moreover have "0 \<le> q" "q < 4294967296"
    using assms calculation by linarith+
  ultimately show ?thesis
    using assms by (simp add: getrealtime_def chk_ovf_i32_def js_rem_pos flip: q_def r_def)
qed

theorem getrealtime_splits_witness:
  "getrealtime 1600000000123 = Inr (-547483648, 123000)"
  using getrealtime_splits [of 1600000000123] by simp

end
