(* ===== verification/Columns.thy ===== *)
theory Columns
  imports JsPrelude
begin

text \<open>
  Columns of a line with tabs, from the utilities of \<^verbatim>\<open>src/js/codemirror/codemirror.js\<close>:
  \<open>countColumn\<close>, its inverse \<open>findColumn\<close>, and \<open>spaceStr\<close>. The two scanners hop from tab to tab; the
  reference definition \<open>column_of\<close> walks over the characters one at a time.
\<close>

section \<open>Searching a string\<close>

definition tab :: jchar where
  "tab = 9"

text \<open>The white space of regular expressions, \<^verbatim>\<open>/[\su00a0]/\<close>.\<close>

definition is_space :: "jchar \<Rightarrow> bool" where
  "is_space c =
     (let n = char_code c
      in (9 \<le> n \<and> n \<le> 13) \<or> n = 32 \<or> n = 160 \<or> n = 5760 \<or> (8192 \<le> n \<and> n \<le> 8202) \<or>
         n = 8232 \<or> n = 8233 \<or> n = 8239 \<or> n = 8287 \<or> n = 12288 \<or> n = 65279)"

text \<open>The class \<^verbatim>\<open>\w\<close> of regular expressions.\<close>

definition is_word :: "jchar \<Rightarrow> bool" where
  "is_word c \<longleftrightarrow>
     (let n = char_code c
      in (65 \<le> n \<and> n \<le> 90) \<or> (97 \<le> n \<and> n \<le> 122) \<or> (48 \<le> n \<and> n \<le> 57) \<or> n = 95)"

text \<open>\<^verbatim>\<open>s.indexOf(c, i)\<close> for one character.\<close>

definition index_from :: "jchar \<Rightarrow> jsstring \<Rightarrow> nat \<Rightarrow> nat option" where
  "index_from c s i =
     (let k = length (takeWhile (\<lambda>x. x \<noteq> c) (drop i s))
      in if i + k < length s then Some (i + k) else None)"

lemma index_from_Some:
  assumes "index_from c s i = Some t"
  obtains u where "drop i s = u @ c # drop (Suc t) s" "c \<notin> set u" "t = i + length u" "t < length s"
proof -
  let ?u = "takeWhile (\<lambda>x. x \<noteq> c) (drop i s)"
  from assms have t: "t = i + length ?u" "t < length s"
    by (auto simp: index_from_def Let_def split: if_splits)
  then have "length ?u < length (drop i s)" by simp
  then have "drop i s ! length ?u = c" using nth_length_takeWhile by blast
  moreover have "take (length ?u) (drop i s) = ?u" by (rule takeWhile_eq_take [symmetric])
  ultimately have "drop i s = ?u @ c # drop (Suc t) s"
    using id_take_nth_drop [of "length ?u" "drop i s"] t \<open>length ?u < length (drop i s)\<close>
    by (simp add: add.commute)
  moreover have "c \<notin> set ?u" by (auto dest: set_takeWhileD)
  ultimately show thesis using that t by blast
qed

lemma index_from_Some_bounds: "index_from c s i = Some t \<Longrightarrow> i \<le> t \<and> t < length s"
  by (erule index_from_Some) simp

lemma index_from_None:
  assumes "index_from c s i = None"
  shows "c \<notin> set (drop i s)"
proof
  assume "c \<in> set (drop i s)"
  then obtain u v where "drop i s = u @ c # v" "c \<notin> set u" by (meson split_list_first)
  moreover from this have "takeWhile (\<lambda>x. x \<noteq> c) (u @ c # v) = u"
    by (subst takeWhile_append2) auto
  moreover have "i + length u < length s"
    using arg_cong [OF \<open>drop i s = u @ c # v\<close>, of length] by simp
  ultimately have "takeWhile (\<lambda>x. x \<noteq> c) (drop i s) = u" "i + length u < length s"
    by simp_all
  with assms show False by (simp add: index_from_def)
qed

section \<open>Columns\<close>

function countColumn_loop :: "jsstring \<Rightarrow> nat \<Rightarrow> nat \<Rightarrow> nat \<Rightarrow> nat \<Rightarrow> int" where
  "countColumn_loop s e ts i n =
     (case index_from tab s i of
        None \<Rightarrow> int n + (int e - int i)
      | Some nextTab \<Rightarrow>
          if nextTab \<ge> e then int n + (int e - int i)
          else let n1 = n + (nextTab - i); n2 = n1 + (ts - n1 mod ts)
               in countColumn_loop s e ts (nextTab + 1) n2)"
  by pat_completeness auto
termination
  by (relation "measure (\<lambda>(s, e, ts, i, n). Suc e - i)") (auto dest: index_from_Some_bounds)

declare countColumn_loop.simps [simp del]

text \<open>An \<^verbatim>\<open>end\<close> of \<^verbatim>\<open>null\<close> (\<open>None\<close>) stands for the first character that is not white space.\<close>

definition countColumn :: "jsstring \<Rightarrow> nat option \<Rightarrow> nat \<Rightarrow> nat \<Rightarrow> nat \<Rightarrow> int" where
  "countColumn s e ts startIndex startValue =
     countColumn_loop s
       (case e of Some e' \<Rightarrow> e' | None \<Rightarrow> length (takeWhile is_space s)) ts startIndex startValue"

function findColumn_loop :: "jsstring \<Rightarrow> nat \<Rightarrow> nat \<Rightarrow> nat \<Rightarrow> nat \<Rightarrow> nat" where
  "findColumn_loop s goal ts pos col =
     (let nextTab = (case index_from tab s pos of Some t \<Rightarrow> t | None \<Rightarrow> length s);
          skipped = nextTab - pos
      in if nextTab = length s \<or> col + skipped \<ge> goal then pos + min skipped (goal - col)
         else let col1 = col + (nextTab - pos); col2 = col1 + (ts - col1 mod ts); pos1 = nextTab + 1
              in if col2 \<ge> goal then pos1 else findColumn_loop s goal ts pos1 col2)"
  by pat_completeness auto
termination
  by (relation "measure (\<lambda>(s, goal, ts, pos, col). Suc (length s) - pos)")
    (auto simp: Let_def dest: index_from_Some_bounds split: option.splits)

declare findColumn_loop.simps [simp del]

definition findColumn :: "jsstring \<Rightarrow> nat \<Rightarrow> nat \<Rightarrow> nat" where
  "findColumn s goal ts = findColumn_loop s goal ts 0 0"

text \<open>The cache \<^verbatim>\<open>spaceStrs\<close> is passed along: \<open>spaceStr\<close> returns the string and the grown cache.\<close>

function spaceStr_grow :: "nat \<Rightarrow> jsstring list \<Rightarrow> jsstring list" where
  "spaceStr_grow n cache =
     (if length cache \<le> n then spaceStr_grow n (cache @ [last cache @ [32]]) else cache)"
  by pat_completeness auto
termination
  by (relation "measure (\<lambda>(n, cache). Suc n - length cache)") auto

declare spaceStr_grow.simps [simp del]

definition spaceStr :: "nat \<Rightarrow> jsstring list \<Rightarrow> jsstring \<times> jsstring list" where
  "spaceStr n cache = (let c = spaceStr_grow n cache in (c ! n, c))"

lemmas [js_eval] = tab_def is_space_def index_from_def countColumn_def findColumn_def spaceStr_def

section \<open>Reference definition\<close>

definition col_step :: "nat \<Rightarrow> nat \<Rightarrow> jchar \<Rightarrow> nat" where
  "col_step ts n c = (if c = tab then n + (ts - n mod ts) else Suc n)"

definition column_of :: "nat \<Rightarrow> jsstring \<Rightarrow> nat" where
  "column_of ts s = foldl (col_step ts) 0 s"

section \<open>Correctness\<close>

lemma col_step_tab: "col_step ts n tab = n + (ts - n mod ts)"
  by (simp add: col_step_def)

lemma foldl_col_step_no_tab: "tab \<notin> set s \<Longrightarrow> foldl (col_step ts) n s = n + length s"
  by (induction s arbitrary: n) (auto simp: col_step_def)

lemma countColumn_loop_correct:
  "i \<le> e \<Longrightarrow> e \<le> length s \<Longrightarrow>
    countColumn_loop s e ts i n = int (foldl (col_step ts) n (take (e - i) (drop i s)))"
proof (induction s e ts i n rule: countColumn_loop.induct)
  case (1 s e ts i n)
  have plain: "int n + (int e - int i) = int (foldl (col_step ts) n (take (e - i) (drop i s)))"
    if "tab \<notin> set (take (e - i) (drop i s))"
    using that 1(2,3) by (simp add: foldl_col_step_no_tab)
  show ?case
  proof (cases "index_from tab s i")
    case None
    then have "tab \<notin> set (take (e - i) (drop i s))"
      by (auto dest: index_from_None in_set_takeD)
    with None plain show ?thesis by (subst countColumn_loop.simps) simp
  next
    case (Some t)
    then obtain u where u: "drop i s = u @ tab # drop (Suc t) s" "tab \<notin> set u" "t = i + length u" "t < length s"
      by (rule index_from_Some)
    show ?thesis
    proof (cases "e \<le> t")
      case True
      with u have "tab \<notin> set (take (e - i) (drop i s))" by (auto dest: in_set_takeD)
      with Some True plain show ?thesis by (subst countColumn_loop.simps) simp
    next
      case False
      with u have e: "e - i = Suc (length u + (e - Suc t))" by simp
      have "take (e - i) (drop i s) = u @ tab # take (e - Suc t) (drop (Suc t) s)"
        unfolding u(1) e by simp
      then have "foldl (col_step ts) n (take (e - i) (drop i s)) =
        foldl (col_step ts) (col_step ts (n + length u) tab) (take (e - Suc t) (drop (Suc t) s))"
        using u(2) by (simp add: foldl_col_step_no_tab)
      moreover have "countColumn_loop s e ts i n = countColumn_loop s e ts (Suc t) (col_step ts (n + length u) tab)"
        using Some False u(3) by (subst countColumn_loop.simps) (simp add: col_step_tab Let_def)
      moreover have "countColumn_loop s e ts (Suc t) (col_step ts (n + length u) tab) =
        int (foldl (col_step ts) (col_step ts (n + length u) tab) (take (e - Suc t) (drop (Suc t) s)))"
        using 1(1) [OF Some, of "n + length u"] False u(3) 1(3) by (simp add: col_step_tab)
      ultimately show ?thesis by simp
    qed
  qed
qed

lemma countColumn_white: "countColumn s None ts 0 0 = int (column_of ts (takeWhile is_space s))"
  using takeWhile_eq_take [of is_space s, symmetric]
  by (simp add: countColumn_def countColumn_loop_correct column_of_def length_takeWhile_le)

text \<open>\<^verbatim>\<open>countColumn\<close>, which hops from tab to tab and may resume from a remembered column,
  computes the column that walking over the characters one at a time gives.\<close>

theorem countColumn_correct:
  assumes "i \<le> e" "e \<le> length s"
  shows "countColumn s (Some e) ts i (column_of ts (take i s)) = int (column_of ts (take e s)) \<and>
    countColumn s None ts 0 0 = int (column_of ts (takeWhile is_space s))"
proof -
  have "take e s = take i s @ take (e - i) (drop i s)"
    using assms by (metis le_add_diff_inverse take_add)
  then have "countColumn s (Some e) ts i (column_of ts (take i s)) = int (column_of ts (take e s))"
    using assms by (simp add: countColumn_def countColumn_loop_correct column_of_def)
  then show ?thesis by (simp add: countColumn_white)
qed

theorem countColumn_correct_witness:
  "countColumn [9, 97, 9, 98] (Some 4) 4 1 4 = 9"
  using countColumn_correct [of 1 4 "[9, 97, 9, 98]" 4]
  by (simp add: column_of_def col_step_def tab_def)

lemma col_step_less: "0 < ts \<Longrightarrow> n < col_step ts n c"
  using mod_less_divisor [of ts n] by (auto simp: col_step_def simp del: mod_less_divisor)

lemma foldl_col_step_less: "0 < ts \<Longrightarrow> s \<noteq> [] \<Longrightarrow> n < foldl (col_step ts) n s"
proof (induction s arbitrary: n)
  case (Cons c s)
  note less = col_step_less [OF Cons.prems(1), of n c]
  show ?case
  proof (cases "s = []")
    case False
    with Cons have "col_step ts n c < foldl (col_step ts) (col_step ts n c) s" by blast
    with less show ?thesis by simp
  qed (simp add: less)
qed simp

lemma findColumn_loop_inverse:
  "0 < ts \<Longrightarrow> pos \<le> i \<Longrightarrow> i \<le> length s \<Longrightarrow>
    goal = foldl (col_step ts) col (take (i - pos) (drop pos s)) \<Longrightarrow>
    findColumn_loop s goal ts pos col = i"
proof (induction s goal ts pos col rule: findColumn_loop.induct)
  case (1 s goal ts pos col)
  have plain: "goal = col + (i - pos)" if "tab \<notin> set (take (i - pos) (drop pos s))"
    using foldl_col_step_no_tab [OF that, of ts col] 1(4,5) by simp
  show ?case
  proof (cases "index_from tab s pos")
    case None
    then have "tab \<notin> set (take (i - pos) (drop pos s))"
      by (auto dest: index_from_None in_set_takeD)
    from plain [OF this] None 1(3,4) show ?thesis
      by (subst findColumn_loop.simps) simp
  next
    case (Some t)
    then obtain u where u: "drop pos s = u @ tab # drop (Suc t) s" "tab \<notin> set u" "t = pos + length u" "t < length s"
      by (rule index_from_Some)
    define col2 where "col2 = col_step ts (col + length u) tab"
    have less: "col + length u < col2" unfolding col2_def by (rule col_step_less [OF 1(2)])
    have eq: "findColumn_loop s goal ts pos col =
      (if col + length u \<ge> goal then pos + min (length u) (goal - col)
       else if col2 \<ge> goal then Suc t else findColumn_loop s goal ts (Suc t) col2)"
    proof -
      have "(t = length s) = False" "t - pos = length u" using u(3,4) by simp_all
      then show ?thesis
        unfolding findColumn_loop.simps [of s goal ts pos col] Some option.case Let_def col2_def col_step_tab
        by (simp only: simp_thms Suc_eq_plus1)
    qed
    show ?thesis
    proof (cases "i \<le> t")
      case True
      with u have "tab \<notin> set (take (i - pos) (drop pos s))" by (auto dest: in_set_takeD)
      from plain [OF this] True u(3) 1(3) show ?thesis unfolding eq by simp
    next
      case False
      with u(3) have e: "i - pos = Suc (length u + (i - Suc t))" by simp
      have "take (i - pos) (drop pos s) = u @ tab # take (i - Suc t) (drop (Suc t) s)"
        unfolding u(1) e by simp
      then have goal: "goal = foldl (col_step ts) col2 (take (i - Suc t) (drop (Suc t) s))"
        using 1(5) u(2) by (simp add: foldl_col_step_no_tab col2_def)
      show ?thesis
      proof (cases "i = Suc t")
        case True
        with goal have "goal = col2" by simp
        with True less show ?thesis unfolding eq by simp
      next
        case neq: False
        with False 1(4) have "col2 < goal"
          unfolding goal by (intro foldl_col_step_less 1(2)) auto
        then have "findColumn_loop s goal ts (Suc t) col2 = i"
          using 1(1) [OF refl refl _ refl refl refl] Some u(3,4) less False 1(2,4) goal
          by (simp add: col2_def col_step_tab)
        with \<open>col2 < goal\<close> less show ?thesis unfolding eq by simp
      qed
    qed
  qed
qed

text \<open>\<^verbatim>\<open>findColumn\<close> is the inverse of \<^verbatim>\<open>countColumn\<close>: from the column of an offset it finds the
  offset.\<close>

theorem findColumn_countColumn:
  assumes "0 < ts" "i \<le> length s"
  shows "findColumn s (nat (countColumn s (Some i) ts 0 0)) ts = i"
  unfolding findColumn_def
  by (rule findColumn_loop_inverse) (use assms in \<open>simp_all add: countColumn_def countColumn_loop_correct\<close>)

theorem findColumn_countColumn_witness:
  "findColumn [9, 97, 9, 98] (nat (countColumn [9, 97, 9, 98] (Some 3) 4 0 0)) 4 = 3"
  by (rule findColumn_countColumn) simp_all

lemma spaceStr_grow_replicate:
  assumes "cache = map (\<lambda>k. replicate k 32) [0..<m]" "0 < m"
  shows "spaceStr_grow n cache = map (\<lambda>k. replicate k 32) [0..<max m (Suc n)]"
  using assms
proof (induction n cache arbitrary: m rule: spaceStr_grow.induct)
  case (1 n cache)
  show ?case
  proof (cases "length cache \<le> n")
    case True
    have "last cache = replicate (m - 1) 32"
      using 1(2,3) by (simp add: last_map)
    then have "cache @ [last cache @ [32]] = map (\<lambda>k. replicate k 32) [0..<Suc m]"
      using 1(2,3) by (simp add: replicate_append_same flip: replicate_Suc)
    from 1(1) [OF True this] have "spaceStr_grow n (cache @ [last cache @ [32]]) =
      map (\<lambda>k. replicate k 32) [0..<max (Suc m) (Suc n)]" by simp
    moreover have "max (Suc m) (Suc n) = max m (Suc n)" using True 1(2) by simp
    ultimately show ?thesis
      using True by (subst spaceStr_grow.simps) simp
  next
    case False
    with 1(2) have "max m (Suc n) = m" by simp
    with False 1(2) show ?thesis by (subst spaceStr_grow.simps) (simp only: if_False)
  qed
qed

definition space_cache :: "jsstring list \<Rightarrow> bool" where
  "space_cache cache \<longleftrightarrow> cache \<noteq> [] \<and> cache = map (\<lambda>k. replicate k 32) [0..<length cache]"

lemma spaceStr_correct:
  assumes "space_cache cache"
  shows "fst (spaceStr n cache) = replicate n 32" "space_cache (snd (spaceStr n cache))"
proof -
  have "spaceStr_grow n cache = map (\<lambda>k. replicate k 32) [0..<max (length cache) (Suc n)]"
    using assms by (intro spaceStr_grow_replicate) (auto simp: space_cache_def)
  then show "fst (spaceStr n cache) = replicate n 32" "space_cache (snd (spaceStr n cache))"
    by (simp_all add: spaceStr_def space_cache_def Let_def nth_upt less_max_iff_disj del: upt_Suc)
qed

end
