(* ===== verification/LineTree.thy ===== *)
theory LineTree
  imports Columns
begin

text \<open>
  The tree of chunks that holds the lines of a document (\<^verbatim>\<open>src/js/codemirror/codemirror.js\<close>, section
  DOCUMENT DATA STRUCTURE): leaves with up to 50 lines and branches with up to ten children, with the
  number of lines and the pixel height of every subtree cached. The root is the document itself, which
  is the only branch without a parent; it splits by becoming the parent of a copy of itself.

  JavaScript changes the tree in place. Here a chunk that is changed is returned; a branch below the
  root that splits returns itself followed by its new siblings, which its parent puts in its place. A
  line has an identity \<open>l_id\<close>, by which the code compares line objects. Heights are whole numbers: the code
  adds them as floating-point numbers, which is the same for whole numbers of pixels below \<open>2^53\<close>, while
  fractional heights, which some browsers measure, would make its sums inexact.
\<close>

section \<open>Definitions\<close>

text \<open>A marked span: the marker by its identity, and the optional ends.\<close>

record span =
  sp_marker :: nat
  sp_from :: "int option"
  sp_to :: "int option"

text \<open>
  A section of a line with its direction. The order of a line is not computed yet, or there is none because
  the line reads left to right, or it has the sections as they are seen from left to right.
\<close>

datatype bidi_span = BidiSpan (bs_level: nat) (bs_from: int) (bs_to: int)

record 'st line =
  l_id :: nat
  l_text :: jsstring
  l_height :: int
  l_spans :: "span list"
  l_stateAfter :: "'st option"
  l_styles :: "(nat \<times> jsstring option) list option"
  l_order :: "bidi_span list option option"

datatype 'l chunk = Leaf "'l list" int | Branch "'l chunk list" int int

fun chunkSize :: "'l chunk \<Rightarrow> int" where
  "chunkSize (Leaf ls h) = int (length ls)"
| "chunkSize (Branch cs s h) = s"

fun chunkHeight :: "'l chunk \<Rightarrow> int" where
  "chunkHeight (Leaf ls h) = h"
| "chunkHeight (Branch cs s h) = h"

definition lines_height :: "'st line list \<Rightarrow> int" where
  "lines_height ls = sum_list (map l_height ls)"

definition LeafChunk :: "'st line list \<Rightarrow> 'st line chunk" where
  "LeafChunk ls = Leaf ls (lines_height ls)"

definition BranchChunk :: "'st line chunk list \<Rightarrow> 'st line chunk" where
  "BranchChunk cs = Branch cs (sum_list (map chunkSize cs)) (sum_list (map chunkHeight cs))"

subsection \<open>Removing lines\<close>

definition leaf_removeInner :: "'st line list \<Rightarrow> int \<Rightarrow> int \<Rightarrow> int \<Rightarrow> 'st line chunk" where
  "leaf_removeInner ls h at n =
     Leaf (js_splice ls (nat at) (nat n) []) (h - lines_height (js_slice ls at (at + n)))"

fun collapse :: "'st line chunk \<Rightarrow> 'st line list"
  and collapse_children :: "'st line chunk list \<Rightarrow> 'st line list" where
  "collapse (Leaf ls h) = ls"
| "collapse (Branch cs s h) = collapse_children cs"
| "collapse_children [] = []"
| "collapse_children (c # cs) = collapse c @ collapse_children cs"

definition single_leaf :: "'st line chunk list \<Rightarrow> bool" where
  "single_leaf cs \<longleftrightarrow> (case cs of [Leaf ls h] \<Rightarrow> True | _ \<Rightarrow> False)"

text \<open>
  The test of \<open>removeInner\<close> for collapsing: fewer than 25 lines, and more than one child or a first
  child that is not a leaf. The loop over the children returns what is left of \<open>n\<close> and of the height.
\<close>

definition collapse_small :: "'st line chunk list \<Rightarrow> int \<Rightarrow> int \<Rightarrow> int \<Rightarrow> 'st line chunk" where
  "collapse_small cs sz h n =
     (if sz - n < 25 \<and> \<not> single_leaf cs
      then Branch [LeafChunk (collapse_children cs)] sz h
      else Branch cs sz h)"

fun removeInner :: "'st line chunk \<Rightarrow> int \<Rightarrow> int \<Rightarrow> 'st line chunk"
  and remove_children ::
    "'st line chunk list \<Rightarrow> int \<Rightarrow> int \<Rightarrow> int \<Rightarrow> 'st line chunk list \<times> int \<times> int" where
  "removeInner (Leaf ls h) at n = leaf_removeInner ls h at n"
| "removeInner (Branch cs s h) at n =
     (let (cs', n', h') = remove_children cs at n h in collapse_small cs' (s - n) h' n')"
| "remove_children [] at n h = ([], n, h)"
| "remove_children (c # cs) at n h =
     (let sz = chunkSize c
      in if at < sz then
           (let rm = min n (sz - at);
                c' = removeInner c at rm;
                h' = h - (chunkHeight c - chunkHeight c');
                kept = (if sz = rm then [] else [c'])
            in if n - rm = 0 then (kept @ cs, 0, h')
               else let (cs', n'', h'') = remove_children cs 0 (n - rm) h' in (kept @ cs', n'', h''))
         else let (cs', n', h') = remove_children cs (at - sz) n h in (c # cs', n', h'))"

subsection \<open>Inserting lines\<close>

definition leaf_insertInner :: "'st line list \<Rightarrow> int \<Rightarrow> int \<Rightarrow> 'st line list \<Rightarrow> int \<Rightarrow> 'st line list \<times> int" where
  "leaf_insertInner ls h at ins height =
     (js_slice ls 0 at @ ins @ js_slice_from ls at, h + height)"

function split_leaf :: "'st line list \<Rightarrow> int \<Rightarrow> 'st line chunk list \<Rightarrow> 'st line chunk list" where
  "split_leaf ls h siblings =
     (if length ls > 50
      then (let newleaf = LeafChunk (drop (length ls - 25) ls)
            in split_leaf (take (length ls - 25) ls) (h - chunkHeight newleaf) (newleaf # siblings))
      else Leaf ls h # siblings)"
  by pat_completeness auto
termination
  by (relation "measure (\<lambda>(ls, _, _). length ls)") auto

declare split_leaf.simps [simp del]

text \<open>The loop of \<open>maybeSpill\<close>: the last five children become a new sibling until at most ten are left.\<close>

function spill_loop ::
  "'st line chunk list \<Rightarrow> 'st line chunk list \<Rightarrow> 'st line chunk list \<times> 'st line chunk list" where
  "spill_loop cs siblings =
     (let spilled = drop (length cs - 5) cs; kept = take (length cs - 5) cs;
          siblings' = BranchChunk spilled # siblings
      in if length kept > 10 then spill_loop kept siblings' else (kept, siblings'))"
  by pat_completeness auto
termination
  by (relation "measure (\<lambda>(cs, _). length cs)") auto

declare spill_loop.simps [simp del]

definition maybeSpill :: "'st line chunk list \<Rightarrow> int \<Rightarrow> int \<Rightarrow> 'st line chunk list" where
  "maybeSpill cs sz h =
     (if length cs \<le> 10 then [Branch cs sz h]
      else let (kept, siblings) = spill_loop cs []
           in Branch kept (sz - sum_list (map chunkSize siblings)) (h - sum_list (map chunkHeight siblings)) #
                siblings)"

lemma spill_loop_length:
  "length cs > 10 \<Longrightarrow> spill_loop cs sibs = (kept, sibs') \<Longrightarrow>
    5 < length kept \<and> length kept \<le> 10 \<and> 5 * length sibs' + length kept = 5 * length sibs + length cs"
proof (induction cs sibs arbitrary: kept sibs' rule: spill_loop.induct)
  case (1 cs sibs)
  show ?case
  proof (cases "length (take (length cs - 5) cs) > 10")
    case True
    with 1(3) have "spill_loop (take (length cs - 5) cs) (BranchChunk (drop (length cs - 5) cs) # sibs) = (kept, sibs')"
      by (subst (asm) spill_loop.simps) (simp add: Let_def)
    from 1(1) [OF refl refl refl True _ this] True 1(2) show ?thesis by simp
  next
    case False
    with 1(2,3) show ?thesis by (subst (asm) spill_loop.simps) (auto simp: Let_def)
  qed
qed

text \<open>
  At the root the node stays where it is and becomes the parent of a copy of itself and the new
  siblings; then the root is checked again.
\<close>

function root_maybeSpill :: "'st line chunk list \<Rightarrow> 'st line chunk list" where
  "root_maybeSpill cs =
     (if length cs \<le> 10 then cs
      else let (kept, siblings) = spill_loop cs [];
               copy = BranchChunk (take (length cs - 5) cs);
               rest = butlast siblings
           in root_maybeSpill
                (Branch kept (chunkSize copy - sum_list (map chunkSize rest))
                   (chunkHeight copy - sum_list (map chunkHeight rest)) # siblings))"
  by pat_completeness auto
termination
proof (relation "measure length")
  fix cs :: "'st line chunk list" and x xa y xb xc
  assume "\<not> length cs \<le> 10" "x = spill_loop cs []" "(xa, y) = x"
  then show "(Branch xa (chunkSize xb - sum_list (map chunkSize xc)) (chunkHeight xb - sum_list (map chunkHeight xc)) # y,
      cs) \<in> measure length"
    using spill_loop_length [of cs "[]" xa y] by (simp add: eq_commute)
qed simp

declare root_maybeSpill.simps [simp del]

fun insertInner :: "'st line chunk \<Rightarrow> int \<Rightarrow> 'st line list \<Rightarrow> int \<Rightarrow> 'st line chunk list"
  and insert_children ::
    "'st line chunk list \<Rightarrow> int \<Rightarrow> 'st line list \<Rightarrow> int \<Rightarrow> 'st line chunk list \<times> bool" where
  "insertInner (Leaf ls h) at ins height =
     (let (ls', h') = leaf_insertInner ls h at ins height in split_leaf ls' h' [])"
| "insertInner (Branch cs s h) at ins height =
     (let (cs', grew) = insert_children cs at ins height;
          s' = s + int (length ins); h' = h + height
      in if grew then maybeSpill cs' s' h' else [Branch cs' s' h'])"
| "insert_children [] at ins height = ([], False)"
| "insert_children (c # cs) at ins height =
     (let sz = chunkSize c
      in if at \<le> sz
         then (let new = insertInner c at ins height in (new @ cs, length new > 1))
         else let (cs', grew) = insert_children cs (at - sz) ins height in (c # cs', grew))"

definition root_insertInner :: "'st line chunk \<Rightarrow> int \<Rightarrow> 'st line list \<Rightarrow> int \<Rightarrow> 'st line chunk" where
  "root_insertInner root at ins height =
     (case root of
        Leaf ls h \<Rightarrow> root
      | Branch cs s h \<Rightarrow>
          let (cs', grew) = insert_children cs at ins height
          in Branch (if grew then root_maybeSpill cs' else cs') (s + int (length ins)) (h + height))"

subsection \<open>Finding lines\<close>

fun get_chunk :: "'l chunk \<Rightarrow> int \<Rightarrow> 'l option"
  and get_children :: "'l chunk list \<Rightarrow> int \<Rightarrow> 'l option" where
  "get_chunk (Leaf ls h) n = js_at ls n"
| "get_chunk (Branch cs s h) n = get_children cs n"
| "get_children [] n = None"
| "get_children (c # cs) n = (if n < chunkSize c then get_chunk c n else get_children cs (n - chunkSize c))"

text \<open>Iterating: \<open>op\<close> changes a state and says whether to stop, as the callback does by returning true.\<close>

fun iter_lines :: "('l \<Rightarrow> 's \<Rightarrow> bool \<times> 's) \<Rightarrow> 'l list \<Rightarrow> 's \<Rightarrow> bool \<times> 's" where
  "iter_lines f [] s = (False, s)"
| "iter_lines f (l # ls) s = (let (stop, s') = f l s in if stop then (True, s') else iter_lines f ls s')"

fun iterN :: "('l \<Rightarrow> 's \<Rightarrow> bool \<times> 's) \<Rightarrow> 'l chunk \<Rightarrow> int \<Rightarrow> int \<Rightarrow> 's \<Rightarrow> bool \<times> 's"
  and iter_children :: "('l \<Rightarrow> 's \<Rightarrow> bool \<times> 's) \<Rightarrow> 'l chunk list \<Rightarrow> int \<Rightarrow> int \<Rightarrow> 's \<Rightarrow> bool \<times> 's" where
  "iterN f (Leaf ls h) at n s = iter_lines f (js_slice ls at (at + max 0 n)) s"
| "iterN f (Branch cs sz h) at n s = iter_children f cs at n s"
| "iter_children f [] at n s = (False, s)"
| "iter_children f (c # cs) at n s =
     (let sz = chunkSize c
      in if at < sz then
           (let used = min n (sz - at); (stop, s') = iterN f c at used s
            in if stop then (True, s')
               else if n - used = 0 then (False, s')
               else iter_children f cs 0 (n - used) s')
         else iter_children f cs (at - sz) n s)"

text \<open>
  \<open>lineNo\<close> goes from a line up through the parent links; the chunks on the way are those that contain
  the line.
\<close>

fun line_index :: "nat \<Rightarrow> 'st line list \<Rightarrow> int option" where
  "line_index i [] = None"
| "line_index i (l # ls) = (if l_id l = i then Some 0 else map_option (\<lambda>k. k + 1) (line_index i ls))"

fun no_chunk :: "nat \<Rightarrow> 'st line chunk \<Rightarrow> int option"
  and no_children :: "nat \<Rightarrow> 'st line chunk list \<Rightarrow> int option" where
  "no_chunk i (Leaf ls h) = line_index i ls"
| "no_chunk i (Branch cs s h) = no_children i cs"
| "no_children i [] = None"
| "no_children i (c # cs) =
     (case no_chunk i c of
        Some k \<Rightarrow> Some k
      | None \<Rightarrow> map_option (\<lambda>k. chunkSize c + k) (no_children i cs))"

subsection \<open>Heights\<close>

fun lines_at_height :: "'st line list \<Rightarrow> int \<Rightarrow> int \<Rightarrow> int" where
  "lines_at_height [] h n = n"
| "lines_at_height (l # ls) h n =
     (if h < l_height l then n else lines_at_height ls (h - l_height l) (n + 1))"

fun chunk_at_height :: "'st line chunk \<Rightarrow> int \<Rightarrow> int \<Rightarrow> int"
  and children_at_height :: "'st line chunk list \<Rightarrow> int \<Rightarrow> int \<Rightarrow> int" where
  "chunk_at_height (Leaf ls lh) h n = lines_at_height ls h n"
| "chunk_at_height (Branch cs s bh) h n = children_at_height cs h n"
| "children_at_height [] h n = n"
| "children_at_height (c # cs) h n =
     (if h < chunkHeight c then chunk_at_height c h n
      else children_at_height cs (h - chunkHeight c) (n + chunkSize c))"

fun lines_height_above :: "nat \<Rightarrow> 'st line list \<Rightarrow> int option" where
  "lines_height_above i [] = None"
| "lines_height_above i (l # ls) =
     (if l_id l = i then Some 0 else map_option (\<lambda>h. l_height l + h) (lines_height_above i ls))"

fun height_above :: "nat \<Rightarrow> 'st line chunk \<Rightarrow> int option"
  and height_above_children :: "nat \<Rightarrow> 'st line chunk list \<Rightarrow> int option" where
  "height_above i (Leaf ls h) = lines_height_above i ls"
| "height_above i (Branch cs s h) = height_above_children i cs"
| "height_above_children i [] = None"
| "height_above_children i (c # cs) =
     (case height_above i c of
        Some h \<Rightarrow> Some h
      | None \<Rightarrow> map_option (\<lambda>h. chunkHeight c + h) (height_above_children i cs))"

text \<open>Changing the line with a given identity: the difference of its height is added to every chunk
  above it, as \<open>updateLineHeight\<close> does along the parent links.\<close>

fun update_lines :: "nat \<Rightarrow> ('st line \<Rightarrow> 'st line) \<Rightarrow> 'st line list \<Rightarrow> ('st line list \<times> int) option" where
  "update_lines i f [] = None"
| "update_lines i f (l # ls) =
     (if l_id l = i then Some (f l # ls, l_height (f l) - l_height l)
      else map_option (\<lambda>(ls', d). (l # ls', d)) (update_lines i f ls))"

fun update_chunk :: "nat \<Rightarrow> ('st line \<Rightarrow> 'st line) \<Rightarrow> 'st line chunk \<Rightarrow> ('st line chunk \<times> int) option"
  and update_children ::
    "nat \<Rightarrow> ('st line \<Rightarrow> 'st line) \<Rightarrow> 'st line chunk list \<Rightarrow> ('st line chunk list \<times> int) option" where
  "update_chunk i f (Leaf ls h) = map_option (\<lambda>(ls', d). (Leaf ls' (h + d), d)) (update_lines i f ls)"
| "update_chunk i f (Branch cs s h) =
     map_option (\<lambda>(cs', d). (Branch cs' s (h + d), d)) (update_children i f cs)"
| "update_children i f [] = None"
| "update_children i f (c # cs) =
     (case update_chunk i f c of
        Some (c', d) \<Rightarrow> Some (c' # cs, d)
      | None \<Rightarrow> map_option (\<lambda>(cs', d). (c # cs', d)) (update_children i f cs))"

section \<open>The invariant of the tree\<close>

text \<open>Cached sizes and heights are exact; leaves have at most 50 lines and branches at most ten children.\<close>

fun chunk_ok :: "'st line chunk \<Rightarrow> bool" where
  "chunk_ok (Leaf ls h) \<longleftrightarrow> h = lines_height ls \<and> length ls \<le> 50"
| "chunk_ok (Branch cs s h) \<longleftrightarrow> list_all chunk_ok cs \<and> cs \<noteq> [] \<and> length cs \<le> 10 \<and>
     s = sum_list (map chunkSize cs) \<and> h = sum_list (map chunkHeight cs)"

lemma lines_height_simps [simp]:
  "lines_height [] = 0" "lines_height (l # ls) = l_height l + lines_height ls"
  "lines_height (xs @ ys) = lines_height xs + lines_height ys"
  by (simp_all add: lines_height_def)

lemma collapse_children_append [simp]:
  "collapse_children (cs @ ds) = collapse_children cs @ collapse_children ds"
  by (induction cs) simp_all

lemma chunk_ok_cached:
  fixes c :: "'st line chunk" and cs :: "'st line chunk list"
  shows "chunk_ok c \<Longrightarrow> chunkSize c = int (length (collapse c)) \<and> chunkHeight c = lines_height (collapse c)"
    and "list_all chunk_ok cs \<Longrightarrow> sum_list (map chunkSize cs) = int (length (collapse_children cs)) \<and>
    sum_list (map chunkHeight cs) = lines_height (collapse_children cs)"
  by (induction c and cs rule: collapse_collapse_children.induct) simp_all

lemma chunk_ok_size [simp]: "chunk_ok c \<Longrightarrow> chunkSize c = int (length (collapse c))"
  and chunk_ok_height [simp]: "chunk_ok c \<Longrightarrow> chunkHeight c = lines_height (collapse c)"
  and children_size [simp]: "list_all chunk_ok cs \<Longrightarrow> sum_list (map chunkSize cs) = int (length (collapse_children cs))"
  and children_height [simp]: "list_all chunk_ok cs \<Longrightarrow> sum_list (map chunkHeight cs) = lines_height (collapse_children cs)"
  using chunk_ok_cached by blast+

lemma LeafChunk_ok: "length ls \<le> 50 \<Longrightarrow> chunk_ok (LeafChunk ls)"
  by (simp add: LeafChunk_def)

lemma collapse_LeafChunk [simp]: "collapse (LeafChunk ls) = ls"
  by (simp add: LeafChunk_def)

lemma BranchChunk_ok: "list_all chunk_ok cs \<Longrightarrow> cs \<noteq> [] \<Longrightarrow> length cs \<le> 10 \<Longrightarrow> chunk_ok (BranchChunk cs)"
  by (simp add: BranchChunk_def)

lemma collapse_BranchChunk [simp]: "collapse (BranchChunk cs) = collapse_children cs"
  by (simp add: BranchChunk_def)

lemma list_all_take_drop: "list_all P xs \<Longrightarrow> list_all P (take n xs) \<and> list_all P (drop n xs)"
  by (metis append_take_drop_id list_all_append)

lemma collapse_children_take_drop:
  "collapse_children (take n cs) @ collapse_children (drop n cs) = collapse_children cs"
  by (metis append_take_drop_id collapse_children_append)

section \<open>Removing refines removing from a list\<close>

definition list_remove :: "nat \<Rightarrow> nat \<Rightarrow> 'a list \<Rightarrow> 'a list" where
  "list_remove at n xs = take at xs @ drop (at + n) xs"

definition list_insert :: "nat \<Rightarrow> 'a list \<Rightarrow> 'a list \<Rightarrow> 'a list" where
  "list_insert at ins xs = take at xs @ ins @ drop at xs"

lemma length_list_remove [simp]: "at + n \<le> length xs \<Longrightarrow> length (list_remove at n xs) = length xs - n"
  by (simp add: list_remove_def)

lemma list_remove_heights:
  "at + n \<le> length xs \<Longrightarrow>
    lines_height (list_remove at n xs) = lines_height xs - lines_height (take n (drop at xs))"
proof -
  have "xs = take at xs @ take n (drop at xs) @ drop (at + n) xs"
    by (metis append_take_drop_id drop_drop add.commute)
  then have "lines_height xs =
      lines_height (take at xs) + (lines_height (take n (drop at xs)) + lines_height (drop (at + n) xs))"
    by (metis lines_height_simps(3))
  then show ?thesis by (simp add: list_remove_def)
qed

lemma leaf_removeInner_ok:
  "chunk_ok (Leaf ls h) \<Longrightarrow> at + n \<le> length ls \<Longrightarrow>
    chunk_ok (leaf_removeInner ls h (int at) (int n)) \<and>
    collapse (leaf_removeInner ls h (int at) (int n)) = list_remove at n ls"
  using list_remove_heights [of at n ls] js_slice_nat [of at "at + n" ls]
  by (auto simp: leaf_removeInner_def js_splice_def list_remove_def)

lemma collapse_small_ok:
  assumes "list_all chunk_ok cs" and "length cs \<le> 10" and "sz = int (length (collapse_children cs))"
    and "h = lines_height (collapse_children cs)"
  shows "chunk_ok (collapse_small cs sz h 0) \<and> collapse (collapse_small cs sz h 0) = collapse_children cs"
  using assms LeafChunk_ok [of "collapse_children cs"]
  by (cases cs) (auto simp: collapse_small_def single_leaf_def)

lemma list_remove_split:
  "at \<le> length xs \<Longrightarrow> at + n \<le> length xs + length ys \<Longrightarrow>
    list_remove at n (xs @ ys) = list_remove at (min n (length xs - at)) xs @ list_remove 0 (n - (length xs - at)) ys"
  by (cases "n \<le> length xs - at") (auto simp: list_remove_def add.commute)

lemma list_remove_skip: "length xs \<le> at \<Longrightarrow> list_remove at n (xs @ ys) = xs @ list_remove (at - length xs) n ys"
  by (simp add: list_remove_def)

lemma list_remove_0 [simp]: "list_remove at 0 xs = xs"
  by (simp add: list_remove_def)

lemma list_remove_all: "list_remove 0 (length xs) xs = []"
  by (simp add: list_remove_def)

lemma removeInner_ok:
  fixes c :: "'st line chunk" and cs :: "'st line chunk list"
  shows "chunk_ok c \<Longrightarrow> at + n \<le> length (collapse c) \<Longrightarrow>
    chunk_ok (removeInner c (int at) (int n)) \<and>
    collapse (removeInner c (int at) (int n)) = list_remove at n (collapse c)"
    and "list_all chunk_ok cs \<Longrightarrow> at + n \<le> length (collapse_children cs) \<Longrightarrow>
    \<exists>cs'. remove_children cs (int at) (int n) h =
        (cs', 0, h - lines_height (collapse_children cs) + lines_height (collapse_children cs')) \<and>
      list_all chunk_ok cs' \<and> length cs' \<le> length cs \<and>
      collapse_children cs' = list_remove at n (collapse_children cs)"
proof (induction c and cs arbitrary: at n and at n h rule: collapse_collapse_children.induct)
  case (1 ls h)
  then show ?case using leaf_removeInner_ok [of ls h at n] by simp
next
  case (2 cs s h)
  then obtain cs' where cs': "remove_children cs (int at) (int n) h =
        (cs', 0, h - lines_height (collapse_children cs) + lines_height (collapse_children cs'))"
      "list_all chunk_ok cs'" "length cs' \<le> length cs"
      "collapse_children cs' = list_remove at n (collapse_children cs)"
    using 2(1) [of at n h] by auto
  have "s - int n = int (length (collapse_children cs'))" using 2(2,3) cs'(4) by (simp add: of_nat_diff)
  with collapse_small_ok [OF cs'(2) _ this refl] 2(2) cs' show ?case by simp
next
  case 3
  then show ?case by simp
next
  case (4 c cs)
  then have ok: "chunk_ok c" "list_all chunk_ok cs" by simp_all
  let ?L = "length (collapse c)"
  show ?case
  proof (cases "at < ?L")
    case lt: True
    define rm where "rm = min n (?L - at)"
    have "at + rm \<le> ?L" using lt by (simp add: rm_def)
    with 4(1) [OF ok(1)] have c': "chunk_ok (removeInner c (int at) (int rm))"
      "collapse (removeInner c (int at) (int rm)) = list_remove at rm (collapse c)" by blast+
    have rm_int: "min (int n) (int ?L - int at) = int rm" using lt by (simp add: rm_def)
    define kept where "kept = (if ?L = rm then [] else [removeInner c (int at) (int rm)])"
    have kept: "list_all chunk_ok kept" "length kept \<le> 1"
      "collapse_children kept = list_remove at rm (collapse c)"
      using c' \<open>at + rm \<le> ?L\<close> by (auto simp: kept_def list_remove_all)
    have "at + n \<le> ?L + length (collapse_children cs)" using 4(4) by simp
    from list_remove_split [OF less_imp_le [OF lt] this]
    have split: "list_remove at n (collapse_children (c # cs)) =
        list_remove at rm (collapse c) @ list_remove 0 (n - (?L - at)) (collapse_children cs)"
      by (simp add: rm_def)
    show ?thesis
    proof (cases "n = rm")
      case same: True
      then have "n - (?L - at) = 0" by (simp add: rm_def)
      with split kept ok c' same lt rm_int show ?thesis
        by (intro exI [of _ "kept @ cs"]) (simp add: Let_def kept_def)
    next
      case False
      then have n': "n - (?L - at) = n - rm" "int n - int rm = int (n - rm)" by (auto simp: rm_def)
      have "0 + (n - rm) \<le> length (collapse_children cs)" using 4(4) False by (auto simp: rm_def)
      let ?h = "h - (lines_height (collapse c) - lines_height (list_remove at rm (collapse c)))"
      from 4(2) [OF ok(2) \<open>0 + (n - rm) \<le> _\<close>, of ?h] obtain cs' where
        cs': "remove_children cs 0 (int (n - rm)) ?h =
            (cs', 0, ?h - lines_height (collapse_children cs) + lines_height (collapse_children cs'))"
          "list_all chunk_ok cs'" "length cs' \<le> length cs"
          "collapse_children cs' = list_remove 0 (n - rm) (collapse_children cs)"
        by auto
      have "remove_children (c # cs) (int at) (int n) h = (kept @ cs', 0,
          ?h - lines_height (collapse_children cs) + lines_height (collapse_children cs'))"
        using lt False ok c' rm_int cs'(1) [folded n'(2)]
        by (simp add: Let_def kept_def)
      then show ?thesis
        using kept cs' split n'(1) by (intro exI [of _ "kept @ cs'"]) simp
    qed
  next
    case False
    then have i: "int at - int ?L = int (at - ?L)" by simp
    have "at - ?L + n \<le> length (collapse_children cs)" using 4(4) False by simp
    from 4(2) [OF ok(2) this, of h] obtain cs' where cs': "remove_children cs (int (at - ?L)) (int n) h =
          (cs', 0, h - lines_height (collapse_children cs) + lines_height (collapse_children cs'))"
        "list_all chunk_ok cs'" "length cs' \<le> length cs"
        "collapse_children cs' = list_remove (at - ?L) n (collapse_children cs)" by blast
    have "remove_children (c # cs) (int at) (int n) h =
        (c # cs', 0, h - lines_height (collapse_children cs) + lines_height (collapse_children cs'))"
      using False ok cs'(1) [folded i] by (simp add: Let_def)
    with False ok cs'(2-4) show ?thesis
      by (intro exI [of _ "c # cs'"]) (simp add: list_remove_skip)
  qed
qed

section \<open>Inserting refines inserting into a list\<close>

lemma split_leaf_ok:
  "h = lines_height ls \<Longrightarrow> list_all chunk_ok siblings \<Longrightarrow>
    list_all chunk_ok (split_leaf ls h siblings) \<and>
    collapse_children (split_leaf ls h siblings) = ls @ collapse_children siblings"
proof (induction ls h siblings rule: split_leaf.induct)
  case (1 ls h siblings)
  show ?case
  proof (cases "length ls > 50")
    case True
    let ?new = "LeafChunk (drop (length ls - 25) ls)"
    have new: "chunk_ok ?new" by (rule LeafChunk_ok) simp
    have "lines_height ls = lines_height (take (length ls - 25) ls) + lines_height (drop (length ls - 25) ls)"
      by (metis append_take_drop_id lines_height_simps(3))
    then have "h - chunkHeight ?new = lines_height (take (length ls - 25) ls)"
      using 1(2) new by simp
    with 1(1) [OF True refl this] 1(3) new True show ?thesis
      by (subst (1 2) split_leaf.simps) (simp add: Let_def)
  next
    case False
    with 1 show ?thesis by (subst (1 2) split_leaf.simps) simp
  qed
qed

lemma split_leaf_nonempty: "split_leaf ls h siblings \<noteq> []"
proof (induction ls h siblings rule: split_leaf.induct)
  case (1 ls h siblings)
  then show ?case by (subst split_leaf.simps) (simp add: Let_def)
qed

lemma spill_loop_ok:
  "length cs > 10 \<Longrightarrow> list_all chunk_ok cs \<Longrightarrow> list_all chunk_ok sibs \<Longrightarrow> spill_loop cs sibs = (kept, sibs') \<Longrightarrow>
    list_all chunk_ok kept \<and> list_all chunk_ok sibs' \<and>
    collapse_children kept @ collapse_children sibs' = collapse_children cs @ collapse_children sibs"
proof (induction cs sibs arbitrary: kept sibs' rule: spill_loop.induct)
  case (1 cs sibs)
  let ?k = "take (length cs - 5) cs" and ?s = "BranchChunk (drop (length cs - 5) cs) # sibs"
  have s: "list_all chunk_ok ?s"
    using BranchChunk_ok [of "drop (length cs - 5) cs"] list_all_take_drop [OF 1(3)] 1(2,4) by auto
  have k: "list_all chunk_ok ?k" using list_all_take_drop 1(3) by blast
  have eq: "collapse_children ?k @ collapse_children ?s = collapse_children cs @ collapse_children sibs"
    using collapse_children_take_drop [of "length cs - 5" cs] by simp
  show ?case
  proof (cases "length ?k > 10")
    case True
    with 1(5) have "spill_loop ?k ?s = (kept, sibs')" by (subst (asm) spill_loop.simps) (simp add: Let_def)
    from 1(1) [OF refl refl refl True True k s this] eq show ?thesis by simp
  next
    case False
    with 1(5) have "kept = ?k" "sibs' = ?s" by (subst (asm) spill_loop.simps, simp add: Let_def)+
    with k s eq show ?thesis by simp
  qed
qed

lemma maybeSpill_ok:
  assumes "list_all chunk_ok cs" and "cs \<noteq> []" and "sz = int (length (collapse_children cs))"
    and "h = lines_height (collapse_children cs)"
  shows "list_all chunk_ok (maybeSpill cs sz h) \<and> collapse_children (maybeSpill cs sz h) = collapse_children cs"
proof (cases "length cs \<le> 10")
  case True
  with assms show ?thesis by (simp add: maybeSpill_def)
next
  case False
  obtain kept sibs where sp: "spill_loop cs [] = (kept, sibs)" by fastforce
  from spill_loop_ok [OF _ assms(1) _ sp] False have
    ok: "list_all chunk_ok kept" "list_all chunk_ok sibs"
      "collapse_children kept @ collapse_children sibs = collapse_children cs" by simp_all
  have "length kept \<le> 10" "kept \<noteq> []" using spill_loop_length [OF _ sp] False by auto
  moreover have "int (length (collapse_children cs)) - int (length (collapse_children sibs)) = int (length (collapse_children kept))"
    "lines_height (collapse_children cs) - lines_height (collapse_children sibs) = lines_height (collapse_children kept)"
    unfolding ok(3) [symmetric] by simp_all
  ultimately show ?thesis using False sp ok assms by (simp add: maybeSpill_def)
qed

lemma spill_loop_last:
  "length cs > 10 \<Longrightarrow> spill_loop cs sibs = (kept, sibs') \<Longrightarrow>
    \<exists>rest. sibs' = rest @ BranchChunk (drop (length cs - 5) cs) # sibs"
proof (induction cs sibs arbitrary: kept sibs' rule: spill_loop.induct)
  case (1 cs sibs)
  show ?case
  proof (cases "length (take (length cs - 5) cs) > 10")
    case True
    with 1(3) have "spill_loop (take (length cs - 5) cs) (BranchChunk (drop (length cs - 5) cs) # sibs) = (kept, sibs')"
      by (subst (asm) spill_loop.simps) (simp add: Let_def)
    from 1(1) [OF refl refl refl True True this] show ?thesis by auto
  next
    case False
    with 1(3) show ?thesis by (subst (asm) spill_loop.simps) (simp add: Let_def)
  qed
qed

lemma root_maybeSpill_ok:
  "list_all chunk_ok cs \<Longrightarrow>
    list_all chunk_ok (root_maybeSpill cs) \<and> length (root_maybeSpill cs) \<le> 10 \<and>
    collapse_children (root_maybeSpill cs) = collapse_children cs"
proof (induction "length cs" arbitrary: cs rule: less_induct)
  case less
  show ?case
  proof (cases "length cs \<le> 10")
    case True
    with less(2) show ?thesis by (subst (1 2 3) root_maybeSpill.simps) simp
  next
    case False
    obtain kept sibs where sp: "spill_loop cs [] = (kept, sibs)" by fastforce
    from spill_loop_ok [OF _ less(2) _ sp] False have
      ok: "list_all chunk_ok kept" "list_all chunk_ok sibs"
        "collapse_children kept @ collapse_children sibs = collapse_children cs" by simp_all
    have len: "length kept \<le> 10" "kept \<noteq> []" "length (c # sibs) < length cs" for c :: "'a line chunk"
      using spill_loop_length [OF _ sp] False by auto
    let ?last = "BranchChunk (drop (length cs - 5) cs)" and ?init = "take (length cs - 5) cs"
    obtain rest where rest: "sibs = rest @ [?last]" using spill_loop_last [OF _ sp] False by auto
    have i: "list_all chunk_ok ?init" "list_all chunk_ok rest"
      using list_all_take_drop [OF less(2)] ok(2) rest by auto
    have "collapse_children sibs = collapse_children rest @ collapse_children (drop (length cs - 5) cs)"
      unfolding rest by simp
    then have "(collapse_children kept @ collapse_children rest) @ collapse_children (drop (length cs - 5) cs) =
        collapse_children ?init @ collapse_children (drop (length cs - 5) cs)"
      using ok(3) collapse_children_take_drop [of "length cs - 5" cs] by simp
    then have "collapse_children ?init = collapse_children kept @ collapse_children rest" by simp
    then have sums: "int (length (collapse_children ?init)) - int (length (collapse_children rest)) = int (length (collapse_children kept))"
      "lines_height (collapse_children ?init) - lines_height (collapse_children rest) = lines_height (collapse_children kept)"
      by simp_all
    let ?cs = "Branch kept (int (length (collapse_children kept))) (lines_height (collapse_children kept)) # sibs"
    have eq: "root_maybeSpill cs = root_maybeSpill ?cs"
      using False sp rest i sums by (subst root_maybeSpill.simps) (simp add: Let_def BranchChunk_def)
    have ok': "list_all chunk_ok ?cs" and col: "collapse_children ?cs = collapse_children cs"
      using ok len by simp_all
    show ?thesis
      using less(1) [OF len(3) ok'] by (simp only: eq col)
  qed
qed

lemma leaf_insertInner_eq:
  "at \<le> length ls \<Longrightarrow> leaf_insertInner ls h (int at) ins ht = (list_insert at ins ls, h + ht)"
  by (simp add: leaf_insertInner_def list_insert_def js_str)

lemma lines_height_insert [simp]: "lines_height (list_insert at ins xs) = lines_height xs + lines_height ins"
proof -
  have "lines_height xs = lines_height (take at xs) + lines_height (drop at xs)"
    by (metis append_take_drop_id lines_height_simps(3))
  then show ?thesis by (simp add: list_insert_def)
qed

lemma length_list_insert [simp]: "length (list_insert at ins xs) = length xs + length ins"
  by (simp add: list_insert_def min_def)

lemma list_insert_left: "at \<le> length xs \<Longrightarrow> list_insert at ins (xs @ ys) = list_insert at ins xs @ ys"
  by (simp add: list_insert_def)

lemma list_insert_right:
  "length xs < at \<Longrightarrow> list_insert at ins (xs @ ys) = xs @ list_insert (at - length xs) ins ys"
  by (simp add: list_insert_def)

lemma maybeSpill_nonempty: "maybeSpill cs sz h \<noteq> []"
  by (auto simp: maybeSpill_def Let_def split: prod.split)

lemma insert_children_nonempty:
  "insert_children cs at ins ht = (cs', grew) \<Longrightarrow> cs \<noteq> [] \<Longrightarrow> cs' \<noteq> []"
proof (induction cs arbitrary: at cs' grew)
  case (Cons c cs)
  have "insertInner c at ins ht \<noteq> []"
    by (cases c) (auto simp: Let_def split_leaf_nonempty maybeSpill_nonempty split: prod.split)
  with Cons.prems show ?case by (auto simp: Let_def split: if_splits prod.splits)
qed simp

lemma root_maybeSpill_nonempty: "cs \<noteq> [] \<Longrightarrow> root_maybeSpill cs \<noteq> []"
proof (induction cs rule: root_maybeSpill.induct)
  case (1 cs)
  then show ?case by (subst root_maybeSpill.simps) (auto simp: Let_def split: prod.split)
qed

lemma insertInner_ok:
  fixes c :: "'st line chunk" and cs :: "'st line chunk list"
  shows "chunk_ok c \<Longrightarrow> at \<le> length (collapse c) \<Longrightarrow>
      list_all chunk_ok (insertInner c (int at) ins (lines_height ins)) \<and>
      collapse_children (insertInner c (int at) ins (lines_height ins)) = list_insert at ins (collapse c) \<and>
      insertInner c (int at) ins (lines_height ins) \<noteq> []"
    and "list_all chunk_ok cs \<Longrightarrow> at \<le> length (collapse_children cs) \<Longrightarrow> cs \<noteq> [] \<Longrightarrow>
      (case insert_children cs (int at) ins (lines_height ins) of (cs', grew) \<Rightarrow>
        list_all chunk_ok cs' \<and> collapse_children cs' = list_insert at ins (collapse_children cs) \<and>
        (\<not> grew \<longrightarrow> length cs' = length cs))"
proof (induction c and cs arbitrary: at and at rule: collapse_collapse_children.induct)
  case (1 ls h)
  then show ?case
    using split_leaf_ok [of "h + lines_height ins" "list_insert at ins ls" "[]"]
    by (simp add: leaf_insertInner_eq split_leaf_nonempty)
next
  case (2 cs s h)
  let ?r = "insert_children cs (int at) ins (lines_height ins)"
  obtain cs' grew where r: "?r = (cs', grew)" by fastforce
  have c: "list_all chunk_ok cs'" "collapse_children cs' = list_insert at ins (collapse_children cs)"
    "\<not> grew \<longrightarrow> length cs' = length cs"
    using 2(1) [of at] 2(2,3) r by auto
  have "cs' \<noteq> []" using c 2(2,3) insert_children_nonempty [OF r] by auto
  have s': "s + int (length ins) = int (length (collapse_children cs'))"
    "h + lines_height ins = lines_height (collapse_children cs')" using 2(2) c(2) by auto
  show ?case
  proof (cases grew)
    case True
    then have "insertInner (Branch cs s h) (int at) ins (lines_height ins) =
        maybeSpill cs' (s + int (length ins)) (h + lines_height ins)" using r by simp
    then show ?thesis
      using maybeSpill_ok [OF c(1) \<open>cs' \<noteq> []\<close> s'] c(2) maybeSpill_nonempty by (simp del: insertInner.simps)
  next
    case False
    then have "insertInner (Branch cs s h) (int at) ins (lines_height ins) =
        [Branch cs' (s + int (length ins)) (h + lines_height ins)]" using r by simp
    moreover have "length cs' \<le> 10" using False c(3) 2(2) by simp
    ultimately show ?thesis using c s' \<open>cs' \<noteq> []\<close> by simp
  qed
next
  case 3
  then show ?case by simp
next
  case (4 c cs)
  then have ok: "chunk_ok c" "list_all chunk_ok cs" by simp_all
  show ?case
  proof (cases "at \<le> length (collapse c)")
    case True
    let ?new = "insertInner c (int at) ins (lines_height ins)"
    have new: "list_all chunk_ok ?new" "collapse_children ?new = list_insert at ins (collapse c)" "?new \<noteq> []"
      using 4(1) [OF ok(1) True] by blast+
    have "insert_children (c # cs) (int at) ins (lines_height ins) = (?new @ cs, length ?new > 1)"
      using True ok by (simp add: Let_def)
    moreover have "\<not> length ?new > 1 \<Longrightarrow> length (?new @ cs) = length (c # cs)"
      using new(3) by (cases ?new) auto
    ultimately show ?thesis using new ok True by (simp add: list_insert_left)
  next
    case False
    let ?at = "at - length (collapse c)"
    have i: "int at - int (length (collapse c)) = int ?at" using False by simp
    have "cs \<noteq> []" using 4(4) False by auto
    moreover have "?at \<le> length (collapse_children cs)" using 4(4) by simp
    moreover obtain cs' grew where r: "insert_children cs (int ?at) ins (lines_height ins) = (cs', grew)" by fastforce
    ultimately have cs': "list_all chunk_ok cs'" "collapse_children cs' = list_insert ?at ins (collapse_children cs)"
      "\<not> grew \<longrightarrow> length cs' = length cs"
      using 4(2) [OF ok(2), of ?at] by auto
    have "insert_children (c # cs) (int at) ins (lines_height ins) = (c # cs', grew)"
      using False ok r [folded i] by (simp add: Let_def)
    with cs' False ok show ?thesis by (simp add: list_insert_right)
  qed
qed

lemma root_insertInner_ok:
  assumes "chunk_ok (Branch cs s h)" and "at \<le> length (collapse_children cs)"
  shows "chunk_ok (root_insertInner (Branch cs s h) (int at) ins (lines_height ins)) \<and>
    collapse (root_insertInner (Branch cs s h) (int at) ins (lines_height ins)) =
      list_insert at ins (collapse_children cs)"
proof -
  obtain cs' grew where r: "insert_children cs (int at) ins (lines_height ins) = (cs', grew)" by fastforce
  with insertInner_ok(2) [of cs at ins] assms have
    c: "list_all chunk_ok cs'" "collapse_children cs' = list_insert at ins (collapse_children cs)"
      "\<not> grew \<longrightarrow> length cs' = length cs" by auto
  have ne: "cs' \<noteq> []" using insert_children_nonempty [OF r] assms(1) by auto
  show ?thesis
    using root_maybeSpill_ok [OF c(1)] root_maybeSpill_nonempty [OF ne] c ne assms(1) r
    by (cases grew) (auto simp: root_insertInner_def)
qed

section \<open>Lookups refine list lookups\<close>

lemma get_chunk_ok:
  fixes c :: "'st line chunk" and cs :: "'st line chunk list"
  shows "chunk_ok c \<Longrightarrow> 0 \<le> n \<Longrightarrow> get_chunk c n = js_at (collapse c) n"
    and "list_all chunk_ok cs \<Longrightarrow> 0 \<le> n \<Longrightarrow> get_children cs n = js_at (collapse_children cs) n"
proof (induction c and cs arbitrary: n and n rule: collapse_collapse_children.induct)
  case (4 c cs)
  then show ?case
    by (auto simp: js_at_def nth_append nat_diff_distrib' less_diff_eq)
qed (simp_all add: js_at_def)

lemma iter_lines_append:
  "iter_lines f (xs @ ys) s = (let (stop, s') = iter_lines f xs s in if stop then (True, s') else iter_lines f ys s')"
  by (induction f xs s rule: iter_lines.induct) (auto simp: Let_def split: prod.splits)

lemma iterN_ok:
  fixes c :: "'st line chunk" and cs :: "'st line chunk list"
  shows "chunk_ok c \<Longrightarrow> at + n \<le> length (collapse c) \<Longrightarrow>
      iterN f c (int at) (int n) s = iter_lines f (take n (drop at (collapse c))) s"
    and "list_all chunk_ok cs \<Longrightarrow> at + n \<le> length (collapse_children cs) \<Longrightarrow>
      iter_children f cs (int at) (int n) s = iter_lines f (take n (drop at (collapse_children cs))) s"
proof (induction c and cs arbitrary: at n s and at n s rule: collapse_collapse_children.induct)
  case (1 ls h)
  then show ?case using js_slice_nat [of at "at + n" ls] by simp
next
  case (4 c cs)
  then have ok: "chunk_ok c" "list_all chunk_ok cs" by simp_all
  let ?L = "length (collapse c)"
  show ?case
  proof (cases "at < ?L")
    case True
    define used where "used = min n (?L - at)"
    have u: "min (int n) (int ?L - int at) = int used" using True by (simp add: used_def)
    have d: "int n - int used = int (n - used)" by (simp add: used_def)
    have "at + used \<le> ?L" using True by (simp add: used_def)
    note c = 4(1) [OF ok(1) this, of s]
    obtain stop s' where st: "iter_lines f (take used (drop at (collapse c))) s = (stop, s')" by fastforce
    have split: "take n (drop at (collapse_children (c # cs))) =
        take used (drop at (collapse c)) @ take (n - used) (collapse_children cs)"
      using True by (auto simp: used_def min_def)
    have "0 + (n - used) \<le> length (collapse_children cs)" using 4(4) True by (auto simp: used_def)
    note cs = 4(2) [OF ok(2) this, of s', folded d]
    have "iter_children f (c # cs) (int at) (int n) s =
        (if stop then (True, s') else iter_lines f (take (n - used) (collapse_children cs)) s')"
      using True ok c st u cs by (cases "n = used") (simp_all add: Let_def)
    then show ?thesis unfolding split iter_lines_append st by simp
  next
    case False
    then have i: "int at - int ?L = int (at - ?L)" by simp
    have "at - ?L + n \<le> length (collapse_children cs)" using 4(4) False by simp
    from 4(2) [OF ok(2) this, of s, folded i] False ok show ?thesis by (simp add: Let_def)
  qed
qed simp_all

lemma line_index_append:
  "line_index i (xs @ ys) =
     (case line_index i xs of Some k \<Rightarrow> Some k | None \<Rightarrow> map_option (\<lambda>k. int (length xs) + k) (line_index i ys))"
  by (induction xs; cases "line_index i ys") (auto split: option.split)

lemma no_chunk_ok:
  fixes c :: "'st line chunk" and cs :: "'st line chunk list"
  shows "chunk_ok c \<Longrightarrow> no_chunk i c = line_index i (collapse c)"
    and "list_all chunk_ok cs \<Longrightarrow> no_children i cs = line_index i (collapse_children cs)"
  by (induction c and cs rule: collapse_collapse_children.induct) (simp_all add: line_index_append split: option.split)

lemma line_index_nth:
  "distinct (map l_id ls) \<Longrightarrow> k < length ls \<Longrightarrow> line_index (l_id (ls ! k)) ls = Some (int k)"
proof (induction ls arbitrary: k)
  case (Cons l ls)
  then show ?case by (cases k) auto
qed simp

lemma line_index_Some: "line_index i ls = Some k \<Longrightarrow> 0 \<le> k \<and> k < int (length ls) \<and> l_id (ls ! nat k) = i"
proof (induction ls arbitrary: k)
  case (Cons l ls)
  then show ?case by (fastforce split: if_splits simp: nat_add_distrib)
qed simp

lemma lines_height_nonneg: "\<forall>l \<in> set ls. 0 \<le> l_height l \<Longrightarrow> 0 \<le> lines_height ls"
  by (induction ls) auto

lemma lines_at_height_append:
  "0 \<le> h \<Longrightarrow> \<forall>l \<in> set xs. 0 \<le> l_height l \<Longrightarrow>
    lines_at_height (xs @ ys) h n =
      (if h < lines_height xs then lines_at_height xs h n
       else lines_at_height ys (h - lines_height xs) (n + int (length xs)))"
proof (induction xs arbitrary: h n)
  case (Cons l xs)
  have "0 \<le> lines_height xs" using Cons.prems by (simp add: lines_height_nonneg)
  with Cons show ?case by (simp add: algebra_simps)
qed simp

lemma chunk_at_height_ok:
  fixes c :: "'st line chunk" and cs :: "'st line chunk list"
  shows "chunk_ok c \<Longrightarrow> 0 \<le> h \<Longrightarrow> \<forall>l \<in> set (collapse c). 0 \<le> l_height l \<Longrightarrow>
      chunk_at_height c h n = lines_at_height (collapse c) h n"
    and "list_all chunk_ok cs \<Longrightarrow> 0 \<le> h \<Longrightarrow> \<forall>l \<in> set (collapse_children cs). 0 \<le> l_height l \<Longrightarrow>
      children_at_height cs h n = lines_at_height (collapse_children cs) h n"
  by (induction c and cs arbitrary: h n and h n rule: collapse_collapse_children.induct)
    (simp_all add: lines_at_height_append)

lemma lines_height_above_append:
  "lines_height_above i (xs @ ys) =
     (case lines_height_above i xs of Some k \<Rightarrow> Some k
      | None \<Rightarrow> map_option (\<lambda>k. lines_height xs + k) (lines_height_above i ys))"
  by (induction xs; cases "lines_height_above i ys") (auto split: option.split)

lemma height_above_ok:
  fixes c :: "'st line chunk" and cs :: "'st line chunk list"
  shows "chunk_ok c \<Longrightarrow> height_above i c = lines_height_above i (collapse c)"
    and "list_all chunk_ok cs \<Longrightarrow> height_above_children i cs = lines_height_above i (collapse_children cs)"
  by (induction c and cs rule: collapse_collapse_children.induct) (simp_all add: lines_height_above_append split: option.split)

lemma lines_height_above_nth:
  "distinct (map l_id ls) \<Longrightarrow> k < length ls \<Longrightarrow>
    lines_height_above (l_id (ls ! k)) ls = Some (lines_height (take k ls))"
proof (induction ls arbitrary: k)
  case (Cons l ls)
  then show ?case by (cases k) auto
qed simp

lemma lines_at_height_bounds:
  "\<forall>l \<in> set ls. 0 \<le> l_height l \<Longrightarrow> 0 \<le> h \<Longrightarrow> h < lines_height ls \<Longrightarrow>
    \<exists>k < length ls. lines_at_height ls h n = n + int k \<and>
      lines_height (take k ls) \<le> h \<and> h < lines_height (take (Suc k) ls)"
proof (induction ls arbitrary: h n)
  case (Cons l ls)
  show ?case
  proof (cases "h < l_height l")
    case True
    with Cons.prems show ?thesis by (intro exI [of _ 0]) auto
  next
    case False
    with Cons.IH [of "h - l_height l" "n + 1"] Cons.prems obtain k where "k < length ls"
      "lines_at_height ls (h - l_height l) (n + 1) = n + 1 + int k"
      "lines_height (take k ls) \<le> h - l_height l" "h - l_height l < lines_height (take (Suc k) ls)" by auto
    with False show ?thesis by (intro exI [of _ "Suc k"]) auto
  qed
qed simp

section \<open>Changing a line in place\<close>

lemma update_lines_append:
  "update_lines i f (xs @ ys) =
     (case update_lines i f xs of
        Some (xs', d) \<Rightarrow> Some (xs' @ ys, d)
      | None \<Rightarrow> map_option (\<lambda>(ys', d). (xs @ ys', d)) (update_lines i f ys))"
  by (induction xs; cases "update_lines i f ys") (auto split: option.split)

lemma update_lines_height:
  "update_lines i f ls = Some (ls', d) \<Longrightarrow> lines_height ls' = lines_height ls + d \<and> length ls' = length ls"
  by (induction ls arbitrary: ls') (auto split: if_splits)

lemma update_chunk_ok:
  fixes c :: "'st line chunk" and cs :: "'st line chunk list"
  shows "chunk_ok c \<Longrightarrow>
      (case update_lines i f (collapse c) of
         None \<Rightarrow> update_chunk i f c = None
       | Some (ls, d) \<Rightarrow> \<exists>c'. update_chunk i f c = Some (c', d) \<and> chunk_ok c' \<and> collapse c' = ls)"
    and "list_all chunk_ok cs \<Longrightarrow>
      (case update_lines i f (collapse_children cs) of
         None \<Rightarrow> update_children i f cs = None
       | Some (ls, d) \<Rightarrow> \<exists>cs'. update_children i f cs = Some (cs', d) \<and> list_all chunk_ok cs' \<and>
           length cs' = length cs \<and> collapse_children cs' = ls)"
proof (induction c and cs rule: collapse_collapse_children.induct)
  case (1 ls h)
  then show ?case using update_lines_height [of i f ls] by (auto split: option.split)
next
  case (2 cs s h)
  then show ?case
    using update_lines_height [of i f "collapse_children cs"] by (fastforce split: option.splits)
next
  case 3
  then show ?case by simp
next
  case (4 c cs)
  then show ?case by (auto simp: update_lines_append split: option.splits)
qed

lemma update_lines_nth:
  "distinct (map l_id ls) \<Longrightarrow> k < length ls \<Longrightarrow>
    update_lines (l_id (ls ! k)) f ls = Some (ls[k := f (ls ! k)], l_height (f (ls ! k)) - l_height (ls ! k))"
proof (induction ls arbitrary: k)
  case (Cons l ls)
  then show ?case by (cases k) auto
qed simp

section \<open>The interface of the line store\<close>

text \<open>
  What the document relies on: the tree behaves as the list of its lines. Everything about changes of
  a document is proved from these laws.
\<close>

locale line_store =
  fixes lines :: "'d \<Rightarrow> 'l list" and ok :: "'d \<Rightarrow> bool"
    and fetch :: "'d \<Rightarrow> int \<Rightarrow> 'l option"
    and put :: "'d \<Rightarrow> int \<Rightarrow> 'l list \<Rightarrow> 'd" and del :: "'d \<Rightarrow> int \<Rightarrow> int \<Rightarrow> 'd"
  assumes fetch_law: "ok d \<Longrightarrow> 0 \<le> i \<Longrightarrow> fetch d i = js_at (lines d) i"
    and put_law: "ok d \<Longrightarrow> at \<le> length (lines d) \<Longrightarrow>
      ok (put d (int at) ls) \<and> lines (put d (int at) ls) = list_insert at ls (lines d)"
    and del_law: "ok d \<Longrightarrow> at + n \<le> length (lines d) \<Longrightarrow>
      ok (del d (int at) (int n)) \<and> lines (del d (int at) (int n)) = list_remove at n (lines d)"
begin

text \<open>Deleting \<open>n\<close> lines and inserting others in their place.\<close>

lemma replace_law:
  "ok d \<Longrightarrow> at + n \<le> length (lines d) \<Longrightarrow>
    ok (put (del d (int at) (int n)) (int at) ls) \<and>
    lines (put (del d (int at) (int n)) (int at) ls) = take at (lines d) @ ls @ drop (at + n) (lines d)"
  using del_law [of d at n] put_law [of "del d (int at) (int n)" at ls]
  by (auto simp: list_insert_def list_remove_def)

lemma fetch_nth: "ok d \<Longrightarrow> k < length (lines d) \<Longrightarrow> fetch d (int k) = Some (lines d ! k)"
  by (simp add: fetch_law)

lemma fetch_after_put:
  assumes "ok d" and "at \<le> length (lines d)" and "k < length (lines d) + length ls"
  shows "fetch (put d (int at) ls) (int k) =
    (if k < at then fetch d (int k)
     else if k < at + length ls then Some (ls ! (k - at))
     else fetch d (int (k - length ls)))"
  using put_law [OF assms(1,2), of ls] assms
  by (auto simp: fetch_law list_insert_def js_at_def nth_append simp flip: of_nat_diff)

end

definition root_ok :: "'st line chunk \<Rightarrow> bool" where
  "root_ok root \<longleftrightarrow> chunk_ok root \<and> (\<exists>cs s h. root = Branch cs s h)"

definition root_insert :: "'st line chunk \<Rightarrow> int \<Rightarrow> 'st line list \<Rightarrow> 'st line chunk" where
  "root_insert root at ls = root_insertInner root at ls (lines_height ls)"

lemma removeInner_branch: "\<exists>cs' s' h'. removeInner (Branch cs s h) at n = Branch cs' s' h'"
  by (auto simp: collapse_small_def split: prod.split)

interpretation tree: line_store collapse root_ok get_chunk root_insert removeInner
proof
  fix d :: "'st line chunk" and n :: int
  assume "root_ok d" "0 \<le> n"
  then show "get_chunk d n = js_at (collapse d) n" by (simp add: root_ok_def get_chunk_ok(1))
next
  fix d :: "'st line chunk" and at ls
  assume a: "root_ok d" "at \<le> length (collapse d)"
  then obtain cs s h where d: "d = Branch cs s h" by (auto simp: root_ok_def)
  with a root_insertInner_ok [of cs s h at ls]
  show "root_ok (root_insert d (int at) ls) \<and> collapse (root_insert d (int at) ls) = list_insert at ls (collapse d)"
    by (auto simp: root_ok_def root_insert_def root_insertInner_def split: prod.split)
next
  fix d :: "'st line chunk" and at n
  assume a: "root_ok d" "at + n \<le> length (collapse d)"
  then obtain cs s h where "d = Branch cs s h" by (auto simp: root_ok_def)
  with a removeInner_ok(1) [of d at n] removeInner_branch [of cs s h "int at" "int n"]
  show "root_ok (removeInner d (int at) (int n)) \<and> collapse (removeInner d (int at) (int n)) = list_remove at n (collapse d)"
    by (simp add: root_ok_def)
qed

section \<open>Properties\<close>

text \<open>The changes of the tree: inserting lines at a line number and removing lines in range.\<close>

inductive tree_step :: "'st line chunk \<Rightarrow> 'st line chunk \<Rightarrow> bool" where
  step_insert: "at \<le> length (collapse r) \<Longrightarrow> tree_step r (root_insert r (int at) ls)"
| step_remove: "at + n \<le> length (collapse r) \<Longrightarrow> tree_step r (removeInner r (int at) (int n))"

lemma tree_step_root_ok: "tree_step r r' \<Longrightarrow> root_ok r \<Longrightarrow> root_ok r'"
  by (induction rule: tree_step.induct) (simp_all add: tree.put_law tree.del_law)

lemma initial_tree_ok: "root_ok (BranchChunk [LeafChunk [l]])"
  by (simp add: root_ok_def BranchChunk_ok LeafChunk_ok) (simp add: BranchChunk_def)

lemma reachable_root_ok: "tree_step\<^sup>*\<^sup>* r r' \<Longrightarrow> root_ok r \<Longrightarrow> root_ok r'"
  by (induction rule: rtranclp_induct) (auto intro: tree_step_root_ok)

text \<open>C10: Whatever sequence of insertions and removals is applied to the tree of a new document, leaves
  hold at most 50 lines, every branch has between one and ten children, the cached numbers of lines of all
  chunks are exact, and looking up a line number finds that line. The cached heights of all chunks are exact
  too when the heights of the lines are whole numbers of pixels, as they are in the model; sums of fractional
  heights would be rounded by the code.\<close>

theorem reachable_tree_ok:
  assumes "tree_step\<^sup>*\<^sup>* (BranchChunk [LeafChunk [l]]) r"
  shows "chunk_ok r \<and> chunkSize r = int (length (collapse r)) \<and> chunkHeight r = lines_height (collapse r) \<and>
    (\<forall>k < length (collapse r). get_chunk r (int k) = Some (collapse r ! k))"
proof -
  have "root_ok r" using reachable_root_ok [OF assms initial_tree_ok] .
  then show ?thesis using chunk_ok_cached(1) [of r] tree.fetch_nth [of r] by (auto simp: root_ok_def)
qed

theorem reachable_tree_ok_witness:
  "let l = \<lparr>l_id = 0, l_text = [], l_height = 1, l_spans = [], l_stateAfter = None, l_styles = None, l_order = None\<rparr> :: nat line;
       m = l\<lparr>l_id := 1, l_height := 7\<rparr>; r = root_insert (BranchChunk [LeafChunk [l]]) 1 [m]
   in collapse r = [l, m] \<and> chunk_ok r \<and> chunkHeight r = 8"
proof -
  define l :: "nat line" where "l = \<lparr>l_id = 0, l_text = [], l_height = 1, l_spans = [], l_stateAfter = None, l_styles = None, l_order = None\<rparr>"
  define m where "m = l\<lparr>l_id := 1, l_height := 7\<rparr>"
  define r where "r = root_insert (BranchChunk [LeafChunk [l]]) 1 [m]"
  have "tree_step (BranchChunk [LeafChunk [l]]) r"
    unfolding r_def using step_insert [of 1 "BranchChunk [LeafChunk [l]]" "[m]"] by simp
  then have s: "tree_step\<^sup>*\<^sup>* (BranchChunk [LeafChunk [l]]) r" by (rule r_into_rtranclp)
  have "collapse r = [l, m]"
    using tree.put_law [OF initial_tree_ok, of 1 l "[m]"] by (simp add: r_def list_insert_def)
  moreover have "lines_height [l, m] = 8" by (simp add: l_def m_def)
  ultimately show ?thesis
    using reachable_tree_ok [OF s] unfolding Let_def l_def [symmetric] m_def [symmetric] r_def [symmetric]
    by simp
qed

text \<open>C3: Removing lines from the tree and inserting others in their place is replacing a slice of the
  list of its lines: the tree stays well-formed, and every line of the result is found at its number.\<close>

theorem tree_refines_list:
  assumes "root_ok r" and "at + n \<le> length (collapse r)"
  shows "let r' = root_insert (removeInner r (int at) (int n)) (int at) ls;
             xs = take at (collapse r) @ ls @ drop (at + n) (collapse r)
    in root_ok r' \<and> collapse r' = xs \<and> (\<forall>k < length xs. get_chunk r' (int k) = Some (xs ! k))"
  using tree.replace_law [OF assms, of ls] tree.fetch_nth [of "root_insert (removeInner r (int at) (int n)) (int at) ls"]
  unfolding Let_def by (simp del: length_append)

theorem tree_refines_list_witness:
  "let l = \<lparr>l_id = 0, l_text = [], l_height = 1, l_spans = [], l_stateAfter = None, l_styles = None, l_order = None\<rparr> :: nat line;
       m = l\<lparr>l_id := 1\<rparr>; r = BranchChunk [LeafChunk [l]]
   in get_chunk (root_insert (removeInner r (int 0) (int 1)) (int 0) [m, l]) 1 = Some l"
proof -
  define l :: "nat line" where "l = \<lparr>l_id = 0, l_text = [], l_height = 1, l_spans = [], l_stateAfter = None, l_styles = None, l_order = None\<rparr>"
  define m where "m = l\<lparr>l_id := 1\<rparr>"
  show ?thesis
    using tree_refines_list [OF initial_tree_ok [of l], of 0 1 "[m, l]"]
    unfolding Let_def l_def [symmetric] m_def [symmetric] by (simp add: numeral_2_eq_2 all_conj_distrib) fastforce
qed

end
