(* ===== verification/Positions.thy ===== *)
theory Positions
  imports JsPrelude
begin

text \<open>
  Positions, ranges and selections (\<^verbatim>\<open>src/js/codemirror/codemirror.js\<close>, sections POSITION OBJECT and
  SELECTION / CURSOR): the order on positions, the methods of ranges and selections, and the
  normalisation of a set of ranges into a selection. The order of positions is an instance of
  \<open>linorder\<close>, so that the lemmas of the library on sorting apply.
\<close>

section \<open>Definitions\<close>

datatype pos = Pos (pline: int) (pch: int)

definition cmp :: "pos \<Rightarrow> pos \<Rightarrow> int" where
  "cmp a b = (if pline a - pline b \<noteq> 0 then pline a - pline b else pch a - pch b)"

instantiation pos :: linorder
begin

definition less_eq_pos :: "pos \<Rightarrow> pos \<Rightarrow> bool" where
  "less_eq_pos a b \<longleftrightarrow> pline a < pline b \<or> pline a = pline b \<and> pch a \<le> pch b"

definition less_pos :: "pos \<Rightarrow> pos \<Rightarrow> bool" where
  "less_pos a b \<longleftrightarrow> pline a < pline b \<or> pline a = pline b \<and> pch a < pch b"

instance
  by standard (auto simp: less_eq_pos_def less_pos_def pos.expand)

end

definition copyPos :: "pos \<Rightarrow> pos" where
  "copyPos x = Pos (pline x) (pch x)"

definition maxPos :: "pos \<Rightarrow> pos \<Rightarrow> pos" where
  "maxPos a b = (if cmp a b < 0 then b else a)"

definition minPos :: "pos \<Rightarrow> pos \<Rightarrow> pos" where
  "minPos a b = (if cmp a b < 0 then a else b)"

datatype range = Range (anchor: pos) (head: pos)

definition range_from :: "range \<Rightarrow> pos" where
  "range_from r = minPos (anchor r) (head r)"

definition range_to :: "range \<Rightarrow> pos" where
  "range_to r = maxPos (anchor r) (head r)"

definition range_empty :: "range \<Rightarrow> bool" where
  "range_empty r \<longleftrightarrow> pline (head r) = pline (anchor r) \<and> pch (head r) = pch (anchor r)"

datatype selection = Selection (ranges: "range list") (primIndex: int)

definition primary :: "selection \<Rightarrow> range option" where
  "primary sel = js_at (ranges sel) (primIndex sel)"

definition sel_equals :: "selection \<Rightarrow> selection \<Rightarrow> bool" where
  "sel_equals this other \<longleftrightarrow>
     primIndex other = primIndex this \<and> length (ranges other) = length (ranges this) \<and>
     list_all2 (\<lambda>here there. cmp (anchor here) (anchor there) = 0 \<and> cmp (head here) (head there) = 0)
       (ranges this) (ranges other)"

definition deepCopy :: "selection \<Rightarrow> selection" where
  "deepCopy sel =
     Selection (map (\<lambda>r. Range (copyPos (anchor r)) (copyPos (head r))) (ranges sel)) (primIndex sel)"

definition somethingSelected :: "selection \<Rightarrow> bool" where
  "somethingSelected sel \<longleftrightarrow> list_ex (\<lambda>r. \<not> range_empty r) (ranges sel)"

fun contains_loop :: "pos \<Rightarrow> pos \<Rightarrow> int \<Rightarrow> range list \<Rightarrow> int" where
  "contains_loop p e i [] = - 1"
| "contains_loop p e i (r # rs) =
     (if cmp e (range_from r) \<ge> 0 \<and> cmp p (range_to r) \<le> 0 then i else contains_loop p e (i + 1) rs)"

definition sel_contains :: "selection \<Rightarrow> pos \<Rightarrow> pos option \<Rightarrow> int" where
  "sel_contains sel p e = contains_loop p (case e of Some e' \<Rightarrow> e' | None \<Rightarrow> p) 0 (ranges sel)"

text \<open>
  Normalisation. The ranges are sorted by their beginnings (the sort is stable) and the primary one is
  found again by its identity, here its index before the sort. Then ranges that touch are merged; a
  merged range is compared with the next one again. A range runs backwards when the smaller end,
  \<open>range_from\<close>, is its head, which is also so when it is empty.
\<close>

definition inverted :: "range \<Rightarrow> bool" where
  "inverted r \<longleftrightarrow> cmp (anchor r) (head r) \<ge> 0"

definition merge_two :: "range \<Rightarrow> range \<Rightarrow> range" where
  "merge_two prev cur =
     (let f = minPos (range_from prev) (range_from cur); t = maxPos (range_to prev) (range_to cur);
          inv = (if range_empty prev then inverted cur else inverted prev)
      in Range (if inv then t else f) (if inv then f else t))"

fun merge_ranges :: "range \<Rightarrow> range list \<Rightarrow> int \<Rightarrow> int \<Rightarrow> range list \<times> int" where
  "merge_ranges prev [] i prim = ([prev], prim)"
| "merge_ranges prev (cur # rest) i prim =
     (if cmp (range_to prev) (range_from cur) \<ge> 0
      then merge_ranges (merge_two prev cur) rest i (if i \<le> prim then prim - 1 else prim)
      else let (rs, prim') = merge_ranges cur rest (i + 1) prim in (prev # rs, prim'))"

fun index_of :: "'a \<Rightarrow> 'a list \<Rightarrow> int" where
  "index_of x [] = - 1"
| "index_of x (y # ys) = (if x = y then 0 else let k = index_of x ys in if k < 0 then - 1 else k + 1)"

definition normalizeSelection :: "range list \<Rightarrow> nat \<Rightarrow> selection" where
  "normalizeSelection rs prim =
     (let sorted_rs = sort_key (\<lambda>(k, r). range_from r) (zip [0..<length rs] rs);
          prim' = index_of prim (map fst sorted_rs)
      in case map snd sorted_rs of
           [] \<Rightarrow> Selection [] prim'
         | r # rest \<Rightarrow> let (out, prim'') = merge_ranges r rest 1 prim' in Selection out prim'')"

definition simpleSelection :: "pos \<Rightarrow> pos option \<Rightarrow> selection" where
  "simpleSelection a h = Selection [Range a (case h of Some h' \<Rightarrow> h' | None \<Rightarrow> a)] 0"

definition clipToLen :: "int \<Rightarrow> int option \<Rightarrow> int \<Rightarrow> pos" where
  "clipToLen line ch linelen =
     (case ch of
        None \<Rightarrow> Pos line linelen
      | Some c \<Rightarrow> if c > linelen then Pos line linelen else if c < 0 then Pos line 0 else Pos line c)"

text \<open>\<open>extend\<close> is the state of the shift key or of the document's extend flag.\<close>

definition extendRange :: "bool \<Rightarrow> range \<Rightarrow> pos \<Rightarrow> pos option \<Rightarrow> range" where
  "extendRange extend r h other =
     (if extend then
        (case other of
           None \<Rightarrow> Range (anchor r) h
         | Some oth \<Rightarrow>
             let posBefore = (cmp h (anchor r) < 0)
             in if posBefore \<noteq> (cmp oth (anchor r) < 0) then Range h oth
                else if posBefore \<noteq> (cmp h oth < 0) then Range (anchor r) oth
                else Range (anchor r) h)
      else Range (case other of Some oth \<Rightarrow> oth | None \<Rightarrow> h) h)"

lemmas [js_eval] = cmp_def copyPos_def maxPos_def minPos_def range_from_def range_to_def range_empty_def
  primary_def sel_equals_def deepCopy_def somethingSelected_def sel_contains_def inverted_def
  merge_two_def normalizeSelection_def simpleSelection_def clipToLen_def extendRange_def

section \<open>The order\<close>

lemma cmp_less [simp]: "cmp a b < 0 \<longleftrightarrow> a < b"
  and cmp_eq [simp]: "cmp a b = 0 \<longleftrightarrow> a = b"
  and cmp_ge [simp]: "cmp a b \<ge> 0 \<longleftrightarrow> b \<le> a"
  and cmp_le [simp]: "cmp a b \<le> 0 \<longleftrightarrow> a \<le> b"
  and cmp_greater [simp]: "cmp a b > 0 \<longleftrightarrow> b < a"
  by (auto simp: cmp_def less_pos_def less_eq_pos_def pos.expand)

lemma maxPos_max [simp]: "maxPos a b = max a b"
  and minPos_min [simp]: "minPos a b = min a b"
  by (auto simp: maxPos_def minPos_def max_def min_def)

lemma copyPos_id [simp]: "copyPos p = p"
  by (simp add: copyPos_def)

lemma range_ends:
  "range_from r = min (anchor r) (head r)" "range_to r = max (anchor r) (head r)"
  by (simp_all add: range_from_def range_to_def)

lemma range_from_le_to [simp]: "range_from r \<le> range_to r"
  unfolding range_ends by (rule order_trans [OF min.cobounded1 max.cobounded1])

lemma range_empty_iff [simp]: "range_empty r \<longleftrightarrow> anchor r = head r"
  by (auto simp: range_empty_def pos.expand)

lemma sel_equals_iff: "sel_equals a b \<longleftrightarrow> a = b"
proof -
  have "list_all2 (\<lambda>here there. cmp (anchor here) (anchor there) = 0 \<and> cmp (head here) (head there) = 0) xs ys
      \<longleftrightarrow> xs = ys" for xs ys
    by (induction xs ys rule: list_induct2') (auto simp: range.expand)
  then show ?thesis by (auto simp: sel_equals_def selection.expand)
qed

lemma deepCopy_id: "deepCopy sel = sel"
  by (simp add: deepCopy_def)

section \<open>Merging\<close>

text \<open>A position is covered by a range when it lies between its ends.\<close>

definition covers :: "range \<Rightarrow> pos \<Rightarrow> bool" where
  "covers r p \<longleftrightarrow> range_from r \<le> p \<and> p \<le> range_to r"

definition separated :: "range list \<Rightarrow> bool" where
  "separated rs \<longleftrightarrow> sorted_wrt (\<lambda>a b. range_to a < range_from b) rs"

lemma merge_two_ends:
  "range_from (merge_two a b) = min (range_from a) (range_from b)"
  "range_to (merge_two a b) = max (range_to a) (range_to b)"
proof -
  have "min (range_from a) (range_from b) \<le> max (range_to a) (range_to b)"
    by (meson max.coboundedI1 min.coboundedI1 range_from_le_to)
  then show "range_from (merge_two a b) = min (range_from a) (range_from b)"
    "range_to (merge_two a b) = max (range_to a) (range_to b)"
    by (simp_all add: range_ends(1) [of "merge_two a b"] range_ends(2) [of "merge_two a b"])
      (simp_all add: merge_two_def Let_def min_absorb1 min_absorb2 max_absorb1 max_absorb2)
qed

lemma cover_union:
  fixes p :: "'a::linorder"
  assumes "fa \<le> fb" and "fb \<le> ta"
  shows "fa \<le> p \<and> (p \<le> ta \<or> p \<le> tb) \<longleftrightarrow> (fa \<le> p \<and> p \<le> ta) \<or> (fb \<le> p \<and> p \<le> tb)"
  using assms by auto

lemma covers_merge_two:
  assumes "range_from a \<le> range_from b" and "range_from b \<le> range_to a"
  shows "covers (merge_two a b) p \<longleftrightarrow> covers a p \<or> covers b p"
proof -
  have "min (range_from a) (range_from b) = range_from a" using assms(1) by (rule min_absorb1)
  moreover have "p \<le> max (range_to a) (range_to b) \<longleftrightarrow> p \<le> range_to a \<or> p \<le> range_to b"
    by (rule le_max_iff_disj)
  ultimately show ?thesis
    unfolding covers_def merge_two_ends using cover_union [OF assms] by simp
qed

text \<open>
  Merging a sorted list: the result is separated, begins where the input began, covers the same
  positions, and the range at the new primary index covers what the old one covered.
\<close>

lemma merge_ranges_ok:
  assumes "sorted (map range_from (prev # rest))"
  shows "separated (fst (merge_ranges prev rest i prim)) \<and>
    (\<forall>r \<in> set (fst (merge_ranges prev rest i prim)). range_from prev \<le> range_from r) \<and>
    (\<forall>p. (\<exists>r \<in> set (fst (merge_ranges prev rest i prim)). covers r p) \<longleftrightarrow>
      (\<exists>r \<in> set (prev # rest). covers r p)) \<and>
    fst (merge_ranges prev rest i prim) \<noteq> []"
  using assms
proof (induction prev rest i prim rule: merge_ranges.induct)
  case (1 prev i prim)
  then show ?case by (simp add: separated_def)
next
  case (2 prev cur rest i prim)
  have le: "range_from prev \<le> range_from cur" and rest: "sorted (map range_from (cur # rest))"
    using 2(3) by simp_all
  show ?case
  proof (cases "range_from cur \<le> range_to prev")
    case True
    have f: "range_from (merge_two prev cur) = range_from prev"
      unfolding merge_two_ends using le by (rule min_absorb1)
    have "sorted (map range_from (merge_two prev cur # rest))" using 2(3) by (simp add: f)
    with 2(1) True have ih:
      "separated (fst (merge_ranges (merge_two prev cur) rest i (if i \<le> prim then prim - 1 else prim))) \<and>
      (\<forall>r \<in> set (fst (merge_ranges (merge_two prev cur) rest i (if i \<le> prim then prim - 1 else prim))).
         range_from (merge_two prev cur) \<le> range_from r) \<and>
      (\<forall>p. (\<exists>r \<in> set (fst (merge_ranges (merge_two prev cur) rest i (if i \<le> prim then prim - 1 else prim))). covers r p)
        \<longleftrightarrow> (\<exists>r \<in> set (merge_two prev cur # rest). covers r p)) \<and>
      fst (merge_ranges (merge_two prev cur) rest i (if i \<le> prim then prim - 1 else prim)) \<noteq> []"
      by simp
    have eq: "merge_ranges prev (cur # rest) i prim =
        merge_ranges (merge_two prev cur) rest i (if i \<le> prim then prim - 1 else prim)"
      using True by simp
    show ?thesis using ih covers_merge_two [OF le True] unfolding eq f by simp
  next
    case False
    obtain rs prim' where m: "merge_ranges cur rest (i + 1) prim = (rs, prim')" by fastforce
    with 2(2) [OF _ rest] False have ih: "separated rs" "\<forall>r \<in> set rs. range_from cur \<le> range_from r"
      "\<forall>p. (\<exists>r \<in> set rs. covers r p) \<longleftrightarrow> (\<exists>r \<in> set (cur # rest). covers r p)" by simp_all
    have "merge_ranges prev (cur # rest) i prim = (prev # rs, prim')" using False m by simp
    moreover have "\<forall>r \<in> set rs. range_to prev < range_from r"
      using ih(2) False by (meson linorder_not_le order_less_le_trans)
    ultimately show ?thesis using ih le by (auto simp: separated_def dest: order_trans)
  qed
qed

lemma merge_ranges_prim_before: "prim < i \<Longrightarrow> snd (merge_ranges prev rest i prim) = prim"
  by (induction prev rest i prim rule: merge_ranges.induct) (auto simp: case_prod_unfold)

definition keeps_prim :: "range list \<Rightarrow> int \<Rightarrow> range list \<times> int \<Rightarrow> bool" where
  "keeps_prim rs prim res \<longleftrightarrow>
     (\<exists>k. snd res = int k \<and> k < length (fst res) \<and>
       (\<forall>p. covers (rs ! nat prim) p \<longrightarrow> covers (fst res ! k) p))"

lemma merge_ranges_prim:
  assumes "sorted (map range_from (prev # rest))" and "i - 1 \<le> prim" and "prim < i + int (length rest)"
  shows "keeps_prim (prev # rest) (prim - (i - 1))
    (fst (merge_ranges prev rest i prim), snd (merge_ranges prev rest i prim) - (i - 1))"
  using assms
proof (induction prev rest i prim rule: merge_ranges.induct)
  case (1 prev i prim)
  then have "prim = i - 1" by simp
  then show ?case by (simp add: keeps_prim_def)
next
  case (2 prev cur rest i prim)
  have le: "range_from prev \<le> range_from cur" and rest: "sorted (map range_from (cur # rest))"
    using 2(3) by simp_all
  show ?case
  proof (cases "range_from cur \<le> range_to prev")
    case True
    have f: "range_from (merge_two prev cur) = range_from prev"
      unfolding merge_two_ends using le by (rule min_absorb1)
    define prim' where "prim' = (if i \<le> prim then prim - 1 else prim)"
    have "sorted (map range_from (merge_two prev cur # rest))" using 2(3) by (simp add: f)
    moreover have "i - 1 \<le> prim'" "prim' < i + int (length rest)" using 2(4,5) by (auto simp: prim'_def)
    moreover have "cmp (range_to prev) (range_from cur) \<ge> 0" using True by simp
    ultimately have k: "keeps_prim (merge_two prev cur # rest) (prim' - (i - 1))
        (fst (merge_ranges (merge_two prev cur) rest i prim'), snd (merge_ranges (merge_two prev cur) rest i prim') - (i - 1))"
      using 2(1) unfolding prim'_def by blast
    have eq: "merge_ranges prev (cur # rest) i prim = merge_ranges (merge_two prev cur) rest i prim'"
      using True by (simp add: prim'_def)
    have "covers ((prev # cur # rest) ! nat (prim - (i - 1))) p \<Longrightarrow>
        covers ((merge_two prev cur # rest) ! nat (prim' - (i - 1))) p" for p
    proof (cases "prim \<le> i")
      case True
      then have "prim = i - 1 \<or> prim = i" using 2(4) by linarith
      then show "covers ((prev # cur # rest) ! nat (prim - (i - 1))) p \<Longrightarrow> ?thesis"
        by (elim disjE) (simp_all add: prim'_def covers_merge_two [OF le \<open>range_from cur \<le> range_to prev\<close>])
    next
      case False
      then obtain m where "prim = i + 1 + int m" using zle_iff_zadd [of "i + 1" prim] by auto
      then have "nat (prim - (i - 1)) = Suc (Suc m)" "nat (prim' - (i - 1)) = Suc m" by (auto simp: prim'_def)
      then show "covers ((prev # cur # rest) ! nat (prim - (i - 1))) p \<Longrightarrow> ?thesis" by simp
    qed
    with k show ?thesis unfolding eq keeps_prim_def fst_conv snd_conv by blast
  next
    case False
    obtain rs prim' where m: "merge_ranges cur rest (i + 1) prim = (rs, prim')" by fastforce
    have eq: "merge_ranges prev (cur # rest) i prim = (prev # rs, prim')" using False m by simp
    show ?thesis
    proof (cases "prim = i - 1")
      case True
      then have "prim' = i - 1" using merge_ranges_prim_before [of prim "i + 1" cur rest] m by simp
      with True show ?thesis unfolding eq keeps_prim_def by simp
    next
      case ne: False
      with 2(4,5) have "i + 1 - 1 \<le> prim" "prim < i + 1 + int (length rest)" by simp_all
      moreover have "\<not> cmp (range_to prev) (range_from cur) \<ge> 0" using False by simp
      ultimately have "keeps_prim (cur # rest) (prim - (i + 1 - 1)) (rs, prim' - (i + 1 - 1))"
        using 2(2) [OF _ rest] m by simp
      then obtain k where k: "prim' - i = int k" "k < length rs"
        "\<forall>p. covers ((cur # rest) ! nat (prim - i)) p \<longrightarrow> covers (rs ! k) p" by (auto simp: keeps_prim_def)
      have "nat (prim - (i - 1)) = Suc (nat (prim - i))" using ne 2(4) by simp
      with k show ?thesis unfolding eq keeps_prim_def by (intro exI [of _ "Suc k"]) auto
    qed
  qed
qed

section \<open>Normalisation\<close>

lemma index_of_nth: "distinct xs \<Longrightarrow> k < length xs \<Longrightarrow> index_of (xs ! k) xs = int k"
proof (induction xs arbitrary: k)
  case (Cons x xs)
  then show ?case by (cases k) auto
qed simp

lemma normalizeSelection_ok:
  assumes "prim < length rs"
  shows "separated (ranges (normalizeSelection rs prim)) \<and>
    (\<forall>p. (\<exists>r \<in> set (ranges (normalizeSelection rs prim)). covers r p) \<longleftrightarrow> (\<exists>r \<in> set rs. covers r p)) \<and>
    keeps_prim rs (int prim) (ranges (normalizeSelection rs prim), primIndex (normalizeSelection rs prim))"
proof -
  define ts where "ts = sort_key (\<lambda>(k, r). range_from r) (zip [0..<length rs] rs)"
  have set_ts: "set ts = set (zip [0..<length rs] rs)" "length ts = length rs" by (simp_all add: ts_def)
  have set_rs: "set (map snd ts) = set rs"
    by (metis set_ts(1) set_map map_snd_zip length_upt diff_zero)
  have dist: "distinct (map fst ts)"
  proof -
    have "distinct (zip [0..<length rs] rs)" by (simp add: distinct_zipI1)
    then have "distinct ts" by (simp add: ts_def)
    moreover have "inj_on fst (set ts)" unfolding set_ts by (auto simp: inj_on_def in_set_zip)
    ultimately show ?thesis by (simp add: distinct_map)
  qed
  have "(prim, rs ! prim) \<in> set ts" using assms by (auto simp: set_ts in_set_zip intro: exI [of _ prim])
  then obtain j where j: "j < length ts" "ts ! j = (prim, rs ! prim)" by (auto simp: in_set_conv_nth)
  then have ix: "index_of prim (map fst ts) = int j"
    using index_of_nth [OF dist, of j] by simp
  have "map (\<lambda>(k, r). range_from r) ts = map range_from (map snd ts)" by (simp add: case_prod_unfold)
  then have sorted: "sorted (map range_from (map snd ts))" by (metis sorted_sort_key ts_def)
  obtain r rest where rr: "map snd ts = r # rest" using j(1) by (cases ts) auto
  define m where "m = merge_ranges r rest 1 (int j)"
  have n: "normalizeSelection rs prim = Selection (fst m) (snd m)"
    unfolding normalizeSelection_def ts_def [symmetric] by (simp add: ix rr m_def Let_def split: prod.split)
  have "length rest + 1 = length ts" using arg_cong [OF rr, of length] by simp
  then have "keeps_prim (r # rest) (int j) m"
    using merge_ranges_prim [of r rest 1 "int j"] sorted rr j(1) by (simp add: m_def)
  moreover have "(r # rest) ! j = rs ! prim" unfolding rr [symmetric] using j by simp
  ultimately have "keeps_prim rs (int prim) m" by (simp add: keeps_prim_def)
  moreover have "separated (fst m) \<and> (\<forall>p. (\<exists>r \<in> set (fst m). covers r p) \<longleftrightarrow> (\<exists>r \<in> set rs. covers r p))"
    using merge_ranges_ok [of r rest 1 "int j"] sorted unfolding rr set_rs [symmetric] m_def by blast
  ultimately show ?thesis by (simp add: n)
qed

text \<open>No position of the result is new.\<close>

lemma min_max_intro: "P x \<Longrightarrow> P y \<Longrightarrow> P (min x y)" "P x \<Longrightarrow> P y \<Longrightarrow> P (max x y)"
  for x y :: "'a::linorder"
  by (simp_all add: min_def max_def)

lemma merge_two_positions:
  assumes "P (anchor a) \<and> P (head a)" and "P (anchor b) \<and> P (head b)"
  shows "P (anchor (merge_two a b)) \<and> P (head (merge_two a b))"
proof -
  have r: "P (range_from a)" "P (range_from b)" "P (range_to a)" "P (range_to b)"
    using assms by (simp_all add: range_ends min_max_intro)
  have "P (minPos (range_from a) (range_from b))" unfolding minPos_min using r(1,2) by (rule min_max_intro)
  moreover have "P (maxPos (range_to a) (range_to b))" unfolding maxPos_max using r(3,4) by (rule min_max_intro)
  ultimately show ?thesis unfolding merge_two_def Let_def range.sel by simp
qed

lemma merge_ranges_positions:
  "\<forall>r \<in> set (prev # rest). P (anchor r) \<and> P (head r) \<Longrightarrow>
    \<forall>r \<in> set (fst (merge_ranges prev rest i prim)). P (anchor r) \<and> P (head r)"
proof (induction prev rest i prim rule: merge_ranges.induct)
  case (2 prev cur rest i prim)
  have "P (anchor (merge_two prev cur)) \<and> P (head (merge_two prev cur))" using 2(3) by (intro merge_two_positions) simp_all
  with 2 show ?case by (simp add: case_prod_unfold Let_def)
qed simp

lemma normalizeSelection_positions:
  assumes "\<forall>r \<in> set rs. P (anchor r) \<and> P (head r)"
  shows "\<forall>r \<in> set (ranges (normalizeSelection rs prim)). P (anchor r) \<and> P (head r)"
proof -
  define ts where "ts = map snd (sort_key (\<lambda>(k, r). range_from r) (zip [0..<length rs] rs))"
  have "set ts = snd ` set (zip [0..<length rs] rs)" by (simp add: ts_def)
  also have "\<dots> = set rs" by (metis length_upt diff_zero list.set_map map_snd_zip)
  finally have "\<forall>r \<in> set ts. P (anchor r) \<and> P (head r)" using assms by simp
  then have "\<forall>r \<in> set (fst (merge_ranges (hd ts) (tl ts) 1 j)). P (anchor r) \<and> P (head r)" if "ts \<noteq> []" for j
    using that by (intro merge_ranges_positions) (cases ts, auto)
  then show ?thesis
    unfolding normalizeSelection_def Let_def ts_def [symmetric] by (cases ts) (simp_all add: case_prod_unfold)
qed

lemma normalizeSelection_prim:
  assumes "prim < length rs"
  shows "0 \<le> primIndex (normalizeSelection rs prim) \<and>
    primIndex (normalizeSelection rs prim) < int (length (ranges (normalizeSelection rs prim)))"
  using normalizeSelection_ok [OF assms] by (auto simp: keeps_prim_def)

section \<open>Properties\<close>

text \<open>C27: Normalising any non-empty list of ranges gives a selection as its comment describes it: the ranges
  are sorted, and neither overlap nor touch; exactly the positions covered before are covered
  afterwards; and the primary index stays valid and designates the range that contains the former
  primary range.\<close>

theorem normalizeSelection_correct:
  assumes "prim < length rs"
  shows "separated (ranges (normalizeSelection rs prim)) \<and>
    (\<forall>p. (\<exists>r \<in> set (ranges (normalizeSelection rs prim)). covers r p) \<longleftrightarrow> (\<exists>r \<in> set rs. covers r p)) \<and>
    keeps_prim rs (int prim) (ranges (normalizeSelection rs prim), primIndex (normalizeSelection rs prim))"
  by (rule normalizeSelection_ok [OF assms])

theorem normalizeSelection_correct_witness:
  "separated (ranges (normalizeSelection [Range (Pos 3 0) (Pos 4 2), Range (Pos 2 5) (Pos 1 0), Range (Pos 4 1) (Pos 5 0)] 2))"
  using normalizeSelection_correct
    [of 2 "[Range (Pos 3 0) (Pos 4 2), Range (Pos 2 5) (Pos 1 0), Range (Pos 4 1) (Pos 5 0)]"]
  by simp

end
