(* ===== verification/TextLines.thy ===== *)
theory TextLines
  imports Columns
begin

text \<open>
  Splitting text into lines and classifying characters (\<^verbatim>\<open>src/js/codemirror/codemirror.js\<close>, sections MISC
  UTILITIES and FEATURE DETECTION). \<open>splitLines\<close> has two implementations, the regular expression of the
  language and a loop for browsers whose \<^verbatim>\<open>split\<close> is broken; both are here, with the lemmas that relate
  them.
\<close>

section \<open>Definitions\<close>

definition lf :: jchar where
  "lf = 10"

definition cr :: jchar where
  "cr = 13"

text \<open>\<^verbatim>\<open>string.split(/\r\n?|\n/)\<close>.\<close>

fun split_regex :: "jsstring \<Rightarrow> jsstring list" where
  "split_regex [] = [[]]"
| "split_regex (c # cs) =
     (if c = lf then [] # split_regex cs
      else if c = cr then
        (case cs of
           [] \<Rightarrow> [] # split_regex cs
         | d # ds \<Rightarrow> if d = lf then [] # split_regex ds else [] # split_regex cs)
      else (case split_regex cs of [] \<Rightarrow> [[c]] | l # ls \<Rightarrow> (c # l) # ls))"

text \<open>One round of the loop: the line that is pushed and the next position.\<close>

definition split_step :: "jsstring \<Rightarrow> nat \<Rightarrow> jsstring \<times> nat" where
  "split_step s pos =
     (let nl = (case index_from lf s pos of Some i \<Rightarrow> i | None \<Rightarrow> length s);
          before_cr = (nl > 0 \<and> nl - 1 < length s \<and> s ! (nl - 1) = cr);
          line = js_slice s (int pos) (int (if before_cr then nl - 1 else nl))
      in case index_from cr line 0 of
           Some rt \<Rightarrow> (take rt line, pos + rt + 1)
         | None \<Rightarrow> (line, nl + 1))"

lemma split_step_advances: "pos \<le> length s \<Longrightarrow> pos < snd (split_step s pos)"
  using index_from_Some_bounds [of lf s pos]
  by (auto simp: split_step_def Let_def split: option.splits)

function split_loop :: "jsstring \<Rightarrow> nat \<Rightarrow> jsstring list" where
  "split_loop s pos =
     (if pos \<le> length s then (let (line, pos') = split_step s pos in line # split_loop s pos') else [])"
  by pat_completeness auto
termination
proof (relation "measure (\<lambda>(s, pos). Suc (length s) - pos)")
  fix s pos x xa y
  assume "pos \<le> length s" "x = split_step s pos" "(xa, y) = x"
  then show "((s, y), s, pos) \<in> measure (\<lambda>(s, pos). Suc (length s) - pos)"
    using split_step_advances [of pos s] by (cases "split_step s pos") auto
qed simp

declare split_loop.simps [simp del]

definition splitLines_loop :: "jsstring \<Rightarrow> jsstring list" where
  "splitLines_loop s = split_loop s 0"

definition splitLines :: "bool \<Rightarrow> jsstring \<Rightarrow> jsstring list" where
  "splitLines broken_split s = (if broken_split then splitLines_loop s else split_regex s)"

subsection \<open>Characters\<close>

definition in_ranges :: "(int \<times> int) list \<Rightarrow> jchar \<Rightarrow> bool" where
  "in_ranges rs c \<longleftrightarrow> (let n = char_code c in list_ex (\<lambda>(a, b). a \<le> n \<and> n \<le> b) rs)"

definition nonASCIISingleCaseWordChar :: "(int \<times> int) list" where
  "nonASCIISingleCaseWordChar =
     [(223, 223), (12352, 12447), (12448, 12543), (13312, 19893), (19968, 40908), (44032, 55215)]"

text \<open>\<open>cased\<close> says whether a character has different upper and lower case forms.\<close>

definition isWordCharBasic :: "(jchar \<Rightarrow> bool) \<Rightarrow> jchar \<Rightarrow> bool" where
  "isWordCharBasic cased ch \<longleftrightarrow>
     is_word ch \<or> char_code ch > 128 \<and> (cased ch \<or> in_ranges nonASCIISingleCaseWordChar ch)"

text \<open>A mode may give a regular expression of its own: whether its source mentions \<^verbatim>\<open>\w\<close>, and its test.\<close>

definition isWordChar :: "(jchar \<Rightarrow> bool) \<Rightarrow> jchar \<Rightarrow> (bool \<times> (jchar \<Rightarrow> bool)) option \<Rightarrow> bool" where
  "isWordChar cased ch helper =
     (case helper of
        None \<Rightarrow> isWordCharBasic cased ch
      | Some (has_w, test) \<Rightarrow> if has_w \<and> isWordCharBasic cased ch then True else test ch)"

definition extendingChars :: "(int \<times> int) list" where
  "extendingChars =
    [(768, 879), (1155, 1161), (1425, 1469), (1471, 1471), (1473, 1473), (1474, 1474), (1476, 1476),
     (1477, 1477), (1479, 1479), (1552, 1562), (1611, 1630), (1648, 1648), (1750, 1756), (1758, 1764),
     (1767, 1767), (1768, 1768), (1770, 1773), (1809, 1809), (1840, 1866), (1958, 1968), (2027, 2035),
     (2070, 2073), (2075, 2083), (2085, 2087), (2089, 2093), (2304, 2306), (2364, 2364), (2369, 2376),
     (2381, 2381), (2385, 2389), (2402, 2402), (2403, 2403), (2433, 2433), (2492, 2492), (2494, 2494),
     (2497, 2500), (2509, 2509), (2519, 2519), (2530, 2530), (2531, 2531), (2561, 2561), (2562, 2562),
     (2620, 2620), (2625, 2625), (2626, 2626), (2631, 2631), (2632, 2632), (2635, 2637), (2641, 2641),
     (2672, 2672), (2673, 2673), (2677, 2677), (2689, 2689), (2690, 2690), (2748, 2748), (2753, 2757),
     (2759, 2759), (2760, 2760), (2765, 2765), (2786, 2786), (2787, 2787), (2817, 2817), (2876, 2876),
     (2878, 2878), (2879, 2879), (2881, 2884), (2893, 2893), (2902, 2902), (2903, 2903), (2914, 2914),
     (2915, 2915), (2946, 2946), (3006, 3006), (3008, 3008), (3021, 3021), (3031, 3031), (3134, 3136),
     (3142, 3144), (3146, 3149), (3157, 3157), (3158, 3158), (3170, 3170), (3171, 3171), (3260, 3260),
     (3263, 3263), (3266, 3266), (3270, 3270), (3276, 3276), (3277, 3277), (3285, 3285), (3286, 3286),
     (3298, 3298), (3299, 3299), (3390, 3390), (3393, 3396), (3405, 3405), (3415, 3415), (3426, 3426),
     (3427, 3427), (3530, 3530), (3535, 3535), (3538, 3540), (3542, 3542), (3551, 3551), (3633, 3633),
     (3636, 3642), (3655, 3662), (3761, 3761), (3764, 3769), (3771, 3771), (3772, 3772), (3784, 3789),
     (3864, 3864), (3865, 3865), (3893, 3893), (3895, 3895), (3897, 3897), (3953, 3966), (3968, 3972),
     (3974, 3974), (3975, 3975), (3984, 3991), (3993, 4028), (4038, 4038), (4141, 4144), (4146, 4151),
     (4153, 4153), (4154, 4154), (4157, 4157), (4158, 4158), (4184, 4184), (4185, 4185), (4190, 4192),
     (4209, 4212), (4226, 4226), (4229, 4229), (4230, 4230), (4237, 4237), (4253, 4253), (4959, 4959),
     (5906, 5908), (5938, 5940), (5970, 5970), (5971, 5971), (6002, 6002), (6003, 6003), (6071, 6077),
     (6086, 6086), (6089, 6099), (6109, 6109), (6155, 6157), (6313, 6313), (6432, 6434), (6439, 6439),
     (6440, 6440), (6450, 6450), (6457, 6459), (6679, 6679), (6680, 6680), (6742, 6742), (6744, 6750),
     (6752, 6752), (6754, 6754), (6757, 6764), (6771, 6780), (6783, 6783), (6912, 6915), (6964, 6964),
     (6966, 6970), (6972, 6972), (6978, 6978), (7019, 7027), (7040, 7040), (7041, 7041), (7074, 7077),
     (7080, 7080), (7081, 7081), (7212, 7219), (7222, 7222), (7223, 7223), (7376, 7378), (7380, 7392),
     (7394, 7400), (7405, 7405), (7616, 7654), (7677, 7679), (8204, 8204), (8205, 8205), (8400, 8432),
     (11503, 11505), (11744, 11775), (12330, 12335), (12441, 12441), (12442, 12442), (42607, 42610),
     (42620, 42620), (42621, 42621), (42736, 42736), (42737, 42737), (43010, 43010), (43014, 43014),
     (43019, 43019), (43045, 43045), (43046, 43046), (43204, 43204), (43232, 43249), (43302, 43309),
     (43335, 43345), (43392, 43394), (43443, 43443), (43446, 43449), (43452, 43452), (43561, 43566),
     (43569, 43569), (43570, 43570), (43573, 43573), (43574, 43574), (43587, 43587), (43596, 43596),
     (43696, 43696), (43698, 43700), (43703, 43703), (43704, 43704), (43710, 43710), (43711, 43711),
     (43713, 43713), (44005, 44005), (44008, 44008), (44013, 44013), (56320, 57343), (64286, 64286),
     (65024, 65039), (65056, 65062), (65438, 65438), (65439, 65439)]"

definition isExtendingChar :: "jchar \<Rightarrow> bool" where
  "isExtendingChar ch \<longleftrightarrow> char_code ch \<ge> 768 \<and> in_ranges extendingChars ch"

section \<open>The two ways to split\<close>

lemma lf_cr [simp]: "lf \<noteq> cr" "cr \<noteq> lf"
  by (simp_all add: lf_def cr_def)

definition plain :: "jsstring \<Rightarrow> bool" where
  "plain x \<longleftrightarrow> lf \<notin> set x \<and> cr \<notin> set x"

lemma plain_simps [simp]: "plain []" "plain (c # x) \<longleftrightarrow> c \<noteq> lf \<and> c \<noteq> cr \<and> plain x"
  by (auto simp: plain_def)

lemma split_regex_plain: "plain x \<Longrightarrow> split_regex x = [x]"
  by (induction x) auto

lemma split_regex_lf: "plain x \<Longrightarrow> split_regex (x @ lf # r) = x # split_regex r"
  by (induction x) auto

lemma split_regex_crlf: "plain x \<Longrightarrow> split_regex (x @ cr # lf # r) = x # split_regex r"
  by (induction x) auto

lemma split_regex_cr: "plain x \<Longrightarrow> r = [] \<or> hd r \<noteq> lf \<Longrightarrow> split_regex (x @ cr # r) = x # split_regex r"
  by (induction x) (auto split: list.splits)

lemma split_regex_nonempty [simp]: "split_regex s \<noteq> []"
  by (induction s rule: split_regex.induct) (auto split: list.splits)

text \<open>The line up to the next line feed, without the carriage return before it.\<close>

lemma split_step_line:
  assumes "drop pos s = u @ v" and "nl = pos + length u"
  shows "js_slice s (int pos) (int (if nl > 0 \<and> nl - 1 < length s \<and> s ! (nl - 1) = cr then nl - 1 else nl)) =
    (if u \<noteq> [] \<and> last u = cr then butlast u else u)"
proof -
  have len: "length s - pos = length u + length v" using assms(1) by (metis length_append length_drop)
  show ?thesis
  proof (cases "u = []")
    case True
    then show ?thesis by (auto simp: js_slice_def js_rel_index_def assms(2))
  next
    case False
    then have "0 < length u" by simp
    then have le: "nl \<le> length s" "0 < nl" "pos \<le> nl - 1" "nl - 1 = pos + (length u - 1)"
      using len assms(2) by linarith+
    then have "s ! (nl - 1) = drop pos s ! (length u - 1)" by simp
    also have "\<dots> = last u" using False by (simp add: assms(1) nth_append last_conv_nth)
    finally have "s ! (nl - 1) = last u" .
    then show ?thesis
      using False le assms js_slice_nat [of pos nl s] js_slice_nat [of pos "nl - 1" s]
      by (auto simp: butlast_conv_take)
  qed
qed

lemma split_step_spec:
  assumes "pos \<le> length s" and "s = [] \<or> last s \<noteq> cr" and "split_step s pos = (line, pos')"
  shows "split_regex (drop pos s) = line # (if pos' \<le> length s then split_regex (drop pos' s) else [])"
proof (cases "index_from lf s pos")
  case None
  let ?u = "drop pos s"
  have l: "lf \<notin> set ?u" using None by (rule index_from_None)
  have "?u = [] \<or> last ?u \<noteq> cr"
  proof (cases "?u = []")
    case False
    then have "last ?u = last s" by (simp add: last_drop)
    with False assms(2) show ?thesis by auto
  qed simp
  then have nocr: "\<not> (?u \<noteq> [] \<and> last ?u = cr)" by blast
  have "drop pos s = ?u @ []" "length s = pos + length ?u" using assms(1) by simp_all
  note line = split_step_line [OF this, unfolded if_not_P [OF nocr]]
  have step: "split_step s pos = (case index_from cr ?u 0 of Some rt \<Rightarrow> (take rt ?u, pos + rt + 1) | None \<Rightarrow> (?u, length s + 1))"
    unfolding split_step_def Let_def None option.case line by (rule refl)
  show ?thesis
  proof (cases "index_from cr ?u 0")
    case None
    then have "plain ?u" using l index_from_None [OF None] by (simp add: plain_def)
    with step None assms(3) show ?thesis by (simp add: split_regex_plain)
  next
    case (Some rt)
    then obtain x where x: "drop 0 ?u = x @ cr # drop (Suc rt) ?u" "cr \<notin> set x" "rt = 0 + length x" "rt < length ?u"
      by (rule index_from_Some)
    define v where "v = drop (Suc rt) ?u"
    have ux: "?u = x @ cr # v" using x(1) unfolding v_def drop_0 .
    have "lf \<notin> set x" "lf \<notin> set v" using l unfolding ux by auto
    then have "plain x" "v = [] \<or> hd v \<noteq> lf" using x(2) by (simp add: plain_def, cases v, auto)
    then have "split_regex ?u = x # split_regex v" unfolding ux by (rule split_regex_cr)
    moreover have "take rt ?u = x" unfolding ux using x(3) by simp
    moreover have "v = drop (pos + rt + 1) s" by (simp add: v_def add.commute)
    moreover have "pos + rt + 1 \<le> length s" using x(4) by simp
    ultimately show ?thesis using step Some assms(3) by auto
  qed
next
  case (Some nl)
  then obtain u where u: "drop pos s = u @ lf # drop (Suc nl) s" "lf \<notin> set u" "nl = pos + length u" "nl < length s"
    by (rule index_from_Some)
  define w where "w = (if u \<noteq> [] \<and> last u = cr then butlast u else u)"
  have uw: "u = w \<and> (w = [] \<or> last w \<noteq> cr) \<or> u = w @ [cr]"
    unfolding w_def by (cases u rule: rev_cases) auto
  have step: "split_step s pos = (case index_from cr w 0 of Some rt \<Rightarrow> (take rt w, pos + rt + 1) | None \<Rightarrow> (w, nl + 1))"
    unfolding split_step_def Let_def Some option.case split_step_line [OF u(1,3)] w_def by (rule refl)
  have lw: "lf \<notin> set w" using uw u(2) by auto
  show ?thesis
  proof (cases "index_from cr w 0")
    case None
    then have "plain w" using lw index_from_None [OF None] by (simp add: plain_def)
    with uw u(1) have "split_regex (drop pos s) = w # split_regex (drop (Suc nl) s)"
      using split_regex_lf [of w] split_regex_crlf [of w] by auto
    with step None assms(3) u(4) show ?thesis by auto
  next
    case (Some rt)
    then obtain x where x: "drop 0 w = x @ cr # drop (Suc rt) w" "cr \<notin> set x" "rt = 0 + length x" "rt < length w"
      by (rule index_from_Some)
    define y where "y = drop (Suc rt) w"
    have wy: "w = x @ cr # y" using x(1) unfolding y_def drop_0 .
    define R where "R = y @ (if u = w then [] else [cr]) @ lf # drop (Suc nl) s"
    have R: "drop pos s = x @ cr # R" using u(1) uw wy by (auto simp: R_def)
    have "hd R \<noteq> lf" using uw wy lw by (cases y) (auto simp: R_def)
    moreover have "plain x" using x(2) lw wy by (auto simp: plain_def)
    ultimately have "split_regex (drop pos s) = x # split_regex R" unfolding R by (intro split_regex_cr) auto
    moreover have "R = drop (pos + rt + 1) s"
      using arg_cong [OF R, of "drop (Suc (length x))"] x(3) by (simp add: add.commute)
    moreover have "take rt w = x" using wy x(3) by simp
    moreover have "pos + rt + 1 \<le> length s" using arg_cong [OF R, of length] x(3) by (simp add: R_def)
    ultimately show ?thesis using step Some assms(3) by auto
  qed
qed

lemma split_loop_spec: "pos \<le> length s \<Longrightarrow> s = [] \<or> last s \<noteq> cr \<Longrightarrow> split_loop s pos = split_regex (drop pos s)"
proof (induction s pos rule: split_loop.induct)
  case (1 s pos)
  obtain line pos' where st: "split_step s pos = (line, pos')" by fastforce
  show ?case
  proof (cases "pos' \<le> length s")
    case True
    with 1 st split_step_spec [OF 1(2,3) st] show ?thesis by (subst split_loop.simps) simp
  next
    case False
    then have "split_loop s pos' = []" by (subst split_loop.simps) simp
    with False 1(2) st split_step_spec [OF 1(2,3) st] show ?thesis by (subst split_loop.simps) simp
  qed
qed

text \<open>Joining with line feeds undoes splitting, and the other way round.\<close>

lemma js_join_Cons: "ls \<noteq> [] \<Longrightarrow> js_join sep (l # ls) = l @ sep @ js_join sep ls"
  by (cases ls) simp_all

lemma join_split: "cr \<notin> set s \<Longrightarrow> js_join [lf] (split_regex s) = s"
proof (induction s rule: split_regex.induct)
  case (2 c cs)
  then show ?case by (cases "split_regex cs"; cases "tl (split_regex cs)") (auto simp: js_join_Cons)
qed simp

lemma split_join: "ls \<noteq> [] \<Longrightarrow> \<forall>l \<in> set ls. plain l \<Longrightarrow> split_regex (js_join [lf] ls) = ls"
proof (induction ls)
  case (Cons l ls)
  then show ?case by (cases "ls = []") (auto simp: js_join_Cons split_regex_lf split_regex_plain)
qed simp

lemma split_regex_plain_lines: "\<forall>l \<in> set (split_regex s). plain l"
proof (induction s rule: split_regex.induct)
  case (2 c cs)
  then show ?case
    by (cases "c = lf"; cases "c = cr"; cases cs; cases "split_regex cs") (simp_all add: plain_def)
qed (simp add: plain_def)

section \<open>Properties\<close>

text \<open>C40: The loop that stands in for a broken \<^verbatim>\<open>split\<close> divides a text into the same lines as the regular
  expression, for line feeds, carriage returns and pairs of them, unless the text ends with a
  carriage return.\<close>

theorem splitLines_implementations_agree:
  assumes "s = [] \<or> last s \<noteq> cr"
  shows "splitLines True s = splitLines False s"
  using split_loop_spec [OF _ assms, of 0] by (simp add: splitLines_def splitLines_loop_def)

theorem splitLines_implementations_agree_witness:
  "splitLines True [97, cr, cr, lf, 98, cr, 99, lf] = [[97], [], [98], [99], []]"
  using splitLines_implementations_agree [of "[97, cr, cr, lf, 98, cr, 99, lf]"]
  by (simp add: splitLines_def lf_def cr_def)

text \<open>With a carriage return at the end the loop loses the last, empty line.\<close>

lemma splitLines_loop_loses_line: "splitLines True [97, cr] = [[97]]" "splitLines False [97, cr] = [[97], []]"
proof -
  have "split_step [97, cr] 0 = ([97], 3)"
    by (simp add: split_step_def Let_def index_from_def js_slice_def js_rel_index_def lf_def cr_def)
  then show "splitLines True [97, cr] = [[97]]"
    unfolding splitLines_def splitLines_loop_def
    by (subst split_loop.simps) (simp, subst split_loop.simps, simp)
  show "splitLines False [97, cr] = [[97], []]" by (simp add: splitLines_def lf_def cr_def)
qed

end
