(* ===== verification/Document.thy ===== *)
theory Document
  imports LineTree Positions TextLines
begin

text \<open>
  The document on top of the tree of lines: looking up lines, reading ranges of text, clipping
  positions, converting between positions and offsets, and \<open>updateDoc\<close>, the one function through
  which the text changes (\<^verbatim>\<open>src/js/codemirror/codemirror.js\<close>, sections DOCUMENT DATA STRUCTURE and LINE
  UTILITIES, and the first methods of \<open>Doc\<close>). The record \<open>doc\<close> has the tree, the number of the first
  line and the next free line identity; later theories extend it.
\<close>

section \<open>Definitions\<close>

record 'st doc =
  d_root :: "'st line chunk"
  d_first :: int
  d_nextLine :: nat

datatype doc_exn = NoLine int | TypeErr | PartialOverlap | SyntaxErr

definition d_size :: "('st, 'x) doc_scheme \<Rightarrow> int" where
  "d_size d = chunkSize (d_root d)"

definition lastLine :: "('st, 'x) doc_scheme \<Rightarrow> int" where
  "lastLine d = d_first d + d_size d - 1"

definition getLine :: "('st, 'x) doc_scheme \<Rightarrow> int \<Rightarrow> doc_exn + 'st line" where
  "getLine d n =
     (let k = n - d_first d
      in if k < 0 \<or> k \<ge> d_size d then Inl (NoLine n)
         else case get_chunk (d_root d) k of Some l \<Rightarrow> Inr l | None \<Rightarrow> Inl TypeErr)"

text \<open>Iteration over a range of lines, and the form with one argument, as the source passes its bounds.\<close>

definition doc_iter ::
  "('st, 'x) doc_scheme \<Rightarrow> int \<Rightarrow> int \<Rightarrow> ('st line \<Rightarrow> 's \<Rightarrow> bool \<times> 's) \<Rightarrow> 's \<Rightarrow> 's" where
  "doc_iter d f t op s = snd (iterN op (d_root d) (f - d_first d) (t - f) s)"

definition doc_iter_all :: "('st, 'x) doc_scheme \<Rightarrow> ('st line \<Rightarrow> 's \<Rightarrow> bool \<times> 's) \<Rightarrow> 's \<Rightarrow> 's" where
  "doc_iter_all d op s = snd (iterN op (d_root d) (d_first d) (d_first d + d_size d) s)"

definition doc_insert :: "('st, 'x) doc_scheme \<Rightarrow> int \<Rightarrow> 'st line list \<Rightarrow> ('st, 'x) doc_scheme" where
  "doc_insert d at ls = d\<lparr>d_root := root_insert (d_root d) (at - d_first d) ls\<rparr>"

definition doc_remove :: "('st, 'x) doc_scheme \<Rightarrow> int \<Rightarrow> int \<Rightarrow> ('st, 'x) doc_scheme" where
  "doc_remove d at n = d\<lparr>d_root := removeInner (d_root d) (at - d_first d) n\<rparr>"

definition between_step :: "pos \<Rightarrow> pos \<Rightarrow> 'st line \<Rightarrow> int \<times> jsstring list \<Rightarrow> bool \<times> int \<times> jsstring list" where
  "between_step start end_pos l acc =
     (let (n, out) = acc;
          t1 = (if n = pline end_pos then js_slice (l_text l) 0 (pch end_pos) else l_text l);
          t2 = (if n = pline start then js_slice_from t1 (pch start) else t1)
      in (False, n + 1, out @ [t2]))"

definition getBetween :: "('st, 'x) doc_scheme \<Rightarrow> pos \<Rightarrow> pos \<Rightarrow> jsstring list" where
  "getBetween d start end_pos =
     snd (doc_iter d (pline start) (pline end_pos + 1) (between_step start end_pos) (pline start, []))"

definition getLines :: "('st, 'x) doc_scheme \<Rightarrow> int \<Rightarrow> int \<Rightarrow> jsstring list" where
  "getLines d f t = doc_iter d f t (\<lambda>l out. (False, out @ [l_text l])) []"

definition getValue :: "('st, 'x) doc_scheme \<Rightarrow> jsstring \<Rightarrow> jsstring" where
  "getValue d lineSep = js_join lineSep (getLines d (d_first d) (d_first d + d_size d))"

definition lineNo :: "('st, 'x) doc_scheme \<Rightarrow> nat \<Rightarrow> int option" where
  "lineNo d i = map_option (\<lambda>k. k + d_first d) (no_chunk i (d_root d))"

definition lineAtHeight :: "('st, 'x) doc_scheme \<Rightarrow> int \<Rightarrow> int" where
  "lineAtHeight d h = chunk_at_height (d_root d) h (d_first d)"

definition heightAboveLine :: "('st, 'x) doc_scheme \<Rightarrow> nat \<Rightarrow> int option" where
  "heightAboveLine d i = height_above i (d_root d)"

definition isLine :: "('st, 'x) doc_scheme \<Rightarrow> int \<Rightarrow> bool" where
  "isLine d l \<longleftrightarrow> l \<ge> d_first d \<and> l < d_first d + d_size d"

definition clipLine :: "('st, 'x) doc_scheme \<Rightarrow> int \<Rightarrow> int" where
  "clipLine d n = max (d_first d) (min n (d_first d + d_size d - 1))"

text \<open>An unclipped position is a line and an optional character.\<close>

definition clipPos :: "('st, 'x) doc_scheme \<Rightarrow> int \<Rightarrow> int option \<Rightarrow> doc_exn + pos" where
  "clipPos d line ch =
     (if line < d_first d then Inr (Pos (d_first d) 0)
      else let lastl = d_first d + d_size d - 1
           in if line > lastl
              then rbind (getLine d lastl) (\<lambda>l. Inr (Pos lastl (int (length (l_text l)))))
              else rbind (getLine d line) (\<lambda>l. Inr (clipToLen line ch (int (length (l_text l))))))"

fun clipPosArray :: "('st, 'x) doc_scheme \<Rightarrow> pos list \<Rightarrow> doc_exn + pos list" where
  "clipPosArray d [] = Inr []"
| "clipPosArray d (p # ps) =
     rbind (clipPos d (pline p) (Some (pch p))) (\<lambda>q. rbind (clipPosArray d ps) (\<lambda>qs. Inr (q # qs)))"

definition getRange :: "('st, 'x) doc_scheme \<Rightarrow> pos \<Rightarrow> pos \<Rightarrow> jsstring \<Rightarrow> doc_exn + jsstring" where
  "getRange d f t lineSep =
     rbind (clipPos d (pline f) (Some (pch f))) (\<lambda>f'.
     rbind (clipPos d (pline t) (Some (pch t))) (\<lambda>t'. Inr (js_join lineSep (getBetween d f' t'))))"

definition posFromIndex :: "('st, 'x) doc_scheme \<Rightarrow> int \<Rightarrow> doc_exn + pos" where
  "posFromIndex d off =
     (let (ch, line, rest) =
            doc_iter_all d
              (\<lambda>l (ch, line, off). let sz = int (length (l_text l)) + 1
                 in if sz > off then (True, Some off, line, off) else (False, ch, line + 1, off - sz))
              (None, d_first d, off)
      in clipPos d line ch)"

definition indexFromPos :: "('st, 'x) doc_scheme \<Rightarrow> pos \<Rightarrow> doc_exn + int" where
  "indexFromPos d coords =
     rbind (clipPos d (pline coords) (Some (pch coords))) (\<lambda>p.
       if pline p < d_first d \<or> pch p < 0 then Inr 0
       else Inr (doc_iter d (d_first d) (pline p)
                   (\<lambda>l index. (False, index + int (length (l_text l)) + 1)) (pch p)))"

subsection \<open>Changes\<close>

record change =
  c_from :: pos
  c_to :: pos
  c_text :: "jsstring list"
  c_origin :: "jsstring option"
  c_removed :: "jsstring list"

text \<open>
  A new line; \<open>eh\<close> is the height estimate, the constant 1 without an editor. \<open>updateLine\<close> changes the
  content of a line and drops everything cached for it.
\<close>

definition mkLine :: "('st line \<Rightarrow> int) \<Rightarrow> nat \<Rightarrow> jsstring \<Rightarrow> span list \<Rightarrow> 'st line" where
  "mkLine eh i txt spans =
     (let l = \<lparr>l_id = i, l_text = txt, l_height = 0, l_spans = spans, l_stateAfter = None,
               l_styles = None, l_order = None\<rparr>
      in l\<lparr>l_height := eh l\<rparr>)"

definition updateLine :: "('st line \<Rightarrow> int) \<Rightarrow> jsstring \<Rightarrow> span list \<Rightarrow> 'st line \<Rightarrow> 'st line" where
  "updateLine eh txt spans l =
     (let l1 = l\<lparr>l_text := txt, l_spans := spans, l_stateAfter := None, l_styles := None, l_order := None\<rparr>
      in l1\<lparr>l_height := eh l1\<rparr>)"

definition doc_update :: "('st, 'x) doc_scheme \<Rightarrow> nat \<Rightarrow> ('st line \<Rightarrow> 'st line) \<Rightarrow> ('st, 'x) doc_scheme" where
  "doc_update d i f =
     (case update_chunk i f (d_root d) of Some (r, _) \<Rightarrow> d\<lparr>d_root := r\<rparr> | None \<Rightarrow> d)"

definition updateLineHeight :: "('st, 'x) doc_scheme \<Rightarrow> nat \<Rightarrow> int \<Rightarrow> ('st, 'x) doc_scheme" where
  "updateLineHeight d i h = doc_update d i (\<lambda>l. l\<lparr>l_height := h\<rparr>)"

fun new_lines :: "('st line \<Rightarrow> int) \<Rightarrow> nat \<Rightarrow> (jsstring \<times> span list) list \<Rightarrow> 'st line list" where
  "new_lines eh i [] = []"
| "new_lines eh i ((txt, spans) # rest) = mkLine eh i txt spans # new_lines eh (Suc i) rest"

definition add_lines ::
  "('st line \<Rightarrow> int) \<Rightarrow> ('st, 'x) doc_scheme \<Rightarrow> int \<Rightarrow> (jsstring \<times> span list) list \<Rightarrow> ('st, 'x) doc_scheme" where
  "add_lines eh d at contents =
     (doc_insert d at (new_lines eh (d_nextLine d) contents))\<lparr>d_nextLine := d_nextLine d + length contents\<rparr>"

text \<open>\<open>before\<close> is true without an editor and otherwise the option \<^verbatim>\<open>wholeLineUpdateBefore\<close>.\<close>

definition isWholeLineUpdate :: "bool \<Rightarrow> change \<Rightarrow> bool" where
  "isWholeLineUpdate before c \<longleftrightarrow>
     pch (c_from c) = 0 \<and> pch (c_to c) = 0 \<and> last (c_text c) = [] \<and> before"

text \<open>The lines of the new text with the spans that belong to them, from index \<open>i\<close> up to \<open>j\<close>.\<close>

definition contents :: "(nat \<Rightarrow> span list) \<Rightarrow> jsstring list \<Rightarrow> nat \<Rightarrow> nat \<Rightarrow> (jsstring \<times> span list) list" where
  "contents spansFor txt i j = map (\<lambda>k. (txt ! k, spansFor k)) [i..<j]"

definition updateDoc ::
  "('st line \<Rightarrow> int) \<Rightarrow> bool \<Rightarrow> (nat \<Rightarrow> span list) \<Rightarrow> change \<Rightarrow> ('st, 'x) doc_scheme \<Rightarrow>
    doc_exn + ('st, 'x) doc_scheme" where
  "updateDoc eh before spansFor c d =
     rbind (getLine d (pline (c_from c))) (\<lambda>firstL.
     rbind (getLine d (pline (c_to c))) (\<lambda>lastL.
       let f = c_from c; t = c_to c; txt = c_text c; n = length txt;
           lastText = last txt; lastSpans = spansFor (n - 1);
           nlines = pline t - pline f;
           update = (\<lambda>d l tx sp. doc_update d (l_id l) (updateLine eh tx sp));
           headText = js_slice (l_text firstL) 0 (pch f)
       in Inr
         (if isWholeLineUpdate before c then
            (let d1 = update d lastL (l_text lastL) lastSpans;
                 d2 = (if nlines \<noteq> 0 then doc_remove d1 (pline f) nlines else d1)
             in if n - 1 \<noteq> 0 then add_lines eh d2 (pline f) (contents spansFor txt 0 (n - 1)) else d2)
          else if l_id firstL = l_id lastL then
            (if n = 1
             then update d firstL (headText @ lastText @ js_slice_from (l_text firstL) (pch t)) lastSpans
             else add_lines eh (update d firstL (headText @ txt ! 0) (spansFor 0)) (pline f + 1)
                    (contents spansFor txt 1 (n - 1) @
                       [(lastText @ js_slice_from (l_text firstL) (pch t), lastSpans)]))
          else if n = 1 then
            doc_remove (update d firstL (headText @ txt ! 0 @ js_slice_from (l_text lastL) (pch t)) (spansFor 0))
              (pline f + 1) nlines
          else
            (let d1 = update d firstL (headText @ txt ! 0) (spansFor 0);
                 d2 = update d1 lastL (lastText @ js_slice_from (l_text lastL) (pch t)) lastSpans;
                 d3 = (if nlines > 1 then doc_remove d2 (pline f + 1) (nlines - 1) else d2)
             in add_lines eh d3 (pline f + 1) (contents spansFor txt 1 (n - 1))))))"

text \<open>
  The part of the constructor that builds the lines: an empty line, then the text put there. The parts
  of a document that later theories add are the argument \<open>ext\<close>.
\<close>

definition blankDoc :: "int \<Rightarrow> 'x \<Rightarrow> ('st, 'x) doc_scheme" where
  "blankDoc firstLine ext =
     \<lparr>d_root = BranchChunk [LeafChunk [mkLine (\<lambda>_. 1) 0 [] []]], d_first = firstLine, d_nextLine = 1, \<dots> = ext\<rparr>"

definition insertion :: "int \<Rightarrow> jsstring list \<Rightarrow> change" where
  "insertion firstLine ls =
     \<lparr>c_from = Pos firstLine 0, c_to = Pos firstLine 0, c_text = ls, c_origin = None, c_removed = []\<rparr>"

definition docWithLines :: "jsstring list \<Rightarrow> int \<Rightarrow> 'x \<Rightarrow> doc_exn + ('st, 'x) doc_scheme" where
  "docWithLines ls firstLine ext =
     updateDoc (\<lambda>_. 1) True (\<lambda>_. []) (insertion firstLine ls) (blankDoc firstLine ext)"

section \<open>The invariant of a document\<close>

text \<open>The tree is well-formed and not empty, and line identities are unique and below the counter.\<close>

definition doc_lines :: "('st, 'x) doc_scheme \<Rightarrow> 'st line list" where
  "doc_lines d = collapse (d_root d)"

definition doc_text :: "('st, 'x) doc_scheme \<Rightarrow> jsstring list" where
  "doc_text d = map l_text (doc_lines d)"

definition doc_ok :: "('st, 'x) doc_scheme \<Rightarrow> bool" where
  "doc_ok d \<longleftrightarrow> root_ok (d_root d) \<and> doc_lines d \<noteq> [] \<and> distinct (map l_id (doc_lines d)) \<and>
     (\<forall>l \<in> set (doc_lines d). l_id l < d_nextLine d)"

lemma d_size_ok: "doc_ok d \<Longrightarrow> d_size d = int (length (doc_lines d))"
  by (simp add: doc_ok_def d_size_def root_ok_def doc_lines_def)

lemma doc_size_pos: "doc_ok d \<Longrightarrow> 0 < d_size d"
  by (simp add: d_size_ok) (simp add: doc_ok_def)

lemma getLine_ok:
  "doc_ok d \<Longrightarrow> k < length (doc_lines d) \<Longrightarrow> getLine d (d_first d + int k) = Inr (doc_lines d ! k)"
  using tree.fetch_nth [of "d_root d" k]
  by (simp add: getLine_def d_size_ok) (simp add: doc_ok_def doc_lines_def)

lemma getLine_out:
  "doc_ok d \<Longrightarrow> n < d_first d \<or> d_first d + int (length (doc_lines d)) \<le> n \<Longrightarrow> getLine d n = Inl (NoLine n)"
  by (auto simp: getLine_def d_size_ok Let_def)

lemma isLine_index: "doc_ok d \<Longrightarrow> isLine d n \<Longrightarrow> \<exists>k < length (doc_lines d). n = d_first d + int k"
  by (rule exI [of _ "nat (n - d_first d)"]) (auto simp: isLine_def d_size_ok)

lemma doc_insert_ok:
  "doc_ok d \<Longrightarrow> at \<le> length (doc_lines d) \<Longrightarrow>
    root_ok (d_root (doc_insert d (d_first d + int at) ls)) \<and>
    doc_lines (doc_insert d (d_first d + int at) ls) = list_insert at ls (doc_lines d)"
  using tree.put_law [of "d_root d" at ls] by (simp add: doc_ok_def doc_insert_def doc_lines_def)

lemma doc_remove_ok:
  "doc_ok d \<Longrightarrow> at + n \<le> length (doc_lines d) \<Longrightarrow>
    root_ok (d_root (doc_remove d (d_first d + int at) (int n))) \<and>
    doc_lines (doc_remove d (d_first d + int at) (int n)) = list_remove at n (doc_lines d)"
  using tree.del_law [of "d_root d" at n] by (simp add: doc_ok_def doc_remove_def doc_lines_def)

lemma root_ok_update: "root_ok r \<Longrightarrow> update_chunk i f r = Some (r', e) \<Longrightarrow> chunk_ok r' \<Longrightarrow> root_ok r'"
  by (auto simp: root_ok_def)

lemma map_update_same: "k < length xs \<Longrightarrow> g y = g (xs ! k) \<Longrightarrow> map g (xs[k := y]) = map g xs"
  by (metis list_update_id map_update)

lemma doc_update_ok:
  assumes "doc_ok d" and "k < length (doc_lines d)" and "i = l_id (doc_lines d ! k)"
    and "l_id (f (doc_lines d ! k)) = i"
  shows "doc_ok (doc_update d i f) \<and> doc_lines (doc_update d i f) = (doc_lines d)[k := f (doc_lines d ! k)] \<and>
    d_first (doc_update d i f) = d_first d \<and> d_nextLine (doc_update d i f) = d_nextLine d"
proof -
  let ?ls = "doc_lines d"
  have d: "root_ok (d_root d)" "distinct (map l_id ?ls)" using assms(1) by (simp_all add: doc_ok_def)
  have "update_lines i f ?ls = Some (?ls[k := f (?ls ! k)], l_height (f (?ls ! k)) - l_height (?ls ! k))"
    unfolding assms(3) by (rule update_lines_nth [OF d(2) assms(2)])
  moreover have "chunk_ok (d_root d)" using d(1) by (simp add: root_ok_def)
  ultimately obtain r e where r: "update_chunk i f (d_root d) = Some (r, e)" "chunk_ok r" "collapse r = ?ls[k := f (?ls ! k)]"
    using update_chunk_ok(1) [of "d_root d" i f] by (auto simp: doc_lines_def)
  have ids: "map l_id (?ls[k := f (?ls ! k)]) = map l_id ?ls"
    using assms(2-4) by (simp add: map_update list_update_same_conv)
  have "\<forall>l \<in> set (?ls[k := f (?ls ! k)]). l_id l < d_nextLine d"
    using assms(1) ids unfolding doc_ok_def by (metis (no_types, lifting) image_iff list.set_map)
  then show ?thesis
    using r root_ok_update [OF d(1) r(1,2)] assms(1) ids
    by (auto simp: doc_update_def doc_ok_def doc_lines_def)
qed

section \<open>Updating refines replacing text\<close>

text \<open>
  The specification of a change: the text before the change on its first line, the new text, and the
  text after it on its last line are joined, and the result replaces the lines of the change.
\<close>

definition join_ends :: "jsstring \<Rightarrow> jsstring list \<Rightarrow> jsstring \<Rightarrow> jsstring list" where
  "join_ends pre txt post =
     (if length txt = 1 then [pre @ hd txt @ post]
      else (pre @ hd txt) # butlast (tl txt) @ [last txt @ post])"

definition replace_text :: "jsstring list \<Rightarrow> nat \<Rightarrow> nat \<Rightarrow> nat \<Rightarrow> nat \<Rightarrow> jsstring list \<Rightarrow> jsstring list" where
  "replace_text ls fl fc el ec txt =
     take fl ls @ join_ends (take fc (ls ! fl)) txt (drop ec (ls ! el)) @ drop (Suc el) ls"

text \<open>A change lies within the document: its ends are positions of the text, in order.\<close>

definition valid_pos :: "('st, 'x) doc_scheme \<Rightarrow> pos \<Rightarrow> bool" where
  "valid_pos d p \<longleftrightarrow>
     d_first d \<le> pline p \<and> pline p < d_first d + int (length (doc_lines d)) \<and> 0 \<le> pch p \<and>
     pch p \<le> int (length (l_text (doc_lines d ! nat (pline p - d_first d))))"

definition valid_change :: "('st, 'x) doc_scheme \<Rightarrow> change \<Rightarrow> bool" where
  "valid_change d c \<longleftrightarrow>
     valid_pos d (c_from c) \<and> valid_pos d (c_to c) \<and> c_from c \<le> c_to c \<and> c_text c \<noteq> []"

text \<open>The content of a line that changes preserve or set: everything but its identity and height.\<close>

definition content :: "'st line \<Rightarrow> jsstring \<times> span list \<times> 'st option \<times> (nat \<times> jsstring option) list option" where
  "content l = (l_text l, l_spans l, l_stateAfter l, l_styles l)"

definition fresh :: "jsstring \<times> span list \<Rightarrow> jsstring \<times> span list \<times> 'st option \<times> (nat \<times> jsstring option) list option" where
  "fresh p = (fst p, snd p, None, None)"

lemma content_simps [simp]:
  "content (mkLine eh i t s) = fresh (t, s)" "content (updateLine eh t s l) = fresh (t, s)"
  "l_id (updateLine eh t s l) = l_id l" "l_id (mkLine eh i t s) = i"
  by (simp_all add: content_def fresh_def mkLine_def updateLine_def Let_def)

lemma new_lines_props:
  "map content (new_lines eh i cs) = map fresh cs" "map l_id (new_lines eh i cs) = [i..<i + length cs]"
  "length (new_lines eh i cs) = length cs"
  by (induction eh i cs rule: new_lines.induct) (simp_all add: upt_conv_Cons del: upt_Suc)

lemma new_lines_ids: "\<forall>l \<in> set (new_lines eh i cs). i \<le> l_id l \<and> l_id l < i + length cs"
proof
  fix l assume "l \<in> set (new_lines eh i cs)"
  then have "l_id l \<in> set (map l_id (new_lines eh i cs))" by simp
  then show "i \<le> l_id l \<and> l_id l < i + length cs" unfolding new_lines_props by simp
qed

lemma set_list_insert: "set (list_insert at ins xs) = set ins \<union> set xs"
proof -
  have "set xs = set (take at xs) \<union> set (drop at xs)" by (metis append_take_drop_id set_append)
  then show ?thesis by (auto simp: list_insert_def)
qed

lemma distinct_list_insert:
  "distinct (list_insert at ins xs) \<longleftrightarrow> distinct ins \<and> distinct xs \<and> set ins \<inter> set xs = {}"
proof -
  have "distinct (a @ ins @ c) \<longleftrightarrow> distinct ins \<and> distinct (a @ c) \<and> set ins \<inter> set (a @ c) = {}" for a c
    by auto
  from this [of "take at xs" "drop at xs"] show ?thesis by (simp add: list_insert_def)
qed

lemma add_lines_ok:
  assumes "doc_ok d" and "at \<le> length (doc_lines d)"
  shows "doc_ok (add_lines eh d (d_first d + int at) cs) \<and>
    map content (doc_lines (add_lines eh d (d_first d + int at) cs)) =
      list_insert at (map fresh cs) (map content (doc_lines d)) \<and>
    d_first (add_lines eh d (d_first d + int at) cs) = d_first d"
proof -
  let ?new = "new_lines eh (d_nextLine d) cs" and ?ls = "doc_lines d"
  have i: "root_ok (d_root (doc_insert d (d_first d + int at) ?new))"
    "doc_lines (doc_insert d (d_first d + int at) ?new) = list_insert at ?new ?ls"
    using doc_insert_ok [OF assms] by blast+
  have ids: "map l_id (list_insert at ?new ?ls) = list_insert at [d_nextLine d..<d_nextLine d + length cs] (map l_id ?ls)"
    by (simp add: list_insert_def new_lines_props take_map drop_map)
  then show ?thesis
    using i assms(1) distinct_list_insert [of at "[d_nextLine d..<d_nextLine d + length cs]" "map l_id ?ls"]
      set_list_insert [of at ?new ?ls] new_lines_ids [of eh "d_nextLine d" cs]
    by (fastforce simp: add_lines_def doc_ok_def doc_lines_def doc_insert_def list_insert_def new_lines_props
        take_map drop_map)
qed

lemma set_list_remove: "set (list_remove at n xs) \<subseteq> set xs"
  using set_take_subset set_drop_subset by (fastforce simp: list_remove_def)

lemma distinct_list_remove: "distinct xs \<Longrightarrow> distinct (list_remove at n xs)"
proof -
  assume a: "distinct xs"
  have "set (take at xs) \<inter> set (drop at xs) = {}"
    using a by (metis append_take_drop_id distinct_append)
  moreover have "set (drop (at + n) xs) \<subseteq> set (drop at xs)" by (simp add: set_drop_subset_set_drop)
  ultimately have "set (take at xs) \<inter> set (drop (at + n) xs) = {}" by blast
  with a show ?thesis by (simp add: list_remove_def)
qed

lemma doc_remove_doc_ok:
  assumes "doc_ok d" and "at + n \<le> length (doc_lines d)" and "n < length (doc_lines d)"
  shows "doc_ok (doc_remove d (d_first d + int at) (int n)) \<and>
    doc_lines (doc_remove d (d_first d + int at) (int n)) = list_remove at n (doc_lines d) \<and>
    d_first (doc_remove d (d_first d + int at) (int n)) = d_first d"
proof -
  let ?d = "doc_remove d (d_first d + int at) (int n)" and ?ls = "doc_lines d"
  have r: "root_ok (d_root ?d)" "doc_lines ?d = list_remove at n ?ls"
    using doc_remove_ok [OF assms(1,2)] by blast+
  have "map l_id (list_remove at n ?ls) = list_remove at n (map l_id ?ls)"
    by (simp add: list_remove_def take_map drop_map)
  then have "distinct (map l_id (list_remove at n ?ls))"
    using distinct_list_remove [of "map l_id ?ls" at n] assms(1) by (simp add: doc_ok_def)
  moreover have "length (list_remove at n ?ls) > 0" using assms(2,3) by simp
  moreover have "d_first ?d = d_first d" "d_nextLine ?d = d_nextLine d" by (simp_all add: doc_remove_def)
  ultimately show ?thesis using r assms(1) set_list_remove [of at n ?ls] by (auto simp: doc_ok_def)
qed

lemma join_ends_single [simp]: "join_ends pre [x] post = [pre @ x @ post]"
  by (simp add: join_ends_def)

lemma zip_join_ends_1:
  "length txt = 1 \<Longrightarrow> zip (join_ends pre txt post) (map sp [0..<length txt]) = [(pre @ hd txt @ post, sp 0)]"
  by (simp add: join_ends_def)

lemma zip_join_ends_many:
  assumes "length txt > 1"
  shows "zip (join_ends pre txt post) (map sp [0..<length txt]) =
    (pre @ txt ! 0, sp 0) # contents sp txt 1 (length txt - 1) @ [(last txt @ post, sp (length txt - 1))]"
proof -
  obtain x ys z where t: "txt = x # ys @ [z]"
    using assms by (cases "txt"; cases "tl txt" rule: rev_cases) auto
  have "contents sp txt 1 (length txt - 1) = zip ys (map sp [1..<Suc (length ys)])"
    by (rule nth_equalityI) (auto simp: contents_def t nth_append simp del: upt_Suc)
  moreover have "[0..<length txt] = 0 # [1..<Suc (length ys)] @ [Suc (length ys)]"
    using upt_conv_Cons [of 0 "Suc (length ys)"] by (simp add: t)
  ultimately show ?thesis by (simp add: join_ends_def t del: upt_Suc)
qed

lemma contents_from_0:
  "length txt > 1 \<Longrightarrow> contents sp txt 0 (length txt - 1) = (txt ! 0, sp 0) # contents sp txt 1 (length txt - 1)"
  by (simp add: contents_def upt_conv_Cons del: upt_Suc)

lemma remove_before_update:
  "F \<le> E \<Longrightarrow> E < length ls \<Longrightarrow> list_remove F (E - F) (ls[E := u]) = take F ls @ u # drop (Suc E) ls"
  by (simp add: list_remove_def upd_conv_take_nth_drop min_def)

lemma remove_after_update:
  assumes "F < E" and "E < length ls"
  shows "list_remove (Suc F) (E - F) (ls[F := u]) = take F ls @ u # drop (Suc E) ls"
proof -
  have "ls[F := u] = (take F ls @ [u]) @ drop (Suc F) ls"
    using assms by (simp add: upd_conv_take_nth_drop)
  moreover have "length (take F ls @ [u]) = Suc F" using assms by simp
  ultimately have "list_remove (Suc F) (E - F) (ls[F := u]) = (take F ls @ [u]) @ drop (E - F) (drop (Suc F) ls)"
    by (simp only: list_remove_def take_append drop_append) simp
  then show ?thesis using assms by simp
qed

lemma remove_between_updates:
  assumes "F < E" and "E < length ls"
  shows "list_remove (Suc F) (E - F - 1) (ls[F := u, E := v]) = take F ls @ u # v # drop (Suc E) ls"
proof -
  define B where "B = take (E - F - 1) (drop (Suc F) ls)"
  have "ls = take F ls @ ls ! F # drop (Suc F) ls" using assms by (simp add: id_take_nth_drop)
  moreover have "drop (Suc F) ls = B @ ls ! E # drop (Suc E) ls"
    using assms id_take_nth_drop [of "E - F - 1" "drop (Suc F) ls"] by (simp add: B_def)
  ultimately have ls: "ls = take F ls @ ls ! F # B @ ls ! E # drop (Suc E) ls" by simp
  have len: "length (take F ls) = F" "length B = E - F - 1" using assms by (simp_all add: B_def)
  obtain k where k: "E = Suc (F + k)" using assms(1) less_imp_Suc_add by blast
  have "ls[F := u, E := v] = take F ls @ u # B @ v # drop (Suc E) ls"
    using assms len k by (subst ls) (simp add: list_update_append)
  then show ?thesis using assms len k by (simp add: list_remove_def)
qed

lemma insert_after_update:
  "F < length ls \<Longrightarrow> list_insert (Suc F) ins (ls[F := u]) = take F ls @ u # ins @ drop (Suc F) ls"
  by (simp add: list_insert_def upd_conv_take_nth_drop min_def)

lemma insert_at_end: "length xs = F \<Longrightarrow> list_insert F ins (xs @ ys) = xs @ ins @ ys"
  by (simp add: list_insert_def)

text \<open>The lines of a document after a change, up to identities and heights.\<close>

definition changed_content ::
  "(nat \<Rightarrow> span list) \<Rightarrow> nat \<Rightarrow> nat \<Rightarrow> nat \<Rightarrow> nat \<Rightarrow> jsstring list \<Rightarrow> 'st line list \<Rightarrow>
    (jsstring \<times> span list \<times> 'st option \<times> (nat \<times> jsstring option) list option) list" where
  "changed_content sp F fc E ec txt ls =
     take F (map content ls) @
     map fresh (zip (join_ends (take fc (l_text (ls ! F))) txt (drop ec (l_text (ls ! E)))) (map sp [0..<length txt])) @
     drop (Suc E) (map content ls)"

lemma updateDoc_whole_line:
  assumes d: "doc_ok d" and F: "F \<le> E" "E < length (doc_lines d)" and tx: "txt \<noteq> []" "last txt = []"
  shows "let d1 = doc_update d (l_id (doc_lines d ! E)) (updateLine eh (l_text (doc_lines d ! E)) (sp (length txt - 1)));
             d2 = (if int E - int F \<noteq> 0 then doc_remove d1 (d_first d + int F) (int E - int F) else d1);
             d3 = (if length txt - 1 \<noteq> 0 then add_lines eh d2 (d_first d + int F) (contents sp txt 0 (length txt - 1)) else d2)
    in doc_ok d3 \<and> d_first d3 = d_first d \<and>
       map content (doc_lines d3) = changed_content sp F 0 E 0 txt (doc_lines d)"
proof -
  let ?ls = "doc_lines d"
  define u where "u = updateLine eh (l_text (?ls ! E)) (sp (length txt - 1)) (?ls ! E)"
  define d1 where "d1 = doc_update d (l_id (?ls ! E)) (updateLine eh (l_text (?ls ! E)) (sp (length txt - 1)))"
  define d2 where "d2 = (if int E - int F \<noteq> 0 then doc_remove d1 (d_first d + int F) (int E - int F) else d1)"
  define d3 where "d3 = (if length txt - 1 \<noteq> 0 then add_lines eh d2 (d_first d + int F) (contents sp txt 0 (length txt - 1)) else d2)"
  have d1: "doc_ok d1" "doc_lines d1 = ?ls[E := u]" "d_first d1 = d_first d"
    using doc_update_ok [OF d F(2) refl, of "updateLine eh (l_text (?ls ! E)) (sp (length txt - 1))"]
    by (simp_all add: d1_def u_def)
  have "F + (E - F) \<le> length (doc_lines d1)" "E - F < length (doc_lines d1)" using F d1(2) by auto
  from doc_remove_doc_ok [OF d1(1) this]
  have d2: "doc_ok d2" "doc_lines d2 = take F ?ls @ u # drop (Suc E) ?ls" "d_first d2 = d_first d"
    using F d1 remove_before_update [OF F, of u]
    by (auto simp: d2_def of_nat_diff upd_conv_take_nth_drop)
  have "F \<le> length (doc_lines d2)" using F d2(2) by simp
  from add_lines_ok [OF d2(1) this, of eh "contents sp txt 0 (length txt - 1)"]
  have "doc_ok d3" "d_first d3 = d_first d"
    "map content (doc_lines d3) = take F (map content ?ls) @ map fresh (contents sp txt 0 (length txt - 1)) @
       fresh (l_text (?ls ! E), sp (length txt - 1)) # drop (Suc E) (map content ?ls)"
    using d2 F insert_at_end [of "take F (map content ?ls)" F]
    by (auto simp: d3_def u_def take_map drop_map contents_def)
  moreover have "zip (join_ends [] txt (l_text (?ls ! E))) (map sp [0..<length txt]) =
      contents sp txt 0 (length txt - 1) @ [(l_text (?ls ! E), sp (length txt - 1))]"
  proof (cases "length txt = 1")
    case True
    then have "hd txt = []" using tx(2) by (cases "txt") auto
    with zip_join_ends_1 [OF True, of "[]" "l_text (?ls ! E)" sp] True show ?thesis by (simp add: contents_def)
  next
    case False
    then have "length txt > 1" using tx(1) by (cases "txt") auto
    with tx(2) show ?thesis by (simp add: zip_join_ends_many contents_from_0 [unfolded One_nat_def])
  qed
  ultimately show ?thesis
    unfolding Let_def d1_def [symmetric] d2_def [symmetric] d3_def [symmetric]
    by (simp add: changed_content_def)
qed

lemma updateDoc_same_line:
  assumes d: "doc_ok d" and F: "F < length (doc_lines d)" and tx: "txt \<noteq> []"
  shows "let hd_text = take fc (l_text (doc_lines d ! F)); tl_text = drop ec (l_text (doc_lines d ! F));
             i = l_id (doc_lines d ! F);
             d' = (if length txt = 1 then doc_update d i (updateLine eh (hd_text @ last txt @ tl_text) (sp (length txt - 1)))
                   else add_lines eh (doc_update d i (updateLine eh (hd_text @ txt ! 0) (sp 0))) (d_first d + int F + 1)
                     (contents sp txt 1 (length txt - 1) @ [(last txt @ tl_text, sp (length txt - 1))]))
    in doc_ok d' \<and> d_first d' = d_first d \<and> map content (doc_lines d') = changed_content sp F fc F ec txt (doc_lines d)"
proof (cases "length txt = 1")
  case True
  then obtain x where "txt = [x]" by (cases "txt") auto
  with doc_update_ok [OF d F refl] zip_join_ends_1 [OF True] F show ?thesis
    by (simp add: Let_def changed_content_def upd_conv_take_nth_drop take_map drop_map)
next
  case False
  then have n: "length txt > 1" using tx by (cases "txt") auto
  let ?l = "doc_lines d ! F" and ?pre = "take fc (l_text (doc_lines d ! F))"
  define d1 where "d1 = doc_update d (l_id ?l) (updateLine eh (?pre @ txt ! 0) (sp 0))"
  have d1: "doc_ok d1" "doc_lines d1 = (doc_lines d)[F := updateLine eh (?pre @ txt ! 0) (sp 0) ?l]" "d_first d1 = d_first d"
    using doc_update_ok [OF d F refl, of "updateLine eh (?pre @ txt ! 0) (sp 0)"] by (simp_all add: d1_def)
  have "Suc F \<le> length (doc_lines d1)" using F d1 by simp
  from add_lines_ok [OF d1(1) this] d1 F False n show ?thesis
    unfolding Let_def d1_def [symmetric]
    by (simp add: changed_content_def zip_join_ends_many map_update insert_after_update algebra_simps take_map drop_map)
qed

lemma updateDoc_join_lines:
  assumes d: "doc_ok d" and F: "F < E" "E < length (doc_lines d)" and tx: "length txt = 1"
  shows "let hd_text = take fc (l_text (doc_lines d ! F)); tl_text = drop ec (l_text (doc_lines d ! E));
             d' = doc_remove (doc_update d (l_id (doc_lines d ! F)) (updateLine eh (hd_text @ txt ! 0 @ tl_text) (sp 0)))
                    (d_first d + int F + 1) (int E - int F)
    in doc_ok d' \<and> d_first d' = d_first d \<and> map content (doc_lines d') = changed_content sp F fc E ec txt (doc_lines d)"
proof -
  let ?l = "doc_lines d ! F" and ?t = "take fc (l_text (doc_lines d ! F)) @ txt ! 0 @ drop ec (l_text (doc_lines d ! E))"
  define d1 where "d1 = doc_update d (l_id ?l) (updateLine eh ?t (sp 0))"
  have d1: "doc_ok d1" "doc_lines d1 = (doc_lines d)[F := updateLine eh ?t (sp 0) ?l]" "d_first d1 = d_first d"
    using doc_update_ok [OF d _ refl, of F "updateLine eh ?t (sp 0)"] F by (simp_all add: d1_def)
  have "Suc F + (E - F) \<le> length (doc_lines d1)" "E - F < length (doc_lines d1)" using F d1 by auto
  from doc_remove_doc_ok [OF d1(1) this] d1 F
  have "doc_ok (doc_remove d1 (d_first d + int F + 1) (int E - int F))"
    "doc_lines (doc_remove d1 (d_first d + int F + 1) (int E - int F)) =
      list_remove (Suc F) (E - F) ((doc_lines d)[F := updateLine eh ?t (sp 0) ?l])"
    "d_first (doc_remove d1 (d_first d + int F + 1) (int E - int F)) = d_first d"
    by (simp_all add: of_nat_diff algebra_simps)
  moreover obtain x where "txt = [x]" using tx by (cases "txt") auto
  ultimately show ?thesis
    using remove_after_update [OF F] zip_join_ends_1 [OF tx]
    unfolding Let_def d1_def [symmetric]
    by (simp add: changed_content_def take_map drop_map)
qed

lemma updateDoc_many_lines:
  assumes d: "doc_ok d" and F: "F < E" "E < length (doc_lines d)" and tx: "length txt > 1"
  shows "let hd_text = take fc (l_text (doc_lines d ! F)); tl_text = drop ec (l_text (doc_lines d ! E));
             d1 = doc_update d (l_id (doc_lines d ! F)) (updateLine eh (hd_text @ txt ! 0) (sp 0));
             d2 = doc_update d1 (l_id (doc_lines d ! E)) (updateLine eh (last txt @ tl_text) (sp (length txt - 1)));
             d3 = (if int E - int F > 1 then doc_remove d2 (d_first d + int F + 1) (int E - int F - 1) else d2);
             d' = add_lines eh d3 (d_first d + int F + 1) (contents sp txt 1 (length txt - 1))
    in doc_ok d' \<and> d_first d' = d_first d \<and> map content (doc_lines d') = changed_content sp F fc E ec txt (doc_lines d)"
proof -
  let ?ls = "doc_lines d"
  define t1 where "t1 = take fc (l_text (?ls ! F)) @ txt ! 0"
  define t2 where "t2 = last txt @ drop ec (l_text (?ls ! E))"
  define u where "u = updateLine eh t1 (sp 0) (?ls ! F)"
  define v where "v = updateLine eh t2 (sp (length txt - 1)) (?ls ! E)"
  define d1 where "d1 = doc_update d (l_id (?ls ! F)) (updateLine eh t1 (sp 0))"
  define d2 where "d2 = doc_update d1 (l_id (?ls ! E)) (updateLine eh t2 (sp (length txt - 1)))"
  define d3 where "d3 = (if int E - int F > 1 then doc_remove d2 (d_first d + int F + 1) (int E - int F - 1) else d2)"
  have d1: "doc_ok d1" "doc_lines d1 = ?ls[F := u]" "d_first d1 = d_first d"
    using doc_update_ok [OF d _ refl, of F "updateLine eh t1 (sp 0)"] F by (simp_all add: d1_def u_def)
  have E: "doc_lines d1 ! E = ?ls ! E" "E < length (doc_lines d1)" using d1 F by simp_all
  have d2: "doc_ok d2" "doc_lines d2 = ?ls[F := u, E := v]" "d_first d2 = d_first d"
    using doc_update_ok [OF d1(1) E(2), of "l_id (?ls ! E)" "updateLine eh t2 (sp (length txt - 1))"] E d1
    by (simp_all add: d2_def v_def)
  have "Suc F + (E - F - 1) \<le> length (doc_lines d2)" "E - F - 1 < length (doc_lines d2)" using F d2 by auto
  note rem = doc_remove_doc_ok [OF d2(1) this]
  have i: "int E - int F - 1 = int (E - F - 1)" "d_first d + int F + 1 = d_first d2 + int (Suc F)" using F d2(3) by auto
  have d3: "doc_ok d3" "doc_lines d3 = take F ?ls @ u # v # drop (Suc E) ?ls" "d_first d3 = d_first d"
  proof -
    have "E = Suc F" if "\<not> int E - int F > 1" using that F by linarith
    then show "doc_ok d3" "doc_lines d3 = take F ?ls @ u # v # drop (Suc E) ?ls" "d_first d3 = d_first d"
      using rem d2 remove_between_updates [OF F, of u v] unfolding d3_def i by auto
  qed
  have "Suc F \<le> length (doc_lines d3)" using F d3 by simp
  from add_lines_ok [OF d3(1) this, of eh "contents sp txt 1 (length txt - 1)"]
  have "doc_ok (add_lines eh d3 (d_first d + int F + 1) (contents sp txt 1 (length txt - 1)))"
    "d_first (add_lines eh d3 (d_first d + int F + 1) (contents sp txt 1 (length txt - 1))) = d_first d"
    "map content (doc_lines (add_lines eh d3 (d_first d + int F + 1) (contents sp txt 1 (length txt - 1)))) =
      (take F (map content ?ls) @ [content u]) @ map fresh (contents sp txt 1 (length txt - 1)) @
        content v # drop (Suc E) (map content ?ls)"
    using d3 F insert_at_end [of "take F (map content ?ls) @ [content u]" "Suc F"]
    by (simp_all add: algebra_simps take_map drop_map)
  then show ?thesis
    unfolding Let_def t1_def [symmetric] t2_def [symmetric] d1_def [symmetric] d2_def [symmetric] d3_def [symmetric]
    by (simp add: changed_content_def zip_join_ends_many [OF tx] u_def v_def t1_def t2_def)
qed

lemma js_slice_take: "0 \<le> b \<Longrightarrow> js_slice xs 0 b = take (nat b) xs"
  by (rule js_slice_prefix)

lemma updateDoc_ok:
  assumes d: "doc_ok d" and c: "valid_change d c"
  shows "\<exists>d'. updateDoc eh before sp c d = Inr d' \<and> doc_ok d' \<and> d_first d' = d_first d \<and>
    map content (doc_lines d') =
      changed_content sp (nat (pline (c_from c) - d_first d)) (nat (pch (c_from c)))
        (nat (pline (c_to c) - d_first d)) (nat (pch (c_to c))) (c_text c) (doc_lines d)"
proof -
  let ?ls = "doc_lines d" and ?txt = "c_text c"
  define F where "F = nat (pline (c_from c) - d_first d)"
  define E where "E = nat (pline (c_to c) - d_first d)"
  have f: "pline (c_from c) = d_first d + int F" "F < length ?ls" "0 \<le> pch (c_from c)"
    and t: "pline (c_to c) = d_first d + int E" "E < length ?ls" "0 \<le> pch (c_to c)"
    using c by (auto simp: valid_change_def valid_pos_def F_def E_def)
  have FE: "F \<le> E" using c f(1) t(1) by (auto simp: valid_change_def less_eq_pos_def)
  have tx: "?txt \<noteq> []" using c by (simp add: valid_change_def)
  have same: "l_id (?ls ! F) = l_id (?ls ! E) \<longleftrightarrow> F = E"
    using d f(2) t(2) by (auto simp: doc_ok_def distinct_conv_nth)
  have gets: "getLine d (pline (c_from c)) = Inr (?ls ! F)" "getLine d (pline (c_to c)) = Inr (?ls ! E)"
    using getLine_ok [OF d] f t by simp_all
  have nl: "pline (c_to c) - pline (c_from c) = int E - int F" using f t by simp
  have upd: "updateDoc eh before sp c d = Inr D" if "(let f = c_from c; t = c_to c; txt = c_text c; n = length txt;
           lastText = last txt; lastSpans = sp (n - 1);
           update = (\<lambda>d l tx sp. doc_update d (l_id l) (updateLine eh tx sp));
           headText = take (nat (pch f)) (l_text (?ls ! F)); tailText = (\<lambda>l. drop (nat (pch t)) (l_text l))
       in (if isWholeLineUpdate before c then
            (let d1 = update d (?ls ! E) (l_text (?ls ! E)) lastSpans;
                 d2 = (if int E - int F \<noteq> 0 then doc_remove d1 (d_first d + int F) (int E - int F) else d1)
             in if n - 1 \<noteq> 0 then add_lines eh d2 (d_first d + int F) (contents sp txt 0 (n - 1)) else d2)
          else if F = E then
            (if n = 1 then update d (?ls ! F) (headText @ lastText @ tailText (?ls ! F)) lastSpans
             else add_lines eh (update d (?ls ! F) (headText @ txt ! 0) (sp 0)) (d_first d + int F + 1)
                    (contents sp txt 1 (n - 1) @ [(lastText @ tailText (?ls ! F), lastSpans)]))
          else if n = 1 then
            doc_remove (update d (?ls ! F) (headText @ txt ! 0 @ tailText (?ls ! E)) (sp 0)) (d_first d + int F + 1) (int E - int F)
          else
            (let d1 = update d (?ls ! F) (headText @ txt ! 0) (sp 0);
                 d2 = update d1 (?ls ! E) (lastText @ tailText (?ls ! E)) lastSpans;
                 d3 = (if int E - int F > 1 then doc_remove d2 (d_first d + int F + 1) (int E - int F - 1) else d2)
             in add_lines eh d3 (d_first d + int F + 1) (contents sp txt 1 (n - 1))))) = D" for D
    unfolding that [symmetric] updateDoc_def gets rbind.simps nl Let_def same js_slice_take [OF f(3)] js_slice_from_nonneg [OF t(3)]
    unfolding f(1) ..
  show ?thesis
    unfolding F_def [symmetric] E_def [symmetric]
  proof (cases "isWholeLineUpdate before c")
    case True
    then have z: "pch (c_from c) = 0" "pch (c_to c) = 0" "last ?txt = []" by (simp_all add: isWholeLineUpdate_def)
    show "\<exists>d'. updateDoc eh before sp c d = Inr d' \<and> doc_ok d' \<and> d_first d' = d_first d \<and> map content (doc_lines d') =
      changed_content sp F (nat (pch (c_from c))) E (nat (pch (c_to c))) (c_text c) (doc_lines d)"
      by (intro exI conjI, rule upd, unfold Let_def, rule if_P [OF True])
        (use updateDoc_whole_line [OF d FE t(2) tx z(3), of eh sp] in \<open>simp_all only: Let_def z nat_0\<close>)
  next
    case part: False
    show "\<exists>d'. updateDoc eh before sp c d = Inr d' \<and> doc_ok d' \<and> d_first d' = d_first d \<and> map content (doc_lines d') =
      changed_content sp F (nat (pch (c_from c))) E (nat (pch (c_to c))) (c_text c) (doc_lines d)"
    proof (cases "F = E")
      case True
      show ?thesis
        by (intro exI conjI, rule upd, unfold Let_def, subst if_not_P [OF part], rule if_P [OF True])
          (use updateDoc_same_line [OF d f(2) tx, of "nat (pch (c_from c))" "nat (pch (c_to c))" eh sp] True in
            \<open>simp_all only: Let_def\<close>)
    next
      case False
      then have lt: "F < E" using FE by simp
      show ?thesis
      proof (cases "length ?txt = 1")
        case True
        show ?thesis
          by (intro exI conjI, rule upd, unfold Let_def, subst if_not_P [OF part], subst if_not_P [OF False], rule if_P [OF True])
            (use updateDoc_join_lines [OF d lt t(2) True, of "nat (pch (c_from c))" "nat (pch (c_to c))" eh sp] in
              \<open>simp_all only: Let_def\<close>)
      next
        case n1: False
        then have n: "length ?txt > 1" using tx by (cases "c_text c") auto
        show ?thesis
          by (intro exI conjI, rule upd, unfold Let_def, subst if_not_P [OF part], subst if_not_P [OF False], rule if_not_P [OF n1])
            (use updateDoc_many_lines [OF d lt t(2) n, of "nat (pch (c_from c))" "nat (pch (c_to c))" eh sp] in
              \<open>simp_all only: Let_def\<close>)
      qed
    qed
  qed
qed

lemma fst_fresh [simp]: "fst (fresh p) = fst p"
  by (simp add: fresh_def)

lemma length_join_ends [simp]: "txt \<noteq> [] \<Longrightarrow> length (join_ends pre txt post) = length txt"
  by (cases "txt") (auto simp: join_ends_def)

lemma changed_content_text:
  "txt \<noteq> [] \<Longrightarrow> F < length ls \<Longrightarrow> E < length ls \<Longrightarrow>
    map fst (changed_content sp F fc E ec txt ls) = replace_text (map l_text ls) F fc E ec txt"
  by (simp add: changed_content_def replace_text_def content_def comp_def flip: take_map drop_map)

lemma doc_text_content: "doc_text d = map fst (map content (doc_lines d))"
  by (simp add: doc_text_def content_def)

section \<open>Reading text\<close>

definition text_between :: "jsstring list \<Rightarrow> nat \<Rightarrow> nat \<Rightarrow> nat \<Rightarrow> nat \<Rightarrow> jsstring list" where
  "text_between ls F fc E ec =
     (if F = E then [drop fc (take ec (ls ! F))]
      else drop fc (ls ! F) # take (E - F - 1) (drop (Suc F) ls) @ [take ec (ls ! E)])"

lemma doc_iter_ok:
  assumes "doc_ok d" and "F \<le> E" and "E \<le> length (doc_lines d)"
  shows "doc_iter d (d_first d + int F) (d_first d + int E) op s = snd (iter_lines op (take (E - F) (drop F (doc_lines d))) s)"
proof -
  have "chunk_ok (d_root d)" using assms(1) by (simp add: doc_ok_def root_ok_def)
  from iterN_ok(1) [OF this, of F "E - F" op s] assms show ?thesis
    by (simp add: doc_iter_def doc_lines_def of_nat_diff)
qed

lemma iter_collect: "snd (iter_lines (\<lambda>l out. (False, out @ [f l])) ls out) = out @ map f ls"
  by (induction ls arbitrary: out) simp_all

lemma getLines_ok:
  "doc_ok d \<Longrightarrow> F \<le> E \<Longrightarrow> E \<le> length (doc_lines d) \<Longrightarrow>
    getLines d (d_first d + int F) (d_first d + int E) = take (E - F) (drop F (doc_text d))"
  by (simp add: getLines_def doc_iter_ok iter_collect doc_text_def take_map drop_map)

lemma iter_between:
  "snd (snd (iter_lines (between_step start end_pos) ls (n, out))) =
    out @ map (\<lambda>(k, l).
      let t1 = (if k = pline end_pos then js_slice (l_text l) 0 (pch end_pos) else l_text l)
      in if k = pline start then js_slice_from t1 (pch start) else t1) (zip (map (\<lambda>i. n + int i) [0..<length ls]) ls)"
proof (induction ls arbitrary: n out)
  case (Cons l ls)
  have "map (\<lambda>i. n + int i) [0..<length (l # ls)] = n # map (\<lambda>i. n + 1 + int i) [0..<length ls]"
    by (simp add: upt_conv_Cons map_Suc_upt [symmetric] comp_def algebra_simps del: upt_Suc)
  then show ?case using Cons.IH by (simp add: between_step_def Let_def del: upt_Suc)
qed simp

lemma getBetween_ok:
  assumes d: "doc_ok d" and F: "F \<le> E" "E < length (doc_lines d)" and "0 \<le> fc" "0 \<le> ec"
  shows "getBetween d (Pos (d_first d + int F) fc) (Pos (d_first d + int E) ec) =
    text_between (doc_text d) F (nat fc) E (nat ec)"
proof -
  let ?ls = "take (Suc E - F) (drop F (doc_lines d))"
  have len: "length ?ls = Suc (E - F)" using F by simp
  have last: "i < Suc (E - F) \<Longrightarrow> \<not> i < E - F \<Longrightarrow> F + i = E" for i using F by linarith
  have g: "getBetween d (Pos (d_first d + int F) fc) (Pos (d_first d + int E) ec) =
    map (\<lambda>(k, l).
      let t1 = (if k = d_first d + int E then take (nat ec) (l_text l) else l_text l)
      in if k = d_first d + int F then drop (nat fc) t1 else t1)
      (zip (map (\<lambda>i. d_first d + int F + int i) [0..<length ?ls]) ?ls)"
    using doc_iter_ok [OF d, of F "Suc E" "between_step (Pos (d_first d + int F) fc) (Pos (d_first d + int E) ec)"
        "(d_first d + int F, [])"] F
    unfolding getBetween_def pos.sel
    by (simp add: algebra_simps) (auto simp: iter_between js_slice_take js_slice_from_nonneg assms(4,5) algebra_simps Let_def)
  show ?thesis
    unfolding g
    by (rule nth_equalityI)
      (use F len last in \<open>auto simp: text_between_def doc_text_def nth_Cons' nth_append Let_def\<close>)
qed

text \<open>
  Every text is what its part before a range, the range and its part after it make up; and replacing
  the range leaves the parts around it alone. These two facts make changes invertible.
\<close>

lemma text_between_nonempty [simp]: "text_between ls F fc E ec \<noteq> []"
  by (simp add: text_between_def)

lemma text_decompose:
  assumes "F \<le> E" and "E < length ls" and "fc \<le> length (ls ! F)" and "F = E \<Longrightarrow> fc \<le> ec" and "ec \<le> length (ls ! E)"
  shows "ls = take F ls @ join_ends (take fc (ls ! F)) (text_between ls F fc E ec) (drop ec (ls ! E)) @ drop (Suc E) ls"
proof (cases "F = E")
  case True
  have "take fc (ls ! F) @ drop fc (take ec (ls ! F)) = take ec (ls ! F)"
    using append_take_drop_id [of fc "take ec (ls ! F)"] assms(4) [OF True] by (simp add: min_absorb1)
  then have "take fc (ls ! F) @ drop fc (take ec (ls ! F)) @ drop ec (ls ! F) = ls ! F"
    by (metis append.assoc append_take_drop_id)
  with True id_take_nth_drop [OF assms(2)] show ?thesis by (simp add: text_between_def)
next
  case False
  then have "F < E" using assms(1) by simp
  then have "ls = take F ls @ ls ! F # drop (Suc F) ls" using assms(2) id_take_nth_drop [of F ls] by simp
  moreover have "drop (Suc F) ls = take (E - F - 1) (drop (Suc F) ls) @ ls ! E # drop (Suc E) ls"
    using \<open>F < E\<close> assms(2) id_take_nth_drop [of "E - F - 1" "drop (Suc F) ls"] by simp
  moreover have "join_ends (take fc (ls ! F)) (text_between ls F fc E ec) (drop ec (ls ! E)) =
      ls ! F # take (E - F - 1) (drop (Suc F) ls) @ [ls ! E]"
    using False by (simp add: text_between_def join_ends_def butlast_append)
  ultimately show ?thesis by (metis append.assoc append_Cons append_Nil)
qed

definition end_line :: "nat \<Rightarrow> jsstring list \<Rightarrow> nat" where
  "end_line F txt = F + length txt - 1"

definition end_ch :: "nat \<Rightarrow> jsstring list \<Rightarrow> nat" where
  "end_ch fc txt = (if length txt = 1 then fc else 0) + length (last txt)"

lemma replaced_parts:
  assumes "txt \<noteq> []" and "length pre = F" and "length A = fc" and "ls = pre @ join_ends A txt C @ post"
  shows "take F ls = pre \<and> take fc (ls ! F) = A \<and> drop (end_ch fc txt) (ls ! end_line F txt) = C \<and>
    drop (Suc (end_line F txt)) ls = post \<and> text_between ls F fc (end_line F txt) (end_ch fc txt) = txt \<and>
    end_line F txt < length ls \<and> F \<le> end_line F txt \<and> fc \<le> length (ls ! F) \<and>
    end_ch fc txt \<le> length (ls ! end_line F txt) \<and> (end_line F txt = F \<longrightarrow> fc \<le> end_ch fc txt)"
proof (cases "length txt = 1")
  case True
  then obtain x where "txt = [x]" by (cases "txt") auto
  with assms show ?thesis by (auto simp: end_line_def end_ch_def text_between_def)
next
  case False
  then obtain x ys z where t: "txt = x # ys @ [z]"
    using assms(1) by (cases "txt"; cases "tl txt" rule: rev_cases) auto
  have ls: "ls = pre @ (A @ x) # ys @ (z @ C) # post" using assms(4) t by (simp add: join_ends_def butlast_append)
  have e: "end_line F txt = length (pre @ (A @ x) # ys)" "end_ch fc txt = length z"
    using assms(2) t by (simp_all add: end_line_def end_ch_def)
  have "ls ! end_line F txt = z @ C" unfolding e ls by (simp add: nth_append)
  moreover have "ls ! F = A @ x" using ls assms(2) by (simp add: nth_append)
  ultimately show ?thesis using ls e assms(2,3) t by (simp add: text_between_def)
qed

lemma replace_inverse:
  assumes "F \<le> E" and "E < length ls" and "fc \<le> length (ls ! F)" and "F = E \<Longrightarrow> fc \<le> ec" and "ec \<le> length (ls ! E)"
    and "txt \<noteq> []"
  shows "replace_text (replace_text ls F fc E ec txt) F fc (end_line F txt) (end_ch fc txt) (text_between ls F fc E ec) = ls"
proof -
  let ?A = "take fc (ls ! F)" and ?C = "drop ec (ls ! E)"
  have "replace_text ls F fc E ec txt = take F ls @ join_ends ?A txt ?C @ drop (Suc E) ls"
    by (simp add: replace_text_def)
  from replaced_parts [OF assms(6) _ _ this] assms(1-3)
  have "replace_text (replace_text ls F fc E ec txt) F fc (end_line F txt) (end_ch fc txt) (text_between ls F fc E ec) =
      take F ls @ join_ends ?A (text_between ls F fc E ec) ?C @ drop (Suc E) ls"
    by (simp add: replace_text_def [of "replace_text ls F fc E ec txt"])
  with text_decompose [OF assms(1-5)] show ?thesis by simp
qed

section \<open>Properties\<close>

lemma valid_pos_cases:
  assumes "valid_pos d p"
  obtains k where "k < length (doc_lines d)" "pline p = d_first d + int k" "nat (pline p - d_first d) = k"
    "0 \<le> pch p" "pch p \<le> int (length (doc_text d ! k))"
  using assms by (intro that [of "nat (pline p - d_first d)"]) (auto simp: valid_pos_def doc_text_def)

lemma updateDoc_text:
  assumes d: "doc_ok d" and c: "valid_change d c" and u: "updateDoc eh before sp c d = Inr d'"
  shows "doc_ok d' \<and> d_first d' = d_first d \<and>
    doc_text d' = replace_text (doc_text d) (nat (pline (c_from c) - d_first d)) (nat (pch (c_from c)))
      (nat (pline (c_to c) - d_first d)) (nat (pch (c_to c))) (c_text c)"
proof -
  have "nat (pline (c_from c) - d_first d) < length (doc_lines d)" "nat (pline (c_to c) - d_first d) < length (doc_lines d)"
    "c_text c \<noteq> []"
    using c by (auto simp: valid_change_def valid_pos_def)
  with updateDoc_ok [OF d c, of eh before sp] u show ?thesis
    unfolding doc_text_content [of d'] by (auto simp: changed_content_text doc_text_def)
qed

lemma blankDoc_ok: "doc_ok (blankDoc n ext)" "doc_text (blankDoc n ext) = [[]]" "d_first (blankDoc n ext) = n"
  using initial_tree_ok by (simp_all add: blankDoc_def doc_ok_def doc_lines_def doc_text_def mkLine_def Let_def)

lemma length_doc_text [simp]: "length (doc_text d) = length (doc_lines d)"
  by (simp add: doc_text_def)

lemma docWithLines_ok:
  fixes ext :: 'x
  assumes "ls \<noteq> []"
  shows "\<exists>d :: ('st, 'x) doc_scheme. docWithLines ls n ext = Inr d \<and> doc_ok d \<and> d_first d = n \<and> doc_text d = ls"
proof -
  have t: "map l_text (doc_lines (blankDoc n ext :: ('st, 'x) doc_scheme)) = [[]]"
    using blankDoc_ok(2) [of n ext] unfolding doc_text_def .
  then have "length (doc_lines (blankDoc n ext :: ('st, 'x) doc_scheme)) = 1" by (metis length_map length_Cons list.size(3) One_nat_def)
  then have v: "valid_change (blankDoc n ext :: ('st, 'x) doc_scheme) (insertion n ls)"
    using assms by (simp add: valid_change_def valid_pos_def insertion_def blankDoc_ok(3))
  from updateDoc_ok [OF blankDoc_ok(1) v] obtain d :: "('st, 'x) doc_scheme" where d: "docWithLines ls n ext = Inr d"
    unfolding docWithLines_def by blast
  have "join_ends [] ls [] = ls" using assms by (cases ls) (auto simp: join_ends_def)
  with updateDoc_text [OF blankDoc_ok(1) v d [unfolded docWithLines_def]] d show ?thesis
    by (auto simp: insertion_def blankDoc_ok replace_text_def)
qed

lemma clipPos_ok:
  assumes "doc_ok d"
  shows "\<exists>p. clipPos d line ch = Inr p \<and> valid_pos d p \<and>
    (valid_pos d (Pos line c) \<longrightarrow> ch = Some c \<longrightarrow> p = Pos line c)"
proof -
  let ?n = "length (doc_lines d)"
  obtain L where n: "?n = Suc L" using assms by (cases "doc_lines d") (auto simp: doc_ok_def)
  have last: "d_first d + d_size d - 1 = d_first d + int L" unfolding d_size_ok [OF assms] using n by simp
  consider "line < d_first d" | "d_first d + int L < line"
    | k where "k < ?n" "line = d_first d + int k"
  proof -
    have "nat (line - d_first d) < ?n \<and> line = d_first d + int (nat (line - d_first d))"
      if "\<not> line < d_first d" "\<not> d_first d + int L < line" using that n by linarith
    then show thesis using that by blast
  qed
  then show ?thesis
  proof cases
    case 1
    then show ?thesis using n by (auto simp: clipPos_def valid_pos_def)
  next
    case 2
    then have "\<not> line < d_first d" by simp
    with 2 getLine_ok [OF assms, of L] n show ?thesis
      unfolding clipPos_def Let_def last by (auto simp: valid_pos_def)
  next
    case 3
    have "\<not> d_first d + int L < line" using 3 n by simp
    with 3 getLine_ok [OF assms 3(1)] show ?thesis
      unfolding clipPos_def Let_def last
      by (auto simp: clipToLen_def valid_pos_def split: option.split)
  qed
qed

text \<open>C31: Clipping any position of any document succeeds and gives a position of its text, and a position
  of the text is its own clip.\<close>

theorem clipPos_in_text:
  assumes "doc_ok d"
  shows "(\<exists>p. clipPos d line ch = Inr p \<and> valid_pos d p) \<and>
    (\<forall>q. valid_pos d q \<longrightarrow> clipPos d (pline q) (Some (pch q)) = Inr q)"
proof -
  have "clipPos d (pline q) (Some (pch q)) = Inr q" if "valid_pos d q" for q
    using clipPos_ok [OF assms, of "pline q" "Some (pch q)" "pch q"] that by auto
  then show ?thesis using clipPos_ok [OF assms, of line ch] by blast
qed

theorem clipPos_in_text_witness:
  "\<exists>d :: nat doc. docWithLines [js ''ab''] 0 () = Inr d \<and> clipPos d 0 (Some 2) = Inr (Pos 0 2)"
proof -
  obtain d :: "nat doc" where d: "docWithLines [js ''ab''] 0 () = Inr d" "doc_ok d" "d_first d = 0" "doc_text d = [js ''ab'']"
    using docWithLines_ok [of "[js ''ab'']" 0 "()"] by blast
  obtain l where "doc_lines d = [l]" "l_text l = js ''ab''" using d(4) unfolding doc_text_def by auto
  then have "valid_pos d (Pos 0 2)" using d(3) by (simp add: valid_pos_def js_def)
  with clipPos_in_text [OF d(2)] d(1) show ?thesis by force
qed

text \<open>C8: Applying a change whose ends are positions of the text, in order, succeeds: the document stays
  well-formed (its tree, its cached sizes, its line identities, and its cached heights where heights are whole
  numbers of pixels), its first line keeps its number, and its text is the old text with the range of the
  change replaced.\<close>

theorem updateDoc_replaces_text:
  assumes "doc_ok d" and "valid_change d c"
  shows "\<exists>d'. updateDoc eh before sp c d = Inr d' \<and> doc_ok d' \<and> d_first d' = d_first d \<and>
    doc_text d' = replace_text (doc_text d) (nat (pline (c_from c) - d_first d)) (nat (pch (c_from c)))
      (nat (pline (c_to c) - d_first d)) (nat (pch (c_to c))) (c_text c)"
  using updateDoc_ok [OF assms, of eh before sp] updateDoc_text [OF assms] by blast

theorem updateDoc_replaces_text_witness:
  "\<exists>d :: nat doc. docWithLines [js ''val x'', js ''= 3''] 1 () = Inr d \<and>
     (\<exists>d'. updateDoc (\<lambda>_. 1) True (\<lambda>_. [])
        \<lparr>c_from = Pos 1 4, c_to = Pos 2 1, c_text = [js ''y'', []], c_origin = None, c_removed = []\<rparr> d = Inr d' \<and>
        doc_text d' = [js ''val y'', js '' 3''])"
proof -
  obtain d :: "nat doc" where d: "docWithLines [js ''val x'', js ''= 3''] 1 () = Inr d" "doc_ok d" "d_first d = 1"
    "doc_text d = [js ''val x'', js ''= 3'']"
    using docWithLines_ok [of "[js ''val x'', js ''= 3'']" 1 "()"] by blast
  define c where "c = \<lparr>c_from = Pos 1 4, c_to = Pos 2 1, c_text = [js ''y'', []], c_origin = None, c_removed = []\<rparr>"
  obtain l m where "doc_lines d = [l, m]" "l_text l = js ''val x''" "l_text m = js ''= 3''"
    using d(4) unfolding doc_text_def by auto
  then have "valid_change d c" using d(3) by (simp add: valid_change_def valid_pos_def c_def less_eq_pos_def js_def)
  from updateDoc_replaces_text [OF d(2) this, of "\<lambda>_. 1" True "\<lambda>_. []"] d
  show ?thesis unfolding c_def [symmetric]
    by (auto simp: c_def replace_text_def join_ends_def js_def)
qed

text \<open>Offsets into the text: the lines before, each with its separator, and the character.\<close>

definition text_offset :: "jsstring list \<Rightarrow> nat \<Rightarrow> int \<Rightarrow> int" where
  "text_offset ls k c = sum_list (map (\<lambda>t. int (length t) + 1) (take k ls)) + c"

lemma text_offset_simps [simp]: "text_offset ls 0 c = c" "text_offset (t # ls) (Suc k) c = int (length t) + 1 + text_offset ls k c"
  by (simp_all add: text_offset_def)

lemma text_offset_nonneg: "0 \<le> c \<Longrightarrow> 0 \<le> text_offset ls k c"
  unfolding text_offset_def by (intro add_nonneg_nonneg sum_list_nonneg) auto

lemma iter_position:
  "k < length ls \<Longrightarrow> 0 \<le> c \<Longrightarrow> c \<le> int (length (l_text (ls ! k))) \<Longrightarrow>
    snd (iter_lines (\<lambda>l (ch, line, off). let sz = int (length (l_text l)) + 1
       in if sz > off then (True, Some off, line, off) else (False, ch, line + 1, off - sz)) ls
      (ch0, n, text_offset (map l_text ls) k c)) = (Some c, n + int k, c)"
proof (induction ls arbitrary: k n)
  case (Cons l ls)
  show ?case
  proof (cases k)
    case 0
    with Cons.prems show ?thesis by simp
  next
    case (Suc k')
    have "\<not> int (length (l_text l)) + 1 > text_offset (map l_text (l # ls)) k c"
      using text_offset_nonneg [OF Cons.prems(2), of "map l_text ls" k'] by (simp add: Suc)
    with Suc Cons.prems Cons.IH [of k' "n + 1"] show ?thesis by (simp add: Let_def)
  qed
qed simp

lemma iter_offset:
  "snd (iter_lines (\<lambda>l index. (False, index + int (length (l_text l)) + 1)) ls c) = text_offset (map l_text ls) (length ls) c"
  by (induction ls arbitrary: c) (simp_all add: text_offset_def)

lemma indexFromPos_ok:
  assumes d: "doc_ok d" and k: "k < length (doc_lines d)" "0 \<le> c" "c \<le> int (length (doc_text d ! k))"
  shows "indexFromPos d (Pos (d_first d + int k) c) = Inr (text_offset (doc_text d) k c)"
proof -
  have "valid_pos d (Pos (d_first d + int k) c)" using k by (simp add: valid_pos_def doc_text_def)
  then have "clipPos d (d_first d + int k) (Some c) = Inr (Pos (d_first d + int k) c)"
    using clipPos_ok [OF d, of "d_first d + int k" "Some c" c] by auto
  moreover have "doc_iter d (d_first d) (d_first d + int k) (\<lambda>l index. (False, index + int (length (l_text l)) + 1)) c =
      text_offset (doc_text d) k c"
    using doc_iter_ok [OF d, of 0 k "\<lambda>l index. (False, index + int (length (l_text l)) + 1)" c] k
    by (simp add: iter_offset) (simp add: text_offset_def doc_text_def take_map)
  ultimately show ?thesis using k by (simp add: indexFromPos_def)
qed

lemma posFromIndex_ok:
  assumes d: "doc_ok d" "d_first d = 0" and k: "k < length (doc_lines d)" "0 \<le> c" "c \<le> int (length (doc_text d ! k))"
  shows "posFromIndex d (text_offset (doc_text d) k c) = Inr (Pos (int k) c)"
proof -
  have "chunk_ok (d_root d)" using d(1) by (simp add: doc_ok_def root_ok_def)
  then have it: "doc_iter_all d op s = snd (iter_lines op (doc_lines d) s)" for op :: "'a line \<Rightarrow> 's \<Rightarrow> bool \<times> 's" and s
    using iterN_ok(1) [of "d_root d" 0 "length (doc_lines d)" op s] d
    by (simp add: doc_iter_all_def d_size_ok) (simp add: doc_lines_def)
  have "valid_pos d (Pos (int k) c)" using k d(2) by (simp add: valid_pos_def doc_text_def)
  then have "clipPos d (int k) (Some c) = Inr (Pos (int k) c)"
    using clipPos_ok [OF d(1), of "int k" "Some c" c] by auto
  moreover have "c \<le> int (length (l_text (doc_lines d ! k)))" using k by (simp add: doc_text_def)
  ultimately show ?thesis
    using iter_position [of k "doc_lines d" c None 0] k unfolding posFromIndex_def it doc_text_def d(2) by simp
qed

text \<open>C30: In a document whose first line has number 0, the text_offset of a position counts the characters and
  line separators before it, and converting the text_offset back gives the position.\<close>

theorem index_round_trip:
  assumes "doc_ok d" and "d_first d = 0" and "valid_pos d p"
  shows "\<exists>i. indexFromPos d p = Inr i \<and> i = int (length (js_join [lf] (take (nat (pline p)) (doc_text d) @ [[]]))) + pch p \<and>
    posFromIndex d i = Inr p"
proof -
  obtain k where k: "k < length (doc_lines d)" "pline p = int k" "0 \<le> pch p" "pch p \<le> int (length (doc_text d ! k))"
    using valid_pos_cases [OF assms(3)] assms(2) by (metis add_0)
  then have p: "p = Pos (int k) (pch p)" by (metis pos.collapse)
  have "text_offset ls (length ls) c = int (length (js_join [lf] (ls @ [[]]))) + c" for ls c
    by (induction ls) (simp_all add: js_join_Cons)
  from this [of "take k (doc_text d)" "pch p"] k(1)
  have "text_offset (doc_text d) k (pch p) = int (length (js_join [lf] (take k (doc_text d) @ [[]]))) + pch p"
    by (simp add: text_offset_def)
  with indexFromPos_ok [OF assms(1) k(1,3,4)] posFromIndex_ok [OF assms(1,2) k(1,3,4)] assms(2) k(2) p
  show ?thesis by (metis add_0 nat_int)
qed

theorem index_round_trip_witness:
  "\<exists>d :: nat doc. docWithLines [js ''ab'', js ''c''] 0 () = Inr d \<and>
     indexFromPos d (Pos 1 1) = Inr 4 \<and> posFromIndex d 4 = Inr (Pos 1 1)"
proof -
  obtain d :: "nat doc" where d: "docWithLines [js ''ab'', js ''c''] 0 () = Inr d" "doc_ok d" "d_first d = 0"
    "doc_text d = [js ''ab'', js ''c'']"
    using docWithLines_ok [of "[js ''ab'', js ''c'']" 0 "()"] by blast
  obtain l m where "doc_lines d = [l, m]" "l_text l = js ''ab''" "l_text m = js ''c''" using d(4) unfolding doc_text_def by auto
  then have "valid_pos d (Pos 1 1)" using d(3) by (simp add: valid_pos_def js_def)
  from index_round_trip [OF d(2,3) this] d(1,4) show ?thesis by (auto simp: js_def)
qed

text \<open>A text without carriage returns that is split into lines and made a document is the value of
  the document, whichever way the browser splits.\<close>

theorem getValue_of_new_document:
  assumes "cr \<notin> set s"
  shows "\<exists>d :: ('st, 'x) doc_scheme. docWithLines (splitLines broken_split s) n ext = Inr d \<and> doc_ok d \<and> getValue d [lf] = s"
proof -
  have "s = [] \<or> last s \<noteq> cr" using assms last_in_set by metis
  then have sp: "splitLines broken_split s = split_regex s"
    using split_loop_spec [of 0 s] by (simp add: splitLines_def splitLines_loop_def)
  obtain d :: "('st, 'x) doc_scheme" where d: "docWithLines (split_regex s) n ext = Inr d" "doc_ok d" "doc_text d = split_regex s"
    using docWithLines_ok [of "split_regex s" n ext] by auto
  then have "getLines d (d_first d) (d_first d + d_size d) = split_regex s"
    using getLines_ok [OF d(2), of 0 "length (doc_lines d)"] by (simp add: d_size_ok length_doc_text [symmetric] del: length_doc_text)
  with d sp join_split [OF assms] show ?thesis by (auto simp: getValue_def)
qed

theorem getValue_of_new_document_witness:
  "\<exists>d :: nat doc. docWithLines (splitLines True [97, lf, lf, 98]) 0 () = Inr d \<and> getValue d [lf] = [97, lf, lf, 98]"
proof -
  have "cr \<notin> set [97, lf, lf, 98]" by (simp add: cr_def lf_def)
  from getValue_of_new_document [OF this, of True 0 "()"] show ?thesis by blast
qed

text \<open>
  When the first line has another number, the iteration over all lines starts at that number as if it
  were an index, and the conversion goes wrong.
\<close>

lemma posFromIndex_wrong_when_first_not_0:
  "case docWithLines [js ''ab'', js ''c''] 1 () :: doc_exn + nat doc of
     Inr d \<Rightarrow> indexFromPos d (Pos 2 0) = Inr 3 \<and> posFromIndex d 3 = Inr (Pos 2 1)
   | Inl e \<Rightarrow> False"
  by code_simp

text \<open>With lines of no negative height, the line found at a pixel height inside the document is the
  one whose top, as computed from the line, is at or above that height and whose bottom is below it,
  and the line's number, computed through its chunks, is the number found.\<close>

theorem lineAtHeight_correct:
  assumes d: "doc_ok d" and "\<forall>l \<in> set (doc_lines d). 0 \<le> l_height l" and "0 \<le> h" and "h < chunkHeight (d_root d)"
  shows "\<exists>l t. getLine d (lineAtHeight d h) = Inr l \<and> lineNo d (l_id l) = Some (lineAtHeight d h) \<and>
    heightAboveLine d (l_id l) = Some t \<and> t \<le> h \<and> h < t + l_height l"
proof -
  let ?ls = "doc_lines d"
  have ok: "chunk_ok (d_root d)" "distinct (map l_id ?ls)" using d by (simp_all add: doc_ok_def root_ok_def)
  have at: "lineAtHeight d h = lines_at_height ?ls h (d_first d)"
    using chunk_at_height_ok(1) [OF ok(1) assms(3)] assms(2) by (simp add: lineAtHeight_def doc_lines_def)
  have "h < lines_height ?ls" using assms(4) chunk_ok_cached(1) [OF ok(1)] by (simp add: doc_lines_def)
  from lines_at_height_bounds [OF assms(2,3) this, of "d_first d"] obtain k where k: "k < length ?ls"
    "lineAtHeight d h = d_first d + int k" "lines_height (take k ?ls) \<le> h" "h < lines_height (take (Suc k) ?ls)"
    unfolding at by blast
  have "lineNo d (l_id (?ls ! k)) = Some (d_first d + int k)"
    using no_chunk_ok(1) [OF ok(1), of "l_id (?ls ! k)"] line_index_nth [OF ok(2) k(1)] by (simp add: lineNo_def doc_lines_def)
  moreover have "heightAboveLine d (l_id (?ls ! k)) = Some (lines_height (take k ?ls))"
    using height_above_ok(1) [OF ok(1), of "l_id (?ls ! k)"] lines_height_above_nth [OF ok(2) k(1)]
    by (simp add: heightAboveLine_def doc_lines_def)
  moreover have "lines_height (take (Suc k) ?ls) = lines_height (take k ?ls) + l_height (?ls ! k)"
    using k(1) by (simp add: take_Suc_conv_app_nth)
  ultimately show ?thesis using getLine_ok [OF d k(1)] k by auto
qed

theorem lineAtHeight_correct_witness:
  "case docWithLines [js ''ab'', js ''c''] 1 () :: doc_exn + nat doc of
     Inr d \<Rightarrow> (\<exists>l t. getLine d (lineAtHeight d 1) = Inr l \<and> heightAboveLine d (l_id l) = Some t \<and> t \<le> 1 \<and> 1 < t + l_height l)
   | Inl e \<Rightarrow> False"
proof -
  have e: "case docWithLines [js ''ab'', js ''c''] 1 () :: doc_exn + nat doc of
      Inr d \<Rightarrow> 1 < chunkHeight (d_root d) \<and> (\<forall>l \<in> set (doc_lines d). 0 \<le> l_height l) | Inl e \<Rightarrow> False"
    by code_simp
  obtain d :: "nat doc" where d: "docWithLines [js ''ab'', js ''c''] 1 () = Inr d" "doc_ok d"
    using docWithLines_ok [of "[js ''ab'', js ''c'']" 1 "()"] by blast
  with e lineAtHeight_correct [OF d(2), of 1] show ?thesis by auto
qed

end
