(* ===== verification/Spans.thy ===== *)
theory Spans
  imports Document "HOL-Library.Multiset"
begin

text \<open>
  Marked text (\<^verbatim>\<open>src/js/codemirror/codemirror.js\<close>, sections TEXTMARKERS and TEXTMARKER SPANS): how the
  spans of a line are cut and stretched by a change, where a marker is found, and how read-only ranges
  are clipped out of a change. Collapsed ranges are in \<open>VisualLines\<close>.

  A span refers to its marker by an index; \<open>M\<close> gives the marker. An array of spans that is \<^verbatim>\<open>null\<close> or
  undefined in the code is the empty list, since the code never stores an empty array. The lines
  a marker is attached to are the lines of the document that have a span for it, in their order; the
  code keeps them in the field \<^verbatim>\<open>lines\<close> of the marker by \<open>attachLine\<close> and \<open>detachLine\<close>.
\<close>

section \<open>Definitions\<close>

record marker =
  mk_bookmark :: bool
  mk_inclusiveLeft :: bool
  mk_inclusiveRight :: bool
  mk_insertLeft :: bool
  mk_clearWhenEmpty :: bool
  mk_collapsed :: bool
  mk_readOnly :: bool
  mk_atomic :: bool
  mk_widget :: bool
  mk_clearOnEnter :: bool
  mk_id :: int
  mk_cleared :: bool

text \<open>A new marker without options.\<close>

definition TextMarker :: "bool \<Rightarrow> marker" where
  "TextMarker bookmark =
     \<lparr>mk_bookmark = bookmark, mk_inclusiveLeft = False, mk_inclusiveRight = False, mk_insertLeft = False,
      mk_clearWhenEmpty = True, mk_collapsed = False, mk_readOnly = False, mk_atomic = False, mk_widget = False,
      mk_clearOnEnter = False, mk_id = 0, mk_cleared = False\<rparr>"

fun getMarkedSpanFor :: "span list \<Rightarrow> nat \<Rightarrow> span option" where
  "getMarkedSpanFor [] m = None"
| "getMarkedSpanFor (sp # sps) m = (if sp_marker sp = m then Some sp else getMarkedSpanFor sps m)"

definition removeMarkedSpan :: "span list \<Rightarrow> span \<Rightarrow> span list" where
  "removeMarkedSpan sps sp = remove1 sp sps"

definition addMarkedSpan :: "'st line \<Rightarrow> span \<Rightarrow> 'st line" where
  "addMarkedSpan l sp = l\<lparr>l_spans := l_spans l @ [sp]\<rparr>"

subsection \<open>Spans and changes\<close>

definition starts_before :: "marker \<Rightarrow> span \<Rightarrow> int \<Rightarrow> bool" where
  "starts_before m sp ch =
     (case sp_from sp of None \<Rightarrow> True | Some f \<Rightarrow> if mk_inclusiveLeft m then f \<le> ch else f < ch)"

definition ends_after :: "marker \<Rightarrow> span \<Rightarrow> int \<Rightarrow> bool" where
  "ends_after m sp ch =
     (case sp_to sp of None \<Rightarrow> True | Some t \<Rightarrow> if mk_inclusiveRight m then t \<ge> ch else t > ch)"

definition cut_before :: "marker \<Rightarrow> int \<Rightarrow> span \<Rightarrow> span" where
  "cut_before m startCh sp = sp\<lparr>sp_to := (if ends_after m sp startCh then None else sp_to sp)\<rparr>"

definition cut_after :: "marker \<Rightarrow> int \<Rightarrow> span \<Rightarrow> span" where
  "cut_after m endCh sp =
     sp\<lparr>sp_from := (if starts_before m sp endCh then None else map_option (\<lambda>f. f - endCh) (sp_from sp)),
        sp_to := map_option (\<lambda>t. t - endCh) (sp_to sp)\<rparr>"

fun markedSpansBefore :: "(nat \<Rightarrow> marker) \<Rightarrow> span list \<Rightarrow> int \<Rightarrow> bool \<Rightarrow> span list" where
  "markedSpansBefore M [] startCh isInsert = []"
| "markedSpansBefore M (sp # sps) startCh isInsert =
     (let m = M (sp_marker sp); nw = markedSpansBefore M sps startCh isInsert
      in if starts_before m sp startCh \<or>
            sp_from sp = Some startCh \<and> mk_bookmark m \<and> (\<not> isInsert \<or> \<not> mk_insertLeft m)
         then cut_before m startCh sp # nw
         else nw)"

fun markedSpansAfter :: "(nat \<Rightarrow> marker) \<Rightarrow> span list \<Rightarrow> int \<Rightarrow> bool \<Rightarrow> span list" where
  "markedSpansAfter M [] endCh isInsert = []"
| "markedSpansAfter M (sp # sps) endCh isInsert =
     (let m = M (sp_marker sp); nw = markedSpansAfter M sps endCh isInsert
      in if ends_after m sp endCh \<or>
            sp_from sp = Some endCh \<and> mk_bookmark m \<and> (\<not> isInsert \<or> mk_insertLeft m)
         then cut_after m endCh sp # nw
         else nw)"

text \<open>The two loops that merge the ends: the first sets missing ends in \<open>first\<close>, the second moves \<open>last\<close>.\<close>

definition fix_to :: "span list \<Rightarrow> int \<Rightarrow> bool \<Rightarrow> int \<Rightarrow> span \<Rightarrow> span" where
  "fix_to last_spans startCh sameLine offset sp =
     (if sp_to sp = None then
        (case getMarkedSpanFor last_spans (sp_marker sp) of
           None \<Rightarrow> sp\<lparr>sp_to := Some startCh\<rparr>
         | Some found \<Rightarrow>
             if sameLine then sp\<lparr>sp_to := map_option (\<lambda>t. t + offset) (sp_to found)\<rparr> else sp)
      else sp)"

definition fix_first :: "span list \<Rightarrow> int \<Rightarrow> bool \<Rightarrow> int \<Rightarrow> span list \<Rightarrow> span list" where
  "fix_first last_spans startCh sameLine offset first = map (fix_to last_spans startCh sameLine offset) first"

definition fix_from :: "int \<Rightarrow> span list \<Rightarrow> span \<Rightarrow> span \<times> bool" where
  "fix_from offset first sp =
     (let sp1 = sp\<lparr>sp_to := map_option (\<lambda>t. t + offset) (sp_to sp)\<rparr>
      in case sp_from sp of
           None \<Rightarrow> (case getMarkedSpanFor first (sp_marker sp) of
                      None \<Rightarrow> (sp1\<lparr>sp_from := Some offset\<rparr>, True)
                    | Some _ \<Rightarrow> (sp1, False))
         | Some f \<Rightarrow> (sp1\<lparr>sp_from := Some (f + offset)\<rparr>, True))"

fun fix_last :: "bool \<Rightarrow> int \<Rightarrow> span list \<Rightarrow> span list \<Rightarrow> span list \<times> span list" where
  "fix_last sameLine offset first [] = (first, [])"
| "fix_last sameLine offset first (sp # sps) =
     (let (sp2, own) = fix_from offset first sp;
          (first', sps') = fix_last sameLine offset (if own \<and> sameLine then first @ [sp2] else first) sps
      in (first', sp2 # sps'))"

definition clearEmptySpans :: "(nat \<Rightarrow> marker) \<Rightarrow> span list \<Rightarrow> span list" where
  "clearEmptySpans M sps =
     filter (\<lambda>sp. \<not> (sp_from sp \<noteq> None \<and> sp_from sp = sp_to sp \<and> mk_clearWhenEmpty (M (sp_marker sp)))) sps"

definition stretch :: "(nat \<Rightarrow> marker) \<Rightarrow> span list \<Rightarrow> span list \<Rightarrow> int \<Rightarrow> int \<Rightarrow> bool \<Rightarrow> jsstring list \<Rightarrow> span list list" where
  "stretch M oldFirst oldLast startCh endCh isInsert txt =
     (let first = markedSpansBefore M oldFirst startCh isInsert;
          last_spans = markedSpansAfter M oldLast endCh isInsert;
          sameLine = (length txt = 1);
          offset = int (length (last txt)) + (if sameLine then startCh else 0);
          first1 = fix_first last_spans startCh sameLine offset first;
          (first2, last2) = fix_last sameLine offset first1 last_spans;
          first3 = clearEmptySpans M first2;
          last3 = clearEmptySpans M last2;
          gap = length txt - 2;
          gapMarkers = map (\<lambda>sp. \<lparr>sp_marker = sp_marker sp, sp_from = None, sp_to = None\<rparr>)
                         (filter (\<lambda>sp. sp_to sp = None) first3)
      in first3 # (if sameLine then [] else replicate gap gapMarkers @ [last3]))"

definition spans_at :: "('st, 'x) doc_scheme \<Rightarrow> int \<Rightarrow> doc_exn + span list" where
  "spans_at d n = (if isLine d n then rbind (getLine d n) (\<lambda>l. Inr (l_spans l)) else Inr [])"

definition stretchSpansOverChange ::
  "(nat \<Rightarrow> marker) \<Rightarrow> ('st, 'x) doc_scheme \<Rightarrow> change \<Rightarrow> doc_exn + span list list option" where
  "stretchSpansOverChange M d c =
     rbind (spans_at d (pline (c_from c))) (\<lambda>oldFirst.
     rbind (spans_at d (pline (c_to c))) (\<lambda>oldLast.
       if oldFirst = [] \<and> oldLast = [] then Inr None
       else Inr (Some (stretch M oldFirst oldLast (pch (c_from c)) (pch (c_to c))
                         (cmp (c_from c) (c_to c) = 0) (c_text c)))))"

text \<open>What \<open>updateDoc\<close> reads from the array of spans it is given.\<close>

definition spansFor :: "span list list option \<Rightarrow> nat \<Rightarrow> span list" where
  "spansFor markedSpans n =
     (case markedSpans of Some xs \<Rightarrow> if n < length xs then xs ! n else [] | None \<Rightarrow> [])"

fun merge_line :: "span list \<Rightarrow> span list \<Rightarrow> span list" where
  "merge_line oldCur [] = oldCur"
| "merge_line oldCur (sp # sps) =
     merge_line (if list_ex (\<lambda>k. sp_marker k = sp_marker sp) oldCur then oldCur else oldCur @ [sp]) sps"

definition merge_lines :: "span list list \<Rightarrow> span list list \<Rightarrow> span list list" where
  "merge_lines old stretched =
     map (\<lambda>i. let stretchCur = spansFor (Some stretched) i
              in if old ! i \<noteq> [] \<and> stretchCur \<noteq> [] then merge_line (old ! i) stretchCur
                 else if stretchCur \<noteq> [] then stretchCur else old ! i) [0..<length old]"

definition mergeOldSpans :: "span list list option \<Rightarrow> span list list option \<Rightarrow> span list list option" where
  "mergeOldSpans old stretched =
     (case old of None \<Rightarrow> stretched
      | Some os \<Rightarrow> (case stretched of None \<Rightarrow> old | Some ss \<Rightarrow> Some (merge_lines os ss)))"

subsection \<open>Finding a marker\<close>

definition marker_lines :: "('st, 'x) doc_scheme \<Rightarrow> nat \<Rightarrow> (int \<times> span list) list" where
  "marker_lines d m =
     filter (\<lambda>(n, sps). getMarkedSpanFor sps m \<noteq> None)
       (zip (map (\<lambda>i. d_first d + int i) [0..<length (collapse (d_root d))]) (map l_spans (collapse (d_root d))))"

datatype found = NotFound | FoundPos pos | FoundRange pos "pos option" | FindError

fun find_loop :: "nat \<Rightarrow> int \<Rightarrow> (int \<times> span list) list \<Rightarrow> pos option \<Rightarrow> pos option \<Rightarrow> found" where
  "find_loop m side [] f t = (case f of None \<Rightarrow> NotFound | Some p \<Rightarrow> FoundRange p t)"
| "find_loop m side ((n, sps) # ls) f t =
     (case getMarkedSpanFor sps m of
        None \<Rightarrow> FindError
      | Some sp \<Rightarrow>
          (let f' = (case sp_from sp of Some c \<Rightarrow> Some (Pos n c) | None \<Rightarrow> f);
               t' = (case sp_to sp of Some c \<Rightarrow> Some (Pos n c) | None \<Rightarrow> t)
           in if sp_from sp \<noteq> None \<and> side = -1 then FoundPos (the f')
              else if sp_to sp \<noteq> None \<and> side = 1 then FoundPos (the t')
              else find_loop m side ls f' t'))"

definition marker_find :: "(nat \<Rightarrow> marker) \<Rightarrow> ('st, 'x) doc_scheme \<Rightarrow> nat \<Rightarrow> int option \<Rightarrow> found" where
  "marker_find M d m side =
     (let side' = (case side of None \<Rightarrow> if mk_bookmark (M m) then 1 else 0 | Some s \<Rightarrow> s)
      in find_loop m side' (marker_lines d m) None None)"

text \<open>Callers read both ends, or the line of one end; anything else raises.\<close>

definition found_range :: "found \<Rightarrow> doc_exn + pos \<times> pos" where
  "found_range r = (case r of FoundRange f (Some t) \<Rightarrow> Inr (f, t) | _ \<Rightarrow> Inl TypeErr)"

definition found_line :: "('st, 'x) doc_scheme \<Rightarrow> found \<Rightarrow> doc_exn + 'st line" where
  "found_line d r = (case r of FoundPos p \<Rightarrow> getLine d (pline p) | _ \<Rightarrow> Inl TypeErr)"

subsection \<open>Read-only ranges\<close>

fun readOnly_markers :: "(nat \<Rightarrow> marker) \<Rightarrow> span list \<Rightarrow> nat list \<Rightarrow> nat list" where
  "readOnly_markers M [] ms = ms"
| "readOnly_markers M (sp # sps) ms =
     readOnly_markers M sps
       (if mk_readOnly (M (sp_marker sp)) \<and> sp_marker sp \<notin> set ms then ms @ [sp_marker sp] else ms)"

definition clip_part :: "bool \<Rightarrow> bool \<Rightarrow> pos \<times> pos \<Rightarrow> pos \<times> pos \<Rightarrow> (pos \<times> pos) list" where
  "clip_part inclLeft inclRight m p =
     (if cmp (fst p) (fst m) < 0 \<or> \<not> inclLeft \<and> cmp (fst p) (fst m) = 0 then [(fst p, fst m)] else []) @
     (if cmp (snd p) (snd m) > 0 \<or> \<not> inclRight \<and> cmp (snd p) (snd m) = 0 then [(snd m, snd p)] else [])"

text \<open>
  The inner loop over the parts. After a part is replaced by \<open>k\<close> new ones the index goes on behind them
  and behind two more, because the length of the argument array of \<^verbatim>\<open>splice\<close> counts its first two
  entries.
\<close>

fun clip_parts :: "bool \<Rightarrow> bool \<Rightarrow> pos \<times> pos \<Rightarrow> (pos \<times> pos) list \<Rightarrow> (pos \<times> pos) list" where
  "clip_parts il ir m [] = []"
| "clip_parts il ir m (p # ps) =
     (if cmp (snd p) (fst m) < 0 \<or> cmp (fst p) (snd m) > 0 then p # clip_parts il ir m ps
      else clip_part il ir m p @ take 2 ps @ clip_parts il ir m (drop 2 ps))"

fun clip_markers ::
  "(nat \<Rightarrow> marker) \<Rightarrow> ('st, 'x) doc_scheme \<Rightarrow> nat list \<Rightarrow> (pos \<times> pos) list \<Rightarrow> doc_exn + (pos \<times> pos) list" where
  "clip_markers M d [] parts = Inr parts"
| "clip_markers M d (m # ms) parts =
     rbind (found_range (marker_find M d m (Some 0))) (\<lambda>r.
       clip_markers M d ms (clip_parts (mk_inclusiveLeft (M m)) (mk_inclusiveRight (M m)) r parts))"

definition readOnly_between :: "(nat \<Rightarrow> marker) \<Rightarrow> ('st, 'x) doc_scheme \<Rightarrow> pos \<Rightarrow> pos \<Rightarrow> nat list" where
  "readOnly_between M d f t =
     doc_iter d (pline f) (pline t + 1) (\<lambda>l ms. (False, readOnly_markers M (l_spans l) ms)) []"

definition removeReadOnlyRanges ::
  "(nat \<Rightarrow> marker) \<Rightarrow> ('st, 'x) doc_scheme \<Rightarrow> pos \<Rightarrow> pos \<Rightarrow> doc_exn + (pos \<times> pos) list option" where
  "removeReadOnlyRanges M d f t =
     (let markers = readOnly_between M d f t
      in if markers = [] then Inr None
         else rbind (clip_markers M d markers [(f, t)]) (\<lambda>ps. Inr (Some ps)))"

section \<open>Spans stay within their lines\<close>

definition span_ok :: "int \<Rightarrow> span \<Rightarrow> bool" where
  "span_ok n sp \<longleftrightarrow>
     (\<forall>f. sp_from sp = Some f \<longrightarrow> 0 \<le> f \<and> f \<le> n) \<and> (\<forall>t. sp_to sp = Some t \<longrightarrow> 0 \<le> t \<and> t \<le> n) \<and>
     (\<forall>f t. sp_from sp = Some f \<longrightarrow> sp_to sp = Some t \<longrightarrow> f \<le> t)"

text \<open>What is left of the spans before and after a change.\<close>

lemma span_before_ok:
  "span_ok n sp \<Longrightarrow> 0 \<le> startCh \<Longrightarrow> starts_before m sp startCh \<or> sp_from sp = Some startCh \<Longrightarrow>
    span_ok startCh (cut_before m startCh sp)"
  by (cases "sp_from sp"; cases "sp_to sp")
    (auto simp: span_ok_def starts_before_def ends_after_def cut_before_def split: if_splits)

lemma span_after_ok:
  "span_ok n sp \<Longrightarrow> 0 \<le> endCh \<Longrightarrow> ends_after m sp endCh \<or> sp_from sp = Some endCh \<Longrightarrow>
    span_ok (n - endCh) (cut_after m endCh sp)"
  by (cases "sp_from sp"; cases "sp_to sp")
    (auto simp: span_ok_def starts_before_def ends_after_def cut_after_def split: if_splits)

lemma markedSpansBefore_ok:
  "\<forall>sp \<in> set old. span_ok n sp \<Longrightarrow> 0 \<le> startCh \<Longrightarrow>
    \<forall>sp \<in> set (markedSpansBefore M old startCh ins). span_ok startCh sp"
  by (induction old) (auto simp: Let_def intro: span_before_ok)

lemma markedSpansAfter_ok:
  "\<forall>sp \<in> set old. span_ok n sp \<Longrightarrow> 0 \<le> endCh \<Longrightarrow>
    \<forall>sp \<in> set (markedSpansAfter M old endCh ins). span_ok (n - endCh) sp"
  by (induction old) (auto simp: Let_def intro: span_after_ok)

lemma getMarkedSpanFor_in: "getMarkedSpanFor sps m = Some sp \<Longrightarrow> sp \<in> set sps \<and> sp_marker sp = m"
  by (induction sps) (auto split: if_splits)

lemma fix_first_ok:
  assumes "\<forall>sp \<in> set first. span_ok startCh sp" and "\<forall>sp \<in> set lst. span_ok k sp"
    and "0 \<le> startCh" and "sameLine \<Longrightarrow> startCh \<le> offset \<and> offset + k \<le> n" and "startCh \<le> n"
  shows "\<forall>sp \<in> set (fix_first lst startCh sameLine offset first). span_ok n sp"
proof
  fix sp' assume "sp' \<in> set (fix_first lst startCh sameLine offset first)"
  then obtain sp where sp: "sp \<in> set first" "sp' = fix_to lst startCh sameLine offset sp"
    unfolding fix_first_def set_map by blast
  have ok: "span_ok startCh sp" using assms(1) sp(1) by blast
  show "span_ok n sp'"
  proof (cases "getMarkedSpanFor lst (sp_marker sp)")
    case None
    with ok assms(3,5) show ?thesis by (auto simp: sp(2) fix_to_def span_ok_def)
  next
    case (Some found)
    then have "span_ok k found" using getMarkedSpanFor_in assms(2) by blast
    with Some ok assms(3-5) show ?thesis
      by (cases "sp_to found"; cases "sp_to sp"; cases "sp_from sp") (auto simp: sp(2) fix_to_def span_ok_def)
  qed
qed

lemma fix_from_ok:
  "span_ok k sp \<Longrightarrow> 0 \<le> k \<Longrightarrow> 0 \<le> offset \<Longrightarrow> offset + k \<le> n \<Longrightarrow> span_ok n (fst (fix_from offset first sp))"
  by (cases "sp_to sp"; cases "sp_from sp"; cases "getMarkedSpanFor first (sp_marker sp)")
    (auto simp: fix_from_def Let_def span_ok_def)

lemma fix_last_Cons:
  "fix_last sameLine offset first (sp # sps) =
    (let r = fix_from offset first sp;
         fl = fix_last sameLine offset (if snd r \<and> sameLine then first @ [fst r] else first) sps
     in (fst fl, fst r # snd fl))"
  by (simp add: Let_def split_beta)

lemma fix_last_ok:
  "\<forall>sp \<in> set lst. span_ok k sp \<Longrightarrow> 0 \<le> k \<Longrightarrow> 0 \<le> offset \<Longrightarrow> offset + k \<le> n \<Longrightarrow>
    \<forall>sp \<in> set (snd (fix_last sameLine offset first lst)). span_ok n sp"
proof (induction lst arbitrary: first)
  case (Cons sp lst)
  then have "span_ok n (fst (fix_from offset first sp))" by (intro fix_from_ok [of k]) simp_all
  with Cons show ?case unfolding fix_last_Cons Let_def snd_conv list.set by blast
qed simp

lemma fix_last_first_ok:
  "\<forall>sp \<in> set lst. span_ok k sp \<Longrightarrow> 0 \<le> k \<Longrightarrow> 0 \<le> offset \<Longrightarrow> offset + k \<le> n \<Longrightarrow> \<forall>sp \<in> set first. span_ok n sp \<Longrightarrow>
    \<forall>sp \<in> set (fst (fix_last True offset first lst)). span_ok n sp"
proof (induction lst arbitrary: first)
  case (Cons sp lst)
  then have "span_ok n (fst (fix_from offset first sp))" by (intro fix_from_ok [of k]) simp_all
  with Cons.prems(5) have "\<forall>x \<in> set (if snd (fix_from offset first sp) \<and> True then first @ [fst (fix_from offset first sp)] else first).
      span_ok n x" by simp
  from Cons.IH [OF _ Cons.prems(2-4) this] Cons.prems(1) show ?case unfolding fix_last_Cons Let_def fst_conv by simp
qed simp

lemma fix_last_fst: "\<not> sameLine \<Longrightarrow> fst (fix_last sameLine offset first lst) = first"
  by (induction lst arbitrary: first) (simp_all add: fix_last_Cons Let_def del: fix_last.simps(2))

lemma clearEmptySpans_subset: "set (clearEmptySpans M sps) \<subseteq> set sps"
  by (auto simp: clearEmptySpans_def)

lemma span_ok_open [simp]: "span_ok n \<lparr>sp_marker = m, sp_from = None, sp_to = None\<rparr>"
  by (simp add: span_ok_def)

lemma stretch_ok:
  assumes "\<forall>sp \<in> set oldFirst. span_ok (int (length lineF)) sp" and "\<forall>sp \<in> set oldLast. span_ok (int (length lineL)) sp"
    and "0 \<le> startCh" and "0 \<le> endCh" and "endCh \<le> int (length lineL)" and "startCh \<le> int (length lineF)" and "txt \<noteq> []"
    and ls: "ls = join_ends (take (nat startCh) lineF) txt (drop (nat endCh) lineL)"
  shows "length (stretch M oldFirst oldLast startCh endCh ins txt) = length txt \<and>
    (\<forall>i < length txt. \<forall>sp \<in> set (stretch M oldFirst oldLast startCh endCh ins txt ! i). span_ok (int (length (ls ! i))) sp)"
proof -
  define lst where "lst = markedSpansAfter M oldLast endCh ins"
  define same where "same = (length txt = 1)"
  define off where "off = int (length (last txt)) + (if same then startCh else 0)"
  define first1 where "first1 = fix_first lst startCh same off (markedSpansBefore M oldFirst startCh ins)"
  obtain first2 last2 where fl: "fix_last same off first1 lst = (first2, last2)" by fastforce
  let ?k = "int (length lineL) - endCh"
  have lst: "\<forall>sp \<in> set lst. span_ok ?k sp" "0 \<le> ?k"
    unfolding lst_def using markedSpansAfter_ok [OF assms(2,4)] assms(5) by simp_all
  have "0 \<le> off" using assms(3) by (simp add: off_def)
  have n0: "int (length (ls ! 0)) = (if same then off + ?k else startCh + int (length (hd txt)))"
    and nl: "int (length (ls ! (length txt - 1))) = off + ?k"
    using assms(3-7) unfolding ls join_ends_def off_def same_def by (cases "txt"; auto simp: nth_append)+
  have f1: "\<forall>sp \<in> set first1. span_ok (int (length (ls ! 0))) sp"
    unfolding first1_def
    by (rule fix_first_ok [OF markedSpansBefore_ok [OF assms(1,3)] lst(1) assms(3)])
      (use n0 assms(3) lst(2) in \<open>auto simp: off_def\<close>)
  have f2: "\<forall>sp \<in> set first2. span_ok (int (length (ls ! 0))) sp"
  proof (cases same)
    case True
    with fix_last_first_ok [OF lst \<open>0 \<le> off\<close> _ f1] n0 fl show ?thesis by simp
  next
    case False
    with fix_last_fst [of same off first1 lst] f1 fl show ?thesis by simp
  qed
  have l2: "\<forall>sp \<in> set last2. span_ok (int (length (ls ! (length txt - 1)))) sp"
    using fix_last_ok [OF lst \<open>0 \<le> off\<close>, of "off + ?k" same first1] nl fl by simp
  have st: "stretch M oldFirst oldLast startCh endCh ins txt =
    clearEmptySpans M first2 # (if same then [] else replicate (length txt - 2)
      (map (\<lambda>sp. \<lparr>sp_marker = sp_marker sp, sp_from = None, sp_to = None\<rparr>)
        (filter (\<lambda>sp. sp_to sp = None) (clearEmptySpans M first2))) @ [clearEmptySpans M last2])"
    unfolding stretch_def Let_def lst_def [symmetric] same_def [symmetric] off_def [symmetric] first1_def [symmetric] fl prod.case
    by (rule refl)
  have "i = length txt - 1" if "\<not> same" "i < length txt" "i \<noteq> 0" "\<not> i - 1 < length txt - 2" for i using that by linarith
  moreover have "\<forall>sp \<in> set (clearEmptySpans M first2). span_ok (int (length (ls ! 0))) sp"
    "\<forall>sp \<in> set (clearEmptySpans M last2). span_ok (int (length (ls ! (length txt - 1)))) sp"
    using f2 l2 clearEmptySpans_subset by blast+
  ultimately show ?thesis
    using assms(7) unfolding st by (cases "txt") (auto simp: same_def nth_Cons' nth_append)
qed

text \<open>The invariant of a document with marked text.\<close>

definition line_spans_ok :: "jsstring \<Rightarrow> span list \<Rightarrow> bool" where
  "line_spans_ok t sps \<longleftrightarrow> (\<forall>sp \<in> set sps. span_ok (int (length t)) sp)"

definition spans_ok :: "('st, 'x) doc_scheme \<Rightarrow> bool" where
  "spans_ok d \<longleftrightarrow> (\<forall>l \<in> set (doc_lines d). line_spans_ok (l_text l) (l_spans l))"

lemma spans_ok_content:
  "spans_ok d \<longleftrightarrow> (\<forall>c \<in> set (map content (doc_lines d)). line_spans_ok (fst c) (fst (snd c)))"
  by (simp add: spans_ok_def content_def)

lemma spans_at_ok:
  "doc_ok d \<Longrightarrow> k < length (doc_lines d) \<Longrightarrow> spans_at d (d_first d + int k) = Inr (l_spans (doc_lines d ! k))"
  by (simp add: spans_at_def isLine_def d_size_ok getLine_ok)

lemma changed_content_spans:
  assumes "\<forall>c \<in> set (map content ls). line_spans_ok (fst c) (fst (snd c))"
    and "txt \<noteq> []"
    and "\<forall>i < length txt. line_spans_ok (join_ends (take fc (l_text (ls ! F))) txt (drop ec (l_text (ls ! E))) ! i) (sp i)"
  shows "\<forall>c \<in> set (changed_content sp F fc E ec txt ls). line_spans_ok (fst c) (fst (snd c))"
proof
  let ?js = "join_ends (take fc (l_text (ls ! F))) txt (drop ec (l_text (ls ! E)))"
  fix c assume "c \<in> set (changed_content sp F fc E ec txt ls)"
  then consider "c \<in> set (map content ls)" | p where "p \<in> set (zip ?js (map sp [0..<length txt]))" "c = fresh p"
    unfolding changed_content_def by (auto dest: in_set_takeD in_set_dropD)
  then show "line_spans_ok (fst c) (fst (snd c))"
  proof cases
    case 1
    with assms(1) show ?thesis by blast
  next
    case 2
    then obtain i where "i < length txt" "p = (?js ! i, sp i)" using assms(2) by (auto simp: set_zip)
    with 2 assms(3) show ?thesis by (simp add: fresh_def)
  qed
qed

lemma updateDoc_spans_ok:
  assumes d: "doc_ok d" "spans_ok d" and c: "valid_change d c"
  shows "\<exists>ms d'. stretchSpansOverChange M d c = Inr ms \<and> updateDoc eh before (spansFor ms) c d = Inr d' \<and>
    doc_ok d' \<and> spans_ok d'"
proof -
  let ?ls = "doc_lines d"
  obtain F where F: "F < length ?ls" "pline (c_from c) = d_first d + int F" "nat (pline (c_from c) - d_first d) = F"
      "0 \<le> pch (c_from c)" "pch (c_from c) \<le> int (length (doc_text d ! F))"
    using c by (auto simp: valid_change_def elim: valid_pos_cases)
  obtain E where E: "E < length ?ls" "pline (c_to c) = d_first d + int E" "nat (pline (c_to c) - d_first d) = E"
      "0 \<le> pch (c_to c)" "pch (c_to c) \<le> int (length (doc_text d ! E))"
    using c by (auto simp: valid_change_def elim: valid_pos_cases)
  have tx: "c_text c \<noteq> []" using c by (simp add: valid_change_def)
  define ms where "ms = (if l_spans (?ls ! F) = [] \<and> l_spans (?ls ! E) = [] then None
     else Some (stretch M (l_spans (?ls ! F)) (l_spans (?ls ! E)) (pch (c_from c)) (pch (c_to c))
                  (cmp (c_from c) (c_to c) = 0) (c_text c)))"
  have ms: "stretchSpansOverChange M d c = Inr ms"
    using spans_at_ok [OF d(1) F(1)] spans_at_ok [OF d(1) E(1)] unfolding stretchSpansOverChange_def F(2) E(2)
    by (simp add: ms_def)
  obtain d' where d': "updateDoc eh before (spansFor ms) c d = Inr d'" "doc_ok d'"
    "map content (doc_lines d') =
      changed_content (spansFor ms) F (nat (pch (c_from c))) E (nat (pch (c_to c))) (c_text c) ?ls"
    using updateDoc_ok [OF d(1) c, of eh before "spansFor ms"] unfolding F(3) E(3) by blast
  let ?js = "join_ends (take (nat (pch (c_from c))) (l_text (?ls ! F))) (c_text c) (drop (nat (pch (c_to c))) (l_text (?ls ! E)))"
  have sp: "\<forall>sp \<in> set (l_spans (?ls ! k)). span_ok (int (length (l_text (?ls ! k)))) sp" if "k < length ?ls" for k
    using d(2) that by (auto simp: spans_ok_def line_spans_ok_def)
  have len: "pch (c_to c) \<le> int (length (l_text (?ls ! E)))" "pch (c_from c) \<le> int (length (l_text (?ls ! F)))"
    using E F by (simp_all add: doc_text_def)
  have st: "length (stretch M (l_spans (?ls ! F)) (l_spans (?ls ! E)) (pch (c_from c)) (pch (c_to c)) ins (c_text c)) = length (c_text c) \<and>
      (\<forall>i < length (c_text c). \<forall>sp \<in> set (stretch M (l_spans (?ls ! F)) (l_spans (?ls ! E)) (pch (c_from c)) (pch (c_to c)) ins (c_text c) ! i).
        span_ok (int (length (?js ! i))) sp)" for ins
    by (rule stretch_ok [OF sp [OF F(1)] sp [OF E(1)] F(4) E(4) len tx refl])
  have "\<forall>i < length (c_text c). line_spans_ok (?js ! i) (spansFor ms i)"
    using st [of "cmp (c_from c) (c_to c) = 0"] by (auto simp: ms_def spansFor_def line_spans_ok_def split: if_splits)
  then have "spans_ok d'"
    using changed_content_spans [OF _ tx] d(2) unfolding spans_ok_content [of d'] d'(3) spans_ok_content [of d] by blast
  with ms d' show ?thesis by blast
qed

section \<open>Where spans go\<close>

text \<open>
  The new span of a marker, for a change within a line that puts \<open>n\<close> characters in the place of those
  from \<open>startCh\<close> to \<open>endCh\<close>: ends outside the change move with the text around them, ends inside it
  move to its ends.
\<close>

definition move_span :: "marker \<Rightarrow> int \<Rightarrow> int \<Rightarrow> int \<Rightarrow> span \<Rightarrow> span option" where
  "move_span m startCh endCh n sp =
     (let shift = map_option (\<lambda>x. x + (startCh + n - endCh))
      in if starts_before m sp startCh then
           Some (sp\<lparr>sp_to := (if ends_after m sp endCh then shift (sp_to sp)
                              else if ends_after m sp startCh then Some startCh else sp_to sp)\<rparr>)
         else if ends_after m sp endCh then
           Some (sp\<lparr>sp_from := (if starts_before m sp endCh then Some (startCh + n) else shift (sp_from sp)),
                    sp_to := shift (sp_to sp)\<rparr>)
         else None)"

lemma starts_before_mono: "starts_before m sp a \<Longrightarrow> a \<le> b \<Longrightarrow> starts_before m sp b"
  by (auto simp: starts_before_def split: option.splits if_splits)

lemma ends_after_mono: "ends_after m sp b \<Longrightarrow> a \<le> b \<Longrightarrow> ends_after m sp a"
  by (auto simp: ends_after_def split: option.splits if_splits)

lemma before_filter:
  "\<forall>sp \<in> set sps. \<not> mk_bookmark (M (sp_marker sp)) \<Longrightarrow>
    markedSpansBefore M sps ch ins =
      map (\<lambda>sp. cut_before (M (sp_marker sp)) ch sp) (filter (\<lambda>sp. starts_before (M (sp_marker sp)) sp ch) sps)"
  by (induction sps) (auto simp: Let_def)

lemma after_filter:
  "\<forall>sp \<in> set sps. \<not> mk_bookmark (M (sp_marker sp)) \<Longrightarrow>
    markedSpansAfter M sps ch ins =
      map (\<lambda>sp. cut_after (M (sp_marker sp)) ch sp) (filter (\<lambda>sp. ends_after (M (sp_marker sp)) sp ch) sps)"
  by (induction sps) (auto simp: Let_def)

lemma getMarkedSpanFor_append:
  "getMarkedSpanFor (xs @ ys) m = (case getMarkedSpanFor xs m of None \<Rightarrow> getMarkedSpanFor ys m | Some sp \<Rightarrow> Some sp)"
  by (induction xs) simp_all

lemma getMarkedSpanFor_None: "getMarkedSpanFor xs m = None \<longleftrightarrow> m \<notin> sp_marker ` set xs"
  by (induction xs) auto

lemma getMarkedSpanFor_map_filter:
  assumes "\<forall>x \<in> set xs. sp_marker (g x) = sp_marker x" and "distinct (map sp_marker xs)" and "sp \<in> set xs"
  shows "getMarkedSpanFor (map g (filter P xs)) (sp_marker sp) = (if P sp then Some (g sp) else None)"
  using assms
proof (induction xs)
  case (Cons x xs)
  show ?case
  proof (cases "sp = x")
    case True
    then have "getMarkedSpanFor (map g (filter P xs)) (sp_marker sp) = None"
      using Cons.prems by (auto simp: getMarkedSpanFor_None rev_image_eqI)
    with True Cons.prems(1) show ?thesis by simp
  next
    case False
    with Cons.prems have "sp \<in> set xs" "sp_marker x \<noteq> sp_marker sp" by (auto simp: rev_image_eqI)
    with Cons show ?thesis by simp
  qed
qed simp

lemma cut_marker [simp]: "sp_marker (cut_before m ch sp) = sp_marker sp" "sp_marker (cut_after m ch sp) = sp_marker sp"
  by (simp_all add: cut_before_def cut_after_def)

lemma map_option_add: "map_option (\<lambda>t :: int. t + a) (map_option (\<lambda>t. t - b) x) = map_option (\<lambda>t. t + (a - b)) x"
  by (cases x) simp_all

lemma ends_after_None: "sp_to sp = None \<Longrightarrow> ends_after m sp ch"
  by (simp add: ends_after_def)

lemma move_before:
  assumes "starts_before m sp startCh" and "startCh \<le> endCh"
    and "getMarkedSpanFor lst (sp_marker sp) = (if ends_after m sp endCh then Some (cut_after m endCh sp) else None)"
  shows "fix_to lst startCh True (n + startCh) (cut_before m startCh sp) = the (move_span m startCh endCh n sp)"
  using assms ends_after_mono [OF _ assms(2), of m sp] ends_after_None [of sp m startCh]
  by (auto simp: fix_to_def cut_before_def cut_after_def move_span_def Let_def map_option_add algebra_simps)

lemma move_after:
  assumes "\<not> starts_before m sp startCh" and "ends_after m sp endCh" and "getMarkedSpanFor F (sp_marker sp) = None"
  shows "fix_from (n + startCh) F (cut_after m endCh sp) = (the (move_span m startCh endCh n sp), True)"
proof -
  obtain f where f: "sp_from sp = Some f" using assms(1) by (cases "sp_from sp") (auto simp: starts_before_def)
  then show ?thesis
    using assms
    by (cases "starts_before m sp endCh")
      (simp_all add: fix_from_def cut_after_def move_span_def Let_def map_option_add algebra_simps)
qed

lemma move_both:
  assumes "starts_before m sp startCh" and "startCh \<le> endCh" and "getMarkedSpanFor F (sp_marker sp) \<noteq> None"
  shows "snd (fix_from (n + startCh) F (cut_after m endCh sp)) = False"
  using assms starts_before_mono [OF assms(1,2)] by (auto simp: fix_from_def cut_after_def Let_def)

lemma move_marker: "move_span m a b n sp = Some sp' \<Longrightarrow> sp_marker sp' = sp_marker sp"
  by (auto simp: move_span_def Let_def split: if_splits)

lemma fix_last_moves:
  assumes "startCh \<le> endCh"
  shows "\<forall>sp \<in> set xs. ends_after (M (sp_marker sp)) sp endCh \<Longrightarrow> distinct (map sp_marker xs) \<Longrightarrow>
    \<forall>sp \<in> set xs. (getMarkedSpanFor F (sp_marker sp) \<noteq> None) = starts_before (M (sp_marker sp)) sp startCh \<Longrightarrow>
    fst (fix_last True (n + startCh) F (map (\<lambda>sp. cut_after (M (sp_marker sp)) endCh sp) xs)) =
      F @ map (\<lambda>sp. the (move_span (M (sp_marker sp)) startCh endCh n sp))
        (filter (\<lambda>sp. \<not> starts_before (M (sp_marker sp)) sp startCh) xs)"
proof (induction xs arbitrary: F)
  case (Cons sp xs)
  let ?m = "M (sp_marker sp)"
  show ?case
  proof (cases "starts_before ?m sp startCh")
    case True
    with Cons.prems(3) have "getMarkedSpanFor F (sp_marker sp) \<noteq> None" by simp
    from move_both [OF True assms this, of n] Cons True show ?thesis
      by (simp add: fix_last_Cons Let_def del: fix_last.simps(2))
  next
    case False
    with Cons.prems(3) have "getMarkedSpanFor F (sp_marker sp) = None" by simp
    moreover have "ends_after ?m sp endCh" using Cons.prems(1) by simp
    ultimately have ff: "fix_from (n + startCh) F (cut_after ?m endCh sp) = (the (move_span ?m startCh endCh n sp), True)"
      using False by (intro move_after)
    let ?sp = "the (move_span ?m startCh endCh n sp)"
    have mk: "sp_marker ?sp = sp_marker sp" using False \<open>ends_after ?m sp endCh\<close> by (simp add: move_span_def Let_def)
    have "\<forall>x \<in> set xs. (getMarkedSpanFor (F @ [?sp]) (sp_marker x) \<noteq> None) = starts_before (M (sp_marker x)) x startCh"
      using Cons.prems(2,3) mk by (auto simp: getMarkedSpanFor_append rev_image_eqI split: option.split)
    with Cons.IH [of "F @ [?sp]"] Cons.prems ff False show ?thesis
      by (simp add: fix_last_Cons Let_def del: fix_last.simps(2))
  qed
qed simp

lemma mset_map_filter_split:
  "\<forall>x \<in> set xs. (f x \<noteq> None) = (P x \<or> Q x) \<Longrightarrow>
    mset (List.map_filter f xs) = mset (map (\<lambda>x. the (f x)) (filter P xs)) + mset (map (\<lambda>x. the (f x)) (filter (\<lambda>x. Q x \<and> \<not> P x) xs))"
  by (induction xs) (auto simp: List.map_filter_def)

section \<open>Read-only ranges\<close>

text \<open>
  The parts left by the markers processed so far: in order, and between any two of them lies the range of
  a processed marker. Then a marker whose range contains no other range meets at most one part.
\<close>

fun parts_ok :: "(pos \<times> pos) list \<Rightarrow> (pos \<times> pos) list \<Rightarrow> bool" where
  "parts_ok rs [] = True"
| "parts_ok rs (p # ps) \<longleftrightarrow>
     fst p \<le> snd p \<and> parts_ok rs ps \<and> (ps \<noteq> [] \<longrightarrow> (\<exists>r \<in> set rs. snd p \<le> fst r \<and> snd r \<le> fst (hd ps)))"

definition apart :: "pos \<times> pos \<Rightarrow> pos \<times> pos \<Rightarrow> bool" where
  "apart p r \<longleftrightarrow> snd p \<le> fst r \<or> snd r \<le> fst p"

lemma parts_ok_mono: "parts_ok rs ps \<Longrightarrow> set rs \<subseteq> set rs' \<Longrightarrow> parts_ok rs' ps"
  by (induction ps) auto

lemma parts_ok_later:
  assumes "parts_ok rs (p # ps)" and "\<forall>r \<in> set rs. fst r \<le> snd r" and "q \<in> set ps"
  shows "\<exists>r \<in> set rs. snd p \<le> fst r \<and> snd r \<le> fst q"
  using assms
proof (induction ps arbitrary: p)
  case (Cons p' ps)
  then obtain r where r: "r \<in> set rs" "snd p \<le> fst r" "snd r \<le> fst p'" by auto
  show ?case
  proof (cases "q = p'")
    case True
    with r show ?thesis by blast
  next
    case False
    with Cons.prems have "q \<in> set ps" "parts_ok rs (p' # ps)" by auto
    with Cons.IH [of p'] Cons.prems(2) obtain r' where "r' \<in> set rs" "snd p' \<le> fst r'" "snd r' \<le> fst q" by blast
    moreover have "fst p' \<le> snd p'" using Cons.prems(1) by simp
    moreover have "fst r' \<le> snd r'" using Cons.prems(2) \<open>r' \<in> set rs\<close> by blast
    ultimately have "snd r \<le> fst q" using r(3) by (meson order_trans)
    with r show ?thesis by blast
  qed
qed simp

definition meets :: "pos \<times> pos \<Rightarrow> pos \<times> pos \<Rightarrow> bool" where
  "meets m p \<longleftrightarrow> fst m \<le> snd p \<and> fst p \<le> snd m"

lemma clip_parts_meets: "clip_parts il ir m (p # ps) =
    (if meets m p then clip_part il ir m p @ take 2 ps @ clip_parts il ir m (drop 2 ps) else p # clip_parts il ir m ps)"
  by (auto simp: meets_def not_le)

lemma clip_parts_none: "\<forall>p \<in> set ps. \<not> meets m p \<Longrightarrow> clip_parts il ir m ps = ps"
  by (induction ps) (auto simp: clip_parts_meets simp del: clip_parts.simps(2))

lemma meets_once:
  assumes "parts_ok rs (p # ps)" and "\<forall>r \<in> set rs. fst r \<le> snd r" and "\<forall>r \<in> set rs. \<not> (fst m \<le> fst r \<and> snd r \<le> snd m)"
    and "meets m p"
  shows "\<forall>q \<in> set ps. \<not> meets m q"
proof
  fix q assume "q \<in> set ps"
  from parts_ok_later [OF assms(1,2) this] obtain r where r: "r \<in> set rs" "snd p \<le> fst r" "snd r \<le> fst q" by blast
  then have "\<not> (fst m \<le> fst r \<and> snd r \<le> snd m)" using assms(3) by blast
  with r assms(4) show "\<not> meets m q" unfolding meets_def by (meson order_trans)
qed

lemma hd_clip_part: "clip_part il ir m p \<noteq> [] \<Longrightarrow> meets m p \<Longrightarrow> fst p \<le> fst (hd (clip_part il ir m p))"
  by (auto simp: clip_part_def meets_def)

lemma clip_part_ok:
  assumes "meets m p" and "fst p \<le> snd p" and "fst m \<le> snd m" and "parts_ok rs ps"
    and "ps \<noteq> [] \<Longrightarrow> \<exists>r \<in> set rs. snd p \<le> fst r \<and> snd r \<le> fst (hd ps)"
  shows "parts_ok (m # rs) (clip_part il ir m p @ ps)"
proof -
  have "parts_ok (m # rs) ps" by (rule parts_ok_mono [OF assms(4)]) auto
  moreover have "\<exists>r \<in> set (m # rs). snd p \<le> fst r \<and> snd r \<le> fst (hd ps)" if "ps \<noteq> []"
    using assms(5) [OF that] by auto
  moreover have "\<exists>r \<in> set (m # rs). fst m \<le> fst r \<and> snd r \<le> fst (hd ps)" if "ps \<noteq> []"
    using assms(1) assms(5) [OF that] by (auto simp: meets_def intro: order_trans)
  moreover have "fst m \<le> snd p" "fst p \<le> snd m" using assms(1) by (simp_all add: meets_def)
  moreover define A where "A \<longleftrightarrow> cmp (fst p) (fst m) < 0 \<or> \<not> il \<and> cmp (fst p) (fst m) = 0"
  moreover define B where "B \<longleftrightarrow> cmp (snd p) (snd m) > 0 \<or> \<not> ir \<and> cmp (snd p) (snd m) = 0"
  moreover have "A \<Longrightarrow> fst p \<le> fst m" "B \<Longrightarrow> snd m \<le> snd p" by (auto simp: A_def B_def)
  ultimately show ?thesis
    unfolding clip_part_def A_def [symmetric] B_def [symmetric] by (cases A; cases B) simp_all
qed

lemma clip_parts_ok:
  assumes "\<forall>r \<in> set rs. fst r \<le> snd r" and "\<forall>r \<in> set rs. \<not> (fst m \<le> fst r \<and> snd r \<le> snd m)" and "fst m \<le> snd m"
  shows "parts_ok rs ps \<Longrightarrow>
    parts_ok (m # rs) (clip_parts il ir m ps) \<and>
    (ps \<noteq> [] \<longrightarrow> clip_parts il ir m ps \<noteq> [] \<longrightarrow> fst (hd ps) \<le> fst (hd (clip_parts il ir m ps))) \<and>
    (\<forall>q \<in> set (clip_parts il ir m ps). apart q m \<and> (\<exists>p \<in> set ps. fst p \<le> fst q \<and> snd q \<le> snd p))"
proof (induction ps)
  case (Cons p ps)
  have p: "fst p \<le> snd p" "parts_ok rs ps" using Cons.prems by simp_all
  show ?case
  proof (cases "meets m p")
    case True
    have none: "\<forall>q \<in> set ps. \<not> meets m q" by (rule meets_once [OF Cons.prems assms(1,2) True])
    then have "\<forall>q \<in> set (drop 2 ps). \<not> meets m q" using in_set_dropD by metis
    from clip_parts_none [OF this] True have eq: "clip_parts il ir m (p # ps) = clip_part il ir m p @ ps"
      by (simp add: clip_parts_meets del: clip_parts.simps(2))
    have "parts_ok (m # rs) (clip_part il ir m p @ ps)"
      using clip_part_ok [OF True p(1) assms(3) p(2)] Cons.prems by simp
    moreover have "fst p \<le> fst (hd (clip_part il ir m p @ ps))" if "clip_part il ir m p @ ps \<noteq> []"
    proof (cases "clip_part il ir m p = []")
      case True
      with that Cons.prems obtain r where "r \<in> set rs" "snd p \<le> fst r" "snd r \<le> fst (hd ps)" by auto
      with assms(1) p(1) True show ?thesis by (metis append_Nil order_trans)
    qed (simp add: hd_clip_part True)
    moreover have "apart q m \<and> fst p \<le> fst q \<and> snd q \<le> snd p" if "q \<in> set (clip_part il ir m p)" for q
      using that True assms(3) by (auto simp: clip_part_def apart_def meets_def split: if_splits)
    moreover have "apart q m" if "q \<in> set ps" for q using none that by (auto simp: meets_def apart_def)
    ultimately show ?thesis unfolding eq by auto
  next
    case False
    then have eq: "clip_parts il ir m (p # ps) = p # clip_parts il ir m ps"
      by (simp add: clip_parts_meets del: clip_parts.simps(2))
    note IH = Cons.IH [OF p(2)]
    have "\<exists>r \<in> set (m # rs). snd p \<le> fst r \<and> snd r \<le> fst (hd (clip_parts il ir m ps))" if "clip_parts il ir m ps \<noteq> []"
    proof -
      have "ps \<noteq> []" using that by auto
      with Cons.prems IH that show ?thesis by (auto intro: order_trans)
    qed
    moreover have "apart p m" using False by (auto simp: meets_def apart_def)
    ultimately show ?thesis using IH p(1) unfolding eq by auto
  qed
qed simp

definition contains :: "pos \<times> pos \<Rightarrow> pos \<times> pos \<Rightarrow> bool" where
  "contains a b \<longleftrightarrow> fst a \<le> fst b \<and> snd b \<le> snd a"

lemma apart_within: "apart p r \<Longrightarrow> contains p q \<Longrightarrow> apart q r"
  by (auto simp: apart_def contains_def intro: order_trans)

lemma contains_trans: "contains a b \<Longrightarrow> contains b c \<Longrightarrow> contains a c"
  by (auto simp: contains_def intro: order_trans)

lemma clip_markers_ok:
  assumes "\<forall>m \<in> set ms. found_range (marker_find M d m (Some 0)) = Inr (rng m) \<and> fst (rng m) \<le> snd (rng m)"
    and "sorted_wrt (\<lambda>a b. \<not> contains (rng b) (rng a)) ms"
    and "\<forall>r \<in> set rs. fst r \<le> snd r \<and> (\<forall>m \<in> set ms. \<not> contains (rng m) r)" and "parts_ok rs parts"
  shows "\<exists>ps. clip_markers M d ms parts = Inr ps \<and>
    (\<forall>q \<in> set ps. (\<exists>p \<in> set parts. contains p q) \<and> (\<forall>m \<in> set ms. apart q (rng m)))"
  using assms
proof (induction ms arbitrary: parts rs)
  case Nil
  then show ?case by (auto simp: contains_def)
next
  case (Cons m ms)
  let ?parts = "clip_parts (mk_inclusiveLeft (M m)) (mk_inclusiveRight (M m)) (rng m) parts"
  have m: "found_range (marker_find M d m (Some 0)) = Inr (rng m)" "fst (rng m) \<le> snd (rng m)" using Cons.prems(1) by auto
  have rs: "\<forall>r \<in> set rs. fst r \<le> snd r" "\<forall>r \<in> set rs. \<not> (fst (rng m) \<le> fst r \<and> snd r \<le> snd (rng m))"
    using Cons.prems(3) by (auto simp: contains_def)
  note clip = clip_parts_ok [OF rs m(2) Cons.prems(4), of "mk_inclusiveLeft (M m)" "mk_inclusiveRight (M m)"]
  have "\<forall>r \<in> set (rng m # rs). fst r \<le> snd r \<and> (\<forall>m \<in> set ms. \<not> contains (rng m) r)"
    using Cons.prems(2,3) m(2) by auto
  moreover have "parts_ok (rng m # rs) ?parts" using clip by blast
  ultimately obtain ps where ps: "clip_markers M d ms ?parts = Inr ps"
    "\<forall>q \<in> set ps. (\<exists>p \<in> set ?parts. contains p q) \<and> (\<forall>m \<in> set ms. apart q (rng m))"
    using Cons.IH [of "rng m # rs" ?parts] Cons.prems(1,2) by auto
  have "(\<exists>p \<in> set parts. contains p q) \<and> apart q (rng m)" if q: "q \<in> set ps" for q
  proof -
    obtain p where p: "p \<in> set ?parts" "contains p q" using ps(2) q by blast
    then obtain p0 where "p0 \<in> set parts" "contains p0 p" "apart p (rng m)" using clip by (auto simp: contains_def)
    with p show ?thesis using apart_within contains_trans by blast
  qed
  with ps m(1) show ?case by auto
qed

section \<open>Properties\<close>

text \<open>C11: When the spans of all markers lie within their lines, they still do after any change of the text,
  with the spans stretched over the change as the code does it, and the change succeeds.\<close>

theorem spans_stay_within_lines:
  assumes "doc_ok d" and "spans_ok d" and "valid_change d c"
  shows "\<exists>ms d'. stretchSpansOverChange M d c = Inr ms \<and> updateDoc eh before (spansFor ms) c d = Inr d' \<and>
    doc_ok d' \<and> spans_ok d'"
  by (rule updateDoc_spans_ok [OF assms])

definition marked_doc :: "nat doc" where
  "marked_doc =
     \<lparr>d_root = BranchChunk [LeafChunk
        [\<lparr>l_id = 0, l_text = js ''abc'', l_height = 1, l_spans = [\<lparr>sp_marker = 0, sp_from = Some 1, sp_to = Some 3\<rparr>],
          l_stateAfter = None, l_styles = None, l_order = None\<rparr>]],
      d_first = 0, d_nextLine = 1\<rparr>"

text \<open>A line break typed inside of the span splits it: it runs to the end of the first line and covers the start of the second.\<close>

definition line_break :: change where
  "line_break = \<lparr>c_from = Pos 0 2, c_to = Pos 0 2, c_text = [[], []], c_origin = None, c_removed = []\<rparr>"

theorem spans_stay_within_lines_witness:
  "\<exists>ms d'. stretchSpansOverChange (\<lambda>_. TextMarker False) marked_doc line_break = Inr ms \<and>
     updateDoc (\<lambda>_. 1) True (spansFor ms) line_break marked_doc = Inr d' \<and> doc_ok d' \<and> spans_ok d' \<and>
     map (\<lambda>l. map (\<lambda>sp. (sp_from sp, sp_to sp)) (l_spans l)) (doc_lines d') = [[(Some 1, None)], [(None, Some 1)]]"
proof -
  have l: "doc_lines marked_doc = [\<lparr>l_id = 0, l_text = js ''abc'', l_height = 1,
      l_spans = [\<lparr>sp_marker = 0, sp_from = Some 1, sp_to = Some 3\<rparr>], l_stateAfter = None, l_styles = None, l_order = None\<rparr>]"
    by code_simp
  have "doc_ok marked_doc" using l initial_tree_ok by (simp add: doc_ok_def) (simp add: marked_doc_def)
  moreover have "spans_ok marked_doc" using l by (simp add: spans_ok_def line_spans_ok_def span_ok_def js_def)
  moreover have "valid_change marked_doc line_break"
    using l by (simp add: valid_change_def valid_pos_def line_break_def js_def) (simp add: marked_doc_def)
  ultimately obtain ms d' where r: "stretchSpansOverChange (\<lambda>_. TextMarker False) marked_doc line_break = Inr ms"
      "updateDoc (\<lambda>_. 1) True (spansFor ms) line_break marked_doc = Inr d'" "doc_ok d'" "spans_ok d'"
    using spans_stay_within_lines [of marked_doc line_break "\<lambda>_. TextMarker False" "\<lambda>_. 1" True] by blast
  have "case stretchSpansOverChange (\<lambda>_. TextMarker False) marked_doc line_break of
      Inr ms \<Rightarrow>
        (case updateDoc (\<lambda>_. 1) True (spansFor ms) line_break marked_doc of
           Inr d' \<Rightarrow> map (\<lambda>l. map (\<lambda>sp. (sp_from sp, sp_to sp)) (l_spans l)) (doc_lines d') = [[(Some 1, None)], [(None, Some 1)]]
         | Inl e \<Rightarrow> False)
    | Inl e \<Rightarrow> False" by code_simp
  then show ?thesis using r by simp
qed

text \<open>C9: A change within a line moves the marked ranges of the line with the text: for every marker (at
  most one span per marker on the line, no bookmarks) the new span is the old one with each end that
  lies outside the change moved by the difference in length where it is behind the change, and with an
  end inside the change moved to the change's start or end; spans inside the change and spans that
  become empty disappear. Only the order of the spans may differ.\<close>

theorem stretch_moves_spans:
  assumes "distinct (map sp_marker sps)" and "\<forall>sp \<in> set sps. \<not> mk_bookmark (M (sp_marker sp))" and "startCh \<le> endCh"
  shows "mset (concat (stretch M sps sps startCh endCh isInsert [s])) =
    mset (clearEmptySpans M (List.map_filter (\<lambda>sp. move_span (M (sp_marker sp)) startCh endCh (int (length s)) sp) sps))"
proof -
  let ?B = "\<lambda>sp. starts_before (M (sp_marker sp)) sp startCh" and ?A = "\<lambda>sp. ends_after (M (sp_marker sp)) sp endCh"
  let ?cutA = "\<lambda>sp. cut_after (M (sp_marker sp)) endCh sp" and ?n = "int (length s)"
  let ?mv = "\<lambda>sp. move_span (M (sp_marker sp)) startCh endCh ?n sp"
  define lst where "lst = map ?cutA (filter ?A sps)"
  have look: "getMarkedSpanFor lst (sp_marker sp) = (if ?A sp then Some (?cutA sp) else None)" if "sp \<in> set sps" for sp
    unfolding lst_def using getMarkedSpanFor_map_filter [OF _ assms(1) that, of ?cutA ?A] by simp
  have first1: "fix_first lst startCh True (?n + startCh) (markedSpansBefore M sps startCh isInsert) =
      map (\<lambda>sp. the (?mv sp)) (filter ?B sps)"
    unfolding fix_first_def before_filter [OF assms(2)]
    using look by (simp add: move_before [OF _ assms(3)])
  have mk: "sp_marker (the (?mv sp)) = sp_marker sp" if "?B sp \<or> ?A sp" for sp using that by (auto simp: move_span_def Let_def)
  have "(getMarkedSpanFor (map (\<lambda>sp. the (?mv sp)) (filter ?B sps)) (sp_marker sp) \<noteq> None) = ?B sp" if sp: "sp \<in> set sps" for sp
  proof -
    have "getMarkedSpanFor (map (\<lambda>sp. the (?mv sp)) (filter ?B sps)) (sp_marker sp) = None \<longleftrightarrow>
        sp_marker sp \<notin> sp_marker ` set (filter ?B sps)"
      unfolding getMarkedSpanFor_None using mk by (force simp: image_image)
    also have "\<dots> \<longleftrightarrow> \<not> ?B sp" using assms(1) sp by (auto simp: distinct_map inj_on_def)
    finally show ?thesis by simp
  qed
  then have "fst (fix_last True (?n + startCh) (map (\<lambda>sp. the (?mv sp)) (filter ?B sps)) lst) =
      map (\<lambda>sp. the (?mv sp)) (filter ?B sps) @ map (\<lambda>sp. the (?mv sp)) (filter (\<lambda>sp. \<not> ?B sp) (filter ?A sps))"
    unfolding lst_def using assms(1) by (intro fix_last_moves [OF assms(3)]) (auto simp: distinct_map inj_on_def)
  then have "mset (concat (stretch M sps sps startCh endCh isInsert [s])) =
      mset (clearEmptySpans M (map (\<lambda>sp. the (?mv sp)) (filter ?B sps) @
        map (\<lambda>sp. the (?mv sp)) (filter (\<lambda>sp. ?A sp \<and> \<not> ?B sp) sps)))"
    unfolding stretch_def Let_def after_filter [OF assms(2)] lst_def [symmetric] by (simp add: first1 split_beta conj_commute)
  moreover have "\<forall>sp \<in> set sps. (?mv sp \<noteq> None) = (?B sp \<or> ?A sp)" by (auto simp: move_span_def Let_def)
  from mset_map_filter_split [OF this]
  have "mset (List.map_filter ?mv sps) = mset (map (\<lambda>sp. the (?mv sp)) (filter ?B sps) @
      map (\<lambda>sp. the (?mv sp)) (filter (\<lambda>sp. ?A sp \<and> \<not> ?B sp) sps))" by simp
  ultimately show ?thesis by (simp add: clearEmptySpans_def mset_filter)
qed

theorem stretch_moves_spans_witness:
  "mset (concat (stretch (\<lambda>_. TextMarker False) [\<lparr>sp_marker = 1, sp_from = Some 5, sp_to = Some 9\<rparr>, \<lparr>sp_marker = 2, sp_from = Some 0, sp_to = Some 6\<rparr>]
      [\<lparr>sp_marker = 1, sp_from = Some 5, sp_to = Some 9\<rparr>, \<lparr>sp_marker = 2, sp_from = Some 0, sp_to = Some 6\<rparr>] 4 7 False [[120]])) =
    {# \<lparr>sp_marker = 1, sp_from = Some 5, sp_to = Some 7\<rparr>, \<lparr>sp_marker = 2, sp_from = Some 0, sp_to = Some 4\<rparr> #}"
  by (subst stretch_moves_spans)
    (simp_all add: TextMarker_def move_span_def starts_before_def ends_after_def clearEmptySpans_def List.map_filter_def)

text \<open>C28: When no read-only range in the lines of a change contains another one, clipping read-only text out
  of the change leaves parts that lie within the change and overlap none of these ranges.\<close>

theorem removeReadOnlyRanges_protects:
  assumes "f \<le> t"
    and "\<forall>m \<in> set (readOnly_between M d f t). found_range (marker_find M d m (Some 0)) = Inr (rng m) \<and> fst (rng m) \<le> snd (rng m)"
    and "sorted_wrt (\<lambda>a b. \<not> contains (rng b) (rng a)) (readOnly_between M d f t)"
  shows "\<exists>res. removeReadOnlyRanges M d f t = Inr res \<and>
    (case res of None \<Rightarrow> readOnly_between M d f t = []
     | Some ps \<Rightarrow> \<forall>q \<in> set ps. contains (f, t) q \<and> (\<forall>m \<in> set (readOnly_between M d f t). apart q (rng m)))"
proof -
  have "parts_ok [] [(f, t)]" using assms(1) by simp
  from clip_markers_ok [OF assms(2,3), of "[]", OF _ this] obtain ps where
    "clip_markers M d (readOnly_between M d f t) [(f, t)] = Inr ps"
    "\<forall>q \<in> set ps. contains (f, t) q \<and> (\<forall>m \<in> set (readOnly_between M d f t). apart q (rng m))" by auto
  then show ?thesis by (auto simp: removeReadOnlyRanges_def Let_def)
qed

definition readOnly_example :: "span list \<Rightarrow> doc_exn + nat doc" where
  "readOnly_example sps = updateDoc (\<lambda>_. 1) True (\<lambda>_. sps) (insertion 0 [js ''0123456789'']) (blankDoc 0 ())"

theorem removeReadOnlyRanges_protects_witness:
  "case readOnly_example [\<lparr>sp_marker = 0, sp_from = Some 2, sp_to = Some 4\<rparr>, \<lparr>sp_marker = 1, sp_from = Some 6, sp_to = Some 8\<rparr>] of
     Inr d \<Rightarrow> (\<exists>ps. removeReadOnlyRanges (\<lambda>_. (TextMarker False)\<lparr>mk_readOnly := True\<rparr>) d (Pos 0 3) (Pos 0 9) = Inr (Some ps) \<and>
       (\<forall>q \<in> set ps. contains (Pos 0 3, Pos 0 9) q \<and> apart q (Pos 0 2, Pos 0 4)))
   | Inl e \<Rightarrow> False"
proof -
  let ?M = "\<lambda>_ :: nat. (TextMarker False)\<lparr>mk_readOnly := True\<rparr>"
  let ?rng = "\<lambda>m :: nat. if m = 0 then (Pos 0 2, Pos 0 4) else (Pos 0 6, Pos 0 8)"
  let ?sps = "[\<lparr>sp_marker = 0, sp_from = Some 2, sp_to = Some 4\<rparr>, \<lparr>sp_marker = 1, sp_from = Some 6, sp_to = Some 8\<rparr>]"
  have e: "case readOnly_example ?sps of
      Inr d \<Rightarrow> readOnly_between ?M d (Pos 0 3) (Pos 0 9) = [0, 1] \<and>
        found_range (marker_find ?M d 0 (Some 0)) = Inr (?rng 0) \<and> found_range (marker_find ?M d 1 (Some 0)) = Inr (?rng 1)
    | Inl e \<Rightarrow> False" by code_simp
  then obtain d where d: "readOnly_example ?sps = Inr d" by (auto split: sum.splits)
  have "Pos 0 3 \<le> Pos 0 9" "fst (?rng m) \<le> snd (?rng m)" "\<not> contains (?rng 1) (?rng 0)" for m
    by (simp_all add: less_eq_pos_def contains_def)
  with removeReadOnlyRanges_protects [of "Pos 0 3" "Pos 0 9" ?M d ?rng] e d show ?thesis
    by (fastforce split: option.splits)
qed

text \<open>When one range contains another that was marked before it, a part of the outer one stays editable.\<close>

lemma removeReadOnlyRanges_nested:
  "case readOnly_example [\<lparr>sp_marker = 0, sp_from = Some 5, sp_to = Some 6\<rparr>, \<lparr>sp_marker = 1, sp_from = Some 3, sp_to = Some 8\<rparr>] of
     Inr d \<Rightarrow> removeReadOnlyRanges (\<lambda>_. (TextMarker False)\<lparr>mk_readOnly := True\<rparr>) d (Pos 0 0) (Pos 0 10) =
       Inr (Some [(Pos 0 0, Pos 0 3), (Pos 0 6, Pos 0 10)])
   | Inl e \<Rightarrow> False"
  by code_simp

end
