(* ===== verification/VisualLines.thy ===== *)
theory VisualLines
  imports Spans
begin

text \<open>
  Collapsed ranges (\<^verbatim>\<open>src/js/codemirror/codemirror.js\<close>, section TEXTMARKER SPANS): which of two overlapping
  collapsed markers is the larger one, whether a new one conflicts with those present, which lines they
  join into one visual line, and which lines they hide. \<open>saw\<close> is the global flag \<^verbatim>\<open>sawCollapsedSpans\<close>.
  The loops that follow markers from line to line may run forever on spans that are not well-formed,
  so they are partial functions; a well-formedness condition on the markers makes them return.
\<close>

section \<open>Definitions\<close>

definition extraLeft :: "marker \<Rightarrow> int" where
  "extraLeft m = (if mk_inclusiveLeft m then -1 else 0)"

definition extraRight :: "marker \<Rightarrow> int" where
  "extraRight m = (if mk_inclusiveRight m then 1 else 0)"

text \<open>JavaScript's \<^verbatim>\<open>a || b\<close> on numbers.\<close>

definition or_else :: "int \<Rightarrow> int \<Rightarrow> int" where
  "or_else a b = (if a \<noteq> 0 then a else b)"

definition compareCollapsedMarkers :: "(nat \<Rightarrow> marker) \<Rightarrow> ('st, 'x) doc_scheme \<Rightarrow> nat \<Rightarrow> nat \<Rightarrow> doc_exn + int" where
  "compareCollapsedMarkers M d a b =
     (let lenDiff = int (length (marker_lines d a)) - int (length (marker_lines d b))
      in if lenDiff \<noteq> 0 then Inr lenDiff
         else rbind (found_range (marker_find M d a None)) (\<lambda>aPos.
              rbind (found_range (marker_find M d b None)) (\<lambda>bPos.
                let fromCmp = or_else (cmp (fst aPos) (fst bPos)) (extraLeft (M a) - extraLeft (M b));
                    toCmp = or_else (cmp (snd aPos) (snd bPos)) (extraRight (M a) - extraRight (M b))
                in Inr (if fromCmp \<noteq> 0 then - fromCmp else if toCmp \<noteq> 0 then toCmp else mk_id (M b) - mk_id (M a)))))"

definition open_at :: "bool \<Rightarrow> span \<Rightarrow> bool" where
  "open_at start sp \<longleftrightarrow> (if start then sp_from sp else sp_to sp) = None"

fun collapsed_side_loop ::
  "(nat \<Rightarrow> marker) \<Rightarrow> ('st, 'x) doc_scheme \<Rightarrow> bool \<Rightarrow> span list \<Rightarrow> nat option \<Rightarrow> doc_exn + nat option" where
  "collapsed_side_loop M d start [] found = Inr found"
| "collapsed_side_loop M d start (sp # sps) found =
     (if mk_collapsed (M (sp_marker sp)) \<and> open_at start sp
      then (case found of
              None \<Rightarrow> collapsed_side_loop M d start sps (Some (sp_marker sp))
            | Some m \<Rightarrow> rbind (compareCollapsedMarkers M d m (sp_marker sp)) (\<lambda>c.
                collapsed_side_loop M d start sps (if c < 0 then Some (sp_marker sp) else found)))
      else collapsed_side_loop M d start sps found)"

definition collapsedSpanAtSide ::
  "(nat \<Rightarrow> marker) \<Rightarrow> bool \<Rightarrow> ('st, 'x) doc_scheme \<Rightarrow> 'st line \<Rightarrow> bool \<Rightarrow> doc_exn + nat option" where
  "collapsedSpanAtSide M saw d l start = collapsed_side_loop M d start (if saw then l_spans l else []) None"

definition collapsedSpanAtStart ::
  "(nat \<Rightarrow> marker) \<Rightarrow> bool \<Rightarrow> ('st, 'x) doc_scheme \<Rightarrow> 'st line \<Rightarrow> doc_exn + nat option" where
  "collapsedSpanAtStart M saw d l = collapsedSpanAtSide M saw d l True"

definition collapsedSpanAtEnd ::
  "(nat \<Rightarrow> marker) \<Rightarrow> bool \<Rightarrow> ('st, 'x) doc_scheme \<Rightarrow> 'st line \<Rightarrow> doc_exn + nat option" where
  "collapsedSpanAtEnd M saw d l = collapsedSpanAtSide M saw d l False"

fun conflict_loop ::
  "(nat \<Rightarrow> marker) \<Rightarrow> ('st, 'x) doc_scheme \<Rightarrow> pos \<Rightarrow> pos \<Rightarrow> marker \<Rightarrow> span list \<Rightarrow> doc_exn + bool" where
  "conflict_loop M d f t marker [] = Inr False"
| "conflict_loop M d f t marker (sp # sps) =
     (let m = M (sp_marker sp)
      in if \<not> mk_collapsed m then conflict_loop M d f t marker sps
         else rbind (found_range (marker_find M d (sp_marker sp) (Some 0))) (\<lambda>found.
           let fromCmp = or_else (cmp (fst found) f) (extraLeft m - extraLeft marker);
               toCmp = or_else (cmp (snd found) t) (extraRight m - extraRight marker)
           in if fromCmp \<ge> 0 \<and> toCmp \<le> 0 \<or> fromCmp \<le> 0 \<and> toCmp \<ge> 0 then conflict_loop M d f t marker sps
              else if fromCmp \<le> 0 \<and> (cmp (snd found) f > 0 \<or> mk_inclusiveRight m \<and> mk_inclusiveLeft marker) \<or>
                      fromCmp \<ge> 0 \<and> (cmp (fst found) t < 0 \<or> mk_inclusiveLeft m \<and> mk_inclusiveRight marker)
              then Inr True
              else conflict_loop M d f t marker sps))"

definition conflictingCollapsedRange ::
  "(nat \<Rightarrow> marker) \<Rightarrow> bool \<Rightarrow> ('st, 'x) doc_scheme \<Rightarrow> int \<Rightarrow> pos \<Rightarrow> pos \<Rightarrow> marker \<Rightarrow> doc_exn + bool" where
  "conflictingCollapsedRange M saw d n f t marker =
     rbind (getLine d n) (\<lambda>l. conflict_loop M d f t marker (if saw then l_spans l else []))"

partial_function (option) visualLine ::
  "(nat \<Rightarrow> marker) \<Rightarrow> bool \<Rightarrow> ('st, 'x) doc_scheme \<Rightarrow> 'st line \<Rightarrow> (doc_exn + 'st line) option" where
  "visualLine M saw d l =
     (case collapsedSpanAtStart M saw d l of
        Inl e \<Rightarrow> Some (Inl e)
      | Inr None \<Rightarrow> Some (Inr l)
      | Inr (Some m) \<Rightarrow>
          (case found_line d (marker_find M d m (Some (-1))) of
             Inl e \<Rightarrow> Some (Inl e)
           | Inr l' \<Rightarrow> visualLine M saw d l'))"

partial_function (option) visualLineContinued_loop ::
  "(nat \<Rightarrow> marker) \<Rightarrow> bool \<Rightarrow> ('st, 'x) doc_scheme \<Rightarrow> 'st line \<Rightarrow> 'st line list \<Rightarrow> (doc_exn + 'st line list) option" where
  "visualLineContinued_loop M saw d l ls =
     (case collapsedSpanAtEnd M saw d l of
        Inl e \<Rightarrow> Some (Inl e)
      | Inr None \<Rightarrow> Some (Inr ls)
      | Inr (Some m) \<Rightarrow>
          (case found_line d (marker_find M d m (Some 1)) of
             Inl e \<Rightarrow> Some (Inl e)
           | Inr l' \<Rightarrow> visualLineContinued_loop M saw d l' (ls @ [l'])))"

definition visualLineContinued ::
  "(nat \<Rightarrow> marker) \<Rightarrow> bool \<Rightarrow> ('st, 'x) doc_scheme \<Rightarrow> 'st line \<Rightarrow> (doc_exn + 'st line list) option" where
  "visualLineContinued M saw d l = visualLineContinued_loop M saw d l []"

definition visualLineNo :: "(nat \<Rightarrow> marker) \<Rightarrow> bool \<Rightarrow> ('st, 'x) doc_scheme \<Rightarrow> int \<Rightarrow> (doc_exn + int option) option" where
  "visualLineNo M saw d n =
     (case getLine d n of
        Inl e \<Rightarrow> Some (Inl e)
      | Inr l \<Rightarrow> (case visualLine M saw d l of
                    None \<Rightarrow> None
                  | Some (Inl e) \<Rightarrow> Some (Inl e)
                  | Some (Inr vis) \<Rightarrow> Some (Inr (if l_id l = l_id vis then Some n else lineNo d (l_id vis)))))"

definition heightAtLine :: "(nat \<Rightarrow> marker) \<Rightarrow> bool \<Rightarrow> ('st, 'x) doc_scheme \<Rightarrow> 'st line \<Rightarrow> (doc_exn + int option) option" where
  "heightAtLine M saw d l =
     (case visualLine M saw d l of
        None \<Rightarrow> None
      | Some (Inl e) \<Rightarrow> Some (Inl e)
      | Some (Inr vis) \<Rightarrow> Some (Inr (heightAboveLine d (l_id vis))))"

subsection \<open>Hidden lines\<close>

text \<open>
  \<open>lineIsHiddenInner\<close> calls itself for one span after the other until a call returns true. The spans still
  to be tried, with their lines, are the list \<open>todo\<close>.
\<close>

definition hidden_next :: "(nat \<Rightarrow> marker) \<Rightarrow> span \<Rightarrow> span \<Rightarrow> bool" where
  "hidden_next M sp s \<longleftrightarrow>
     (let m = M (sp_marker s)
      in mk_collapsed m \<and> \<not> mk_widget m \<and> sp_from s = sp_to sp \<and> (sp_to s = None \<or> sp_to s \<noteq> sp_from sp) \<and>
         (mk_inclusiveLeft m \<or> mk_inclusiveRight (M (sp_marker sp))))"

partial_function (option) lineIsHiddenInner ::
  "(nat \<Rightarrow> marker) \<Rightarrow> ('st, 'x) doc_scheme \<Rightarrow> ('st line \<times> span) list \<Rightarrow> (doc_exn + bool) option" where
  "lineIsHiddenInner M d todo =
     (case todo of
        [] \<Rightarrow> Some (Inr False)
      | (l, sp) # rest_todo \<Rightarrow>
          (if sp_to sp = None then
             (case found_line d (marker_find M d (sp_marker sp) (Some 1)) of
                Inl e \<Rightarrow> Some (Inl e)
              | Inr l' \<Rightarrow> (case getMarkedSpanFor (l_spans l') (sp_marker sp) of
                             None \<Rightarrow> Some (Inl TypeErr)
                           | Some sp' \<Rightarrow> lineIsHiddenInner M d ((l', sp') # rest_todo)))
           else if mk_inclusiveRight (M (sp_marker sp)) \<and> sp_to sp = Some (int (length (l_text l))) then Some (Inr True)
           else lineIsHiddenInner M d (map (\<lambda>s. (l, s)) (filter (hidden_next M sp) (l_spans l)) @ rest_todo)))"

fun hidden_loop ::
  "(nat \<Rightarrow> marker) \<Rightarrow> ('st, 'x) doc_scheme \<Rightarrow> 'st line \<Rightarrow> span list \<Rightarrow> (doc_exn + bool) option" where
  "hidden_loop M d l [] = Some (Inr False)"
| "hidden_loop M d l (sp # sps) =
     (let m = M (sp_marker sp)
      in if \<not> mk_collapsed m then hidden_loop M d l sps
         else if sp_from sp = None then Some (Inr True)
         else if mk_widget m then hidden_loop M d l sps
         else if sp_from sp = Some 0 \<and> mk_inclusiveLeft m then
           (case lineIsHiddenInner M d [(l, sp)] of
              None \<Rightarrow> None
            | Some (Inl e) \<Rightarrow> Some (Inl e)
            | Some (Inr b) \<Rightarrow> if b then Some (Inr True) else hidden_loop M d l sps)
         else hidden_loop M d l sps)"

definition lineIsHidden ::
  "(nat \<Rightarrow> marker) \<Rightarrow> bool \<Rightarrow> ('st, 'x) doc_scheme \<Rightarrow> 'st line \<Rightarrow> (doc_exn + bool) option" where
  "lineIsHidden M saw d l = hidden_loop M d l (if saw then l_spans l else [])"

definition visualLineEndNo ::
  "(nat \<Rightarrow> marker) \<Rightarrow> bool \<Rightarrow> ('st, 'x) doc_scheme \<Rightarrow> int \<Rightarrow> (doc_exn + int option) option" where
  "visualLineEndNo M saw d n =
     (if n > lastLine d then Some (Inr (Some n))
      else case getLine d n of
             Inl e \<Rightarrow> Some (Inl e)
           | Inr l \<Rightarrow>
               (case lineIsHidden M saw d l of
                  None \<Rightarrow> None
                | Some (Inl e) \<Rightarrow> Some (Inl e)
                | Some (Inr b) \<Rightarrow>
                    if \<not> b then Some (Inr (Some n))
                    else (case visualLineContinued_loop M saw d l [l] of
                            None \<Rightarrow> None
                          | Some (Inl e) \<Rightarrow> Some (Inl e)
                          | Some (Inr ls) \<Rightarrow> Some (Inr (map_option (\<lambda>k. k + 1) (lineNo d (l_id (last ls))))))))"

section \<open>Well-formed markers\<close>

text \<open>
  A marker covers the lines from number \<open>a\<close> to number \<open>b\<close> of the list: it has a span on exactly these,
  open at the start except on the first and open at the end except on the last.
\<close>

definition extent :: "span list list \<Rightarrow> nat \<Rightarrow> nat \<Rightarrow> nat \<Rightarrow> bool" where
  "extent ss m a b \<longleftrightarrow> a \<le> b \<and> b < length ss \<and>
     (\<forall>k < length ss.
        (case getMarkedSpanFor (ss ! k) m of
           None \<Rightarrow> k < a \<or> b < k
         | Some sp \<Rightarrow> a \<le> k \<and> k \<le> b \<and> (sp_from sp \<noteq> None \<longleftrightarrow> k = a) \<and> (sp_to sp \<noteq> None \<longleftrightarrow> k = b)))"

definition doc_spans :: "('st, 'x) doc_scheme \<Rightarrow> span list list" where
  "doc_spans d = map l_spans (doc_lines d)"

definition markers_ok :: "(nat \<Rightarrow> marker) \<Rightarrow> ('st, 'x) doc_scheme \<Rightarrow> bool" where
  "markers_ok M d \<longleftrightarrow>
     (\<forall>sps \<in> set (doc_spans d). distinct (map sp_marker sps)) \<and>
     (\<forall>m \<in> sp_marker ` \<Union> (set ` set (doc_spans d)).
        \<exists>a b. extent (doc_spans d) m a b \<and> (mk_bookmark (M m) \<longrightarrow> a = b))"

lemma getMarkedSpanFor_distinct:
  "distinct (map sp_marker sps) \<Longrightarrow> sp \<in> set sps \<Longrightarrow> getMarkedSpanFor sps (sp_marker sp) = Some sp"
  by (induction sps) (auto simp: rev_image_eqI)

lemma span_extent:
  assumes "markers_ok M d" and "k < length (doc_lines d)" and "sp \<in> set (l_spans (doc_lines d ! k))"
  obtains a b where "extent (doc_spans d) (sp_marker sp) a b" "mk_bookmark (M (sp_marker sp)) \<longrightarrow> a = b"
    "a \<le> k" "k \<le> b" "sp_from sp \<noteq> None \<longleftrightarrow> k = a" "sp_to sp \<noteq> None \<longleftrightarrow> k = b"
proof -
  have k: "doc_spans d ! k = l_spans (doc_lines d ! k)" "k < length (doc_spans d)" using assms(2) by (simp_all add: doc_spans_def)
  then have in_: "l_spans (doc_lines d ! k) \<in> set (doc_spans d)" by (metis nth_mem)
  then have "sp_marker sp \<in> sp_marker ` \<Union> (set ` set (doc_spans d))" using assms(3) by blast
  then obtain a b where ab: "extent (doc_spans d) (sp_marker sp) a b" "mk_bookmark (M (sp_marker sp)) \<longrightarrow> a = b"
    using assms(1) unfolding markers_ok_def by blast
  have "distinct (map sp_marker (l_spans (doc_lines d ! k)))" using assms(1) in_ unfolding markers_ok_def by blast
  then have "getMarkedSpanFor (doc_spans d ! k) (sp_marker sp) = Some sp"
    unfolding k(1) using assms(3) by (rule getMarkedSpanFor_distinct)
  with ab(1) k(2) have "a \<le> k \<and> k \<le> b \<and> (sp_from sp \<noteq> None \<longleftrightarrow> k = a) \<and> (sp_to sp \<noteq> None \<longleftrightarrow> k = b)"
    unfolding extent_def by fastforce
  with ab show ?thesis using that by blast
qed

lemma filter_upt_interval: "filter (\<lambda>k. a \<le> k \<and> k \<le> b) [0..<n] = [a..<min n (Suc b)]"
  by (induction n) (auto simp: min_def not_less_eq_eq)

lemma extent_order: "extent ss m a b \<Longrightarrow> a \<le> b" "extent ss m a b \<Longrightarrow> b < length ss"
  by (simp_all add: extent_def)

lemma marker_lines_extent:
  assumes "extent (doc_spans d) m a b"
  shows "marker_lines d m = map (\<lambda>k. (d_first d + int k, doc_spans d ! k)) [a..<Suc b]"
proof -
  let ?n = "length (doc_spans d)"
  have ab: "a \<le> b" "b < ?n" using assms by (simp_all add: extent_def)
  have "zip (map (\<lambda>i. d_first d + int i) [0..<length (collapse (d_root d))]) (map l_spans (collapse (d_root d))) =
      map (\<lambda>k. (d_first d + int k, doc_spans d ! k)) [0..<?n]"
    by (rule nth_equalityI) (simp_all add: doc_spans_def doc_lines_def)
  then have "marker_lines d m = map (\<lambda>k. (d_first d + int k, doc_spans d ! k))
      (filter (\<lambda>k. getMarkedSpanFor (doc_spans d ! k) m \<noteq> None) [0..<?n])"
    by (simp add: marker_lines_def filter_map comp_def)
  moreover have "filter (\<lambda>k. getMarkedSpanFor (doc_spans d ! k) m \<noteq> None) [0..<?n] = filter (\<lambda>k. a \<le> k \<and> k \<le> b) [0..<?n]"
    using assms by (intro filter_cong) (auto simp: extent_def split: option.splits)
  ultimately show ?thesis using filter_upt_interval [of a b ?n] ab(2) by (simp add: min_absorb2)
qed

lemma extent_spans:
  assumes "extent ss m a b" and "a \<le> k" and "k \<le> b"
  obtains sp where "getMarkedSpanFor (ss ! k) m = Some sp" "sp_from sp \<noteq> None \<longleftrightarrow> k = a" "sp_to sp \<noteq> None \<longleftrightarrow> k = b"
proof -
  have "k < length ss" using assms(3) extent_order(2) [OF assms(1)] by simp
  then have "case getMarkedSpanFor (ss ! k) m of
           None \<Rightarrow> k < a \<or> b < k
         | Some sp \<Rightarrow> a \<le> k \<and> k \<le> b \<and> (sp_from sp \<noteq> None \<longleftrightarrow> k = a) \<and> (sp_to sp \<noteq> None \<longleftrightarrow> k = b)"
    using assms(1) unfolding extent_def by blast
  with assms(2,3) show ?thesis by (cases "getMarkedSpanFor (ss ! k) m") (simp_all add: that)
qed

lemma find_left:
  assumes "extent (doc_spans d) m a b"
  shows "\<exists>c. marker_find M d m (Some (-1)) = FoundPos (Pos (d_first d + int a) c)"
proof -
  have ab: "a \<le> b" using assms by (simp add: extent_def)
  obtain sp where "getMarkedSpanFor (doc_spans d ! a) m = Some sp" "sp_from sp \<noteq> None \<longleftrightarrow> a = a" "sp_to sp \<noteq> None \<longleftrightarrow> a = b"
    by (rule extent_spans [OF assms order_refl ab])
  then show ?thesis
    using ab by (auto simp: marker_find_def marker_lines_extent [OF assms] upt_conv_Cons Let_def simp del: upt_Suc)
qed

lemma find_right_loop:
  assumes "extent ss m a b"
  shows "a \<le> k \<Longrightarrow> k \<le> b \<Longrightarrow> \<exists>c. find_loop m 1 (map (\<lambda>k. (n + int k, ss ! k)) [k..<Suc b]) f t = FoundPos (Pos (n + int b) c)"
proof (induction "b - k" arbitrary: k f t)
  case 0
  then have k: "k = b" by simp
  obtain sp where sp: "getMarkedSpanFor (ss ! k) m = Some sp" "sp_from sp \<noteq> None \<longleftrightarrow> k = a" "sp_to sp \<noteq> None \<longleftrightarrow> k = b"
    by (rule extent_spans [OF assms 0(2,3)])
  then obtain t' where "sp_to sp = Some t'" using k by auto
  with k sp(1) show ?case by (simp add: Let_def)
next
  case (Suc x)
  then have "k < b" by simp
  obtain sp where "getMarkedSpanFor (ss ! k) m = Some sp" "sp_from sp \<noteq> None \<longleftrightarrow> k = a" "sp_to sp \<noteq> None \<longleftrightarrow> k = b"
    by (rule extent_spans [OF assms Suc.prems])
  then have "getMarkedSpanFor (ss ! k) m = Some sp" "sp_to sp = None" using \<open>k < b\<close> by auto
  moreover have "[k..<Suc b] = k # [Suc k..<Suc b]" using \<open>k < b\<close> by (simp add: upt_conv_Cons del: upt_Suc)
  moreover have "x = b - Suc k" "a \<le> Suc k" "Suc k \<le> b" using Suc \<open>k < b\<close> by simp_all
  ultimately show ?case using Suc.hyps(1) [of "Suc k"] by (simp add: Let_def del: upt_Suc)
qed

lemma find_right:
  assumes "extent (doc_spans d) m a b"
  shows "\<exists>c. marker_find M d m (Some 1) = FoundPos (Pos (d_first d + int b) c)"
  using find_right_loop [OF assms, of a "d_first d" None None] extent_order [OF assms]
  unfolding marker_find_def marker_lines_extent [OF assms] by simp

lemma find_both_loop:
  assumes "extent ss m a b"
  shows "a \<le> k \<Longrightarrow> k \<le> b \<Longrightarrow> k = a \<or> f \<noteq> None \<Longrightarrow>
    \<exists>p q. find_loop m 0 (map (\<lambda>k. (n + int k, ss ! k)) [k..<Suc b]) f t = FoundRange p (Some q)"
proof (induction "b - k" arbitrary: k f t)
  case 0
  then have k: "k = b" by simp
  obtain sp where sp: "getMarkedSpanFor (ss ! k) m = Some sp" "sp_from sp \<noteq> None \<longleftrightarrow> k = a" "sp_to sp \<noteq> None \<longleftrightarrow> k = b"
    by (rule extent_spans [OF assms 0(2,3)])
  then obtain t' where "sp_to sp = Some t'" using k by auto
  with k sp 0(4) show ?case by (cases "sp_from sp"; cases f) (simp_all add: Let_def)
next
  case (Suc x)
  then have "k < b" by simp
  obtain sp where sp: "getMarkedSpanFor (ss ! k) m = Some sp" "sp_from sp \<noteq> None \<longleftrightarrow> k = a" "sp_to sp \<noteq> None \<longleftrightarrow> k = b"
    by (rule extent_spans [OF assms Suc.prems(1,2)])
  have "(case sp_from sp of None \<Rightarrow> f | Some c \<Rightarrow> Some (Pos (n + int k) c)) \<noteq> None"
    using sp Suc.prems(3) by (auto split: option.split)
  moreover have "[k..<Suc b] = k # [Suc k..<Suc b]" using \<open>k < b\<close> by (simp add: upt_conv_Cons del: upt_Suc)
  moreover have "x = b - Suc k" "a \<le> Suc k" "Suc k \<le> b" using Suc \<open>k < b\<close> by simp_all
  ultimately show ?case using Suc.hyps(1) [of "Suc k"] sp(1) by (simp add: Let_def del: upt_Suc)
qed

lemma find_both:
  assumes "extent (doc_spans d) m a b" and "\<not> mk_bookmark (M m)"
  shows "\<exists>r. found_range (marker_find M d m None) = Inr r"
  using find_both_loop [OF assms(1), of a None "d_first d" None] extent_order [OF assms(1)] assms(2)
  unfolding marker_find_def marker_lines_extent [OF assms(1)] by (auto simp: found_range_def simp del: upt_Suc)

lemma found_line_extent:
  assumes "doc_ok d" and "extent (doc_spans d) m a b"
  shows "found_line d (marker_find M d m (Some (-1))) = Inr (doc_lines d ! a)"
    and "found_line d (marker_find M d m (Some 1)) = Inr (doc_lines d ! b)"
proof -
  have "a < length (doc_lines d)" "b < length (doc_lines d)" using assms(2) by (simp_all add: extent_def doc_spans_def)
  then show "found_line d (marker_find M d m (Some (-1))) = Inr (doc_lines d ! a)"
    "found_line d (marker_find M d m (Some 1)) = Inr (doc_lines d ! b)"
    using find_left [OF assms(2), of M] find_right [OF assms(2), of M] getLine_ok [OF assms(1)]
    by (auto simp: found_line_def)
qed

section \<open>The loops return\<close>

lemma compare_returns:
  assumes "markers_ok M d" and "k < length (doc_lines d)" and "a \<in> set (l_spans (doc_lines d ! k))" "b \<in> set (l_spans (doc_lines d ! k))"
    and "sp_from a = None \<or> sp_to a = None" "sp_from b = None \<or> sp_to b = None"
  shows "\<exists>c. compareCollapsedMarkers M d (sp_marker a) (sp_marker b) = Inr c"
proof -
  have "\<exists>r. found_range (marker_find M d (sp_marker sp) None) = Inr r"
    if sp: "sp \<in> set (l_spans (doc_lines d ! k))" "sp_from sp = None \<or> sp_to sp = None" for sp
  proof -
    obtain x y where "extent (doc_spans d) (sp_marker sp) x y" "mk_bookmark (M (sp_marker sp)) \<longrightarrow> x = y"
      "x \<le> k" "k \<le> y" "sp_from sp \<noteq> None \<longleftrightarrow> k = x" "sp_to sp \<noteq> None \<longleftrightarrow> k = y"
      by (rule span_extent [OF assms(1,2) sp(1)])
    with sp(2) show ?thesis by (intro find_both) auto
  qed
  from this [OF assms(3,5)] this [OF assms(4,6)] show ?thesis
    by (auto simp: compareCollapsedMarkers_def Let_def)
qed

lemma collapsed_side_returns:
  assumes "markers_ok M d" and "k < length (doc_lines d)"
  shows "set sps \<subseteq> set (l_spans (doc_lines d ! k)) \<Longrightarrow>
    (\<forall>m. found = Some m \<longrightarrow> (\<exists>sp \<in> set (l_spans (doc_lines d ! k)). sp_marker sp = m \<and> open_at start sp)) \<Longrightarrow>
    \<exists>r. collapsed_side_loop M d start sps found = Inr r \<and>
      (\<forall>m. r = Some m \<longrightarrow> (\<exists>sp \<in> set (l_spans (doc_lines d ! k)). sp_marker sp = m \<and> open_at start sp))"
proof (induction sps arbitrary: found)
  case (Cons sp sps)
  show ?case
  proof (cases "mk_collapsed (M (sp_marker sp)) \<and> open_at start sp")
    case False
    have "set sps \<subseteq> set (l_spans (doc_lines d ! k))" using Cons.prems(1) by auto
    from Cons.IH [OF this Cons.prems(2)] show ?thesis unfolding collapsed_side_loop.simps if_not_P [OF False] .
  next
    case True
    have sub: "set sps \<subseteq> set (l_spans (doc_lines d ! k))" "sp \<in> set (l_spans (doc_lines d ! k))" using Cons.prems(1) by auto
    show ?thesis
    proof (cases found)
      case None
      with Cons.IH [OF sub(1), of "Some (sp_marker sp)"] sub(2) True show ?thesis by auto
    next
      case (Some m)
      with Cons.prems(2) obtain sm where sm: "sm \<in> set (l_spans (doc_lines d ! k))" "sp_marker sm = m"
        "open_at start sm" by blast
      then obtain c where c: "compareCollapsedMarkers M d m (sp_marker sp) = Inr c"
        using compare_returns [OF assms sm(1) sub(2)] True by (cases start) (auto simp: open_at_def)
      have "\<forall>m'. (if c < 0 then Some (sp_marker sp) else found) = Some m' \<longrightarrow>
          (\<exists>sp \<in> set (l_spans (doc_lines d ! k)). sp_marker sp = m' \<and> open_at start sp)"
        using Some sub(2) sm True by auto
      from Cons.IH [OF sub(1) this] show ?thesis
        unfolding collapsed_side_loop.simps if_P [OF True] Some option.case c rbind.simps .
    qed
  qed
qed simp

lemma collapsedSpanAtSide_returns:
  assumes "markers_ok M d" and "k < length (doc_lines d)"
  shows "collapsedSpanAtSide M saw d (doc_lines d ! k) start = Inr None \<or>
    (\<exists>m sp. collapsedSpanAtSide M saw d (doc_lines d ! k) start = Inr (Some m) \<and> sp \<in> set (l_spans (doc_lines d ! k)) \<and>
      sp_marker sp = m \<and> open_at start sp)"
proof -
  have "set (if saw then l_spans (doc_lines d ! k) else []) \<subseteq> set (l_spans (doc_lines d ! k))" by auto
  from collapsed_side_returns [OF assms this, of None start]
  obtain r where r: "collapsedSpanAtSide M saw d (doc_lines d ! k) start = Inr r"
    "\<forall>m. r = Some m \<longrightarrow> (\<exists>sp \<in> set (l_spans (doc_lines d ! k)). sp_marker sp = m \<and> open_at start sp)"
    unfolding collapsedSpanAtSide_def by blast
  then show ?thesis by (cases r) auto
qed

text \<open>The lines that markers lead to are before, or behind, the line they are open on.\<close>

lemma open_start_before:
  assumes "doc_ok d" and "markers_ok M d" and "k < length (doc_lines d)" and "sp \<in> set (l_spans (doc_lines d ! k))" and "sp_from sp = None"
  obtains a where "a < k" "found_line d (marker_find M d (sp_marker sp) (Some (-1))) = Inr (doc_lines d ! a)"
proof -
  obtain a b where "extent (doc_spans d) (sp_marker sp) a b" "mk_bookmark (M (sp_marker sp)) \<longrightarrow> a = b"
    "a \<le> k" "k \<le> b" "sp_from sp \<noteq> None \<longleftrightarrow> k = a" "sp_to sp \<noteq> None \<longleftrightarrow> k = b"
    by (rule span_extent [OF assms(2-4)])
  with assms(5) show ?thesis using found_line_extent(1) [OF assms(1)] by (intro that [of a]) auto
qed

lemma open_end_behind:
  assumes "doc_ok d" and "markers_ok M d" and "k < length (doc_lines d)" and "sp \<in> set (l_spans (doc_lines d ! k))" and "sp_to sp = None"
  obtains b sp' where "k < b" "b < length (doc_lines d)" "found_line d (marker_find M d (sp_marker sp) (Some 1)) = Inr (doc_lines d ! b)"
    "getMarkedSpanFor (l_spans (doc_lines d ! b)) (sp_marker sp) = Some sp'" "sp_to sp' \<noteq> None"
proof -
  obtain a b where e: "extent (doc_spans d) (sp_marker sp) a b" "mk_bookmark (M (sp_marker sp)) \<longrightarrow> a = b"
    "a \<le> k" "k \<le> b" "sp_from sp \<noteq> None \<longleftrightarrow> k = a" "sp_to sp \<noteq> None \<longleftrightarrow> k = b"
    by (rule span_extent [OF assms(2-4)])
  obtain sp' where "getMarkedSpanFor (doc_spans d ! b) (sp_marker sp) = Some sp'" "sp_from sp' \<noteq> None \<longleftrightarrow> b = a" "sp_to sp' \<noteq> None \<longleftrightarrow> b = b"
    by (rule extent_spans [OF e(1) extent_order(1) [OF e(1)] order_refl])
  moreover have "k < b" "b < length (doc_lines d)" using e assms(5) extent_order(2) [OF e(1)] by (auto simp: doc_spans_def)
  ultimately show ?thesis using found_line_extent(2) [OF assms(1) e(1)] by (intro that [of b sp']) (auto simp: doc_spans_def)
qed

lemma visualLine_returns:
  assumes "doc_ok d" and "markers_ok M d"
  shows "k < length (doc_lines d) \<Longrightarrow> \<exists>j \<le> k. visualLine M saw d (doc_lines d ! k) = Some (Inr (doc_lines d ! j)) \<and>
    collapsedSpanAtStart M saw d (doc_lines d ! j) = Inr None"
proof (induction k rule: less_induct)
  case (less k)
  consider "collapsedSpanAtStart M saw d (doc_lines d ! k) = Inr None"
    | m sp where "collapsedSpanAtStart M saw d (doc_lines d ! k) = Inr (Some m)" "sp \<in> set (l_spans (doc_lines d ! k))"
      "sp_marker sp = m" "sp_from sp = None"
    using collapsedSpanAtSide_returns [OF assms(2) less.prems, of saw True] by (auto simp: collapsedSpanAtStart_def open_at_def)
  then show ?case
  proof cases
    case 1
    then show ?thesis by (subst visualLine.simps) auto
  next
    case 2
    obtain a where a: "a < k" "found_line d (marker_find M d (sp_marker sp) (Some (-1))) = Inr (doc_lines d ! a)"
      by (rule open_start_before [OF assms less.prems 2(2,4)])
    with less.IH [OF a(1)] less.prems obtain j where
      "j \<le> a" "visualLine M saw d (doc_lines d ! a) = Some (Inr (doc_lines d ! j))" "collapsedSpanAtStart M saw d (doc_lines d ! j) = Inr None"
      by auto
    with 2 a show ?thesis by (subst visualLine.simps) (auto intro: exI [of _ j])
  qed
qed

lemma visualLineContinued_returns:
  assumes "doc_ok d" and "markers_ok M d"
  shows "k < length (doc_lines d) \<Longrightarrow> \<exists>js. visualLineContinued_loop M saw d (doc_lines d ! k) ls = Some (Inr (ls @ map ((!) (doc_lines d)) js)) \<and>
    sorted_wrt (<) (k # js) \<and> set js \<subseteq> {..<length (doc_lines d)}"
proof (induction "length (doc_lines d) - k" arbitrary: k ls rule: less_induct)
  case less
  consider "collapsedSpanAtEnd M saw d (doc_lines d ! k) = Inr None"
    | m sp where "collapsedSpanAtEnd M saw d (doc_lines d ! k) = Inr (Some m)" "sp \<in> set (l_spans (doc_lines d ! k))"
      "sp_marker sp = m" "sp_to sp = None"
    using collapsedSpanAtSide_returns [OF assms(2) less.prems, of saw False] by (auto simp: collapsedSpanAtEnd_def open_at_def)
  then show ?case
  proof cases
    case 1
    then show ?thesis by (subst visualLineContinued_loop.simps) (auto intro: exI [of _ "[]"])
  next
    case 2
    obtain b sp' where b: "k < b" "b < length (doc_lines d)" "found_line d (marker_find M d (sp_marker sp) (Some 1)) = Inr (doc_lines d ! b)"
        "getMarkedSpanFor (l_spans (doc_lines d ! b)) (sp_marker sp) = Some sp'" "sp_to sp' \<noteq> None"
      by (rule open_end_behind [OF assms less.prems 2(2,4)])
    have "length (doc_lines d) - b < length (doc_lines d) - k" using b(1,2) by simp
    from less.hyps [OF this b(2), of "ls @ [doc_lines d ! b]"] obtain js where js:
      "visualLineContinued_loop M saw d (doc_lines d ! b) (ls @ [doc_lines d ! b]) =
        Some (Inr ((ls @ [doc_lines d ! b]) @ map ((!) (doc_lines d)) js))"
      "sorted_wrt (<) (b # js)" "set js \<subseteq> {..<length (doc_lines d)}" by blast
    have "visualLineContinued_loop M saw d (doc_lines d ! k) ls = Some (Inr (ls @ map ((!) (doc_lines d)) (b # js)))"
      using 2 b js(1) by (subst visualLineContinued_loop.simps) simp
    moreover have "sorted_wrt (<) (k # b # js)" using js(2) b(1) by auto
    ultimately show ?thesis using js(3) b(2) by (intro exI [of _ "b # js"]) auto
  qed
qed

text \<open>
  The order in which \<open>lineIsHiddenInner\<close> moves: to a later line, or on a line to a span that starts
  later, or starts where this one does and ends later.
\<close>

definition hidden_measure :: "('st, 'x) doc_scheme \<Rightarrow> ((nat \<times> span) \<times> nat \<times> span) set" where
  "hidden_measure d = measures
     [\<lambda>(k, sp). length (doc_lines d) - k,
      \<lambda>(k, sp). nat (int (length (l_text (doc_lines d ! k))) - (case sp_from sp of None \<Rightarrow> -1 | Some f \<Rightarrow> f)),
      \<lambda>(k, sp). nat (int (length (l_text (doc_lines d ! k))) + 1 -
         (case sp_to sp of None \<Rightarrow> int (length (l_text (doc_lines d ! k))) + 1 | Some t \<Rightarrow> t))]"

lemma wf_hidden_measure: "wf (hidden_measure d)"
  by (simp add: hidden_measure_def)

lemma hidden_next_smaller:
  assumes "span_ok (int (length (l_text (doc_lines d ! k)))) sp" and "span_ok (int (length (l_text (doc_lines d ! k)))) s"
    and "hidden_next M sp s" and "sp_to sp = Some t"
  shows "((k, s), (k, sp)) \<in> hidden_measure d"
proof (cases "sp_from sp")
  case None
  with assms show ?thesis by (auto simp: hidden_measure_def hidden_next_def Let_def span_ok_def)
next
  case (Some f)
  show ?thesis
  proof (cases "f < t")
    case True
    with Some assms show ?thesis by (auto simp: hidden_measure_def hidden_next_def Let_def span_ok_def)
  next
    case False
    then have "f = t" using Some assms(1,4) by (auto simp: span_ok_def)
    with Some assms show ?thesis
      by (cases "sp_to s") (auto simp: hidden_measure_def hidden_next_def Let_def span_ok_def)
  qed
qed

lemma hidden_all:
  "\<forall>x \<in> set xs. \<forall>todo. (\<exists>b. lineIsHiddenInner M d todo = Some (Inr b)) \<longrightarrow> (\<exists>b. lineIsHiddenInner M d (x # todo) = Some (Inr b)) \<Longrightarrow>
    \<exists>b. lineIsHiddenInner M d todo = Some (Inr b) \<Longrightarrow> \<exists>b. lineIsHiddenInner M d (xs @ todo) = Some (Inr b)"
  by (induction xs) simp_all

lemma ex_bool [simp]: "\<exists>b. b" "Ex Not"
  by blast+

lemma lineIsHiddenInner_returns:
  assumes "doc_ok d" and "markers_ok M d" and "spans_ok d"
  shows "fst x < length (doc_lines d) \<Longrightarrow> snd x \<in> set (l_spans (doc_lines d ! fst x)) \<Longrightarrow>
    \<exists>b. lineIsHiddenInner M d todo = Some (Inr b) \<Longrightarrow> \<exists>b. lineIsHiddenInner M d ((doc_lines d ! fst x, snd x) # todo) = Some (Inr b)"
proof (induction x arbitrary: todo rule: wf_induct_rule [OF wf_hidden_measure [of d]])
  case (1 x)
  obtain k sp where x: "x = (k, sp)" by fastforce
  have k: "k < length (doc_lines d)" "sp \<in> set (l_spans (doc_lines d ! k))" using 1(2,3) x by simp_all
  show ?case
  proof (cases "sp_to sp")
    case None
    obtain b sp' where b: "k < b" "b < length (doc_lines d)" "found_line d (marker_find M d (sp_marker sp) (Some 1)) = Inr (doc_lines d ! b)"
        "getMarkedSpanFor (l_spans (doc_lines d ! b)) (sp_marker sp) = Some sp'" "sp_to sp' \<noteq> None"
      by (rule open_end_behind [OF assms(1,2) k None])
    have "length (doc_lines d) - b < length (doc_lines d) - k" using b(1,2) by simp
    then have "((b, sp'), x) \<in> hidden_measure d" by (simp add: hidden_measure_def x)
    moreover have "sp' \<in> set (l_spans (doc_lines d ! b))" using getMarkedSpanFor_in [OF b(4)] by simp
    ultimately have "\<exists>r. lineIsHiddenInner M d ((doc_lines d ! b, sp') # todo) = Some (Inr r)"
      using 1(1) [of "(b, sp')"] b(2) 1(4) by simp
    with None b show ?thesis unfolding x by (subst lineIsHiddenInner.simps) simp
  next
    case (Some t)
    have ok: "span_ok (int (length (l_text (doc_lines d ! k)))) s" if "s \<in> set (l_spans (doc_lines d ! k))" for s
      using assms(3) k(1) that by (auto simp: spans_ok_def line_spans_ok_def)
    have "\<forall>y \<in> set (map (\<lambda>s. (doc_lines d ! k, s)) (filter (hidden_next M sp) (l_spans (doc_lines d ! k)))).
        \<forall>todo. (\<exists>b. lineIsHiddenInner M d todo = Some (Inr b)) \<longrightarrow> (\<exists>b. lineIsHiddenInner M d (y # todo) = Some (Inr b))"
    proof (intro ballI allI impI)
      fix y todo
      assume "y \<in> set (map (\<lambda>s. (doc_lines d ! k, s)) (filter (hidden_next M sp) (l_spans (doc_lines d ! k))))"
        and t: "\<exists>b. lineIsHiddenInner M d todo = Some (Inr b)"
      then obtain s where s: "y = (doc_lines d ! k, s)" "s \<in> set (l_spans (doc_lines d ! k))" "hidden_next M sp s" by auto
      have "((k, s), x) \<in> hidden_measure d" unfolding x by (rule hidden_next_smaller [OF ok [OF k(2)] ok [OF s(2)] s(3) Some])
      from 1(1) [OF this] k(1) s t show "\<exists>b. lineIsHiddenInner M d (y # todo) = Some (Inr b)" by simp
    qed
    from hidden_all [OF this 1(4)] Some show ?thesis unfolding x by (subst lineIsHiddenInner.simps) simp
  qed
qed

lemma lineIsHidden_returns:
  assumes "doc_ok d" and "markers_ok M d" and "spans_ok d" and "k < length (doc_lines d)"
  shows "\<exists>b. lineIsHidden M saw d (doc_lines d ! k) = Some (Inr b)"
proof -
  have nil: "\<exists>b. lineIsHiddenInner M d [] = Some (Inr b)" by (subst lineIsHiddenInner.simps) auto
  have "set sps \<subseteq> set (l_spans (doc_lines d ! k)) \<Longrightarrow> \<exists>b. hidden_loop M d (doc_lines d ! k) sps = Some (Inr b)" for sps
  proof (induction sps)
    case (Cons sp sps)
    with lineIsHiddenInner_returns [OF assms(1-3), of "(k, sp)" "[]", OF _ _ nil] assms(4)
    show ?case by (auto simp: Let_def)
  qed simp
  then show ?thesis by (simp add: lineIsHidden_def)
qed

section \<open>Properties\<close>

text \<open>C12: With well-formed markers (each covers a contiguous run of lines) following collapsed ranges to the
  start of the visual line always ends, without an exception, at a line of the document at or before
  the given one where no collapsed range is open at the start; following them to the continuation lines
  ends too and finds lines in increasing order; and whether a line is hidden is always decided when the
  spans lie within their lines.\<close>

theorem visual_line_loops_return:
  assumes "doc_ok d" and "markers_ok M d" and "spans_ok d" and "k < length (doc_lines d)"
  shows "(\<exists>j \<le> k. visualLine M saw d (doc_lines d ! k) = Some (Inr (doc_lines d ! j)) \<and>
      collapsedSpanAtStart M saw d (doc_lines d ! j) = Inr None) \<and>
    (\<exists>js. visualLineContinued M saw d (doc_lines d ! k) = Some (Inr (map ((!) (doc_lines d)) js)) \<and> sorted_wrt (<) (k # js)) \<and>
    (\<exists>b. lineIsHidden M saw d (doc_lines d ! k) = Some (Inr b))"
  using visualLine_returns [OF assms(1,2,4)] visualLineContinued_returns [OF assms(1,2,4), of saw "[]"]
    lineIsHidden_returns [OF assms] by (auto simp: visualLineContinued_def)

definition folded_example :: "doc_exn + nat doc" where
  "folded_example =
     updateDoc (\<lambda>_. 1) True
       (\<lambda>i. [\<lparr>sp_marker = 0, sp_from = (if i = 0 then Some 1 else None), sp_to = (if i = 2 then Some 1 else None)\<rparr>])
       (insertion 0 [js ''ab'', js ''c'', js ''de'']) (blankDoc 0 ())"

abbreviation folding :: "nat \<Rightarrow> marker" where
  "folding \<equiv> \<lambda>_. (TextMarker False)\<lparr>mk_collapsed := True\<rparr>"

lemma folded_example_ok:
  obtains d where "folded_example = Inr d" "doc_ok d" "markers_ok folding d" "spans_ok d" "d_first d = 0" "length (doc_lines d) = 3"
    "extent (doc_spans d) 0 0 2"
proof -
  have v: "valid_change (blankDoc 0 () :: nat doc) (insertion 0 [js ''ab'', js ''c'', js ''de''])"
    by (simp add: valid_change_def valid_pos_def insertion_def blankDoc_def doc_lines_def)
  obtain d where d: "folded_example = Inr d" "doc_ok d"
    using updateDoc_ok [OF blankDoc_ok(1) v] unfolding folded_example_def by meson
  have e: "case folded_example of
      Inr d \<Rightarrow> (map l_text (doc_lines d) = [js ''ab'', js ''c'', js ''de''] \<and> d_first d = 0) \<and>
        doc_spans d = [[\<lparr>sp_marker = 0, sp_from = Some 1, sp_to = None\<rparr>], [\<lparr>sp_marker = 0, sp_from = None, sp_to = None\<rparr>],
          [\<lparr>sp_marker = 0, sp_from = None, sp_to = Some 1\<rparr>]]
    | Inl e \<Rightarrow> False" by code_simp
  have t: "map l_text (doc_lines d) = [js ''ab'', js ''c'', js ''de''] \<and> d_first d = 0" using e unfolding d(1) sum.case by (rule conjunct1)
  have s: "doc_spans d = [[\<lparr>sp_marker = 0, sp_from = Some 1, sp_to = None\<rparr>], [\<lparr>sp_marker = 0, sp_from = None, sp_to = None\<rparr>],
      [\<lparr>sp_marker = 0, sp_from = None, sp_to = Some 1\<rparr>]]"
    using e unfolding d(1) sum.case by (rule conjunct2)
  have x: "extent (doc_spans d) 0 0 2"
    unfolding extent_def s by (auto simp: less_Suc_eq numeral_3_eq_3 numeral_2_eq_2)
  then have "markers_ok folding d" unfolding markers_ok_def using s by (auto simp: TextMarker_def)
  moreover have "spans_ok d"
    using s t by (auto simp: spans_ok_def line_spans_ok_def doc_spans_def span_ok_def js_def)
  moreover have "length (doc_lines d) = 3" using arg_cong [OF conjunct1 [OF t], of length] by simp
  ultimately show ?thesis using d t x by (intro that [of d]) simp_all
qed

theorem visual_line_loops_return_witness:
  "case folded_example of
     Inr d \<Rightarrow> \<exists>j \<le> 2. visualLine folding True d (doc_lines d ! 2) = Some (Inr (doc_lines d ! j))
   | Inl e \<Rightarrow> False"
proof -
  obtain d where d: "folded_example = Inr d" "doc_ok d" "markers_ok folding d" "spans_ok d" "length (doc_lines d) = 3" by (rule folded_example_ok)
  then show ?thesis using visual_line_loops_return [OF d(2-4), of 2 True] unfolding d(1) sum.case by auto
qed

end
