(* ===== verification/History.thy ===== *)
theory History
  imports VisualLines
begin

text \<open>
  Changes of a document with its selection and its history (\<^verbatim>\<open>src/js/codemirror/codemirror.js\<close>, sections
  SELECTION UPDATES, UPDATING and HISTORY). The record \<open>hdoc\<close> extends the document by its selection, its
  history and its markers. What an operation depends on besides the document is the record \<open>env\<close>: the
  number of the running operation (\<open>None\<close> is \<^verbatim>\<open>NaN\<close>, for a document without an editor), the clock, the
  event handlers that may change a selection or a change, and the line height estimate.

  An operation returns \<open>None\<close> when a loop of the code does not end, \<open>Inl\<close> when it raises, and the changed
  document otherwise. Linked documents are not modelled: a document is taken alone.
\<close>

section \<open>Definitions\<close>

record hchange =
  hc_from :: pos
  hc_to :: pos
  hc_text :: "jsstring list"
  hc_spans :: "span list list option"

datatype hevent = HSel selection | HChange "hchange list" "int option"

record history =
  h_done :: "hevent list"
  h_undone :: "hevent list"
  h_undoDepth :: "int option"
  h_lastModTime :: int
  h_lastSelTime :: int
  h_lastOp :: "int option"
  h_lastOrigin :: "jsstring option"
  h_lastSelOrigin :: "jsstring option"
  h_generation :: int
  h_maxGeneration :: int

definition History :: "int \<Rightarrow> history" where
  "History startGen =
     (let g = (if startGen \<noteq> 0 then startGen else 1)
      in \<lparr>h_done = [], h_undone = [], h_undoDepth = None, h_lastModTime = 0, h_lastSelTime = 0, h_lastOp = None,
          h_lastOrigin = None, h_lastSelOrigin = None, h_generation = g, h_maxGeneration = g\<rparr>)"

record 'st hdoc = "'st doc" +
  d_sel :: selection
  d_hist :: history
  d_cleanGeneration :: int
  d_cantEdit :: bool
  d_extend :: bool
  d_markers :: "nat \<Rightarrow> marker"

datatype change_action = Cancel | Update "pos option" "pos option" "jsstring list option" "jsstring option option"

record 'st env =
  e_inEditor :: bool
  e_opId :: "int option"
  e_time :: int
  e_delay :: int
  e_suppressEdits :: bool
  e_beforeChange :: "(change \<Rightarrow> change_action list) option"
  e_beforeSel :: "(selection \<Rightarrow> range list list) option"
  e_height :: "'st line \<Rightarrow> int"
  e_wholeLine :: bool
  e_sawReadOnly :: bool

type_synonym 'a comp = "(doc_exn + 'a) option"

definition pbind :: "'a comp \<Rightarrow> ('a \<Rightarrow> 'b comp) \<Rightarrow> 'b comp" where
  "pbind x f = (case x of None \<Rightarrow> None | Some (Inl e) \<Rightarrow> Some (Inl e) | Some (Inr a) \<Rightarrow> f a)"

definition ret :: "'a \<Rightarrow> 'a comp" where
  "ret a = Some (Inr a)"

lemma pbind_simps [simp]:
  "pbind None f = None" "pbind (Some (Inl e)) f = Some (Inl e)" "pbind (Some (Inr a)) f = f a" "pbind (ret a) f = f a"
  by (simp_all add: pbind_def ret_def)

subsection \<open>The history\<close>

definition lst :: "'a list \<Rightarrow> 'a option" where
  "lst xs = (if xs = [] then None else Some (last xs))"

definition is_sel :: "hevent \<Rightarrow> bool" where
  "is_sel e = (case e of HSel s \<Rightarrow> True | HChange chs g \<Rightarrow> False)"

definition changeEnd :: "pos \<Rightarrow> jsstring list \<Rightarrow> pos" where
  "changeEnd f txt =
     Pos (pline f + int (length txt) - 1) (int (length (last txt)) + (if length txt = 1 then pch f else 0))"

definition attachLocalSpans :: "('st, 'x) doc_scheme \<Rightarrow> int \<Rightarrow> int \<Rightarrow> span list list option" where
  "attachLocalSpans d f t =
     (let spans = doc_iter d (max (d_first d) f) (min (d_first d + d_size d) t) (\<lambda>l out. (False, out @ [l_spans l])) []
      in if list_all (\<lambda>s. s = []) spans then None else Some spans)"

definition historyChangeFromChange :: "('st, 'x) doc_scheme \<Rightarrow> pos \<Rightarrow> pos \<Rightarrow> jsstring list \<Rightarrow> hchange" where
  "historyChangeFromChange d f t txt =
     \<lparr>hc_from = copyPos f, hc_to = changeEnd f txt, hc_text = getBetween d f t,
      hc_spans = attachLocalSpans d (pline f) (pline t + 1)\<rparr>"

definition clearSelectionEvents :: "hevent list \<Rightarrow> hevent list" where
  "clearSelectionEvents evs = rev (dropWhile is_sel (rev evs))"

definition lastChangeEvent :: "hevent list \<Rightarrow> bool \<Rightarrow> hevent list \<times> hevent option" where
  "lastChangeEvent evs force =
     (if force then (clearSelectionEvents evs, lst (clearSelectionEvents evs))
      else if evs \<noteq> [] \<and> \<not> is_sel (last evs) then (evs, Some (last evs))
      else if length evs > 1 \<and> \<not> is_sel (evs ! (length evs - 2)) then (butlast evs, lst (butlast evs))
      else (evs, None))"

definition pushSelectionToHistory :: "selection \<Rightarrow> hevent list \<Rightarrow> hevent list" where
  "pushSelectionToHistory sel dest =
     (case lst dest of Some (HSel t) \<Rightarrow> if sel_equals t sel then dest else dest @ [HSel sel] | _ \<Rightarrow> dest @ [HSel sel])"

text \<open>\<open>==\<close> on operation numbers, where \<^verbatim>\<open>NaN\<close> and \<^verbatim>\<open>null\<close> are never equal to one.\<close>

definition same_op :: "int option \<Rightarrow> int option \<Rightarrow> bool" where
  "same_op a b = (case a of Some x \<Rightarrow> b = Some x | None \<Rightarrow> False)"

definition first_char :: "jsstring option \<Rightarrow> jchar option" where
  "first_char o' = (case o' of Some (c # cs) \<Rightarrow> Some c | _ \<Rightarrow> None)"

function trim_done :: "int \<Rightarrow> hevent list \<Rightarrow> doc_exn + hevent list" where
  "trim_done depth evs =
     (if int (length evs) > depth then
        (case evs of
           [] \<Rightarrow> Inl TypeErr
         | [e] \<Rightarrow> Inl TypeErr
         | e # e' # evs' \<Rightarrow> trim_done depth (if is_sel e' then e' # evs' else evs'))
      else Inr evs)"
  by pat_completeness auto
termination
  by (relation "measure (\<lambda>(_, evs). length evs)") auto

declare trim_done.simps [simp del]

definition merges :: "'st env \<Rightarrow> history \<Rightarrow> jsstring option \<Rightarrow> bool" where
  "merges env h origin \<longleftrightarrow>
     same_op (h_lastOp h) (e_opId env) \<or>
     h_lastOrigin h = origin \<and> first_char origin \<noteq> None \<and>
       (first_char origin = Some (cc (CHR ''+'')) \<and> e_inEditor env \<and> h_lastModTime h > e_time env - e_delay env \<or>
        first_char origin = Some (cc (CHR ''*'')))"

text \<open>Merging a change into the last event: simple insertions extend the last change.\<close>

definition merge_change :: "('st, 'x) doc_scheme \<Rightarrow> change \<Rightarrow> hchange list \<Rightarrow> doc_exn + hchange list" where
  "merge_change d c chs =
     (if cmp (c_from c) (c_to c) = 0 then
        (case lst chs of
           None \<Rightarrow> Inl TypeErr
         | Some l \<Rightarrow>
             if cmp (c_from c) (hc_to l) = 0 then Inr (butlast chs @ [l\<lparr>hc_to := changeEnd (c_from c) (c_text c)\<rparr>])
             else Inr (chs @ [historyChangeFromChange d (c_from c) (c_to c) (c_text c)]))
      else Inr (chs @ [historyChangeFromChange d (c_from c) (c_to c) (c_text c)]))"

definition new_event :: "('st, 'x) hdoc_scheme \<Rightarrow> change \<Rightarrow> hevent list \<Rightarrow> doc_exn + hevent list" where
  "new_event d c evs =
     (let evs1 = (case lst evs of Some (HSel _) \<Rightarrow> evs | _ \<Rightarrow> pushSelectionToHistory (d_sel d) evs);
          evs2 = evs1 @ [HChange [historyChangeFromChange d (c_from c) (c_to c) (c_text c)] (Some (h_generation (d_hist d)))]
      in case h_undoDepth (d_hist d) of None \<Rightarrow> Inr evs2 | Some depth \<Rightarrow> trim_done depth evs2)"

definition addChangeToHistory :: "'st env \<Rightarrow> ('st, 'x) hdoc_scheme \<Rightarrow> change \<Rightarrow> selection \<Rightarrow> doc_exn + ('st, 'x) hdoc_scheme" where
  "addChangeToHistory env d c selAfter =
     (let h = d_hist d;
          (evs, cur) = (if merges env h (c_origin c) then lastChangeEvent (h_done h) (same_op (h_lastOp h) (e_opId env))
                        else (h_done h, None))
      in rbind (case cur of
                  Some (HChange chs g) \<Rightarrow> rbind (merge_change d c chs) (\<lambda>chs'. Inr (butlast evs @ [HChange chs' g]))
                | Some (HSel s) \<Rightarrow> Inl TypeErr
                | None \<Rightarrow> new_event d c evs)
           (\<lambda>evs'. Inr (d\<lparr>d_hist := h\<lparr>h_undone := [], h_done := evs' @ [HSel selAfter],
              h_maxGeneration := h_maxGeneration h + 1, h_generation := h_maxGeneration h + 1,
              h_lastModTime := e_time env, h_lastSelTime := e_time env, h_lastOp := e_opId env,
              h_lastOrigin := c_origin c, h_lastSelOrigin := c_origin c\<rparr>\<rparr>)))"

record sel_options =
  o_bias :: "int option"
  o_origin :: "jsstring option"
  o_clearRedo :: "bool option"

definition selectionEventCanBeMerged :: "'st env \<Rightarrow> history \<Rightarrow> jsstring option \<Rightarrow> selection \<Rightarrow> selection \<Rightarrow> bool" where
  "selectionEventCanBeMerged env h origin prev sel \<longleftrightarrow>
     first_char origin = Some (cc (CHR ''*'')) \<or>
     first_char origin = Some (cc (CHR ''+'')) \<and> length (ranges prev) = length (ranges sel) \<and>
       somethingSelected prev = somethingSelected sel \<and>
       e_time env - h_lastSelTime h \<le> (if e_inEditor env then e_delay env else 500)"

text \<open>\<open>prev\<close> is read for its ranges only when the origin starts with a plus sign, and raises on a change event.\<close>

definition canBeMerged_last :: "'st env \<Rightarrow> history \<Rightarrow> jsstring option \<Rightarrow> selection \<Rightarrow> doc_exn + bool" where
  "canBeMerged_last env h origin sel =
     (case lst (h_done h) of
        Some (HSel prev) \<Rightarrow> Inr (selectionEventCanBeMerged env h origin prev sel)
      | _ \<Rightarrow> if first_char origin = Some (cc (CHR ''*'')) then Inr True
             else if first_char origin = Some (cc (CHR ''+'')) then Inl TypeErr else Inr False)"

text \<open>\<^verbatim>\<open>done[done.length - 1] = sel\<close>; on an empty array this sets a property that is not an element.\<close>

definition set_last :: "hevent list \<Rightarrow> selection \<Rightarrow> hevent list" where
  "set_last evs sel = (if evs = [] then [] else butlast evs @ [HSel sel])"

definition addSelectionToHistory ::
  "'st env \<Rightarrow> ('st, 'x) hdoc_scheme \<Rightarrow> selection \<Rightarrow> sel_options option \<Rightarrow> doc_exn + ('st, 'x) hdoc_scheme" where
  "addSelectionToHistory env d sel options =
     (let h = d_hist d; origin = (case options of None \<Rightarrow> None | Some opt \<Rightarrow> o_origin opt)
      in rbind (if same_op (e_opId env) (h_lastOp h) then Inr True
                else if first_char origin \<noteq> None \<and> h_lastSelOrigin h = origin then
                  (if h_lastModTime h = h_lastSelTime h \<and> h_lastOrigin h = origin then Inr True
                   else canBeMerged_last env h origin sel)
                else Inr False)
           (\<lambda>merge. Inr (d\<lparr>d_hist := h\<lparr>
              h_done := (if merge then set_last (h_done h) sel else pushSelectionToHistory sel (h_done h)),
              h_lastSelTime := e_time env, h_lastSelOrigin := origin, h_lastOp := e_opId env,
              h_undone := (case options of None \<Rightarrow> h_undone h
                | Some opt \<Rightarrow> if o_clearRedo opt \<noteq> Some False then clearSelectionEvents (h_undone h) else h_undone h)\<rparr>\<rparr>)))"

subsection \<open>Setting the selection\<close>

text \<open>Clearing a marker of a document that is in no editor: its spans go from all lines.\<close>

definition marker_clear :: "('st, 'x) hdoc_scheme \<Rightarrow> nat \<Rightarrow> ('st, 'x) hdoc_scheme" where
  "marker_clear d m =
     (if mk_cleared (d_markers d m) then d
      else let ids = map l_id (filter (\<lambda>l. getMarkedSpanFor (l_spans l) m \<noteq> None) (collapse (d_root d)));
               remove = (\<lambda>l. l\<lparr>l_spans := removeMarkedSpan (l_spans l) (the (getMarkedSpanFor (l_spans l) m))\<rparr>);
               d' = foldl (\<lambda>d i. doc_update d i remove) d ids
           in d'\<lparr>d_markers := (d_markers d)(m := (d_markers d m)\<lparr>mk_cleared := True\<rparr>),
                 d_cantEdit := (if mk_atomic (d_markers d m) then False else d_cantEdit d)\<rparr>)"

text \<open>
  One step past the position \<open>cur\<close> in direction \<open>dir\<close>, on a line with \<open>len\<close> characters; \<open>None\<close> at the
  ends of the document.
\<close>

definition step_pos :: "('st, 'x) doc_scheme \<Rightarrow> pos \<Rightarrow> int \<Rightarrow> int \<Rightarrow> doc_exn + pos option" where
  "step_pos d cur dir len =
     (let ch = pch cur + dir
      in if ch < 0 then
           (if pline cur > d_first d then rbind (clipPos d (pline cur - 1) None) (\<lambda>p. Inr (Some p)) else Inr None)
         else if ch > len then
           (if pline cur < d_first d + d_size d - 1 then Inr (Some (Pos (pline cur + 1) 0)) else Inr None)
         else Inr (Some (Pos (pline cur) ch)))"

text \<open>
  \<open>skipAtomic\<close>: the loop over the spans of a line, at index \<open>sk_i\<close>, inside the search loop. One step gives
  the next state or the result: the document, the position, and whether it is the very object \<open>start\<close>
  that was passed in. The one handler of the event
  \<^verbatim>\<open>beforeCursorEnter\<close> is the one that \<open>markText\<close> installs for the option \<^verbatim>\<open>clearOnEnter\<close>.
\<close>

record skip_state =
  sk_mayClear :: bool
  sk_flipped :: bool
  sk_cur :: pos
  sk_same :: bool
  sk_dir :: int
  sk_i :: nat

definition skip_past ::
  "pos \<Rightarrow> int \<Rightarrow> 'st line \<Rightarrow> pos \<Rightarrow> ('st, 'x) hdoc_scheme \<Rightarrow> skip_state \<Rightarrow>
    doc_exn + (('st, 'x) hdoc_scheme \<times> skip_state) + ('st, 'x) hdoc_scheme \<times> pos \<times> bool" where
  "skip_past start bias l np d st =
     (if cmp np (sk_cur st) = 0 then
        rbind (step_pos d (sk_cur st) (sk_dir st) (int (length (l_text l)))) (\<lambda>res.
          case res of
            Some p \<Rightarrow> Inr (Inl (d, st\<lparr>sk_cur := p, sk_same := False, sk_i := 0\<rparr>))
          | None \<Rightarrow>
              if sk_flipped st then
                (if \<not> sk_mayClear st
                 then Inr (Inl (d\<lparr>d_cantEdit := False\<rparr>,
                        \<lparr>sk_mayClear = True, sk_flipped = False, sk_cur = start, sk_same = True, sk_dir = bias, sk_i = 0\<rparr>))
                 else Inr (Inr (d\<lparr>d_cantEdit := True\<rparr>, Pos (d_first d) 0, False)))
              else Inr (Inl (d, st\<lparr>sk_flipped := True, sk_cur := start, sk_same := True, sk_dir := - sk_dir st, sk_i := 0\<rparr>)))
      else Inr (Inl (d, st\<lparr>sk_cur := np, sk_same := False, sk_i := 0\<rparr>)))"

definition skip_step ::
  "pos \<Rightarrow> int \<Rightarrow> ('st, 'x) hdoc_scheme \<Rightarrow> skip_state \<Rightarrow>
    doc_exn + (('st, 'x) hdoc_scheme \<times> skip_state) + ('st, 'x) hdoc_scheme \<times> pos \<times> bool" where
  "skip_step start bias d st =
     rbind (getLine d (pline (sk_cur st))) (\<lambda>l.
       if sk_i st \<ge> length (l_spans l) then Inr (Inr (d, sk_cur st, sk_same st))
       else let sp = l_spans l ! sk_i st; mi = sp_marker sp; m = d_markers d mi
            in if \<not> (starts_before m sp (pch (sk_cur st)) \<and> ends_after m sp (pch (sk_cur st)))
               then Inr (Inl (d, st\<lparr>sk_i := sk_i st + 1\<rparr>))
               else let d1 = (if sk_mayClear st \<and> mk_clearOnEnter m then marker_clear d mi else d)
                    in if sk_mayClear st \<and> mk_cleared (d_markers d1 mi) then Inr (Inl (d1, st))
                       else if \<not> mk_atomic m then Inr (Inl (d1, st\<lparr>sk_i := sk_i st + 1\<rparr>))
                       else (case marker_find (d_markers d1) d1 mi (Some (if sk_dir st < 0 then -1 else 1)) of
                               FoundPos np \<Rightarrow> skip_past start bias l np d1 st
                             | _ \<Rightarrow> Inl TypeErr))"

partial_function (option) skip_loop ::
  "pos \<Rightarrow> int \<Rightarrow> ('st, 'x) hdoc_scheme \<Rightarrow> skip_state \<Rightarrow> (('st, 'x) hdoc_scheme \<times> pos \<times> bool) comp" where
  "skip_loop start bias d st =
     (case skip_step start bias d st of
        Inl e \<Rightarrow> Some (Inl e)
      | Inr (Inl (d', st')) \<Rightarrow> skip_loop start bias d' st'
      | Inr (Inr r) \<Rightarrow> Some (Inr r))"

declare skip_loop.simps [code]

definition skipAtomic :: "('st, 'x) hdoc_scheme \<Rightarrow> pos \<Rightarrow> int option \<Rightarrow> bool \<Rightarrow> (('st, 'x) hdoc_scheme \<times> pos \<times> bool) comp" where
  "skipAtomic d p bias mayClear =
     (let dir = (case bias of Some b \<Rightarrow> if b \<noteq> 0 then b else 1 | None \<Rightarrow> 1)
      in skip_loop p dir (d\<lparr>d_cantEdit := False\<rparr>)
           \<lparr>sk_mayClear = mayClear, sk_flipped = False, sk_cur = p, sk_same = True, sk_dir = dir, sk_i = 0\<rparr>)"

text \<open>\<open>out\<close> is the array of new ranges, absent while no range has changed.\<close>

fun skip_ranges ::
  "('st, 'x) hdoc_scheme \<Rightarrow> int option \<Rightarrow> bool \<Rightarrow> range list \<Rightarrow> range list \<Rightarrow> bool \<Rightarrow> (('st, 'x) hdoc_scheme \<times> range list \<times> bool) comp" where
  "skip_ranges d bias mayClear [] out changed = ret (d, out, changed)"
| "skip_ranges d bias mayClear (r # rs) out changed =
     pbind (skipAtomic d (anchor r) bias mayClear) (\<lambda>(d1, a, same_a).
     pbind (skipAtomic d1 (head r) bias mayClear) (\<lambda>(d2, h, same_h).
       skip_ranges d2 bias mayClear rs (out @ [Range a h]) (changed \<or> \<not> same_a \<or> \<not> same_h)))"

definition skipAtomicInSelection ::
  "('st, 'x) hdoc_scheme \<Rightarrow> selection \<Rightarrow> int option \<Rightarrow> bool \<Rightarrow> (('st, 'x) hdoc_scheme \<times> selection) comp" where
  "skipAtomicInSelection d sel bias mayClear =
     pbind (skip_ranges d bias mayClear (ranges sel) [] False) (\<lambda>(d1, out, changed).
       ret (d1, if changed then normalizeSelection out (nat (primIndex sel)) else sel))"

definition setSelectionInner :: "('st, 'x) hdoc_scheme \<Rightarrow> selection \<Rightarrow> ('st, 'x) hdoc_scheme" where
  "setSelectionInner d sel = (if sel_equals sel (d_sel d) then d else d\<lparr>d_sel := sel\<rparr>)"

fun clip_ranges :: "('st, 'x) doc_scheme \<Rightarrow> range list \<Rightarrow> doc_exn + range list" where
  "clip_ranges d [] = Inr []"
| "clip_ranges d (r # rs) =
     rbind (clipPos d (pline (anchor r)) (Some (pch (anchor r)))) (\<lambda>a.
     rbind (clipPos d (pline (head r)) (Some (pch (head r)))) (\<lambda>h.
     rbind (clip_ranges d rs) (\<lambda>out. Inr (Range a h # out))))"

text \<open>The handler's calls of \<^verbatim>\<open>update\<close>, each replacing the ranges; without a call the selection stays.\<close>

fun filter_updates :: "('st, 'x) doc_scheme \<Rightarrow> range list option \<Rightarrow> range list list \<Rightarrow> doc_exn + range list option" where
  "filter_updates d cur [] = Inr cur"
| "filter_updates d cur (rs # calls) = rbind (clip_ranges d rs) (\<lambda>out. filter_updates d (Some out) calls)"

definition filterSelectionChange :: "(selection \<Rightarrow> range list list) \<Rightarrow> ('st, 'x) doc_scheme \<Rightarrow> selection \<Rightarrow> doc_exn + selection" where
  "filterSelectionChange handler d sel =
     rbind (filter_updates d None (handler sel)) (\<lambda>res.
       Inr (case res of None \<Rightarrow> sel | Some rs \<Rightarrow> normalizeSelection rs (length rs - 1)))"

definition moved_bias :: "('st, 'x) hdoc_scheme \<Rightarrow> selection \<Rightarrow> doc_exn + int" where
  "moved_bias d sel =
     (case primary sel of
        None \<Rightarrow> Inl TypeErr
      | Some new \<Rightarrow> (case primary (d_sel d) of
                      None \<Rightarrow> Inl TypeErr
                    | Some old \<Rightarrow> Inr (if cmp (head new) (head old) < 0 then -1 else 1)))"

definition selection_bias :: "('st, 'x) hdoc_scheme \<Rightarrow> selection \<Rightarrow> sel_options option \<Rightarrow> doc_exn + int" where
  "selection_bias d sel options =
     (case options of
        Some opt \<Rightarrow> (case o_bias opt of Some b \<Rightarrow> if b \<noteq> 0 then Inr b else moved_bias d sel | None \<Rightarrow> moved_bias d sel)
      | None \<Rightarrow> moved_bias d sel)"

definition setSelectionNoUndo ::
  "'st env \<Rightarrow> ('st, 'x) hdoc_scheme \<Rightarrow> selection \<Rightarrow> sel_options option \<Rightarrow> ('st, 'x) hdoc_scheme comp" where
  "setSelectionNoUndo env d sel options =
     pbind (Some (case e_beforeSel env of None \<Rightarrow> Inr sel | Some handler \<Rightarrow> filterSelectionChange handler d sel)) (\<lambda>sel.
     pbind (Some (selection_bias d sel options)) (\<lambda>bias.
     pbind (skipAtomicInSelection d sel (Some bias) True) (\<lambda>(d1, sel'). ret (setSelectionInner d1 sel'))))"

definition setSelection ::
  "'st env \<Rightarrow> ('st, 'x) hdoc_scheme \<Rightarrow> selection \<Rightarrow> sel_options option \<Rightarrow> ('st, 'x) hdoc_scheme comp" where
  "setSelection env d sel options =
     pbind (setSelectionNoUndo env d sel options) (\<lambda>d1. Some (addSelectionToHistory env d1 (d_sel d1) options))"

definition setSelectionReplaceHistory ::
  "'st env \<Rightarrow> ('st, 'x) hdoc_scheme \<Rightarrow> selection \<Rightarrow> sel_options option \<Rightarrow> ('st, 'x) hdoc_scheme comp" where
  "setSelectionReplaceHistory env d sel options =
     (case lst (h_done (d_hist d)) of
        Some (HSel _) \<Rightarrow>
          setSelectionNoUndo env (d\<lparr>d_hist := (d_hist d)\<lparr>h_done := set_last (h_done (d_hist d)) sel\<rparr>\<rparr>) sel options
      | _ \<Rightarrow> setSelection env d sel options)"

definition setSimpleSelection ::
  "'st env \<Rightarrow> ('st, 'x) hdoc_scheme \<Rightarrow> pos \<Rightarrow> pos option \<Rightarrow> sel_options option \<Rightarrow> ('st, 'x) hdoc_scheme comp" where
  "setSimpleSelection env d a h options = setSelection env d (simpleSelection a h) options"

definition extendSelection ::
  "'st env \<Rightarrow> bool \<Rightarrow> ('st, 'x) hdoc_scheme \<Rightarrow> pos \<Rightarrow> pos option \<Rightarrow> sel_options option \<Rightarrow> ('st, 'x) hdoc_scheme comp" where
  "extendSelection env shift d h other options =
     (case primary (d_sel d) of
        None \<Rightarrow> Some (Inl TypeErr)
      | Some r \<Rightarrow> setSelection env d (Selection [extendRange (shift \<or> d_extend d) r h other] 0) options)"

definition extendSelections ::
  "'st env \<Rightarrow> bool \<Rightarrow> ('st, 'x) hdoc_scheme \<Rightarrow> pos list \<Rightarrow> sel_options option \<Rightarrow> ('st, 'x) hdoc_scheme comp" where
  "extendSelections env shift d heads options =
     setSelection env d
       (normalizeSelection (map (\<lambda>(r, h). extendRange (shift \<or> d_extend d) r h None) (zip (ranges (d_sel d)) heads))
          (nat (primIndex (d_sel d)))) options"

definition replaceOneSelection ::
  "'st env \<Rightarrow> ('st, 'x) hdoc_scheme \<Rightarrow> nat \<Rightarrow> range \<Rightarrow> sel_options option \<Rightarrow> ('st, 'x) hdoc_scheme comp" where
  "replaceOneSelection env d i r options =
     setSelection env d
       (normalizeSelection (if i < length (ranges (d_sel d)) then (ranges (d_sel d))[i := r] else ranges (d_sel d) @ [r])
          (nat (primIndex (d_sel d)))) options"

definition reCheckSelection :: "('st, 'x) hdoc_scheme \<Rightarrow> ('st, 'x) hdoc_scheme comp" where
  "reCheckSelection d =
     pbind (skipAtomicInSelection d (d_sel d) None False) (\<lambda>(d1, sel). ret (setSelectionInner d1 sel))"

end
