(* ===== verification/Changes.thy ===== *)
theory Changes
  imports History
begin

text \<open>
  Making, undoing and redoing changes, and the methods of \<open>Doc\<close> built on them
  (\<^verbatim>\<open>src/js/codemirror/codemirror.js\<close>, sections UPDATING, HISTORY and DOCUMENT DATA STRUCTURE), with
  the lemmas on positions and on single steps. What making, undoing and redoing changes do to the text and to
  the history is shown in \<open>UndoRedo\<close>.
\<close>

section \<open>Definitions\<close>

subsection \<open>Positions and selections after a change\<close>

definition adjustForChange :: "pos \<Rightarrow> change \<Rightarrow> pos" where
  "adjustForChange p c =
     (if cmp p (c_from c) < 0 then p
      else if cmp p (c_to c) \<le> 0 then changeEnd (c_from c) (c_text c)
      else Pos (pline p + int (length (c_text c)) - (pline (c_to c) - pline (c_from c)) - 1)
             (if pline p = pline (c_to c) then pch p + (pch (changeEnd (c_from c) (c_text c)) - pch (c_to c)) else pch p))"

definition computeSelAfterChange :: "('st, 'x) hdoc_scheme \<Rightarrow> change \<Rightarrow> selection" where
  "computeSelAfterChange d c =
     normalizeSelection (map (\<lambda>r. Range (adjustForChange (anchor r) c) (adjustForChange (head r) c)) (ranges (d_sel d)))
       (nat (primIndex (d_sel d)))"

definition offsetPos :: "pos \<Rightarrow> pos \<Rightarrow> pos \<Rightarrow> pos" where
  "offsetPos p old nw =
     (if pline p = pline old then Pos (pline nw) (pch p - pch old + pch nw)
      else Pos (pline nw + (pline p - pline old)) (pch p))"

fun replaced_loop :: "bool \<Rightarrow> pos \<Rightarrow> pos \<Rightarrow> change list \<Rightarrow> range list \<Rightarrow> range list" where
  "replaced_loop around oldPrev newPrev (c # cs) (r # rs) =
     (let f = offsetPos (c_from c) oldPrev newPrev; t = offsetPos (changeEnd (c_from c) (c_text c)) oldPrev newPrev;
          inv = (cmp (head r) (anchor r) < 0)
      in (if around then Range (if inv then t else f) (if inv then f else t) else Range f f) #
           replaced_loop around (c_to c) t cs rs)"
| "replaced_loop around oldPrev newPrev cs rs = []"

definition computeReplacedSel :: "('st, 'x) hdoc_scheme \<Rightarrow> change list \<Rightarrow> bool \<Rightarrow> selection" where
  "computeReplacedSel d cs around =
     Selection (replaced_loop around (Pos (d_first d) 0) (Pos (d_first d) 0) cs (ranges (d_sel d))) (primIndex (d_sel d))"

subsection \<open>Making a change\<close>

text \<open>What the handlers of \<^verbatim>\<open>beforeChange\<close> do to the change object; \<open>update\<close> exists only for new changes.\<close>

fun filter_actions :: "('st, 'x) doc_scheme \<Rightarrow> bool \<Rightarrow> change \<Rightarrow> bool \<Rightarrow> change_action list \<Rightarrow> doc_exn + change option" where
  "filter_actions d update c canceled [] = Inr (if canceled then None else Some c)"
| "filter_actions d update c canceled (Cancel # as) = filter_actions d update c True as"
| "filter_actions d update c canceled (Update f t txt origin # as) =
     (if \<not> update then Inl TypeErr
      else rbind (case f of None \<Rightarrow> Inr (c_from c) | Some p \<Rightarrow> clipPos d (pline p) (Some (pch p))) (\<lambda>f'.
           rbind (case t of None \<Rightarrow> Inr (c_to c) | Some p \<Rightarrow> clipPos d (pline p) (Some (pch p))) (\<lambda>t'.
             filter_actions d update
               (c\<lparr>c_from := f', c_to := t', c_text := (case txt of None \<Rightarrow> c_text c | Some x \<Rightarrow> x),
                  c_origin := (case origin of None \<Rightarrow> c_origin c | Some x \<Rightarrow> x)\<rparr>) canceled as)))"

definition filterChange :: "(change \<Rightarrow> change_action list) \<Rightarrow> ('st, 'x) doc_scheme \<Rightarrow> change \<Rightarrow> bool \<Rightarrow> doc_exn + change option" where
  "filterChange handler d c update = filter_actions d update c False (handler c)"

definition shiftDoc :: "('st, 'x) hdoc_scheme \<Rightarrow> int \<Rightarrow> ('st, 'x) hdoc_scheme" where
  "shiftDoc d distance =
     (if distance = 0 then d
      else d\<lparr>d_first := d_first d + distance,
             d_sel := Selection (map (\<lambda>r. Range (Pos (pline (anchor r) + distance) (pch (anchor r)))
                                               (Pos (pline (head r) + distance) (pch (head r)))) (ranges (d_sel d)))
                        (primIndex (d_sel d))\<rparr>)"

definition clip_top :: "('st, 'x) hdoc_scheme \<Rightarrow> change \<Rightarrow> ('st, 'x) hdoc_scheme \<times> change" where
  "clip_top d c =
     (if pline (c_from c) < d_first d then
        (let shift = int (length (c_text c)) - 1 - (d_first d - pline (c_from c)); d' = shiftDoc d shift
         in (d', c\<lparr>c_from := Pos (d_first d') 0, c_to := Pos (pline (c_to c) + shift) (pch (c_to c)), c_text := [last (c_text c)]\<rparr>))
      else (d, c))"

definition clip_bottom :: "('st, 'x) hdoc_scheme \<Rightarrow> change \<Rightarrow> doc_exn + change" where
  "clip_bottom d c =
     (if pline (c_to c) > lastLine d
      then rbind (getLine d (lastLine d)) (\<lambda>l.
             Inr (c\<lparr>c_to := Pos (lastLine d) (int (length (l_text l))), c_text := [hd (c_text c)]\<rparr>))
      else Inr c)"

definition makeChangeSingleDoc ::
  "'st env \<Rightarrow> ('st, 'x) hdoc_scheme \<Rightarrow> change \<Rightarrow> selection option \<Rightarrow> span list list option \<Rightarrow> ('st, 'x) hdoc_scheme comp" where
  "makeChangeSingleDoc env d c selAfter spans =
     (if pline (c_to c) < d_first d then
        ret (shiftDoc d (int (length (c_text c)) - 1 - (pline (c_to c) - pline (c_from c))))
      else if pline (c_from c) > lastLine d then ret d
      else let (d1, c1) = clip_top d c
           in pbind (Some (clip_bottom d1 c1)) (\<lambda>c2.
                let c3 = c2\<lparr>c_removed := getBetween d1 (c_from c2) (c_to c2)\<rparr>;
                    sel = (case selAfter of Some s \<Rightarrow> s | None \<Rightarrow> computeSelAfterChange d1 c3)
                in pbind (Some (updateDoc (e_height env) (e_wholeLine env) (spansFor spans) c3 d1)) (\<lambda>d2.
                     setSelectionNoUndo env d2 sel None)))"

definition makeChangeInner :: "'st env \<Rightarrow> ('st, 'x) hdoc_scheme \<Rightarrow> change \<Rightarrow> ('st, 'x) hdoc_scheme comp" where
  "makeChangeInner env d c =
     (if c_text c = [[]] \<and> cmp (c_from c) (c_to c) = 0 then ret d
      else let selAfter = computeSelAfterChange d c
           in pbind (Some (addChangeToHistory env d c selAfter)) (\<lambda>d1.
              pbind (Some (stretchSpansOverChange (d_markers d1) d1 c)) (\<lambda>spans.
                makeChangeSingleDoc env d1 c (Some selAfter) spans)))"

text \<open>The parts of a change that is split by read-only text, from the last to the first.\<close>

fun make_parts :: "'st env \<Rightarrow> ('st, 'x) hdoc_scheme \<Rightarrow> jsstring list \<Rightarrow> (pos \<times> pos) list \<Rightarrow> ('st, 'x) hdoc_scheme comp" where
  "make_parts env d txt [] = ret d"
| "make_parts env d txt (p # ps) =
     pbind (makeChangeInner env d
       \<lparr>c_from = fst p, c_to = snd p, c_text = (if ps \<noteq> [] then [[]] else txt), c_origin = None, c_removed = []\<rparr>)
       (\<lambda>d1. make_parts env d1 txt ps)"

definition makeChange :: "'st env \<Rightarrow> ('st, 'x) hdoc_scheme \<Rightarrow> change \<Rightarrow> bool \<Rightarrow> ('st, 'x) hdoc_scheme comp" where
  "makeChange env d c ignoreReadOnly =
     (if e_inEditor env \<and> e_suppressEdits env then ret d
      else pbind (Some (case e_beforeChange env of None \<Rightarrow> Inr (Some c) | Some handler \<Rightarrow> filterChange handler d c True)) (\<lambda>filtered.
        case filtered of
          None \<Rightarrow> ret d
        | Some c1 \<Rightarrow>
            pbind (Some (if e_sawReadOnly env \<and> \<not> ignoreReadOnly
                         then removeReadOnlyRanges (d_markers d) d (c_from c1) (c_to c1) else Inr None)) (\<lambda>split.
              case split of
                Some parts \<Rightarrow> make_parts env d (c_text c1) (rev parts)
              | None \<Rightarrow> makeChangeInner env d c1)))"

subsection \<open>Undo and redo\<close>

definition removeClearedSpans :: "(nat \<Rightarrow> marker) \<Rightarrow> span list \<Rightarrow> span list" where
  "removeClearedSpans M sps = filter (\<lambda>sp. \<not> mk_cleared (M (sp_marker sp))) sps"

definition getOldSpans :: "(nat \<Rightarrow> marker) \<Rightarrow> hchange \<Rightarrow> span list list option" where
  "getOldSpans M hc =
     (case hc_spans hc of
        None \<Rightarrow> None
      | Some found \<Rightarrow> Some (map (\<lambda>i. removeClearedSpans M (if i < length found then found ! i else [])) [0..<length (hc_text hc)]))"

definition change_of :: "jsstring \<Rightarrow> hchange \<Rightarrow> change" where
  "change_of origin hc = \<lparr>c_from = hc_from hc, c_to = hc_to hc, c_text = hc_text hc, c_origin = Some origin, c_removed = []\<rparr>"

text \<open>
  Reverting the changes of an event, from the last to the first. \<open>after\<close> is the selection the history has
  before the event; a change event in its place raises. The result has the changes for the opposite
  history and whether a handler canceled.
\<close>

fun revert_changes ::
  "'st env \<Rightarrow> jsstring \<Rightarrow> hevent option \<Rightarrow> hchange list \<Rightarrow> ('st, 'x) hdoc_scheme \<Rightarrow> hchange list \<Rightarrow>
    (('st, 'x) hdoc_scheme \<times> hchange list \<times> bool) comp" where
  "revert_changes env origin after [] d anti = ret (d, anti, False)"
| "revert_changes env origin after (hc # hcs) d anti =
     (let c = change_of origin hc
      in pbind (Some (case e_beforeChange env of None \<Rightarrow> Inr (Some c) | Some handler \<Rightarrow> filterChange handler d c False)) (\<lambda>filtered.
        case filtered of
          None \<Rightarrow> ret (d, anti, True)
        | Some _ \<Rightarrow>
            let anti' = anti @ [historyChangeFromChange d (c_from c) (c_to c) (c_text c)]
            in pbind (Some (stretchSpansOverChange (d_markers d) d c)) (\<lambda>stretched.
               pbind (Some (if hcs \<noteq> [] then Inr (Some (computeSelAfterChange d c))
                            else case after of None \<Rightarrow> Inr None | Some (HSel s) \<Rightarrow> Inr (Some s) | Some (HChange _ _) \<Rightarrow> Inl TypeErr)) (\<lambda>sel.
               pbind (makeChangeSingleDoc env d c sel (mergeOldSpans (getOldSpans (d_markers d) hc) stretched)) (\<lambda>d'.
                 revert_changes env origin after hcs d' anti')))))"

definition usable :: "bool \<Rightarrow> selection \<Rightarrow> hevent \<Rightarrow> bool" where
  "usable allowSelectionOnly cur e =
     (case e of HSel s \<Rightarrow> allowSelectionOnly \<and> \<not> sel_equals s cur | HChange _ _ \<Rightarrow> \<not> allowSelectionOnly)"

datatype popped = PopSel selection | PopChange "hchange list" "int option" selection

text \<open>Popping events: selections go to the other stack until one is used or a change event is found.\<close>

fun pop_events :: "bool \<Rightarrow> selection \<Rightarrow> hevent list \<Rightarrow> hevent list \<Rightarrow> selection \<Rightarrow> doc_exn + popped \<times> hevent list \<times> hevent list" where
  "pop_events allowSel cur [] dest selAfter = Inl TypeErr"
| "pop_events allowSel cur (HSel s # source) dest selAfter =
     (let dest' = pushSelectionToHistory s dest
      in if allowSel \<and> \<not> sel_equals s cur then Inr (PopSel s, source, dest') else pop_events allowSel cur source dest' s)"
| "pop_events allowSel cur (HChange chs g # source) dest selAfter = Inr (PopChange chs g selAfter, source, dest)"

definition set_stacks :: "bool \<Rightarrow> hevent list \<Rightarrow> hevent list \<Rightarrow> history \<Rightarrow> history" where
  "set_stacks undo source dest h =
     (if undo then h\<lparr>h_done := source, h_undone := dest\<rparr> else h\<lparr>h_undone := source, h_done := dest\<rparr>)"

definition makeChangeFromHistory :: "'st env \<Rightarrow> bool \<Rightarrow> bool \<Rightarrow> ('st, 'x) hdoc_scheme \<Rightarrow> ('st, 'x) hdoc_scheme comp" where
  "makeChangeFromHistory env undo allowSel d =
     (if e_inEditor env \<and> e_suppressEdits env then ret d
      else let h = d_hist d; source = (if undo then h_done h else h_undone h); dest = (if undo then h_undone h else h_done h)
           in if \<not> list_ex (usable allowSel (d_sel d)) source then ret d
              else let h1 = h\<lparr>h_lastOrigin := None, h_lastSelOrigin := None\<rparr>
                   in pbind (Some (pop_events allowSel (d_sel d) (rev source) dest (d_sel d))) (\<lambda>(popped, rsource, dest').
                        case popped of
                          PopSel s \<Rightarrow>
                            setSelection env (d\<lparr>d_hist := set_stacks undo (rev rsource) dest' h1\<rparr>) s
                              (Some \<lparr>o_bias = None, o_origin = None, o_clearRedo = Some False\<rparr>)
                        | PopChange chs g selAfter \<Rightarrow>
                            let dest2 = pushSelectionToHistory selAfter dest';
                                newgen = (case g of Some n \<Rightarrow> n \<noteq> 0 | None \<Rightarrow> False);
                                h2 = h1\<lparr>h_maxGeneration := (if newgen then h_maxGeneration h1 else h_maxGeneration h1 + 1),
                                       h_generation := (if newgen then the g else h_maxGeneration h1 + 1)\<rparr>;
                                d1 = d\<lparr>d_hist := h2\<rparr>
                            in pbind (revert_changes env (js (if undo then ''undo'' else ''redo'')) (lst (rev rsource)) (rev chs) d1 [])
                                 (\<lambda>(d2, anti, canceled).
                                    ret (d2\<lparr>d_hist := set_stacks undo (if canceled then [] else rev rsource)
                                           (dest2 @ [HChange anti (Some (h_generation h1))]) (d_hist d2)\<rparr>))))"

subsection \<open>Rebasing the history\<close>

text \<open>For changes that come from outside: events behind the change move, events it touches are dropped.\<close>

definition rebaseHistSelSingle :: "pos \<Rightarrow> int \<Rightarrow> int \<Rightarrow> int \<Rightarrow> pos" where
  "rebaseHistSelSingle p f t diff =
     (if t < pline p then Pos (pline p + diff) (pch p) else if f < pline p then Pos f 0 else p)"

fun rebase_changes :: "int \<Rightarrow> int \<Rightarrow> int \<Rightarrow> hchange list \<Rightarrow> hchange list option" where
  "rebase_changes f t diff [] = Some []"
| "rebase_changes f t diff (cur # cs) =
     (if t < pline (hc_from cur) then
        map_option ((#) (cur\<lparr>hc_from := Pos (pline (hc_from cur) + diff) (pch (hc_from cur)),
                             hc_to := Pos (pline (hc_to cur) + diff) (pch (hc_to cur))\<rparr>)) (rebase_changes f t diff cs)
      else if f \<le> pline (hc_to cur) then None
      else map_option ((#) cur) (rebase_changes f t diff cs))"

text \<open>
  The loop over the events. When an event is dropped with everything before it, the index is set to 0 and
  then increased, so the event behind it is passed over.
\<close>

fun rebase_loop :: "int \<Rightarrow> int \<Rightarrow> int \<Rightarrow> hevent list \<Rightarrow> hevent list \<Rightarrow> hevent list" where
  "rebase_loop f t diff pre [] = pre"
| "rebase_loop f t diff pre (HSel s # evs) =
     rebase_loop f t diff
       (pre @ [HSel (Selection (map (\<lambda>r. Range (rebaseHistSelSingle (anchor r) f t diff) (rebaseHistSelSingle (head r) f t diff))
          (ranges (deepCopy s))) (primIndex s))]) evs"
| "rebase_loop f t diff pre (HChange chs g # evs) =
     (case rebase_changes f t diff chs of
        Some chs' \<Rightarrow> rebase_loop f t diff (pre @ [HChange chs' g]) evs
      | None \<Rightarrow> (case evs of [] \<Rightarrow> [] | e # evs' \<Rightarrow> rebase_loop f t diff [e] evs'))"

definition rebaseHistArray :: "hevent list \<Rightarrow> int \<Rightarrow> int \<Rightarrow> int \<Rightarrow> hevent list" where
  "rebaseHistArray evs f t diff = rebase_loop f t diff [] evs"

definition rebaseHist :: "history \<Rightarrow> change \<Rightarrow> history" where
  "rebaseHist h c =
     (let f = pline (c_from c); t = pline (c_to c); diff = int (length (c_text c)) - (t - f) - 1
      in h\<lparr>h_done := rebaseHistArray (h_done h) f t diff, h_undone := rebaseHistArray (h_undone h) f t diff\<rparr>)"

definition copy_event :: "bool \<Rightarrow> hevent \<Rightarrow> hevent" where
  "copy_event instantiateSel e =
     (case e of
        HSel s \<Rightarrow> HSel (if instantiateSel then deepCopy s else s)
      | HChange chs g \<Rightarrow> HChange (map (\<lambda>c. c\<lparr>hc_spans := None\<rparr>) chs) None)"

definition copyHistoryArray :: "hevent list \<Rightarrow> bool \<Rightarrow> hevent list" where
  "copyHistoryArray evs instantiateSel = map (copy_event instantiateSel) evs"

subsection \<open>Methods of a document\<close>

definition Doc :: "'st env \<Rightarrow> jsstring list \<Rightarrow> int \<Rightarrow> 'st hdoc comp" where
  "Doc env txt firstLine =
     (let start = Pos firstLine 0; sel = simpleSelection start None
      in pbind (Some (docWithLines txt firstLine
             \<lparr>d_sel = sel, d_hist = History 0, d_cleanGeneration = 1, d_cantEdit = False, d_extend = False,
              d_markers = (\<lambda>_. TextMarker False)\<rparr>)) (\<lambda>d.
           setSelection env d sel (Some \<lparr>o_bias = None, o_origin = None, o_clearRedo = None\<rparr>)))"

definition setValue :: "'st env \<Rightarrow> bool \<Rightarrow> ('st, 'x) hdoc_scheme \<Rightarrow> jsstring \<Rightarrow> ('st, 'x) hdoc_scheme comp" where
  "setValue env broken_split d code =
     pbind (Some (getLine d (lastLine d))) (\<lambda>l.
     pbind (makeChange env d
              \<lparr>c_from = Pos (d_first d) 0, c_to = Pos (lastLine d) (int (length (l_text l))),
               c_text = splitLines broken_split code, c_origin = Some (js ''setValue''), c_removed = []\<rparr> True) (\<lambda>d1.
       setSelection env d1 (simpleSelection (Pos (d_first d) 0) None) None))"

definition replaceRange :: "'st env \<Rightarrow> ('st, 'x) hdoc_scheme \<Rightarrow> jsstring list \<Rightarrow> pos \<Rightarrow> pos option \<Rightarrow> jsstring option \<Rightarrow> ('st, 'x) hdoc_scheme comp" where
  "replaceRange env d code f t origin =
     (let t' = (case t of Some p \<Rightarrow> p | None \<Rightarrow> f);
          (f'', t'') = (if cmp t' f < 0 then (t', f) else (f, t'))
      in makeChange env d \<lparr>c_from = f'', c_to = t'', c_text = code, c_origin = origin, c_removed = []\<rparr> False)"

definition doc_replaceRange ::
  "'st env \<Rightarrow> bool \<Rightarrow> ('st, 'x) hdoc_scheme \<Rightarrow> jsstring \<Rightarrow> pos \<Rightarrow> pos option \<Rightarrow> jsstring option \<Rightarrow> ('st, 'x) hdoc_scheme comp" where
  "doc_replaceRange env broken_split d code f t origin =
     pbind (Some (clipPos d (pline f) (Some (pch f)))) (\<lambda>f'.
     pbind (Some (case t of None \<Rightarrow> Inr f' | Some p \<Rightarrow> clipPos d (pline p) (Some (pch p)))) (\<lambda>t'.
       replaceRange env d (splitLines broken_split code) f' (Some t') origin))"

definition undo :: "'st env \<Rightarrow> ('st, 'x) hdoc_scheme \<Rightarrow> ('st, 'x) hdoc_scheme comp" where
  "undo env d = makeChangeFromHistory env True False d"

definition redo :: "'st env \<Rightarrow> ('st, 'x) hdoc_scheme \<Rightarrow> ('st, 'x) hdoc_scheme comp" where
  "redo env d = makeChangeFromHistory env False False d"

definition undoSelection :: "'st env \<Rightarrow> ('st, 'x) hdoc_scheme \<Rightarrow> ('st, 'x) hdoc_scheme comp" where
  "undoSelection env d = makeChangeFromHistory env True True d"

definition redoSelection :: "'st env \<Rightarrow> ('st, 'x) hdoc_scheme \<Rightarrow> ('st, 'x) hdoc_scheme comp" where
  "redoSelection env d = makeChangeFromHistory env False True d"

definition setCursor :: "'st env \<Rightarrow> ('st, 'x) hdoc_scheme \<Rightarrow> pos \<Rightarrow> sel_options option \<Rightarrow> ('st, 'x) hdoc_scheme comp" where
  "setCursor env d p options =
     pbind (Some (clipPos d (pline p) (Some (pch p)))) (\<lambda>p'. setSimpleSelection env d p' None options)"

definition doc_setSelection ::
  "'st env \<Rightarrow> ('st, 'x) hdoc_scheme \<Rightarrow> pos \<Rightarrow> pos option \<Rightarrow> sel_options option \<Rightarrow> ('st, 'x) hdoc_scheme comp" where
  "doc_setSelection env d a h options =
     pbind (Some (clipPos d (pline a) (Some (pch a)))) (\<lambda>a'.
     pbind (Some (let h' = (case h of Some p \<Rightarrow> p | None \<Rightarrow> a) in clipPos d (pline h') (Some (pch h')))) (\<lambda>h'.
       setSimpleSelection env d a' (Some h') options))"

definition doc_extendSelection ::
  "'st env \<Rightarrow> bool \<Rightarrow> ('st, 'x) hdoc_scheme \<Rightarrow> pos \<Rightarrow> pos option \<Rightarrow> sel_options option \<Rightarrow> ('st, 'x) hdoc_scheme comp" where
  "doc_extendSelection env shift d h other options =
     pbind (Some (clipPos d (pline h) (Some (pch h)))) (\<lambda>h'.
     pbind (Some (case other of None \<Rightarrow> Inr None | Some p \<Rightarrow> rbind (clipPos d (pline p) (Some (pch p))) (\<lambda>q. Inr (Some q)))) (\<lambda>other'.
       extendSelection env shift d h' other' options))"

text \<open>The options end up in the call of \<open>clipPosArray\<close> and are lost.\<close>

definition doc_extendSelections ::
  "'st env \<Rightarrow> bool \<Rightarrow> ('st, 'x) hdoc_scheme \<Rightarrow> pos list \<Rightarrow> sel_options option \<Rightarrow> ('st, 'x) hdoc_scheme comp" where
  "doc_extendSelections env shift d heads options =
     pbind (Some (clipPosArray d heads)) (\<lambda>hs. extendSelections env shift d hs None)"

definition setSelections ::
  "'st env \<Rightarrow> ('st, 'x) hdoc_scheme \<Rightarrow> range list \<Rightarrow> nat option \<Rightarrow> sel_options option \<Rightarrow> ('st, 'x) hdoc_scheme comp" where
  "setSelections env d rs prim options =
     (if rs = [] then ret d
      else pbind (Some (clip_ranges d rs)) (\<lambda>out.
        let p = (case prim of Some i \<Rightarrow> i | None \<Rightarrow> nat (min (int (length rs) - 1) (primIndex (d_sel d))))
        in setSelection env d (normalizeSelection out p) options))"

definition addSelection ::
  "'st env \<Rightarrow> ('st, 'x) hdoc_scheme \<Rightarrow> pos \<Rightarrow> pos option \<Rightarrow> sel_options option \<Rightarrow> ('st, 'x) hdoc_scheme comp" where
  "addSelection env d a h options =
     pbind (Some (clipPos d (pline a) (Some (pch a)))) (\<lambda>a'.
     pbind (Some (let h' = (case h of Some p \<Rightarrow> p | None \<Rightarrow> a) in clipPos d (pline h') (Some (pch h')))) (\<lambda>h'.
       setSelection env d (normalizeSelection (ranges (d_sel d) @ [Range a' h']) (length (ranges (d_sel d)))) options))"

definition getSelections :: "('st, 'x) hdoc_scheme \<Rightarrow> jsstring \<Rightarrow> jsstring list" where
  "getSelections d lineSep = map (\<lambda>r. js_join lineSep (getBetween d (range_from r) (range_to r))) (ranges (d_sel d))"

definition getSelection :: "('st, 'x) hdoc_scheme \<Rightarrow> jsstring \<Rightarrow> jsstring" where
  "getSelection d lineSep =
     js_join lineSep (concat (map (\<lambda>r. getBetween d (range_from r) (range_to r)) (ranges (d_sel d))))"

datatype cursor_end = Head | Anchor | To | From

definition getCursor :: "('st, 'x) hdoc_scheme \<Rightarrow> cursor_end \<Rightarrow> pos option" where
  "getCursor d start =
     map_option (\<lambda>r. case start of Head \<Rightarrow> head r | Anchor \<Rightarrow> anchor r | To \<Rightarrow> range_to r | From \<Rightarrow> range_from r)
       (primary (d_sel d))"

fun make_changes :: "'st env \<Rightarrow> ('st, 'x) hdoc_scheme \<Rightarrow> change list \<Rightarrow> ('st, 'x) hdoc_scheme comp" where
  "make_changes env d [] = ret d"
| "make_changes env d (c # cs) = pbind (makeChange env d c False) (\<lambda>d1. make_changes env d1 cs)"

datatype collapse_hint = CollapseEnd | Around | Start

definition replaceSelections ::
  "'st env \<Rightarrow> bool \<Rightarrow> ('st, 'x) hdoc_scheme \<Rightarrow> jsstring list \<Rightarrow> collapse_hint \<Rightarrow> jsstring option \<Rightarrow> ('st, 'x) hdoc_scheme comp" where
  "replaceSelections env broken_split d code hint origin =
     (let changes = map (\<lambda>(r, t). \<lparr>c_from = range_from r, c_to = range_to r, c_text = splitLines broken_split t,
                                   c_origin = origin, c_removed = []\<rparr>) (zip (ranges (d_sel d)) code)
      in pbind (make_changes env d (rev changes)) (\<lambda>d1.
           if hint = CollapseEnd then ret d1
           else setSelectionReplaceHistory env d1 (computeReplacedSel d changes (hint = Around)) None))"

definition replaceSelection ::
  "'st env \<Rightarrow> bool \<Rightarrow> ('st, 'x) hdoc_scheme \<Rightarrow> jsstring \<Rightarrow> collapse_hint \<Rightarrow> jsstring option \<Rightarrow> ('st, 'x) hdoc_scheme comp" where
  "replaceSelection env broken_split d code hint origin =
     replaceSelections env broken_split d (replicate (length (ranges (d_sel d))) code) hint
       (Some (case origin of Some (c # cs) \<Rightarrow> c # cs | _ \<Rightarrow> js ''+input''))"

definition historySize :: "('st, 'x) hdoc_scheme \<Rightarrow> nat \<times> nat" where
  "historySize d =
     (length (filter (\<lambda>e. \<not> is_sel e) (h_done (d_hist d))), length (filter (\<lambda>e. \<not> is_sel e) (h_undone (d_hist d))))"

definition clearHistory :: "('st, 'x) hdoc_scheme \<Rightarrow> ('st, 'x) hdoc_scheme" where
  "clearHistory d = d\<lparr>d_hist := History (h_maxGeneration (d_hist d))\<rparr>"

definition changeGeneration :: "('st, 'x) hdoc_scheme \<Rightarrow> bool \<Rightarrow> ('st, 'x) hdoc_scheme \<times> int" where
  "changeGeneration d forceSplit =
     (let d' = (if forceSplit then d\<lparr>d_hist := (d_hist d)\<lparr>h_lastOp := None, h_lastOrigin := None\<rparr>\<rparr> else d)
      in (d', h_generation (d_hist d')))"

definition markClean :: "('st, 'x) hdoc_scheme \<Rightarrow> ('st, 'x) hdoc_scheme" where
  "markClean d = (let (d', g) = changeGeneration d True in d'\<lparr>d_cleanGeneration := g\<rparr>)"

definition isClean :: "('st, 'x) hdoc_scheme \<Rightarrow> int option \<Rightarrow> bool" where
  "isClean d gen =
     (h_generation (d_hist d) = (case gen of Some g \<Rightarrow> if g \<noteq> 0 then g else d_cleanGeneration d | None \<Rightarrow> d_cleanGeneration d))"

definition getHistory :: "('st, 'x) hdoc_scheme \<Rightarrow> hevent list \<times> hevent list" where
  "getHistory d = (copyHistoryArray (h_done (d_hist d)) False, copyHistoryArray (h_undone (d_hist d)) False)"

definition setHistory :: "('st, 'x) hdoc_scheme \<Rightarrow> hevent list \<times> hevent list \<Rightarrow> ('st, 'x) hdoc_scheme" where
  "setHistory d histData =
     d\<lparr>d_hist := (History (h_maxGeneration (d_hist d)))
        \<lparr>h_done := copyHistoryArray (fst histData) True, h_undone := copyHistoryArray (snd histData) True\<rparr>\<rparr>"

definition copy_doc :: "'st env \<Rightarrow> ('st, 'x) hdoc_scheme \<Rightarrow> bool \<Rightarrow> 'st hdoc comp" where
  "copy_doc env d copyHistory =
     pbind (Doc env (getLines d (d_first d) (d_first d + d_size d)) (d_first d)) (\<lambda>d1.
       let d2 = d1\<lparr>d_sel := d_sel d, d_extend := False\<rparr>
       in ret (if copyHistory
               then setHistory (d2\<lparr>d_hist := (d_hist d2)\<lparr>h_undoDepth := h_undoDepth (d_hist d)\<rparr>\<rparr>) (getHistory d)
               else d2))"

definition findMarksAt :: "('st, 'x) doc_scheme \<Rightarrow> pos \<Rightarrow> doc_exn + nat list" where
  "findMarksAt d p =
     rbind (clipPos d (pline p) (Some (pch p))) (\<lambda>p'.
     rbind (getLine d (pline p')) (\<lambda>l.
       Inr (map sp_marker (filter (\<lambda>sp.
         (case sp_from sp of None \<Rightarrow> True | Some f \<Rightarrow> f \<le> pch p') \<and> (case sp_to sp of None \<Rightarrow> True | Some t \<Rightarrow> t \<ge> pch p')) (l_spans l)))))"

text \<open>Comparisons with an absent end are comparisons with 0: \<^verbatim>\<open>null\<close> is converted to a number.\<close>

definition findMarks :: "('st, 'x) doc_scheme \<Rightarrow> pos \<Rightarrow> pos \<Rightarrow> (nat \<Rightarrow> bool) \<Rightarrow> doc_exn + nat list" where
  "findMarks d f t want =
     rbind (clipPos d (pline f) (Some (pch f))) (\<lambda>f'.
     rbind (clipPos d (pline t) (Some (pch t))) (\<lambda>t'.
       Inr (snd (doc_iter d (pline f') (pline t' + 1)
         (\<lambda>l (n, out). (False, n + 1, out @ map sp_marker (filter (\<lambda>sp.
            \<not> (n = pline f' \<and> pch f' > (case sp_to sp of Some x \<Rightarrow> x | None \<Rightarrow> 0) \<or>
               sp_from sp = None \<and> n \<noteq> pline f' \<or>
               n = pline t' \<and> (case sp_from sp of Some x \<Rightarrow> x | None \<Rightarrow> 0) > pch t') \<and>
            want (sp_marker sp)) (l_spans l)))) (pline f', [])))))"

definition getAllMarks :: "('st, 'x) doc_scheme \<Rightarrow> nat list" where
  "getAllMarks d =
     doc_iter_all d (\<lambda>l out. (False, out @ map sp_marker (filter (\<lambda>sp. sp_from sp \<noteq> None) (l_spans l)))) []"

end
