(* ===== verification/UndoRedo.thy ===== *)
theory UndoRedo
  imports Changes
begin

text \<open>
  Undo and redo restore the text. The history is consistent with a text when its change events, taken from
  the last one back, are valid changes of that text and of the texts they lead to, and its selections
  are selections of the text they stand at. Making a change, undoing and redoing keep this invariant;
  what a change event on top of the history leads to is the text before the event.
\<close>

section \<open>Changes of texts\<close>

text \<open>A text is a list of lines and the number \<open>n\<close> of its first line.\<close>

definition tpos_ok :: "int \<Rightarrow> jsstring list \<Rightarrow> pos \<Rightarrow> bool" where
  "tpos_ok n T p \<longleftrightarrow>
     n \<le> pline p \<and> pline p < n + int (length T) \<and> 0 \<le> pch p \<and> pch p \<le> int (length (T ! nat (pline p - n)))"

definition trepl :: "int \<Rightarrow> jsstring list \<Rightarrow> pos \<Rightarrow> pos \<Rightarrow> jsstring list \<Rightarrow> jsstring list" where
  "trepl n T f t txt = replace_text T (nat (pline f - n)) (nat (pch f)) (nat (pline t - n)) (nat (pch t)) txt"

definition tbetween :: "int \<Rightarrow> jsstring list \<Rightarrow> pos \<Rightarrow> pos \<Rightarrow> jsstring list" where
  "tbetween n T f t = text_between T (nat (pline f - n)) (nat (pch f)) (nat (pline t - n)) (nat (pch t))"

definition tvalid :: "int \<Rightarrow> jsstring list \<Rightarrow> pos \<Rightarrow> pos \<Rightarrow> jsstring list \<Rightarrow> bool" where
  "tvalid n T f t txt \<longleftrightarrow> tpos_ok n T f \<and> tpos_ok n T t \<and> f \<le> t \<and> txt \<noteq> []"

lemma tpos_okE:
  assumes "tpos_ok n T p"
  obtains k c where "p = Pos (n + int k) (int c)" "k < length T" "c \<le> length (T ! k)"
  using assms by (intro that [of "nat (pline p - n)" "nat (pch p)"]) (auto simp: tpos_ok_def intro: pos.expand)

lemma tpos_ok_Pos [simp]: "tpos_ok n T (Pos (n + int k) (int c)) \<longleftrightarrow> k < length T \<and> c \<le> length (T ! k)"
  by (auto simp: tpos_ok_def)

lemma Pos_le_iff: "Pos (n + int k) (int c) \<le> Pos (n + int k') (int c') \<longleftrightarrow> k < k' \<or> k = k' \<and> c \<le> c'"
  by (auto simp: less_eq_pos_def)

lemma Pos_less_iff: "Pos (n + int k) (int c) < Pos (n + int k') (int c') \<longleftrightarrow> k < k' \<or> k = k' \<and> c < c'"
  by (auto simp: less_pos_def)

lemma valid_pos_text: "valid_pos d p \<longleftrightarrow> tpos_ok (d_first d) (doc_text d) p"
  by (auto simp: valid_pos_def tpos_ok_def doc_text_def)

text \<open>A valid change, by the indices of its ends.\<close>

lemma tvalidE:
  assumes "tvalid n T f t txt"
  obtains F fc E ec where "f = Pos (n + int F) (int fc)" "t = Pos (n + int E) (int ec)" "F \<le> E" "E < length T"
    "fc \<le> length (T ! F)" "ec \<le> length (T ! E)" "F = E \<longrightarrow> fc \<le> ec" "txt \<noteq> []"
    "trepl n T f t txt = replace_text T F fc E ec txt" "tbetween n T f t = text_between T F fc E ec"
proof -
  obtain F fc where f: "f = Pos (n + int F) (int fc)" "F < length T" "fc \<le> length (T ! F)"
    using assms by (auto simp: tvalid_def elim: tpos_okE)
  obtain E ec where t: "t = Pos (n + int E) (int ec)" "E < length T" "ec \<le> length (T ! E)"
    using assms by (auto simp: tvalid_def elim: tpos_okE)
  have "f \<le> t" "txt \<noteq> []" using assms by (simp_all add: tvalid_def)
  with f t show ?thesis by (intro that [of F fc E ec]) (auto simp: Pos_le_iff trepl_def tbetween_def)
qed

lemma changeEnd_Pos:
  "txt \<noteq> [] \<Longrightarrow> changeEnd (Pos (n + int F) (int fc)) txt = Pos (n + int (end_line F txt)) (int (end_ch fc txt))"
  by (cases "txt") (auto simp: changeEnd_def end_line_def end_ch_def)

lemma replace_text_parts:
  assumes "F \<le> E" and "E < length T" and "fc \<le> length (T ! F)" and "txt \<noteq> []" and "T' = replace_text T F fc E ec txt"
  shows "take F T' = take F T" "take fc (T' ! F) = take fc (T ! F)"
    "drop (end_ch fc txt) (T' ! end_line F txt) = drop ec (T ! E)" "drop (Suc (end_line F txt)) T' = drop (Suc E) T"
    "text_between T' F fc (end_line F txt) (end_ch fc txt) = txt" "end_line F txt < length T'" "F \<le> end_line F txt"
    "fc \<le> length (T' ! F)" "end_ch fc txt \<le> length (T' ! end_line F txt)" "end_line F txt = F \<Longrightarrow> fc \<le> end_ch fc txt"
    "F < length T'"
proof -
  have l: "length (take F T) = F" "length (take fc (T ! F)) = fc" using assms(1-3) by simp_all
  have "T' = take F T @ join_ends (take fc (T ! F)) txt (drop ec (T ! E)) @ drop (Suc E) T"
    using assms(5) by (simp add: replace_text_def)
  note P = replaced_parts [OF assms(4) l this]
  show "take F T' = take F T" "take fc (T' ! F) = take fc (T ! F)"
    "drop (end_ch fc txt) (T' ! end_line F txt) = drop ec (T ! E)" "drop (Suc (end_line F txt)) T' = drop (Suc E) T"
    "text_between T' F fc (end_line F txt) (end_ch fc txt) = txt" "end_line F txt < length T'" "F \<le> end_line F txt"
    "fc \<le> length (T' ! F)" "end_ch fc txt \<le> length (T' ! end_line F txt)" "end_line F txt = F \<Longrightarrow> fc \<le> end_ch fc txt"
    using P by blast+
  then show "F < length T'" by simp
qed

text \<open>The end of a change is a position of the new text, and the change is undone by its inverse.\<close>

lemma change_inverse:
  assumes "tvalid n T f t txt"
  shows "tvalid n (trepl n T f t txt) f (changeEnd f txt) (tbetween n T f t)"
    and "trepl n (trepl n T f t txt) f (changeEnd f txt) (tbetween n T f t) = T"
    and "tbetween n (trepl n T f t txt) f (changeEnd f txt) = txt"
proof -
  obtain F fc E ec where c: "f = Pos (n + int F) (int fc)" "t = Pos (n + int E) (int ec)" "F \<le> E" "E < length T"
    "fc \<le> length (T ! F)" "ec \<le> length (T ! E)" "F = E \<longrightarrow> fc \<le> ec" "txt \<noteq> []"
    "trepl n T f t txt = replace_text T F fc E ec txt" "tbetween n T f t = text_between T F fc E ec"
    by (rule tvalidE [OF assms])
  note P = replace_text_parts [OF c(3-5) c(8,9)]
  have e: "changeEnd f txt = Pos (n + int (end_line F txt)) (int (end_ch fc txt))" using changeEnd_Pos [OF c(8)] c(1) by simp
  show "tvalid n (trepl n T f t txt) f (changeEnd f txt) (tbetween n T f t)"
    unfolding tvalid_def e c(10) using P(6-11) by (auto simp: Pos_le_iff c(1))
  show "trepl n (trepl n T f t txt) f (changeEnd f txt) (tbetween n T f t) = T"
    unfolding e c(9,10) unfolding c(1) trepl_def using replace_inverse [OF c(3-5) c(7) [rule_format] c(6,8)] by simp
  show "tbetween n (trepl n T f t txt) f (changeEnd f txt) = txt"
    unfolding e tbetween_def using P(5) by (simp add: c(1))
qed

text \<open>Inserting at the end of an inverted change and extending it is the same as inverting it.\<close>

lemma trepl_nothing: "tvalid n T f f txt \<Longrightarrow> trepl n T f f [[]] = T"
proof -
  assume "tvalid n T f f txt"
  then obtain F fc where "f = Pos (n + int F) (int fc)" "F < length T" unfolding tvalid_def by (auto elim: tpos_okE)
  then show ?thesis by (simp add: trepl_def replace_text_def id_take_nth_drop [symmetric])
qed

lemma merge_insertion:
  assumes "tvalid n T f t u" and "txt \<noteq> []"
  shows "tvalid n (trepl n T t t txt) f (changeEnd t txt) u \<and> trepl n (trepl n T t t txt) f (changeEnd t txt) u = trepl n T f t u"
proof -
  obtain F fc E ec where c: "f = Pos (n + int F) (int fc)" "t = Pos (n + int E) (int ec)" "F \<le> E" "E < length T"
    "fc \<le> length (T ! F)" "ec \<le> length (T ! E)" "F = E \<longrightarrow> fc \<le> ec" "u \<noteq> []"
    "trepl n T f t u = replace_text T F fc E ec u" "tbetween n T f t = text_between T F fc E ec"
    by (rule tvalidE [OF assms(1)])
  define T' where "T' = replace_text T E ec E ec txt"
  have T': "trepl n T t t txt = T'" unfolding trepl_def c(2) T'_def by simp
  have e: "changeEnd t txt = Pos (n + int (end_line E txt)) (int (end_ch ec txt))" using changeEnd_Pos [OF assms(2)] c(2) by simp
  note P = replace_text_parts [OF order_refl c(4,6) assms(2) T'_def]
  have take: "take F T' = take F T" using P(1) c(3) by (metis min_absorb1 take_take)
  have line: "take fc (T' ! F) = take fc (T ! F)" "fc \<le> length (T' ! F)"
  proof -
    have "take fc (T' ! F) = take fc (T ! F) \<and> fc \<le> length (T' ! F)"
    proof (cases "F = E")
      case True
      then have "fc \<le> ec" using c(7) by simp
      then have "take fc x = take fc (take ec x)" for x :: jsstring by (simp add: min_absorb1)
      with True \<open>fc \<le> ec\<close> P(2,8) show ?thesis by (metis order_trans)
    next
      case False
      with c(3) have "T' ! F = T ! F" using P(1) by (metis le_neq_implies_less nth_take)
      with c(5) show ?thesis by simp
    qed
    then show "take fc (T' ! F) = take fc (T ! F)" "fc \<le> length (T' ! F)" by simp_all
  qed
  have "end_line E txt = F \<Longrightarrow> fc \<le> end_ch ec txt" using c(3,7) P(7,10) by fastforce
  moreover have "F \<le> end_line E txt" using c(3) P(7) by simp
  ultimately have "tvalid n T' f (changeEnd t txt) u"
    unfolding tvalid_def e c(1) using P(6,9) line(2) c(8) by (auto simp: Pos_le_iff)
  moreover have "trepl n T' f (changeEnd t txt) u = trepl n T f t u"
    unfolding c(9) unfolding e trepl_def c(1) using take line(1) P(3,4) by (simp add: replace_text_def)
  ultimately show ?thesis unfolding T' by blast
qed

text \<open>Positions of a text become positions of the new text.\<close>

lemma adjustForChange_ok:
  assumes "tvalid n T (c_from c) (c_to c) (c_text c)" and "tpos_ok n T p"
  shows "tpos_ok n (trepl n T (c_from c) (c_to c) (c_text c)) (adjustForChange p c)"
proof -
  let ?txt = "c_text c" and ?T' = "trepl n T (c_from c) (c_to c) (c_text c)"
  obtain F fc E ec where c: "c_from c = Pos (n + int F) (int fc)" "c_to c = Pos (n + int E) (int ec)" "F \<le> E" "E < length T"
    "fc \<le> length (T ! F)" "ec \<le> length (T ! E)" "F = E \<longrightarrow> fc \<le> ec" "?txt \<noteq> []"
    "?T' = replace_text T F fc E ec ?txt" "tbetween n T (c_from c) (c_to c) = text_between T F fc E ec"
    by (rule tvalidE [OF assms(1)])
  note P = replace_text_parts [OF c(3-5) c(8,9)]
  obtain k j where p: "p = Pos (n + int k) (int j)" "k < length T" "j \<le> length (T ! k)" by (rule tpos_okE [OF assms(2)])
  have e: "changeEnd (c_from c) ?txt = Pos (n + int (end_line F ?txt)) (int (end_ch fc ?txt))"
    using changeEnd_Pos [OF c(8)] c(1) by simp
  consider "p < c_from c" | "\<not> p < c_from c" "p \<le> c_to c" | "\<not> p < c_from c" "\<not> p \<le> c_to c" by blast
  then show ?thesis
  proof cases
    case 1
    then have "k < F \<or> k = F \<and> j < fc" by (simp add: p(1) c(1) Pos_less_iff)
    moreover have "?T' ! k = T ! k" if "k < F" using P(1) that by (metis nth_take)
    ultimately have "k < length ?T' \<and> j \<le> length (?T' ! k)" using P(8,11) p(3) by auto
    with 1 show ?thesis by (simp add: adjustForChange_def p(1))
  next
    case 2
    with P(6,9) show ?thesis by (simp add: adjustForChange_def e)
  next
    case 3
    then have kj: "E < k \<or> k = E \<and> ec < j" by (auto simp: p(1) c(2) Pos_le_iff)
    define k' where "k' = k + end_line F ?txt - E"
    have lines: "drop (Suc (end_line F ?txt)) ?T' = drop (Suc E) T" by (rule P(4))
    have line': "pline p + int (length ?txt) - (pline (c_to c) - pline (c_from c)) - 1 = n + int k'"
      using kj c(3,8) by (cases ?txt) (auto simp: k'_def p(1) c(1,2) end_line_def)
    show ?thesis
    proof (cases "k = E")
      case True
      have "length (T ! E) - ec = length (?T' ! end_line F ?txt) - end_ch fc ?txt"
        using arg_cong [OF P(3), of length] by simp
      then have "j + end_ch fc ?txt - ec \<le> length (?T' ! end_line F ?txt)" using p(3) [unfolded True] P(9) c(6) by linarith
      moreover have "k' = end_line F ?txt" using True by (simp add: k'_def)
      ultimately have ok: "tpos_ok n ?T' (Pos (n + int k') (int (j + end_ch fc ?txt - ec)))"
        unfolding tpos_ok_Pos using P(6) by simp
      have "int j + (int (end_ch fc ?txt) - int ec) = int (j + end_ch fc ?txt - ec)" using kj True by simp
      note ok = ok [folded this]
      with ok 3 True show ?thesis by (simp add: adjustForChange_def line' e) (simp add: p(1) c(2))
    next
      case False
      then have "E < k" using kj by simp
      then have "Suc (k + end_line F ?txt - Suc E) = k + end_line F ?txt - E" by simp
      with \<open>E < k\<close> have "?T' ! k' = T ! k" "k' < length ?T'"
        using arg_cong [OF lines, of "\<lambda>x. x ! (k - Suc E)"] arg_cong [OF lines, of length] p(2) c(4) P(6)
        by (auto simp: k'_def algebra_simps)
      with p(3) 3 \<open>E < k\<close> show ?thesis by (simp add: adjustForChange_def line') (simp add: p(1) c(2))
    qed
  qed
qed

section \<open>Selections\<close>

definition sel_ok :: "int \<Rightarrow> jsstring list \<Rightarrow> selection \<Rightarrow> bool" where
  "sel_ok n T sel \<longleftrightarrow>
     (\<forall>r \<in> set (ranges sel). tpos_ok n T (anchor r) \<and> tpos_ok n T (head r)) \<and>
     0 \<le> primIndex sel \<and> primIndex sel < int (length (ranges sel))"

lemma normalize_sel_ok:
  "prim < length rs \<Longrightarrow> \<forall>r \<in> set rs. tpos_ok n T (anchor r) \<and> tpos_ok n T (head r) \<Longrightarrow> sel_ok n T (normalizeSelection rs prim)"
  using normalizeSelection_prim [of prim rs] normalizeSelection_positions [of rs "tpos_ok n T" prim] by (simp add: sel_ok_def)

lemma computeSelAfterChange_ok:
  assumes "tvalid n T (c_from c) (c_to c) (c_text c)" and "sel_ok n T (d_sel d)"
  shows "sel_ok n (trepl n T (c_from c) (c_to c) (c_text c)) (computeSelAfterChange d c)"
  unfolding computeSelAfterChange_def
proof (rule normalize_sel_ok)
  show "nat (primIndex (d_sel d)) < length (map (\<lambda>r. Range (adjustForChange (anchor r) c) (adjustForChange (head r) c)) (ranges (d_sel d)))"
    using assms(2) by (auto simp: sel_ok_def)
  show "\<forall>r \<in> set (map (\<lambda>r. Range (adjustForChange (anchor r) c) (adjustForChange (head r) c)) (ranges (d_sel d))).
      tpos_ok n (trepl n T (c_from c) (c_to c) (c_text c)) (anchor r) \<and> tpos_ok n (trepl n T (c_from c) (c_to c) (c_text c)) (head r)"
    using assms adjustForChange_ok [OF assms(1)] by (auto simp: sel_ok_def)
qed

lemma sel_ok_primary: "sel_ok n T sel \<Longrightarrow> \<exists>r. primary sel = Some r"
  by (auto simp: sel_ok_def primary_def js_at_def)

section \<open>Documents without atomic ranges\<close>

text \<open>
  The results are about documents in which no marker stops the cursor, in an environment without event
  handlers and without read-only text. What the model does then reduces to plain updates.
\<close>

definition calm :: "('st, 'x) hdoc_scheme \<Rightarrow> bool" where
  "calm d \<longleftrightarrow> (\<forall>m. \<not> mk_atomic (d_markers d m) \<and> \<not> mk_clearOnEnter (d_markers d m) \<and> \<not> mk_cleared (d_markers d m))"

definition plain_env :: "'st env \<Rightarrow> bool" where
  "plain_env env \<longleftrightarrow>
     \<not> e_suppressEdits env \<and> e_beforeChange env = None \<and> e_beforeSel env = None \<and> \<not> e_sawReadOnly env"

lemma hdoc_updates [simp]:
  "doc_lines (d\<lparr>d_hist := h\<rparr>) = doc_lines d" "doc_lines (d\<lparr>d_sel := s\<rparr>) = doc_lines d" "doc_lines (d\<lparr>d_cantEdit := b\<rparr>) = doc_lines d"
  "doc_text (d\<lparr>d_hist := h\<rparr>) = doc_text d" "doc_text (d\<lparr>d_sel := s\<rparr>) = doc_text d" "doc_text (d\<lparr>d_cantEdit := b\<rparr>) = doc_text d"
  "doc_ok (d\<lparr>d_hist := h\<rparr>) = doc_ok d" "doc_ok (d\<lparr>d_sel := s\<rparr>) = doc_ok d" "doc_ok (d\<lparr>d_cantEdit := b\<rparr>) = doc_ok d"
  "calm (d\<lparr>d_hist := h\<rparr>) = calm d" "calm (d\<lparr>d_sel := s\<rparr>) = calm d" "calm (d\<lparr>d_cantEdit := b\<rparr>) = calm d"
  by (simp_all add: doc_lines_def doc_text_def doc_ok_def calm_def)

lemma getLine_text_pos:
  assumes "doc_ok d" and "tpos_ok (d_first d) (doc_text d) p"
  shows "\<exists>l. getLine d (pline p) = Inr l"
proof -
  obtain k c where "p = Pos (d_first d + int k) (int c)" "k < length (doc_text d)" by (rule tpos_okE [OF assms(2)])
  then show ?thesis using getLine_ok [OF assms(1), of k] by simp
qed

lemma skip_loop_calm:
  assumes "doc_ok d" and "calm d"
  shows "tpos_ok (d_first d) (doc_text d) (sk_cur st) \<Longrightarrow> skip_loop start bias d st = Some (Inr (d, sk_cur st, sk_same st))"
proof -
  assume p: "tpos_ok (d_first d) (doc_text d) (sk_cur st)"
  obtain l where l: "getLine d (pline (sk_cur st)) = Inr l" using getLine_text_pos [OF assms(1) p] by blast
  have "sk_cur st' = sk_cur st \<Longrightarrow> sk_same st' = sk_same st \<Longrightarrow> skip_loop start bias d st' = Some (Inr (d, sk_cur st, sk_same st))" for st'
  proof (induction "length (l_spans l) - sk_i st'" arbitrary: st')
    case 0
    then show ?case using l by (subst skip_loop.simps) (simp add: skip_step_def)
  next
    case (Suc n)
    from Suc(2) have "\<not> length (l_spans l) \<le> sk_i st'" by simp
    then have "skip_step start bias d st' = Inr (Inl (d, st'\<lparr>sk_i := sk_i st' + 1\<rparr>))"
      using Suc(3,4) l assms(2) \<open>\<not> length (l_spans l) \<le> sk_i st'\<close> by (simp add: skip_step_def calm_def Let_def)
    moreover have "n = length (l_spans l) - sk_i (st'\<lparr>sk_i := sk_i st' + 1\<rparr>)" using Suc(2) by simp
    ultimately show ?case using Suc(1) [of "st'\<lparr>sk_i := sk_i st' + 1\<rparr>"] Suc(3,4) by (subst skip_loop.simps) simp
  qed
  then show ?thesis by simp
qed

lemma skipAtomic_calm:
  assumes "doc_ok d" and "calm d" and "tpos_ok (d_first d) (doc_text d) p"
  shows "skipAtomic d p b mayClear = Some (Inr (d\<lparr>d_cantEdit := False\<rparr>, p, True))"
  unfolding skipAtomic_def Let_def by (subst skip_loop_calm) (use assms in simp_all)

lemma skip_ranges_calm:
  "doc_ok d \<Longrightarrow> calm d \<Longrightarrow> \<forall>r \<in> set rs. tpos_ok (d_first d) (doc_text d) (anchor r) \<and> tpos_ok (d_first d) (doc_text d) (head r) \<Longrightarrow>
    skip_ranges d b mayClear rs out changed =
      Some (Inr (if rs = [] then d else d\<lparr>d_cantEdit := False\<rparr>, out @ rs, changed))"
proof (induction rs arbitrary: d out)
  case Nil
  then show ?case by (simp add: ret_def)
next
  case (Cons r rs)
  have "skip_ranges (d\<lparr>d_cantEdit := False\<rparr>) b mayClear rs (out @ [r]) changed = Some (Inr (d\<lparr>d_cantEdit := False\<rparr>, out @ r # rs, changed))"
    using Cons(1) [of "d\<lparr>d_cantEdit := False\<rparr>" "out @ [r]"] Cons(2-4) by (cases rs) simp_all
  with Cons(2-4) show ?case by (simp add: skipAtomic_calm)
qed

lemma setSelectionNoUndo_calm:
  assumes "doc_ok d" and "calm d" and "plain_env env" and "sel_ok (d_first d) (doc_text d) sel" and "sel_ok n T (d_sel d)"
  shows "setSelectionNoUndo env d sel options = Some (Inr (d\<lparr>d_cantEdit := False, d_sel := sel\<rparr>))"
proof -
  obtain r r' where "primary sel = Some r" "primary (d_sel d) = Some r'" using sel_ok_primary assms(4,5) by blast
  then have "\<exists>b. selection_bias d sel options = Inr b"
    by (auto simp: moved_bias_def selection_bias_def split: option.split)
  then obtain b where "selection_bias d sel options = Inr b" by blast
  moreover have "ranges sel \<noteq> []" using assms(4) by (auto simp: sel_ok_def)
  ultimately show ?thesis
    using assms(3,4) skip_ranges_calm [OF assms(1,2), of "ranges sel" "Some b" True "[]" False]
    by (auto simp: setSelectionNoUndo_def plain_env_def skipAtomicInSelection_def sel_ok_def ret_def
        setSelectionInner_def sel_equals_iff)
qed

section \<open>Changing one document\<close>

lemma doc_more [simp]:
  "doc.more (doc_update d i f) = doc.more d" "doc.more (doc_remove d a k) = doc.more d" "doc.more (add_lines eh d a cs) = doc.more d"
  by (simp_all add: doc_update_def doc_remove_def add_lines_def doc_insert_def split: option.split)

lemma updateDoc_more: "updateDoc eh before sp c d = Inr d' \<Longrightarrow> doc.more d' = doc.more d"
  by (cases "getLine d (pline (c_from c))"; cases "getLine d (pline (c_to c))")
    (auto simp: updateDoc_def Let_def split: if_splits)

lemma hdoc_more:
  "doc.more d' = doc.more d \<Longrightarrow> d_sel d' = d_sel d \<and> d_hist d' = d_hist d \<and> d_markers d' = d_markers d"
  by (cases d; cases d') simp

lemma getBetween_text:
  assumes "doc_ok d" and "tpos_ok (d_first d) (doc_text d) f" and "tpos_ok (d_first d) (doc_text d) t" and "f \<le> t"
  shows "getBetween d f t = tbetween (d_first d) (doc_text d) f t"
proof -
  obtain F fc where f: "f = Pos (d_first d + int F) (int fc)" "F < length (doc_text d)" by (rule tpos_okE [OF assms(2)])
  obtain E ec where t: "t = Pos (d_first d + int E) (int ec)" "E < length (doc_text d)" by (rule tpos_okE [OF assms(3)])
  have "F \<le> E" using assms(4) unfolding f(1) t(1) Pos_le_iff by auto
  with getBetween_ok [OF assms(1), of F E "int fc" "int ec"] f t show ?thesis by (simp add: tbetween_def)
qed

lemma stretch_returns:
  assumes "doc_ok d" and "tvalid (d_first d) (doc_text d) (c_from c) (c_to c) (c_text c)"
  shows "\<exists>ms. stretchSpansOverChange M d c = Inr ms"
proof -
  have "\<exists>sps. spans_at d (pline p) = Inr sps" if "tpos_ok (d_first d) (doc_text d) p" for p
    using getLine_text_pos [OF assms(1) that] by (auto simp: spans_at_def)
  with assms(2) obtain a b where "spans_at d (pline (c_from c)) = Inr a" "spans_at d (pline (c_to c)) = Inr b"
    unfolding tvalid_def by blast
  then show ?thesis by (simp add: stretchSpansOverChange_def)
qed

lemma makeChangeSingleDoc_calm:
  assumes d: "doc_ok d" "calm d" "plain_env env"
    and c: "tvalid (d_first d) (doc_text d) (c_from c) (c_to c) (c_text c)"
    and sel: "sel_ok (d_first d) (trepl (d_first d) (doc_text d) (c_from c) (c_to c) (c_text c)) s" "sel_ok (d_first d) (doc_text d) (d_sel d)"
  shows "\<exists>d'. makeChangeSingleDoc env d c (Some s) spans = Some (Inr d') \<and> doc_ok d' \<and> calm d' \<and> d_first d' = d_first d \<and>
    doc_text d' = trepl (d_first d) (doc_text d) (c_from c) (c_to c) (c_text c) \<and> d_sel d' = s \<and> d_hist d' = d_hist d"
proof -
  let ?c = "c\<lparr>c_removed := getBetween d (c_from c) (c_to c)\<rparr>"
  have v: "valid_change d ?c" using c by (simp add: valid_change_def valid_pos_text tvalid_def)
  then obtain d2 where d2: "updateDoc (e_height env) (e_wholeLine env) (spansFor spans) ?c d = Inr d2"
    using updateDoc_ok [OF d(1)] by blast
  note t = updateDoc_text [OF d(1) v d2]
  have m: "d_sel d2 = d_sel d" "d_hist d2 = d_hist d" "d_markers d2 = d_markers d"
    using hdoc_more [OF updateDoc_more [OF d2]] by simp_all
  have tx: "doc_text d2 = trepl (d_first d) (doc_text d) (c_from c) (c_to c) (c_text c)" using t by (simp add: trepl_def)
  have in_range: "\<not> pline (c_to c) < d_first d" "\<not> pline (c_from c) > lastLine d" "\<not> pline (c_from c) < d_first d" "\<not> pline (c_to c) > lastLine d"
    using c d_size_ok [OF d(1)] by (auto simp: tvalid_def tpos_ok_def lastLine_def)
  have "calm d2" using d(2) m by (simp add: calm_def)
  have "setSelectionNoUndo env d2 s None = Some (Inr (d2\<lparr>d_cantEdit := False, d_sel := s\<rparr>))"
    by (rule setSelectionNoUndo_calm [OF _ \<open>calm d2\<close> d(3)]) (use t tx m sel in auto)
  then have "makeChangeSingleDoc env d c (Some s) spans = Some (Inr (d2\<lparr>d_cantEdit := False, d_sel := s\<rparr>))"
    using in_range d2 by (simp add: makeChangeSingleDoc_def clip_top_def clip_bottom_def Let_def)
  then show ?thesis using t tx m \<open>calm d2\<close> by simp
qed

section \<open>Consistent histories\<close>

text \<open>
  What the events of a stack do to a text, from the newest event to the oldest: \<open>revert\<close> applies the
  changes of one event and \<open>base\<close> those of all. In a consistent stack every change applies to the text it
  finds, every selection lies in its text, and below each change event there is the selection before it.
\<close>

fun revertible :: "int \<Rightarrow> jsstring list \<Rightarrow> hchange list \<Rightarrow> bool" where
  "revertible n T [] \<longleftrightarrow> True"
| "revertible n T (hc # hcs) \<longleftrightarrow>
     tvalid n T (hc_from hc) (hc_to hc) (hc_text hc) \<and> revertible n (trepl n T (hc_from hc) (hc_to hc) (hc_text hc)) hcs"

fun revert :: "int \<Rightarrow> jsstring list \<Rightarrow> hchange list \<Rightarrow> jsstring list" where
  "revert n T [] = T"
| "revert n T (hc # hcs) = revert n (trepl n T (hc_from hc) (hc_to hc) (hc_text hc)) hcs"

fun stack_ok :: "int \<Rightarrow> jsstring list \<Rightarrow> hevent list \<Rightarrow> bool" where
  "stack_ok n T [] \<longleftrightarrow> True"
| "stack_ok n T (HSel s # evs) \<longleftrightarrow> sel_ok n T s \<and> stack_ok n T evs"
| "stack_ok n T (HChange chs g # evs) \<longleftrightarrow>
     chs \<noteq> [] \<and> revertible n T (rev chs) \<and> evs \<noteq> [] \<and> is_sel (hd evs) \<and> stack_ok n (revert n T (rev chs)) evs"

fun base :: "int \<Rightarrow> jsstring list \<Rightarrow> hevent list \<Rightarrow> jsstring list" where
  "base n T [] = T"
| "base n T (HSel s # evs) = base n T evs"
| "base n T (HChange chs g # evs) = base n (revert n T (rev chs)) evs"

definition hist_ok :: "('st, 'x) hdoc_scheme \<Rightarrow> bool" where
  "hist_ok d \<longleftrightarrow>
     doc_ok d \<and> calm d \<and> sel_ok (d_first d) (doc_text d) (d_sel d) \<and>
     stack_ok (d_first d) (doc_text d) (rev (h_done (d_hist d))) \<and>
     stack_ok (d_first d) (doc_text d) (rev (h_undone (d_hist d))) \<and>
     (case h_undoDepth (d_hist d) of None \<Rightarrow> True | Some k \<Rightarrow> 0 \<le> k)"

definition original :: "('st, 'x) hdoc_scheme \<Rightarrow> jsstring list" where
  "original d = base (d_first d) (doc_text d) (rev (h_done (d_hist d)))"

text \<open>The limit on the depth of the history keeps at least the last event.\<close>

definition deep :: "history \<Rightarrow> bool" where
  "deep h \<longleftrightarrow> (case h_undoDepth h of None \<Rightarrow> True | Some k \<Rightarrow> 2 \<le> k)"

lemma is_sel_simps [simp]: "is_sel (HSel s)" "\<not> is_sel (HChange chs g)"
  by (simp_all add: is_sel_def)

lemma revertible_append [simp]: "revertible n T (as @ bs) \<longleftrightarrow> revertible n T as \<and> revertible n (revert n T as) bs"
  by (induction as arbitrary: T) auto

lemma revert_append [simp]: "revert n T (as @ bs) = revert n (revert n T as) bs"
  by (induction as arbitrary: T) auto

lemma stack_ok_dropWhile:
  "stack_ok n T evs \<Longrightarrow> stack_ok n T (dropWhile is_sel evs) \<and> base n T (dropWhile is_sel evs) = base n T evs"
  by (induction n T evs rule: stack_ok.induct) auto

lemma stack_ok_take: "stack_ok n T (xs @ ys) \<Longrightarrow> xs = [] \<or> is_sel (last xs) \<Longrightarrow> stack_ok n T xs"
proof (induction xs arbitrary: T)
  case (Cons e xs)
  then show ?case by (cases e; cases xs) (auto split: if_splits)
qed simp

lemma stack_ok_before_change: "stack_ok n T (xs @ e # ys) \<Longrightarrow> \<not> is_sel e \<Longrightarrow> xs = [] \<or> is_sel (last xs)"
proof (induction xs arbitrary: T)
  case (Cons e' xs)
  then show ?case by (cases e'; cases xs) (auto split: if_splits)
qed simp

lemma stack_ok_bottom: "stack_ok n T xs \<Longrightarrow> xs \<noteq> [] \<Longrightarrow> is_sel (last xs)"
proof (induction xs arbitrary: T)
  case (Cons e xs)
  then show ?case by (cases e; cases xs) auto
qed simp

lemma lst_snoc [simp]: "lst (xs @ [x]) = Some x"
  by (simp add: lst_def)

lemma lst_Nil [simp]: "lst [] = None"
  by (simp add: lst_def)

lemma lst_rev: "lst (rev r) = (case r of [] \<Rightarrow> None | e # _ \<Rightarrow> Some e)"
  by (cases r) (simp_all add: lst_def)

lemma pushSelectionToHistory_rev:
  "rev (pushSelectionToHistory sel (rev r)) = (if \<exists>r'. r = HSel sel # r' then r else HSel sel # r)"
  by (cases r) (auto simp: pushSelectionToHistory_def sel_equals_iff split: hevent.split)

lemma pushSelectionToHistory_ok:
  assumes "sel_ok n T sel" and "stack_ok n T (rev dest)"
  shows "stack_ok n T (rev (pushSelectionToHistory sel dest))" "base n T (rev (pushSelectionToHistory sel dest)) = base n T (rev dest)"
    "\<exists>r. rev (pushSelectionToHistory sel dest) = HSel sel # r"
  using assms pushSelectionToHistory_rev [of sel "rev dest"] by auto

lemma lastChangeEvent_ok:
  assumes "stack_ok n T (rev evs)" and "lastChangeEvent evs force = (evs', cur)"
  shows "stack_ok n T (rev evs')" "base n T (rev evs') = base n T (rev evs)"
    "cur = None \<or> (\<exists>chs g r. cur = Some (HChange chs g) \<and> evs' = rev r @ [HChange chs g])"
proof -
  obtain r where r: "evs = rev r" by (metis rev_rev_ident)
  have "stack_ok n T (rev evs') \<and> base n T (rev evs') = base n T (rev evs) \<and>
      (cur = None \<or> (\<exists>chs g r. cur = Some (HChange chs g) \<and> evs' = rev r @ [HChange chs g]))"
  proof (cases force)
    case True
    then have e: "evs' = rev (dropWhile is_sel r)" "cur = lst (rev (dropWhile is_sel r))"
      using assms(2) by (auto simp: lastChangeEvent_def clearSelectionEvents_def r)
    have "cur = None \<or> (\<exists>chs g r. cur = Some (HChange chs g) \<and> evs' = rev r @ [HChange chs g])"
    proof (cases "dropWhile is_sel r")
      case (Cons e es)
      then have "\<not> is_sel e" using hd_dropWhile [of is_sel r] by simp
      then show ?thesis using e Cons by (cases e) (simp_all add: lst_rev)
    qed (use e in \<open>simp add: lst_def\<close>)
    then show ?thesis using stack_ok_dropWhile [of n T r] assms(1) by (simp add: e r)
  next
    case False
    show ?thesis
    proof (cases r)
      case (Cons e es)
      show ?thesis
      proof (cases e)
        case (HSel s)
        show ?thesis
        proof (cases "es \<noteq> [] \<and> \<not> is_sel (hd es)")
          case True
          then obtain chs g es' where "es = HChange chs g # es'" by (cases es; cases "hd es") auto
          then show ?thesis
            using assms \<open>\<not> force\<close> Cons HSel by (auto simp: lastChangeEvent_def r nth_append butlast_append lst_def)
        next
          case False
          then show ?thesis using assms \<open>\<not> force\<close> Cons HSel
            by (cases es) (auto simp: lastChangeEvent_def r nth_append lst_def)
        qed
      next
        case (HChange chs g)
        then show ?thesis using assms False Cons by (auto simp: lastChangeEvent_def r)
      qed
    qed (use assms False in \<open>auto simp: lastChangeEvent_def r\<close>)
  qed
  then show "stack_ok n T (rev evs')" "base n T (rev evs') = base n T (rev evs)"
    "cur = None \<or> (\<exists>chs g r. cur = Some (HChange chs g) \<and> evs' = rev r @ [HChange chs g])" by simp_all
qed

lemma trim_done_ok:
  "stack_ok n T (rev evs) \<Longrightarrow> evs = [] \<or> \<not> is_sel (last evs) \<Longrightarrow> 0 \<le> depth \<Longrightarrow>
    \<exists>evs'. trim_done depth evs = Inr evs' \<and> stack_ok n T (rev evs') \<and> (2 \<le> depth \<and> evs \<noteq> [] \<longrightarrow> evs' \<noteq> [] \<and> last evs' = last evs)"
proof (induction depth evs rule: trim_done.induct)
  case (1 depth evs)
  show ?case
  proof (cases "int (length evs) > depth")
    case False
    then show ?thesis using 1(2) by (subst trim_done.simps) simp
  next
    case True
    with 1(4) obtain e es where e: "evs = e # es" by (cases evs) auto
    have "is_sel e" using stack_ok_bottom [OF 1(2)] by (simp add: e)
    with 1(3) e obtain e' evs' where e': "es = e' # evs'" by (cases es) auto
    define nxt where "nxt = (if is_sel e' then e' # evs' else evs')"
    have s: "stack_ok n T (rev nxt)"
    proof (cases "is_sel e'")
      case True
      then show ?thesis using stack_ok_take [of n T "rev evs' @ [e']" "[e]"] 1(2) by (simp add: nxt_def e e')
    next
      case False
      then show ?thesis
        using stack_ok_take [of n T "rev evs'" "[e', e]"] stack_ok_before_change [of n T "rev evs'" e' "[e]"] 1(2) by (simp add: nxt_def e e')
    qed
    have l: "nxt = [] \<or> \<not> is_sel (last nxt)" using 1(3) by (auto simp: nxt_def e e' split: if_splits)
    obtain res where "trim_done depth nxt = Inr res" "stack_ok n T (rev res)" "2 \<le> depth \<and> nxt \<noteq> [] \<longrightarrow> res \<noteq> [] \<and> last res = last nxt"
      using 1(1) [OF True e e'] s l 1(4) unfolding nxt_def by blast
    moreover have "trim_done depth evs = trim_done depth nxt" using True by (subst trim_done.simps) (simp add: e e' nxt_def)
    moreover have "2 \<le> depth \<Longrightarrow> nxt \<noteq> [] \<and> last nxt = last evs" using True by (auto simp: nxt_def e e')
    ultimately show ?thesis by auto
  qed
qed

lemma historyChange_inverse:
  assumes "doc_ok d" and "tvalid (d_first d) (doc_text d) f t txt"
  shows "revertible (d_first d) (trepl (d_first d) (doc_text d) f t txt) [historyChangeFromChange d f t txt]"
    and "revert (d_first d) (trepl (d_first d) (doc_text d) f t txt) [historyChangeFromChange d f t txt] = doc_text d"
  using assms change_inverse [OF assms(2)] getBetween_text [OF assms(1)] by (simp_all add: historyChangeFromChange_def copyPos_def tvalid_def)

lemma merge_change_ok:
  assumes d: "doc_ok d" and c: "tvalid (d_first d) (doc_text d) (c_from c) (c_to c) (c_text c)"
    and chs: "chs \<noteq> []" "revertible (d_first d) (doc_text d) (rev chs)"
  shows "\<exists>chs'. merge_change d c chs = Inr chs' \<and> chs' \<noteq> [] \<and>
    revertible (d_first d) (trepl (d_first d) (doc_text d) (c_from c) (c_to c) (c_text c)) (rev chs') \<and>
    revert (d_first d) (trepl (d_first d) (doc_text d) (c_from c) (c_to c) (c_text c)) (rev chs') = revert (d_first d) (doc_text d) (rev chs)"
proof -
  let ?hc = "historyChangeFromChange d (c_from c) (c_to c) (c_text c)"
  note inv = historyChange_inverse [OF d c]
  obtain l ls where l: "chs = ls @ [l]" using chs(1) by (metis rev_exhaust)
  show ?thesis
  proof (cases "c_from c = c_to c \<and> c_from c = hc_to l")
    case True
    then have "merge_change d c chs = Inr (ls @ [l\<lparr>hc_to := changeEnd (c_from c) (c_text c)\<rparr>])"
      by (auto simp: merge_change_def l)
    moreover have "tvalid (d_first d) (doc_text d) (hc_from l) (hc_to l) (hc_text l)" "c_text c \<noteq> []"
      using chs(2) c by (simp_all add: l tvalid_def)
    ultimately show ?thesis using merge_insertion [of "d_first d" "doc_text d" "hc_from l" "hc_to l" "hc_text l" "c_text c"] chs(2) True
      by (auto simp: l)
  next
    case False
    then have "merge_change d c chs = Inr (chs @ [?hc])" by (auto simp: merge_change_def l)
    then show ?thesis using inv chs by simp
  qed
qed

lemma new_event_ok:
  assumes h: "hist_ok d" and evs: "stack_ok (d_first d) (doc_text d) (rev evs)"
    and c: "tvalid (d_first d) (doc_text d) (c_from c) (c_to c) (c_text c)"
    and T': "T' = trepl (d_first d) (doc_text d) (c_from c) (c_to c) (c_text c)"
  shows "\<exists>evs'. new_event d c evs = Inr evs' \<and> stack_ok (d_first d) T' (rev evs') \<and>
    (h_undoDepth (d_hist d) = None \<longrightarrow> base (d_first d) T' (rev evs') = base (d_first d) (doc_text d) (rev evs)) \<and>
    (deep (d_hist d) \<longrightarrow> evs' \<noteq> [] \<and>
       last evs' = HChange [historyChangeFromChange d (c_from c) (c_to c) (c_text c)] (Some (h_generation (d_hist d))))"
proof -
  let ?n = "d_first d" and ?ev = "HChange [historyChangeFromChange d (c_from c) (c_to c) (c_text c)] (Some (h_generation (d_hist d)))"
  have d: "doc_ok d" "sel_ok ?n (doc_text d) (d_sel d)" using h by (simp_all add: hist_ok_def)
  define evs1 where "evs1 = (case lst evs of Some (HSel _) \<Rightarrow> evs | _ \<Rightarrow> pushSelectionToHistory (d_sel d) evs)"
  have e1: "stack_ok ?n (doc_text d) (rev evs1) \<and> base ?n (doc_text d) (rev evs1) = base ?n (doc_text d) (rev evs) \<and> (\<exists>s r. rev evs1 = HSel s # r)"
  proof (cases "\<exists>s. lst evs = Some (HSel s)")
    case True
    then show ?thesis using evs by (cases evs rule: rev_cases) (auto simp: evs1_def rev_swap [symmetric])
  next
    case False
    then have "evs1 = pushSelectionToHistory (d_sel d) evs" by (auto simp: evs1_def split: option.split hevent.split)
    then show ?thesis using pushSelectionToHistory_ok [OF d(2) evs] by auto
  qed
  have e2: "stack_ok ?n T' (rev (evs1 @ [?ev])) \<and> base ?n T' (rev (evs1 @ [?ev])) = base ?n (doc_text d) (rev evs)"
    using e1 historyChange_inverse [OF d(1) c] by (auto simp: T')
  have eq: "new_event d c evs = (case h_undoDepth (d_hist d) of None \<Rightarrow> Inr (evs1 @ [?ev]) | Some depth \<Rightarrow> trim_done depth (evs1 @ [?ev]))"
    unfolding new_event_def Let_def evs1_def ..
  show ?thesis
  proof (cases "h_undoDepth (d_hist d)")
    case None
    then show ?thesis using e2 by (simp add: eq deep_def)
  next
    case (Some depth)
    then have "0 \<le> depth" using h by (simp add: hist_ok_def)
    then show ?thesis using Some trim_done_ok [OF conjunct1 [OF e2], of depth] by (auto simp: eq deep_def)
  qed
qed

lemma addChangeToHistory_ok:
  assumes h: "hist_ok d" and c: "tvalid (d_first d) (doc_text d) (c_from c) (c_to c) (c_text c)"
    and T': "T' = trepl (d_first d) (doc_text d) (c_from c) (c_to c) (c_text c)" and s: "sel_ok (d_first d) T' s"
  shows "\<exists>h'. addChangeToHistory env d c s = Inr (d\<lparr>d_hist := h'\<rparr>) \<and> stack_ok (d_first d) T' (rev (h_done h')) \<and>
    h_undone h' = [] \<and> h_undoDepth h' = h_undoDepth (d_hist d) \<and>
    (h_undoDepth (d_hist d) = None \<longrightarrow> base (d_first d) T' (rev (h_done h')) = original d) \<and>
    (deep (d_hist d) \<and> \<not> merges env (d_hist d) (c_origin c) \<longrightarrow>
       (\<exists>r. rev (h_done h') = HSel s # HChange [historyChangeFromChange d (c_from c) (c_to c) (c_text c)] (Some (h_generation (d_hist d))) # r))"
proof -
  let ?n = "d_first d" and ?T = "doc_text d" and ?h = "d_hist d"
  have d: "doc_ok d" and st: "stack_ok ?n ?T (rev (h_done ?h))" using h by (simp_all add: hist_ok_def)
  obtain evs cur where ec: "(if merges env ?h (c_origin c) then lastChangeEvent (h_done ?h) (same_op (h_lastOp ?h) (e_opId env))
      else (h_done ?h, None)) = (evs, cur)" by (meson surj_pair)
  have E: "stack_ok ?n ?T (rev evs)" "base ?n ?T (rev evs) = original d"
      "cur = None \<or> (\<exists>chs g r. cur = Some (HChange chs g) \<and> evs = rev r @ [HChange chs g])"
    using ec lastChangeEvent_ok [OF st] st by (auto simp: original_def split: if_splits)
  define res where "res = (case cur of
      Some (HChange chs g) \<Rightarrow> rbind (merge_change d c chs) (\<lambda>chs'. Inr (butlast evs @ [HChange chs' g]))
    | Some (HSel s) \<Rightarrow> Inl TypeErr | None \<Rightarrow> new_event d c evs)"
  have "\<exists>evs'. res = Inr evs' \<and> stack_ok ?n T' (rev evs') \<and> (h_undoDepth ?h = None \<longrightarrow> base ?n T' (rev evs') = original d) \<and>
    (deep ?h \<and> \<not> merges env ?h (c_origin c) \<longrightarrow> evs' \<noteq> [] \<and>
       last evs' = HChange [historyChangeFromChange d (c_from c) (c_to c) (c_text c)] (Some (h_generation ?h)))"
  proof (cases cur)
    case None
    then show ?thesis using new_event_ok [OF h E(1) c T'] E(2) by (auto simp: res_def)
  next
    case (Some ev)
    then obtain chs g r where ev: "ev = HChange chs g" "evs = rev r @ [HChange chs g]" using E(3) by auto
    then have st: "chs \<noteq> []" "revertible ?n ?T (rev chs)" using E(1) by simp_all
    obtain chs' where "merge_change d c chs = Inr chs'" "chs' \<noteq> []" "revertible ?n T' (rev chs')"
      "revert ?n T' (rev chs') = revert ?n ?T (rev chs)"
      using merge_change_ok [OF d c st] unfolding T' by blast
    moreover have "merges env ?h (c_origin c)" using ec Some by (auto split: if_splits)
    ultimately show ?thesis using E Some ev by (simp add: res_def)
  qed
  then obtain evs' where e: "res = Inr evs'" "stack_ok ?n T' (rev evs')" "h_undoDepth ?h = None \<longrightarrow> base ?n T' (rev evs') = original d"
    "deep ?h \<and> \<not> merges env ?h (c_origin c) \<longrightarrow> evs' \<noteq> [] \<and>
       last evs' = HChange [historyChangeFromChange d (c_from c) (c_to c) (c_text c)] (Some (h_generation ?h))"
    by (elim exE conjE) (rule that; assumption)
  define h' where "h' = ?h\<lparr>h_undone := [], h_done := evs' @ [HSel s],
              h_maxGeneration := h_maxGeneration ?h + 1, h_generation := h_maxGeneration ?h + 1,
              h_lastModTime := e_time env, h_lastSelTime := e_time env, h_lastOp := e_opId env,
              h_lastOrigin := c_origin c, h_lastSelOrigin := c_origin c\<rparr>"
  have "addChangeToHistory env d c s = Inr (d\<lparr>d_hist := h'\<rparr>)"
    unfolding addChangeToHistory_def Let_def ec prod.case res_def [symmetric] e(1) h'_def rbind.simps ..
  moreover have "rev (h_done h') = HSel s # rev evs'" "h_undone h' = []" "h_undoDepth h' = h_undoDepth ?h" by (simp_all add: h'_def)
  moreover have "evs' \<noteq> [] \<Longrightarrow> \<exists>r. evs' = rev r @ [last evs']" by (metis append_butlast_last_id rev_rev_ident)
  ultimately show ?thesis using e(2-4) s by (intro exI [of _ h']) fastforce
qed

text \<open>A change and a selection leave a selection as the last event.\<close>

definition last_is_change :: "history \<Rightarrow> bool" where
  "last_is_change h \<longleftrightarrow> (case lst (h_done h) of Some (HChange chs g) \<Rightarrow> True | _ \<Rightarrow> False)"

lemma addChangeToHistory_last: "addChangeToHistory env d c s = Inr d' \<Longrightarrow> \<not> last_is_change (d_hist d')"
  by (auto simp: addChangeToHistory_def last_is_change_def Let_def rbind_Inr_iff split: prod.splits)

lemma addSelectionToHistory_last: "addSelectionToHistory env d sel options = Inr d' \<Longrightarrow> \<not> last_is_change (d_hist d')"
proof -
  have "lst (set_last evs sel) \<noteq> Some (HChange chs g)" "lst (pushSelectionToHistory sel evs) \<noteq> Some (HChange chs g)" for evs chs g
    by (auto simp: set_last_def pushSelectionToHistory_def split: option.split hevent.split)
  then show "addSelectionToHistory env d sel options = Inr d' \<Longrightarrow> ?thesis"
    by (auto simp: addSelectionToHistory_def last_is_change_def Let_def rbind_Inr_iff split: option.split hevent.split if_splits)
qed

lemma setSelection_last: "setSelection env d sel options = Some (Inr d') \<Longrightarrow> \<not> last_is_change (d_hist d')"
  by (auto simp: setSelection_def pbind_def dest: addSelectionToHistory_last split: option.splits sum.splits)

lemma makeChange_ok:
  assumes h: "hist_ok d" and env: "plain_env env" and c: "tvalid (d_first d) (doc_text d) (c_from c) (c_to c) (c_text c)"
  shows "\<exists>d'. makeChange env d c b = Some (Inr d') \<and> hist_ok d' \<and> d_first d' = d_first d \<and>
    doc_text d' = trepl (d_first d) (doc_text d) (c_from c) (c_to c) (c_text c) \<and>
    h_undoDepth (d_hist d') = h_undoDepth (d_hist d) \<and>
    (h_undoDepth (d_hist d) = None \<longrightarrow> original d' = original d) \<and>
    (deep (d_hist d) \<and> \<not> merges env (d_hist d) (c_origin c) \<and> \<not> (c_text c = [[]] \<and> c_from c = c_to c) \<longrightarrow>
       (\<exists>r s. rev (h_done (d_hist d')) = HSel s # HChange [historyChangeFromChange d (c_from c) (c_to c) (c_text c)] (Some (h_generation (d_hist d))) # r)) \<and>
    (c_text c = [[]] \<and> c_from c = c_to c \<or> \<not> last_is_change (d_hist d'))"
proof -
  let ?n = "d_first d" and ?T = "doc_text d"
  define T' where "T' = trepl ?n ?T (c_from c) (c_to c) (c_text c)"
  have m: "makeChange env d c b = makeChangeInner env d c" using env by (simp add: makeChange_def plain_env_def)
  have d: "doc_ok d" "calm d" "sel_ok ?n ?T (d_sel d)" using h by (simp_all add: hist_ok_def)
  show ?thesis
  proof (cases "c_text c = [[]] \<and> cmp (c_from c) (c_to c) = 0")
    case True
    then have "trepl ?n ?T (c_from c) (c_to c) (c_text c) = ?T" using c trepl_nothing by simp
    with True h m show ?thesis by (auto simp: makeChangeInner_def ret_def)
  next
    case False
    define s where "s = computeSelAfterChange d c"
    have s: "sel_ok ?n T' s" using computeSelAfterChange_ok [OF c d(3)] by (simp add: T'_def s_def)
    obtain h' where h': "addChangeToHistory env d c s = Inr (d\<lparr>d_hist := h'\<rparr>)" "stack_ok ?n T' (rev (h_done h'))"
      "h_undone h' = []" "h_undoDepth h' = h_undoDepth (d_hist d)" "h_undoDepth (d_hist d) = None \<longrightarrow> base ?n T' (rev (h_done h')) = original d"
      "deep (d_hist d) \<and> \<not> merges env (d_hist d) (c_origin c) \<longrightarrow>
         (\<exists>r. rev (h_done h') = HSel s # HChange [historyChangeFromChange d (c_from c) (c_to c) (c_text c)] (Some (h_generation (d_hist d))) # r)"
      using addChangeToHistory_ok [OF h c T'_def s, of env] by (elim exE conjE) (rule that; assumption)
    let ?d1 = "d\<lparr>d_hist := h'\<rparr>"
    obtain ms where ms: "stretchSpansOverChange (d_markers ?d1) ?d1 c = Inr ms" using stretch_returns [of ?d1 c] d c by auto
    obtain d' where d': "makeChangeSingleDoc env ?d1 c (Some s) ms = Some (Inr d')" "doc_ok d'" "calm d'" "d_first d' = ?n"
      "doc_text d' = T'" "d_sel d' = s" "d_hist d' = h'"
      using makeChangeSingleDoc_calm [of ?d1 env c s ms] d env c s by (auto simp: T'_def)
    have "makeChangeInner env d c = Some (Inr d')"
      unfolding makeChangeInner_def if_not_P [OF False] Let_def s_def [symmetric] h'(1) pbind_simps ms d'(1) ..
    moreover have "hist_ok d'" using d' h' s h by (simp add: hist_ok_def)
    moreover have "\<not> last_is_change h'" using addChangeToHistory_last [OF h'(1)] by simp
    ultimately show ?thesis using m d' h' by (auto simp: T'_def original_def)
  qed
qed

lemma pop_events_ok:
  "stack_ok n T src \<Longrightarrow> stack_ok n T (rev dest) \<Longrightarrow> sel_ok n T sa \<Longrightarrow> dropWhile is_sel src = HChange chs g # rest' \<Longrightarrow>
    \<exists>dest' sa'. pop_events False cur src dest sa = Inr (PopChange chs g sa', rest', dest') \<and> sel_ok n T sa' \<and>
      stack_ok n T (rev dest') \<and> base n T (rev dest') = base n T (rev dest)"
proof (induction False cur src dest sa rule: pop_events.induct)
  case (2 cur s source dest selAfter)
  then show ?case using pushSelectionToHistory_ok [of n T s dest] by (auto simp: Let_def)
qed auto

lemma revert_changes_ok:
  assumes env: "plain_env env"
  shows "doc_ok d \<Longrightarrow> calm d \<Longrightarrow> sel_ok (d_first d) (doc_text d) (d_sel d) \<Longrightarrow> revertible (d_first d) (doc_text d) hcs \<Longrightarrow>
    sel_ok (d_first d) (revert (d_first d) (doc_text d) hcs) s \<Longrightarrow>
    \<exists>d' anti'. revert_changes env origin (Some (HSel s)) hcs d anti = Some (Inr (d', anti @ anti', False)) \<and>
      doc_ok d' \<and> calm d' \<and> d_first d' = d_first d \<and> sel_ok (d_first d) (doc_text d') (d_sel d') \<and> d_hist d' = d_hist d \<and>
      doc_text d' = revert (d_first d) (doc_text d) hcs \<and> length anti' = length hcs \<and>
      revertible (d_first d) (doc_text d') (rev anti') \<and> revert (d_first d) (doc_text d') (rev anti') = doc_text d"
proof (induction hcs arbitrary: d anti)
  case Nil
  then show ?case by (simp add: ret_def)
next
  case (Cons hc hcs)
  let ?n = "d_first d" and ?c = "change_of origin hc"
  define T1 where "T1 = trepl ?n (doc_text d) (c_from ?c) (c_to ?c) (c_text ?c)"
  define sel where "sel = (if hcs \<noteq> [] then computeSelAfterChange d ?c else s)"
  have c: "tvalid ?n (doc_text d) (c_from ?c) (c_to ?c) (c_text ?c)" using Cons(5) by (simp add: change_of_def)
  have rest: "revertible ?n T1 hcs" "sel_ok ?n (revert ?n T1 hcs) s" using Cons(5,6) by (simp_all add: T1_def change_of_def)
  have sel: "sel_ok ?n T1 sel" using computeSelAfterChange_ok [OF c Cons(4)] rest(2) by (auto simp: sel_def T1_def)
  let ?a = "historyChangeFromChange d (c_from ?c) (c_to ?c) (c_text ?c)"
  obtain ms where ms: "stretchSpansOverChange (d_markers d) d ?c = Inr ms" using stretch_returns [OF Cons(2) c] by blast
  define sp where "sp = mergeOldSpans (getOldSpans (d_markers d) hc) ms"
  obtain d1 where d1: "makeChangeSingleDoc env d ?c (Some sel) sp = Some (Inr d1)" "doc_ok d1" "calm d1" "d_first d1 = ?n"
    "doc_text d1 = T1" "d_sel d1 = sel" "d_hist d1 = d_hist d"
    using makeChangeSingleDoc_calm [OF Cons(2,3) env c, of sel sp] sel Cons(4) by (auto simp: T1_def)
  obtain d' anti' where r: "revert_changes env origin (Some (HSel s)) hcs d1 (anti @ [?a]) = Some (Inr (d', (anti @ [?a]) @ anti', False))"
    "doc_ok d'" "calm d'" "d_first d' = ?n" "sel_ok ?n (doc_text d') (d_sel d')" "d_hist d' = d_hist d"
    "doc_text d' = revert ?n T1 hcs" "length anti' = length hcs" "revertible ?n (doc_text d') (rev anti')" "revert ?n (doc_text d') (rev anti') = T1"
    using Cons(1) [of d1 "anti @ [?a]"] d1 sel rest by auto
  have "revert_changes env origin (Some (HSel s)) (hc # hcs) d anti = Some (Inr (d', anti @ (?a # anti'), False))"
    using env r(1) d1(1) ms by (auto simp: plain_env_def Let_def sp_def sel_def split: if_splits)
  moreover have "revertible ?n (doc_text d') (rev (?a # anti'))" "revert ?n (doc_text d') (rev (?a # anti')) = doc_text d"
    using r(9,10) historyChange_inverse [OF Cons(2) c] by (simp_all add: T1_def)
  moreover have "doc_text d' = revert ?n (doc_text d) (hc # hcs)" using r(7) by (simp add: T1_def change_of_def)
  ultimately show ?case using r(2-6,8) by (intro exI [of _ d'] exI [of _ "?a # anti'"]) simp
qed

definition source_stack :: "bool \<Rightarrow> history \<Rightarrow> hevent list" where
  "source_stack back h = (if back then h_done h else h_undone h)"

text \<open>Undoing or redoing one event: the stack it comes from loses it, the other one gets its inverse.\<close>

lemma makeChangeFromHistory_ok:
  assumes h: "hist_ok d" and env: "plain_env env"
    and ev: "dropWhile is_sel (rev (source_stack back (d_hist d))) = HChange chs g # rest'"
  shows "\<exists>d' anti g' r. makeChangeFromHistory env back False d = Some (Inr d') \<and> hist_ok d' \<and> d_first d' = d_first d \<and>
    doc_text d' = revert (d_first d) (doc_text d) (rev chs) \<and> h_undoDepth (d_hist d') = h_undoDepth (d_hist d) \<and>
    source_stack back (d_hist d') = rev rest' \<and>
    rev (source_stack (\<not> back) (d_hist d')) = HChange anti g' # r \<and>
    revert (d_first d) (doc_text d') (rev anti) = doc_text d \<and>
    base (d_first d) (doc_text d) r = base (d_first d) (doc_text d) (rev (source_stack (\<not> back) (d_hist d)))"
proof -
  let ?n = "d_first d" and ?T = "doc_text d" and ?h = "d_hist d"
  define src where "src = source_stack back ?h"
  define dest where "dest = source_stack (\<not> back) ?h"
  have src': "(if back then h_done ?h else h_undone ?h) = src" and dest': "(if back then h_undone ?h else h_done ?h) = dest"
    by (simp_all add: src_def dest_def source_stack_def)
  have d: "doc_ok d" "calm d" "sel_ok ?n ?T (d_sel d)" "stack_ok ?n ?T (rev src)" "stack_ok ?n ?T (rev dest)"
    using h by (auto simp: hist_ok_def src_def dest_def source_stack_def)
  have ev': "dropWhile is_sel (rev src) = HChange chs g # rest'" using ev by (simp add: src_def)
  obtain dest' sa where pop: "pop_events False (d_sel d) (rev src) dest (d_sel d) = Inr (PopChange chs g sa, rest', dest')"
    "sel_ok ?n ?T sa" "stack_ok ?n ?T (rev dest')" "base ?n ?T (rev dest') = base ?n ?T (rev dest)"
    using pop_events_ok [OF d(4,5,3) ev'] by blast
  have st: "stack_ok ?n ?T (HChange chs g # rest')" using stack_ok_dropWhile [OF d(4)] ev' by simp
  then obtain s rest'' where rest': "rest' = HSel s # rest''" by (cases rest'; cases "hd rest'") auto
  define dest2 where "dest2 = pushSelectionToHistory sa dest'"
  note D2 = pushSelectionToHistory_ok [OF pop(2,3), folded dest2_def]
  let ?h1 = "?h\<lparr>h_lastOrigin := None, h_lastSelOrigin := None\<rparr>"
  define h2 where "h2 = ?h1\<lparr>h_maxGeneration := (if (case g of Some n \<Rightarrow> n \<noteq> 0 | None \<Rightarrow> False) then h_maxGeneration ?h1 else h_maxGeneration ?h1 + 1),
    h_generation := (if (case g of Some n \<Rightarrow> n \<noteq> 0 | None \<Rightarrow> False) then the g else h_maxGeneration ?h1 + 1)\<rparr>"
  let ?origin = "js (if back then ''undo'' else ''redo'')"
  obtain d2 anti where r: "revert_changes env ?origin (Some (HSel s)) (rev chs) (d\<lparr>d_hist := h2\<rparr>) [] = Some (Inr (d2, anti, False))"
    "doc_ok d2" "calm d2" "d_first d2 = ?n" "sel_ok ?n (doc_text d2) (d_sel d2)" "d_hist d2 = h2"
    "doc_text d2 = revert ?n ?T (rev chs)" "length anti = length chs" "revertible ?n (doc_text d2) (rev anti)" "revert ?n (doc_text d2) (rev anti) = ?T"
    using revert_changes_ok [OF env, of "d\<lparr>d_hist := h2\<rparr>" "rev chs" s ?origin "[]"] d st rest' by auto
  define d' where "d' = d2\<lparr>d_hist := set_stacks back (rev rest') (dest2 @ [HChange anti (Some (h_generation ?h))]) h2\<rparr>"
  have "list_ex (usable False (d_sel d)) src"
  proof -
    have "HChange chs g \<in> set src" using ev' set_dropWhileD [of "HChange chs g" is_sel "rev src"] by simp
    then show ?thesis unfolding list_ex_iff by (rule bexI [rotated]) (simp add: usable_def)
  qed
  then have "makeChangeFromHistory env back False d = Some (Inr d')"
    unfolding makeChangeFromHistory_def Let_def src' dest' not_not if_P pop(1) pbind_simps prod.case popped.case
    using env r(1,6) by (simp add: plain_env_def rest' d'_def dest2_def h2_def ret_def split del: if_split)
  moreover have "hist_ok d'"
    using r st D2 h by (auto simp: hist_ok_def d'_def set_stacks_def rest' h2_def)
  moreover have "source_stack back (d_hist d') = rev rest'"
    "rev (source_stack (\<not> back) (d_hist d')) = HChange anti (Some (h_generation ?h)) # rev dest2"
    by (simp_all add: d'_def set_stacks_def source_stack_def)
  ultimately show ?thesis using r D2(2) pop(4)
    by (intro exI [of _ d'] exI [of _ anti] exI [of _ "Some (h_generation ?h)"] exI [of _ "rev dest2"])
      (simp add: d'_def dest_def set_stacks_def h2_def)
qed

section \<open>Selections and new documents\<close>

text \<open>
  \<^verbatim>\<open>addSelectionToHistory\<close> overwrites the last event by the new selection when this belongs to the operation of the last event or
  to the origin of the last selection. The last event is a change after a redo; it must not be overwritten then.
\<close>

definition replaces_change :: "'st env \<Rightarrow> history \<Rightarrow> sel_options option \<Rightarrow> bool" where
  "replaces_change env h options \<longleftrightarrow>
     last_is_change h \<and>
     (same_op (e_opId env) (h_lastOp h) \<or>
      (let origin = (case options of None \<Rightarrow> None | Some opt \<Rightarrow> o_origin opt) in first_char origin \<noteq> None \<and> h_lastSelOrigin h = origin))"

lemma set_last_ok:
  assumes "sel_ok n T sel" and "stack_ok n T (rev evs)" and "\<not> (case lst evs of Some (HChange chs g) \<Rightarrow> True | _ \<Rightarrow> False)"
  shows "stack_ok n T (rev (set_last evs sel)) \<and> base n T (rev (set_last evs sel)) = base n T (rev evs)"
proof (cases evs rule: rev_cases)
  case (snoc es e)
  then obtain s where "e = HSel s" using assms(3) by (cases e) simp_all
  then show ?thesis using snoc assms(1,2) by (simp add: set_last_def)
qed (simp add: set_last_def)

lemma addSelectionToHistory_cases:
  assumes "\<not> replaces_change env (d_hist d) options"
  shows "(addSelectionToHistory env d sel options = Inl TypeErr \<and> h_done (d_hist d) = [] \<and> case_option None o_origin options \<noteq> None) \<or>
    (\<exists>merge t1 t2 t3 und. addSelectionToHistory env d sel options = Inr (d\<lparr>d_hist := (d_hist d)\<lparr>
        h_done := (if merge then set_last (h_done (d_hist d)) sel else pushSelectionToHistory sel (h_done (d_hist d))),
        h_lastSelTime := t1, h_lastSelOrigin := t2, h_lastOp := t3, h_undone := und\<rparr>\<rparr>) \<and>
      (merge \<longrightarrow> \<not> last_is_change (d_hist d)) \<and>
      (und = h_undone (d_hist d) \<or> und = clearSelectionEvents (h_undone (d_hist d))))"
proof -
  let ?h = "d_hist d" and ?origin = "case options of None \<Rightarrow> None | Some opt \<Rightarrow> o_origin opt"
  let ?und = "case options of None \<Rightarrow> h_undone ?h | Some opt \<Rightarrow> if o_clearRedo opt \<noteq> Some False then clearSelectionEvents (h_undone ?h) else h_undone ?h"
  have und: "?und = h_undone ?h \<or> ?und = clearSelectionEvents (h_undone ?h)" by (simp split: option.split)
  define merge where "merge = (if same_op (e_opId env) (h_lastOp ?h) then Inr True
      else if first_char ?origin \<noteq> None \<and> h_lastSelOrigin ?h = ?origin then
        (if h_lastModTime ?h = h_lastSelTime ?h \<and> h_lastOrigin ?h = ?origin then Inr True else canBeMerged_last env ?h ?origin sel)
      else Inr False)"
  have add: "addSelectionToHistory env d sel options = rbind merge (\<lambda>merge. Inr (d\<lparr>d_hist := ?h\<lparr>
      h_done := (if merge then set_last (h_done ?h) sel else pushSelectionToHistory sel (h_done ?h)),
      h_lastSelTime := e_time env, h_lastSelOrigin := ?origin, h_lastOp := e_opId env, h_undone := ?und\<rparr>\<rparr>))"
    by (simp add: addSelectionToHistory_def merge_def Let_def)
  have "(merge = Inl TypeErr \<and> h_done ?h = [] \<and> ?origin \<noteq> None) \<or>
      (\<exists>b. merge = Inr b \<and> (b \<longrightarrow> \<not> last_is_change ?h))"
  proof (cases "last_is_change ?h")
    case True
    then show ?thesis using assms by (auto simp: merge_def replaces_change_def Let_def)
  next
    case False
    then show ?thesis
      by (cases "h_done ?h" rule: rev_cases; cases ?origin) (auto simp: merge_def canBeMerged_last_def first_char_def last_is_change_def split: hevent.splits)
  qed
  then show ?thesis
  proof (elim disjE exE conjE)
    fix b assume "merge = Inr b" "b \<longrightarrow> \<not> last_is_change ?h"
    then show ?thesis using und unfolding add
      by (intro disjI2 exI [of _ b] exI [of _ "e_time env"] exI [of _ ?origin] exI [of _ "e_opId env"] exI [of _ ?und]) simp
  qed (simp add: add)
qed

lemma setSelection_cases:
  assumes h: "hist_ok d" and env: "plain_env env" and sel: "sel_ok (d_first d) (doc_text d) sel"
    and op: "\<not> replaces_change env (d_hist d) options"
  shows "(setSelection env d sel options = Some (Inl TypeErr) \<and> h_done (d_hist d) = [] \<and> case_option None o_origin options \<noteq> None) \<or>
    (\<exists>d'. setSelection env d sel options = Some (Inr d') \<and> hist_ok d' \<and> d_first d' = d_first d \<and> doc_text d' = doc_text d \<and>
      d_sel d' = sel \<and> h_undoDepth (d_hist d') = h_undoDepth (d_hist d) \<and> original d' = original d)"
proof -
  let ?n = "d_first d" and ?T = "doc_text d" and ?h = "d_hist d"
  have d: "doc_ok d" "calm d" "sel_ok ?n ?T (d_sel d)" "stack_ok ?n ?T (rev (h_done ?h))" "stack_ok ?n ?T (rev (h_undone ?h))"
    using h by (simp_all add: hist_ok_def)
  let ?d1 = "d\<lparr>d_cantEdit := False, d_sel := sel\<rparr>"
  have s: "setSelection env d sel options = Some (addSelectionToHistory env ?d1 sel options)"
    unfolding setSelection_def setSelectionNoUndo_calm [OF d(1,2) env sel d(3)] by simp
  have und: "stack_ok ?n ?T (rev (clearSelectionEvents (h_undone ?h)))"
    using stack_ok_dropWhile [OF d(5)] by (simp add: clearSelectionEvents_def)
  have "\<not> replaces_change env (d_hist ?d1) options" using op by simp
  note cases = addSelectionToHistory_cases [OF this, of sel]
  show ?thesis
  proof (cases "addSelectionToHistory env ?d1 sel options")
    case (Inl e)
    then show ?thesis using cases s by auto
  next
    case (Inr d')
    obtain merge t1 t2 t3 un where d': "d' = ?d1\<lparr>d_hist := (d_hist ?d1)\<lparr>
        h_done := if merge then set_last (h_done (d_hist ?d1)) sel else pushSelectionToHistory sel (h_done (d_hist ?d1)),
        h_lastSelTime := t1, h_lastSelOrigin := t2, h_lastOp := t3, h_undone := un\<rparr>\<rparr>"
      and m: "merge \<longrightarrow> \<not> last_is_change (d_hist ?d1)"
      and un: "un = h_undone (d_hist ?d1) \<or> un = clearSelectionEvents (h_undone (d_hist ?d1))"
      using cases unfolding Inr by (simp only: sum.distinct sum.inject simp_thms) (elim exE conjE, rule that)
    let ?evs = "if merge then set_last (h_done ?h) sel else pushSelectionToHistory sel (h_done ?h)"
    have "stack_ok ?n ?T (rev ?evs) \<and> base ?n ?T (rev ?evs) = base ?n ?T (rev (h_done ?h))"
      using set_last_ok [OF sel d(4)] pushSelectionToHistory_ok [OF sel d(4)] m by (simp add: last_is_change_def)
    then have "hist_ok d' \<and> original d' = original d" using h d sel und un by (auto simp: d' hist_ok_def original_def)
    then show ?thesis using s Inr d' by simp
  qed
qed

lemma setSelection_ok:
  assumes h: "hist_ok d" and env: "plain_env env" and sel: "sel_ok (d_first d) (doc_text d) sel"
    and op: "\<not> replaces_change env (d_hist d) options" "case_option True (\<lambda>opt. o_origin opt = None) options"
  shows "\<exists>d'. setSelection env d sel options = Some (Inr d') \<and> hist_ok d' \<and> d_first d' = d_first d \<and> doc_text d' = doc_text d \<and>
    d_sel d' = sel \<and> h_undoDepth (d_hist d') = h_undoDepth (d_hist d) \<and> original d' = original d"
  using setSelection_cases [OF h env sel op(1)] op(2) by (cases options) auto

lemma Doc_ok:
  fixes env :: "'st env"
  assumes "ls \<noteq> []" and env: "plain_env env"
  shows "\<exists>d. Doc env ls n = Some (Inr d) \<and> hist_ok d \<and> d_first d = n \<and> doc_text d = ls \<and> original d = ls \<and> h_undoDepth (d_hist d) = None"
proof -
  let ?sel = "simpleSelection (Pos n 0) None"
  define ext where "ext = \<lparr>d_sel = ?sel, d_hist = History 0, d_cleanGeneration = 1, d_cantEdit = False, d_extend = False,
              d_markers = (\<lambda>_. TextMarker False)\<rparr>"
  obtain d :: "'st hdoc" where d: "docWithLines ls n ext = Inr d" "doc_ok d" "d_first d = n" "doc_text d = ls"
    using docWithLines_ok [OF assms(1), of n ext] by blast
  have "doc.more d = ext" using updateDoc_more [OF d(1) [unfolded docWithLines_def]] by (simp add: blankDoc_def)
  then have e: "d_sel d = ?sel" "d_hist d = History 0" "d_markers d = (\<lambda>_. TextMarker False)"
    by (cases d, simp add: ext_def)+
  have sel: "sel_ok n ls ?sel" using assms(1) by (simp add: sel_ok_def simpleSelection_def tpos_ok_def)
  have "hist_ok d" using d e sel by (simp add: hist_ok_def calm_def TextMarker_def History_def)
  moreover have "original d = ls" using d(4) e by (simp add: original_def History_def)
  moreover have "\<not> same_op (e_opId env) (h_lastOp (d_hist d))" "h_undoDepth (d_hist d) = None"
    by (simp_all add: e(2) same_op_def History_def split: option.split)
  moreover have "Doc env ls n = setSelection env d ?sel (Some \<lparr>o_bias = None, o_origin = None, o_clearRedo = None\<rparr>)"
    unfolding Doc_def Let_def ext_def [symmetric] d(1) pbind_simps ..
  ultimately show ?thesis
    using setSelection_ok [OF _ env, of d ?sel "Some \<lparr>o_bias = None, o_origin = None, o_clearRedo = None\<rparr>"] d sel
    by (auto simp: replaces_change_def first_char_def)
qed

section \<open>Properties\<close>

lemma undo_ok:
  assumes "hist_ok d" and "plain_env env"
  shows "\<exists>d'. makeChangeFromHistory env back False d = Some (Inr d') \<and> hist_ok d' \<and> d_first d' = d_first d \<and>
    h_undoDepth (d_hist d') = h_undoDepth (d_hist d) \<and> original d' = original d \<and>
    (back \<longrightarrow> fst (historySize d') = fst (historySize d) - 1)"
proof (cases "dropWhile is_sel (rev (source_stack back (d_hist d)))")
  case Nil
  then have all: "\<forall>e \<in> set (source_stack back (d_hist d)). is_sel e" by (simp add: dropWhile_eq_Nil_conv)
  then have "\<not> list_ex (usable False (d_sel d)) (source_stack back (d_hist d))"
    by (auto simp: list_ex_iff usable_def is_sel_def split: hevent.splits)
  then have "makeChangeFromHistory env back False d = Some (Inr d)"
    using assms(2) by (simp add: makeChangeFromHistory_def plain_env_def source_stack_def ret_def split: if_splits)
  then show ?thesis using assms(1) all by (auto simp: historySize_def source_stack_def)
next
  case (Cons ev rest')
  then obtain chs g where ev: "dropWhile is_sel (rev (source_stack back (d_hist d))) = HChange chs g # rest'"
    using hd_dropWhile [of is_sel "rev (source_stack back (d_hist d))"] by (cases ev) auto
  obtain d' anti g' r where d': "makeChangeFromHistory env back False d = Some (Inr d')" "hist_ok d'" "d_first d' = d_first d"
    "doc_text d' = revert (d_first d) (doc_text d) (rev chs)" "h_undoDepth (d_hist d') = h_undoDepth (d_hist d)"
    "source_stack back (d_hist d') = rev rest'" "rev (source_stack (\<not> back) (d_hist d')) = HChange anti g' # r"
    "revert (d_first d) (doc_text d') (rev anti) = doc_text d"
    "base (d_first d) (doc_text d) r = base (d_first d) (doc_text d) (rev (source_stack (\<not> back) (d_hist d)))"
    using makeChangeFromHistory_ok [OF assms ev] by (elim exE conjE) (rule that; assumption)
  have n: "back \<longrightarrow> fst (historySize d') = fst (historySize d) - 1"
  proof
    assume b: "back"
    have "length (filter (\<lambda>e. \<not> is_sel e) xs) = length (filter (\<lambda>e. \<not> is_sel e) (dropWhile is_sel xs))" for xs by (induction xs) auto
    from this [of "rev (h_done (d_hist d))"] show "fst (historySize d') = fst (historySize d) - 1"
      using ev d'(6) b by (simp add: historySize_def source_stack_def rev_filter [symmetric])
  qed
  have "original d' = original d"
  proof (cases "back")
    case True
    have "stack_ok (d_first d) (doc_text d) (rev (h_done (d_hist d)))" using assms(1) by (simp add: hist_ok_def)
    from stack_ok_dropWhile [OF this] ev d'(3,4,6) True show ?thesis by (simp add: original_def source_stack_def)
  next
    case False
    then show ?thesis using d'(3,7-9) by (simp add: original_def source_stack_def)
  qed
  with d' n show ?thesis by blast
qed

text \<open>An environment without an editor, and what a session of edits may do.\<close>

definition plain :: "unit env" where
  "plain = \<lparr>e_inEditor = False, e_opId = None, e_time = 0, e_delay = 0, e_suppressEdits = False, e_beforeChange = None,
     e_beforeSel = None, e_height = (\<lambda>_. 1), e_wholeLine = True, e_sawReadOnly = False\<rparr>"

lemma plain_env_plain [simp]: "plain_env plain"
  by (simp add: plain_env_def plain_def)

definition typed :: "jsstring list \<Rightarrow> pos \<Rightarrow> pos \<Rightarrow> jsstring option \<Rightarrow> change" where
  "typed ls f t origin = \<lparr>c_from = f, c_to = t, c_text = ls, c_origin = origin, c_removed = []\<rparr>"

text \<open>C5: In a document without atomic markers, event handlers or read-only text, every change between two
  positions of the text returns; the text is then the old one with the range replaced, and the history is
  consistent again: undoing and redoing find positions that exist, however the change was merged.
\<close>

theorem makeChange_keeps_history:
  assumes "hist_ok d" and "plain_env env" and "tvalid (d_first d) (doc_text d) (c_from c) (c_to c) (c_text c)"
  shows "\<exists>d'. makeChange env d c ignoreReadOnly = Some (Inr d') \<and> hist_ok d' \<and>
    doc_text d' = trepl (d_first d) (doc_text d) (c_from c) (c_to c) (c_text c)"
  using makeChange_ok [OF assms, of ignoreReadOnly] by blast

lemma Doc_example:
  obtains d where "Doc plain [js ''ab'', js ''c''] 0 = Some (Inr d)" "hist_ok d" "d_first d = 0" "doc_text d = [js ''ab'', js ''c'']"
    "h_undoDepth (d_hist d) = None"
  using Doc_ok [of "[js ''ab'', js ''c'']" plain 0] by auto

lemma typed_example: "tvalid 0 [js ''ab'', js ''c''] (Pos 0 1) (Pos 1 0) [js ''x'', js ''y'']"
  by (simp add: tvalid_def tpos_ok_def less_eq_pos_def js_def)

theorem makeChange_keeps_history_witness:
  "case Doc plain [js ''ab'', js ''c''] 0 of
     Some (Inr d) \<Rightarrow>
       (case makeChange plain d (typed [js ''x'', js ''y''] (Pos 0 1) (Pos 1 0) None) False of
          Some (Inr d') \<Rightarrow> hist_ok d' \<and> doc_text d' = [js ''ax'', js ''yc'']
        | _ \<Rightarrow> False)
   | _ \<Rightarrow> False"
proof -
  obtain d where d: "Doc plain [js ''ab'', js ''c''] 0 = Some (Inr d)" "hist_ok d" "d_first d = 0" "doc_text d = [js ''ab'', js ''c'']"
    by (rule Doc_example)
  have "trepl 0 [js ''ab'', js ''c''] (Pos 0 1) (Pos 1 0) [js ''x'', js ''y''] = [js ''ax'', js ''yc'']" by code_simp
  with makeChange_keeps_history [OF d(2) plain_env_plain, of "typed [js ''x'', js ''y''] (Pos 0 1) (Pos 1 0) None" False] typed_example d
  show ?thesis by (auto simp: typed_def)
qed

text \<open>C6: In a plain environment, undoing right after a change gives back the text before it, when the history is
  consistent with the text, the change starts an event of its own and does something, and the limit of the history
  leaves room for one event. No marker is atomic or clears itself when entered, and none has been cleared.
\<close>

theorem undo_restores_text:
  assumes "hist_ok d" and "plain_env env" and "tvalid (d_first d) (doc_text d) (c_from c) (c_to c) (c_text c)"
    and "deep (d_hist d)" and "\<not> merges env (d_hist d) (c_origin c)" and "\<not> (c_text c = [[]] \<and> c_from c = c_to c)"
  shows "\<exists>d1 d2. makeChange env d c ignoreReadOnly = Some (Inr d1) \<and> undo env d1 = Some (Inr d2) \<and> hist_ok d2 \<and> doc_text d2 = doc_text d"
proof -
  let ?hc = "historyChangeFromChange d (c_from c) (c_to c) (c_text c)"
  obtain d1 r s where d1: "makeChange env d c ignoreReadOnly = Some (Inr d1)" "hist_ok d1" "d_first d1 = d_first d"
    "doc_text d1 = trepl (d_first d) (doc_text d) (c_from c) (c_to c) (c_text c)"
    "rev (h_done (d_hist d1)) = HSel s # HChange [?hc] (Some (h_generation (d_hist d))) # r"
    using makeChange_ok [OF assms(1-3), of ignoreReadOnly] assms(4-6) by blast
  have "dropWhile is_sel (rev (source_stack True (d_hist d1))) = HChange [?hc] (Some (h_generation (d_hist d))) # r"
    using d1(5) by (simp add: source_stack_def)
  from makeChangeFromHistory_ok [OF d1(2) assms(2) this] obtain d2 where "undo env d1 = Some (Inr d2)" "hist_ok d2"
    "doc_text d2 = revert (d_first d) (doc_text d1) [?hc]" unfolding undo_def d1(3) by auto
  then show ?thesis using d1 historyChange_inverse(2) [OF _ assms(3)] assms(1) by (auto simp: hist_ok_def)
qed

theorem undo_restores_text_witness:
  "case Doc plain [js ''ab'', js ''c''] 0 of
     Some (Inr d) \<Rightarrow>
       (\<exists>d1 d2. makeChange plain d (typed [js ''x'', js ''y''] (Pos 0 1) (Pos 1 0) None) False = Some (Inr d1) \<and>
          undo plain d1 = Some (Inr d2) \<and> doc_text d2 = [js ''ab'', js ''c''])
   | _ \<Rightarrow> False"
proof -
  obtain d where d: "Doc plain [js ''ab'', js ''c''] 0 = Some (Inr d)" "hist_ok d" "d_first d = 0" "doc_text d = [js ''ab'', js ''c'']"
    "h_undoDepth (d_hist d) = None"
    by (rule Doc_example)
  have "deep (d_hist d)" "\<not> merges plain (d_hist d) None" using d(5)
    by (auto simp: deep_def merges_def plain_def first_char_def same_op_def split: option.split)
  with undo_restores_text [OF d(2) plain_env_plain, of "typed [js ''x'', js ''y''] (Pos 0 1) (Pos 1 0) None" False] typed_example d
  show ?thesis by (auto simp: typed_def)
qed

text \<open>C7: Redo takes back an undo: in a plain environment, when the history is consistent with the text and has a change
  event, undoing it and then redoing gives the text before the undo, and both operations return. The history is
  consistent after any sequence of changes, undos, redos and selections that overwrite no change event. No marker is
  atomic or clears itself when entered, and none has been cleared.
\<close>

theorem redo_reverts_undo:
  assumes "hist_ok d" and "plain_env env" and "fst (historySize d) > 0"
  shows "\<exists>d1 d2. undo env d = Some (Inr d1) \<and> redo env d1 = Some (Inr d2) \<and> hist_ok d2 \<and> doc_text d2 = doc_text d"
proof -
  have "dropWhile is_sel (rev (h_done (d_hist d))) \<noteq> []"
    using assms(3) by (auto simp: historySize_def filter_empty_conv)
  then obtain chs g r where "dropWhile is_sel (rev (source_stack True (d_hist d))) = HChange chs g # r"
    using hd_dropWhile [of is_sel "rev (h_done (d_hist d))"] unfolding source_stack_def
    by (cases "dropWhile is_sel (rev (h_done (d_hist d)))"; cases "hd (dropWhile is_sel (rev (h_done (d_hist d))))") auto
  from makeChangeFromHistory_ok [OF assms(1,2) this] obtain d1 anti g' r' where d1: "undo env d = Some (Inr d1)" "hist_ok d1"
    "d_first d1 = d_first d" "rev (source_stack False (d_hist d1)) = HChange anti g' # r'" "revert (d_first d) (doc_text d1) (rev anti) = doc_text d"
    unfolding undo_def by auto
  from d1(4) have "dropWhile is_sel (rev (source_stack False (d_hist d1))) = HChange anti g' # r'" by simp
  from makeChangeFromHistory_ok [OF d1(2) assms(2) this] show ?thesis using d1 unfolding redo_def by auto
qed

text \<open>
  What may happen to a document: changes inside the text, undoing, redoing, and selections with any options that do
  not overwrite a change event.
\<close>

inductive edits :: "'st hdoc \<Rightarrow> 'st hdoc \<Rightarrow> bool" where
  start: "edits d d"
| change: "edits d0 d \<Longrightarrow> plain_env env \<Longrightarrow> tvalid (d_first d) (doc_text d) (c_from c) (c_to c) (c_text c) \<Longrightarrow>
    makeChange env d c b = Some (Inr d') \<Longrightarrow> edits d0 d'"
| undone: "edits d0 d \<Longrightarrow> plain_env env \<Longrightarrow> undo env d = Some (Inr d') \<Longrightarrow> edits d0 d'"
| redone: "edits d0 d \<Longrightarrow> plain_env env \<Longrightarrow> redo env d = Some (Inr d') \<Longrightarrow> edits d0 d'"
| selected: "edits d0 d \<Longrightarrow> plain_env env \<Longrightarrow> sel_ok (d_first d) (doc_text d) sel \<Longrightarrow>
    \<not> replaces_change env (d_hist d) options \<Longrightarrow> setSelection env d sel options = Some (Inr d') \<Longrightarrow> edits d0 d'"

fun undo_times :: "'st env \<Rightarrow> nat \<Rightarrow> 'st hdoc \<Rightarrow> 'st hdoc comp" where
  "undo_times env 0 d = ret d"
| "undo_times env (Suc k) d = pbind (undo env d) (undo_times env k)"

lemma edits_ok:
  "edits d0 d \<Longrightarrow> hist_ok d0 \<Longrightarrow> h_undoDepth (d_hist d0) = None \<Longrightarrow>
    hist_ok d \<and> h_undoDepth (d_hist d) = None \<and> original d = original d0"
proof (induction rule: edits.induct)
  case (change d0 d env c b d')
  then show ?case using makeChange_ok [of d env c b] by auto
next
  case (undone d0 d env d')
  then show ?case using undo_ok [of d env True] by (auto simp: undo_def)
next
  case (redone d0 d env d')
  then show ?case using undo_ok [of d env False] by (auto simp: redo_def)
next
  case (selected d0 d env sel options d')
  then show ?case using setSelection_cases [of d env sel options] by auto
qed simp

lemma original_no_changes: "hist_ok d \<Longrightarrow> fst (historySize d) = 0 \<Longrightarrow> original d = doc_text d"
proof -
  have "\<forall>e \<in> set evs. is_sel e \<Longrightarrow> base n T evs = T" for n T evs by (induction n T evs rule: base.induct) auto
  then show "fst (historySize d) = 0 \<Longrightarrow> original d = doc_text d" by (auto simp: original_def historySize_def filter_empty_conv)
qed

lemma undo_times_ok:
  assumes "plain_env env"
  shows "hist_ok d \<Longrightarrow> \<exists>d'. undo_times env (fst (historySize d)) d = Some (Inr d') \<and> doc_text d' = original d"
proof (induction "fst (historySize d)" arbitrary: d)
  case 0
  then show ?case using original_no_changes [of d] by (simp add: ret_def flip: 0(1))
next
  case (Suc k)
  obtain d1 where d1: "undo env d = Some (Inr d1)" "hist_ok d1" "original d1 = original d" "fst (historySize d1) = k"
    using undo_ok [OF Suc(3) assms, of True] Suc(2) unfolding undo_def by auto
  then show ?case using Suc(1) [of d1] by (simp flip: Suc(2))
qed

text \<open>C1: However a new document is edited, by changes that merge in the history or not, undos, redos and selections with any
  options, undoing as many times as the history has events ends with the text the document was made with;
  each undo returns. The one exception are selections that the code takes for a continuation of the last event although
  this is a change, as it is right after a redo: those set in the operation of that event or with the origin of
  the last selection, which overwrite the event. The environment is plain: no handlers that change or cancel edits, and no
  read-only text.
\<close>

theorem undo_all_restores_original:
  assumes "ls \<noteq> []" and "plain_env env0" and "Doc env0 ls n = Some (Inr d0)" and "edits d0 d" and "plain_env env"
  shows "\<exists>d'. undo_times env (fst (historySize d)) d = Some (Inr d') \<and> doc_text d' = ls"
proof -
  have "hist_ok d0" "original d0 = ls" "h_undoDepth (d_hist d0) = None" using Doc_ok [OF assms(1,2), of n] assms(3) by auto
  then show ?thesis using undo_times_ok [OF assms(5), of d] edits_ok [OF assms(4)] by simp
qed

theorem redo_reverts_undo_witness:
  "case Doc plain [js ''ab'', js ''c''] 0 of
     Some (Inr d) \<Rightarrow>
       (\<exists>d1 d2 d3. makeChange plain d (typed [js ''x'', js ''y''] (Pos 0 1) (Pos 1 0) None) False = Some (Inr d1) \<and>
          undo plain d1 = Some (Inr d2) \<and> redo plain d2 = Some (Inr d3) \<and> doc_text d3 = doc_text d1)
   | _ \<Rightarrow> False"
proof -
  obtain d where d: "Doc plain [js ''ab'', js ''c''] 0 = Some (Inr d)" "hist_ok d" "d_first d = 0" "doc_text d = [js ''ab'', js ''c'']"
    "h_undoDepth (d_hist d) = None"
    by (rule Doc_example)
  have "deep (d_hist d)" "\<not> merges plain (d_hist d) None" using d(5)
    by (auto simp: deep_def merges_def plain_def first_char_def same_op_def split: option.split)
  with makeChange_ok [OF d(2) plain_env_plain, of "typed [js ''x'', js ''y''] (Pos 0 1) (Pos 1 0) None" False] typed_example d
  obtain d1 r s ev g where d1: "makeChange plain d (typed [js ''x'', js ''y''] (Pos 0 1) (Pos 1 0) None) False = Some (Inr d1)"
    "hist_ok d1" "rev (h_done (d_hist d1)) = HSel s # HChange ev g # r"
    by (auto simp: typed_def)
  then have "fst (historySize d1) > 0" by (simp add: historySize_def rev_swap)
  from redo_reverts_undo [OF d1(2) plain_env_plain this] d(1) d1(1) show ?thesis by auto
qed

theorem undo_all_restores_original_witness:
  "case Doc plain [js ''ab'', js ''c''] 0 of
     Some (Inr d) \<Rightarrow>
       (case makeChange plain d (typed [js ''x'', js ''y''] (Pos 0 1) (Pos 1 0) None) False of
          Some (Inr d1) \<Rightarrow> (\<exists>d'. undo_times plain (fst (historySize d1)) d1 = Some (Inr d') \<and> doc_text d' = [js ''ab'', js ''c''])
        | _ \<Rightarrow> False)
   | _ \<Rightarrow> False"
proof -
  obtain d where d: "Doc plain [js ''ab'', js ''c''] 0 = Some (Inr d)" "hist_ok d" "d_first d = 0" "doc_text d = [js ''ab'', js ''c'']"
    by (rule Doc_example)
  let ?c = "typed [js ''x'', js ''y''] (Pos 0 1) (Pos 1 0) None"
  have v: "tvalid (d_first d) (doc_text d) (c_from ?c) (c_to ?c) (c_text ?c)" using typed_example d by (simp add: typed_def)
  obtain d1 where d1: "makeChange plain d ?c False = Some (Inr d1)" using makeChange_ok [OF d(2) plain_env_plain v, of False] by auto
  have "edits d d1" by (rule edits.change [OF edits.start plain_env_plain v d1])
  from undo_all_restores_original [OF _ plain_env_plain d(1) this plain_env_plain] d(1) d1 show ?thesis by simp
qed

section \<open>A selection that replaces a change event\<close>

text \<open>
  \<^verbatim>\<open>addSelectionToHistory\<close> takes the last event of the history for a selection of the same operation and
  overwrites it. After a redo the last event is the redone change: setting the cursor before and after a
  redo in one operation drops the change from the history, and it cannot be undone any more.
\<close>

definition in_operation :: "unit env" where
  "in_operation = plain\<lparr>e_opId := Some 5\<rparr>"

definition redo_session :: "(nat \<times> nat) list comp" where
  "redo_session =
     pbind (Doc plain [js ''ab''] 0) (\<lambda>d0.
     pbind (makeChange plain d0 (typed [js ''x''] (Pos 0 0) (Pos 0 0) None) False) (\<lambda>d1.
     pbind (undo plain d1) (\<lambda>d2.
     pbind (setCursor in_operation d2 (Pos 0 1) None) (\<lambda>d3.
     pbind (redo in_operation d3) (\<lambda>d4.
     pbind (setCursor in_operation d4 (Pos 0 2) None) (\<lambda>d5.
       ret [historySize d1, historySize d2, historySize d3, historySize d4, historySize d5]))))))"

lemma selection_overwrites_redone_change: "redo_session = ret [(1, 0), (0, 1), (0, 1), (1, 0), (0, 0)]"
  by code_simp

end
