(* ===== verification/MarkText.thy ===== *)
theory MarkText
  imports UndoRedo
begin

text \<open>
  Making markers and bookmarks (\<^verbatim>\<open>src/js/codemirror/codemirror.js\<close>, section TEXTMARKERS), for a document that
  is in no editor. A marker is identified by a number, which the caller of \<open>markText\<close> chooses for the new
  object; its options are a record \<open>marker\<close>. The main result is that a new marker is found where it was made,
  that nothing else moves, and that clearing it takes its spans away again.
\<close>

section \<open>Definitions\<close>

text \<open>The variables \<open>sawCollapsedSpans\<close>, \<open>sawReadOnlySpans\<close> and \<open>nextMarkerId\<close>.\<close>

record globals =
  g_sawCollapsed :: bool
  g_sawReadOnly :: bool
  g_nextMarkerId :: int

definition new_span :: "nat \<Rightarrow> pos \<Rightarrow> pos \<Rightarrow> int \<Rightarrow> span" where
  "new_span m f t n =
     \<lparr>sp_marker = m, sp_from = (if n = pline f then Some (pch f) else None), sp_to = (if n = pline t then Some (pch t) else None)\<rparr>"

definition line_ids :: "('st, 'x) doc_scheme \<Rightarrow> int \<Rightarrow> int \<Rightarrow> nat list" where
  "line_ids d a b = doc_iter d a b (\<lambda>l out. (False, out @ [l_id l])) []"

text \<open>The first pass over the lines of the marker, from line \<open>n\<close> on.\<close>

definition mark_one :: "nat \<Rightarrow> bool \<Rightarrow> pos \<Rightarrow> pos \<Rightarrow> int \<Rightarrow> nat \<Rightarrow> ('st, 'x) doc_scheme \<Rightarrow> ('st, 'x) doc_scheme" where
  "mark_one m collapsed f t n i d =
     (let d1 = (if collapsed \<and> n \<noteq> pline f then updateLineHeight d i 0 else d)
      in doc_update d1 i (\<lambda>l. addMarkedSpan l (new_span m f t n)))"

fun mark_lines :: "nat \<Rightarrow> bool \<Rightarrow> pos \<Rightarrow> pos \<Rightarrow> int \<Rightarrow> nat list \<Rightarrow> ('st, 'x) doc_scheme \<Rightarrow> ('st, 'x) doc_scheme" where
  "mark_lines m collapsed f t n [] d = d"
| "mark_lines m collapsed f t n (i # ids) d = mark_lines m collapsed f t (n + 1) ids (mark_one m collapsed f t n i d)"

text \<open>The second pass, which hides lines.\<close>

fun hide_lines :: "(nat \<Rightarrow> marker) \<Rightarrow> bool \<Rightarrow> int list \<Rightarrow> ('st, 'x) doc_scheme \<Rightarrow> ('st, 'x) doc_scheme comp" where
  "hide_lines M saw [] d = ret d"
| "hide_lines M saw (n # ns) d =
     pbind (Some (getLine d n)) (\<lambda>l.
     pbind (lineIsHidden M saw d l) (\<lambda>hidden. hide_lines M saw ns (if hidden then updateLineHeight d (l_id l) 0 else d)))"

definition conflicting :: "bool \<Rightarrow> ('st, 'x) hdoc_scheme \<Rightarrow> pos \<Rightarrow> pos \<Rightarrow> marker \<Rightarrow> doc_exn + bool" where
  "conflicting saw d f t mk =
     rbind (conflictingCollapsedRange (d_markers d) saw d (pline f) f t mk) (\<lambda>b.
       if b then Inr True
       else if pline f \<noteq> pline t then conflictingCollapsedRange (d_markers d) saw d (pline t) f t mk else Inr False)"

text \<open>
  A change that is only recorded for a marker has no text. The end of such a change is its own end, which is
  what \<open>changeEnd\<close> gives for the text that is already there.
\<close>

definition mark_change :: "('st, 'x) doc_scheme \<Rightarrow> pos \<Rightarrow> pos \<Rightarrow> change" where
  "mark_change d f t = \<lparr>c_from = f, c_to = t, c_text = getBetween d f t, c_origin = Some (js ''markText''), c_removed = []\<rparr>"

definition set_marker :: "('st, 'x) hdoc_scheme \<Rightarrow> nat \<Rightarrow> marker \<Rightarrow> ('st, 'x) hdoc_scheme" where
  "set_marker d m mk = d\<lparr>d_markers := (d_markers d)(m := mk)\<rparr>"

definition mark_body ::
  "'st env \<Rightarrow> globals \<Rightarrow> ('st, 'x) hdoc_scheme \<Rightarrow> nat \<Rightarrow> pos \<Rightarrow> pos \<Rightarrow> marker \<Rightarrow> bool \<Rightarrow> (globals \<times> ('st, 'x) hdoc_scheme) comp" where
  "mark_body env g d m f t mk addToHistory =
     pbind (Some (if addToHistory then addChangeToHistory (env\<lparr>e_opId := None\<rparr>) d (mark_change d f t) (d_sel d) else Inr d)) (\<lambda>d1.
     let d2 = mark_lines m (mk_collapsed mk) f t (pline f) (line_ids d1 (pline f) (pline t + 1)) d1
     in pbind (if mk_collapsed mk then hide_lines (d_markers d2) (g_sawCollapsed g) [pline f..pline t] d2 else ret d2) (\<lambda>d3.
        let g1 = (if mk_readOnly mk then g\<lparr>g_sawReadOnly := True\<rparr> else g);
            d4 = (if mk_readOnly mk \<and> (h_done (d_hist d3) \<noteq> [] \<or> h_undone (d_hist d3) \<noteq> []) then clearHistory d3 else d3)
        in ret (if mk_collapsed mk
                then (g1\<lparr>g_nextMarkerId := g_nextMarkerId g1 + 1\<rparr>,
                      set_marker d4 m (mk\<lparr>mk_id := g_nextMarkerId g1 + 1, mk_atomic := True\<rparr>))
                else (g1, d4))))"

definition markText ::
  "'st env \<Rightarrow> globals \<Rightarrow> ('st, 'x) hdoc_scheme \<Rightarrow> nat \<Rightarrow> pos \<Rightarrow> pos \<Rightarrow> marker \<Rightarrow> bool \<Rightarrow> (globals \<times> ('st, 'x) hdoc_scheme) comp" where
  "markText env g d m f t opts addToHistory =
     (if cmp f t > 0 \<or> cmp f t = 0 \<and> mk_clearWhenEmpty opts then ret (g, set_marker d m opts)
      else let mk = (if mk_widget opts then opts\<lparr>mk_collapsed := True\<rparr> else opts)
           in pbind (Some (if mk_collapsed mk then conflicting (g_sawCollapsed g) d f t mk else Inr False)) (\<lambda>conflict.
              if conflict then Some (Inl PartialOverlap)
              else mark_body env (if mk_collapsed mk then g\<lparr>g_sawCollapsed := True\<rparr> else g) (set_marker d m mk) m f t mk addToHistory))"

definition doc_markText ::
  "'st env \<Rightarrow> globals \<Rightarrow> ('st, 'x) hdoc_scheme \<Rightarrow> nat \<Rightarrow> pos \<Rightarrow> pos \<Rightarrow> marker \<Rightarrow> bool \<Rightarrow> (globals \<times> ('st, 'x) hdoc_scheme) comp" where
  "doc_markText env g d m f t opts addToHistory =
     pbind (Some (clipPos d (pline f) (Some (pch f)))) (\<lambda>f'.
     pbind (Some (clipPos d (pline t) (Some (pch t)))) (\<lambda>t'.
       markText env g d m f' t' (opts\<lparr>mk_bookmark := False\<rparr>) addToHistory))"

definition setBookmark ::
  "'st env \<Rightarrow> globals \<Rightarrow> ('st, 'x) hdoc_scheme \<Rightarrow> nat \<Rightarrow> pos \<Rightarrow> bool \<Rightarrow> bool \<Rightarrow> (globals \<times> ('st, 'x) hdoc_scheme) comp" where
  "setBookmark env g d m p widget insertLeft =
     pbind (Some (clipPos d (pline p) (Some (pch p)))) (\<lambda>p'.
       markText env g d m p' p' ((TextMarker True)\<lparr>mk_widget := widget, mk_insertLeft := insertLeft, mk_clearWhenEmpty := False\<rparr>) False)"

section \<open>The lines of a new marker\<close>

definition mark_line :: "nat \<Rightarrow> bool \<Rightarrow> pos \<Rightarrow> pos \<Rightarrow> int \<Rightarrow> 'st line \<Rightarrow> 'st line" where
  "mark_line m collapsed f t n l =
     addMarkedSpan (if collapsed \<and> n \<noteq> pline f then l\<lparr>l_height := 0\<rparr> else l) (new_span m f t n)"

lemma mark_line_simps [simp]:
  "l_id (mark_line m collapsed f t n l) = l_id l" "l_text (mark_line m collapsed f t n l) = l_text l"
  "l_spans (mark_line m collapsed f t n l) = l_spans l @ [new_span m f t n]"
  by (simp_all add: mark_line_def addMarkedSpan_def)

lemma mark_one_ok:
  assumes "doc_ok d" and "k < length (doc_lines d)"
  shows "doc_ok (mark_one m collapsed f t n (l_id (doc_lines d ! k)) d) \<and>
    doc_lines (mark_one m collapsed f t n (l_id (doc_lines d ! k)) d) = (doc_lines d)[k := mark_line m collapsed f t n (doc_lines d ! k)] \<and>
    d_first (mark_one m collapsed f t n (l_id (doc_lines d ! k)) d) = d_first d \<and>
    doc.more (mark_one m collapsed f t n (l_id (doc_lines d ! k)) d) = doc.more d"
proof -
  let ?i = "l_id (doc_lines d ! k)"
  define d1 where "d1 = (if collapsed \<and> n \<noteq> pline f then updateLineHeight d ?i 0 else d)"
  have d1: "doc_ok d1" "doc_lines d1 = (doc_lines d)[k := if collapsed \<and> n \<noteq> pline f then (doc_lines d ! k)\<lparr>l_height := 0\<rparr> else doc_lines d ! k]"
    "d_first d1 = d_first d" "doc.more d1 = doc.more d"
    using assms doc_update_ok [OF assms refl, of "\<lambda>l. l\<lparr>l_height := 0\<rparr>"] by (auto simp: d1_def updateLineHeight_def)
  then have k: "k < length (doc_lines d1)" "?i = l_id (doc_lines d1 ! k)" using assms(2) by auto
  have "mark_one m collapsed f t n ?i d = doc_update d1 ?i (\<lambda>l. addMarkedSpan l (new_span m f t n))" by (simp add: mark_one_def d1_def)
  then show ?thesis using doc_update_ok [OF d1(1) k, of "\<lambda>l. addMarkedSpan l (new_span m f t n)"] d1 assms(2)
    by (simp add: addMarkedSpan_def mark_line_def)
qed

lemma mark_lines_ok:
  "doc_ok d \<Longrightarrow> k + j \<le> length (doc_lines d) \<Longrightarrow> d' = mark_lines m collapsed f t (d_first d + int k) (map l_id (take j (drop k (doc_lines d)))) d \<Longrightarrow>
    doc_ok d' \<and> d_first d' = d_first d \<and> doc.more d' = doc.more d \<and>
    doc_lines d' = map (\<lambda>i. if k \<le> i \<and> i < k + j then mark_line m collapsed f t (d_first d + int i) (doc_lines d ! i) else doc_lines d ! i) [0..<length (doc_lines d)]"
proof (induction j arbitrary: k d)
  case 0
  have "\<not> (k \<le> i \<and> i < k + 0)" for i by simp
  then show ?case using 0 by (simp only: if_False map_nth mark_lines.simps take_0 list.map simp_thms)
next
  case (Suc j)
  let ?ls = "doc_lines d" and ?d1 = "mark_one m collapsed f t (d_first d + int k) (l_id (doc_lines d ! k)) d"
  have k: "k < length ?ls" using Suc(3) by simp
  note one = mark_one_ok [OF Suc(2) k, of m collapsed f t "d_first d + int k"]
  have "take (Suc j) (drop k ?ls) = ?ls ! k # take j (drop (Suc k) ?ls)" using k by (simp add: Cons_nth_drop_Suc [symmetric])
  moreover have "drop (Suc k) (doc_lines ?d1) = drop (Suc k) ?ls" using one by simp
  ultimately have "d' = mark_lines m collapsed f t (d_first ?d1 + int (Suc k)) (map l_id (take j (drop (Suc k) (doc_lines ?d1)))) ?d1"
    using Suc(4) one by (simp add: add_ac)
  from Suc(1) [OF _ _ this] one Suc(3) have "doc_ok d' \<and> d_first d' = d_first d \<and> doc.more d' = doc.more d \<and>
    doc_lines d' = map (\<lambda>i. if Suc k \<le> i \<and> i < Suc k + j then mark_line m collapsed f t (d_first d + int i) (doc_lines ?d1 ! i) else doc_lines ?d1 ! i)
      [0..<length ?ls]" by simp
  moreover have "map (\<lambda>i. if Suc k \<le> i \<and> i < Suc k + j then mark_line m collapsed f t (d_first d + int i) (doc_lines ?d1 ! i) else doc_lines ?d1 ! i)
      [0..<length ?ls] =
    map (\<lambda>i. if k \<le> i \<and> i < k + Suc j then mark_line m collapsed f t (d_first d + int i) (?ls ! i) else ?ls ! i) [0..<length ?ls]"
    using one k by (intro map_cong) (auto simp: nth_list_update)
  ultimately show ?case by metis
qed

lemma line_ids_ok:
  "doc_ok d \<Longrightarrow> F \<le> E \<Longrightarrow> E < length (doc_lines d) \<Longrightarrow>
    line_ids d (d_first d + int F) (d_first d + int E + 1) = map l_id (take (Suc E - F) (drop F (doc_lines d)))"
  using doc_iter_ok [of d F "Suc E" "\<lambda>l out. (False, out @ [l_id l])" "[]"] by (simp add: line_ids_def iter_collect add_ac)

definition fresh_marker :: "nat \<Rightarrow> ('st, 'x) doc_scheme \<Rightarrow> bool" where
  "fresh_marker m d \<longleftrightarrow> (\<forall>sps \<in> set (doc_spans d). m \<notin> sp_marker ` set sps)"

text \<open>The spans of a document before and after marking the lines \<open>F\<close> to \<open>E\<close>.\<close>

definition marked :: "nat \<Rightarrow> pos \<Rightarrow> pos \<Rightarrow> nat \<Rightarrow> nat \<Rightarrow> int \<Rightarrow> span list list \<Rightarrow> span list list" where
  "marked m f t F E n ss = map (\<lambda>i. if F \<le> i \<and> i \<le> E then ss ! i @ [new_span m f t (n + int i)] else ss ! i) [0..<length ss]"

lemma length_marked [simp]: "length (marked m f t F E n ss) = length ss"
  by (simp add: marked_def)

lemma nth_marked: "i < length ss \<Longrightarrow> marked m f t F E n ss ! i = (if F \<le> i \<and> i \<le> E then ss ! i @ [new_span m f t (n + int i)] else ss ! i)"
  by (simp add: marked_def)

lemma span_marker_new [simp]: "sp_marker (new_span m f t n) = m"
  by (simp add: new_span_def)

lemma marked_old:
  "i < length ss \<Longrightarrow> m' \<noteq> m \<Longrightarrow> getMarkedSpanFor (marked m f t F E n ss ! i) m' = getMarkedSpanFor (ss ! i) m'"
  by (simp add: nth_marked getMarkedSpanFor_append split: option.split)

lemma marked_new:
  assumes "i < length ss" and "\<forall>sps \<in> set ss. m \<notin> sp_marker ` set sps"
  shows "getMarkedSpanFor (marked m f t F E n ss ! i) m = (if F \<le> i \<and> i \<le> E then Some (new_span m f t (n + int i)) else None)"
proof -
  have "getMarkedSpanFor (ss ! i) m = None" using assms nth_mem [of i ss] unfolding getMarkedSpanFor_None by blast
  then show ?thesis using assms(1) by (simp add: nth_marked getMarkedSpanFor_append)
qed

lemma extent_marked_new:
  assumes "\<forall>sps \<in> set ss. m \<notin> sp_marker ` set sps" and "F \<le> E" and "E < length ss"
    and "f = Pos (n + int F) fc" and "t = Pos (n + int E) ec"
  shows "extent (marked m f t F E n ss) m F E"
  using assms by (auto simp: extent_def marked_new new_span_def)

lemma extent_marked_old: "m' \<noteq> m \<Longrightarrow> extent ss m' a b \<Longrightarrow> extent (marked m f t F E n ss) m' a b"
  by (simp add: extent_def marked_old cong: conj_cong)

lemma markers_ok_marked:
  assumes ok: "markers_ok M d" and fresh: "fresh_marker m d" and FE: "F \<le> E" "E < length (doc_lines d)"
    and ft: "f = Pos (n + int F) fc" "t = Pos (n + int E) ec" and b: "mk_bookmark mk \<longrightarrow> F = E"
    and d': "doc_spans d' = marked m f t F E n (doc_spans d)"
  shows "markers_ok (M(m := mk)) d'"
proof -
  let ?ss = "doc_spans d" and ?ss' = "marked m f t F E n (doc_spans d)"
  have len: "E < length ?ss" using FE by (simp add: doc_spans_def)
  have fr: "\<forall>sps \<in> set ?ss. m \<notin> sp_marker ` set sps" using fresh by (simp add: fresh_marker_def)
  have "distinct (map sp_marker sps)" if sps: "sps \<in> set ?ss'" for sps
  proof -
    obtain i where i: "i < length ?ss" "sps = ?ss' ! i" using sps by (auto simp: in_set_conv_nth)
    then have "distinct (map sp_marker (?ss ! i))" "m \<notin> sp_marker ` set (?ss ! i)" using ok fr nth_mem [OF i(1)] unfolding markers_ok_def by blast+
    then show ?thesis using i by (simp add: nth_marked)
  qed
  moreover have "\<exists>a b. extent ?ss' m' a b \<and> (mk_bookmark ((M(m := mk)) m') \<longrightarrow> a = b)" if m': "m' \<in> sp_marker ` \<Union> (set ` set ?ss')" for m'
  proof (cases "m' = m")
    case True
    then show ?thesis using extent_marked_new [OF fr FE(1) len ft] b by auto
  next
    case False
    obtain sps sp where sps: "sps \<in> set ?ss'" "sp \<in> set sps" "m' = sp_marker sp" using m' by auto
    then obtain i where i: "i < length ?ss" "sp \<in> set (?ss' ! i)" by (metis in_set_conv_nth length_marked)
    then have "sp \<in> set (?ss ! i)" using False sps(3) by (auto simp: nth_marked split: if_splits)
    then have "m' \<in> sp_marker ` \<Union> (set ` set ?ss)" using sps(3) nth_mem [OF i(1)] by blast
    then obtain a b where "extent ?ss m' a b" "mk_bookmark (M m') \<longrightarrow> a = b" using ok unfolding markers_ok_def by blast
    then have "extent ?ss' m' a b \<and> (mk_bookmark ((M(m := mk)) m') \<longrightarrow> a = b)" using extent_marked_old [OF False] False by simp
    then show ?thesis by blast
  qed
  ultimately show ?thesis unfolding markers_ok_def d' by blast
qed

lemma find_new_loop:
  assumes "\<And>i. k \<le> i \<Longrightarrow> i \<le> E \<Longrightarrow> getMarkedSpanFor (ss ! i) m = Some (new_span m f t (n + int i))"
    and "f = Pos (n + int F) fc" and "t = Pos (n + int E) ec" and "F \<le> k" and "k \<le> E"
  shows "(k = F \<and> f0 = None) \<or> (F < k \<and> f0 = Some f) \<Longrightarrow>
    find_loop m 0 (map (\<lambda>i. (n + int i, ss ! i)) [k..<Suc E]) f0 None = FoundRange f (Some t)"
  using assms
proof (induction "E - k" arbitrary: k f0)
  case 0
  then have k: "k = E" by simp
  have "getMarkedSpanFor (ss ! E) m = Some (new_span m f t (n + int E))" using 0(3) [of E] k by simp
  then show ?case using 0(2,4-6) k by (auto simp: new_span_def Let_def)
next
  case (Suc x)
  then have "k < E" by simp
  have "getMarkedSpanFor (ss ! k) m = Some (new_span m f t (n + int k))" using Suc(4) [of k] \<open>k < E\<close> by simp
  moreover have "[k..<Suc E] = k # [Suc k..<Suc E]" using \<open>k < E\<close> by (simp add: upt_conv_Cons del: upt_Suc)
  moreover have "find_loop m 0 (map (\<lambda>i. (n + int i, ss ! i)) [Suc k..<Suc E]) (Some f) None = FoundRange f (Some t)"
    by (rule Suc(1)) (use Suc \<open>k < E\<close> in auto)
  ultimately show ?case using Suc(3,5-7) \<open>k < E\<close> by (auto simp: new_span_def Let_def simp del: upt_Suc)
qed

lemma marker_lines_spans:
  "marker_lines d m = map (\<lambda>i. (d_first d + int i, doc_spans d ! i)) (filter (\<lambda>i. getMarkedSpanFor (doc_spans d ! i) m \<noteq> None) [0..<length (doc_spans d)])"
proof -
  have "zip (map (\<lambda>i. d_first d + int i) [0..<length (collapse (d_root d))]) (map l_spans (collapse (d_root d))) =
      map (\<lambda>k. (d_first d + int k, doc_spans d ! k)) [0..<length (doc_spans d)]"
    by (rule nth_equalityI) (simp_all add: doc_spans_def doc_lines_def)
  then show ?thesis by (simp add: marker_lines_def filter_map comp_def)
qed

lemma find_loop_cong:
  "\<forall>i \<in> set ks. getMarkedSpanFor (ss' ! i) m = getMarkedSpanFor (ss ! i) m \<Longrightarrow>
    find_loop m side (map (\<lambda>i. (n + int i, ss' ! i)) ks) f t = find_loop m side (map (\<lambda>i. (n + int i, ss ! i)) ks) f t"
proof (induction ks arbitrary: f t)
  case (Cons k ks)
  then have e: "getMarkedSpanFor (ss' ! k) m = getMarkedSpanFor (ss ! k) m" by simp
  have IH: "find_loop m side (map (\<lambda>i. (n + int i, ss' ! i)) ks) f t = find_loop m side (map (\<lambda>i. (n + int i, ss ! i)) ks) f t" for f t
    by (rule Cons(1)) (use Cons(2) in simp)
  show ?case by (simp only: list.map find_loop.simps e IH)
qed simp

lemma find_old:
  assumes "doc_spans d' = marked m f t F E n (doc_spans d)" and "d_first d' = d_first d" and "m' \<noteq> m" and "M' m' = M m'"
  shows "marker_find M' d' m' side = marker_find M d m' side"
proof -
  let ?ss = "doc_spans d" and ?ss' = "doc_spans d'"
  have len: "length ?ss' = length ?ss" by (simp add: assms(1))
  have eq: "\<forall>i < length ?ss. getMarkedSpanFor (?ss' ! i) m' = getMarkedSpanFor (?ss ! i) m'" by (simp add: assms(1) marked_old assms(3))
  have "filter (\<lambda>i. getMarkedSpanFor (?ss' ! i) m' \<noteq> None) [0..<length ?ss] = filter (\<lambda>i. getMarkedSpanFor (?ss ! i) m' \<noteq> None) [0..<length ?ss]"
    using eq by (intro filter_cong) auto
  then show ?thesis using eq unfolding marker_find_def marker_lines_spans len assms(2,4)
    by (auto simp: Let_def split: option.split intro!: find_loop_cong)
qed

lemma find_new:
  assumes "doc_spans d' = marked m f t F E n (doc_spans d)" and "d_first d' = n" and "fresh_marker m d" and "F \<le> E" and "E < length (doc_spans d)"
    and "f = Pos (n + int F) fc" and "t = Pos (n + int E) ec"
  shows "marker_find M d' m (Some 0) = FoundRange f (Some t)"
proof -
  have fr: "\<forall>sps \<in> set (doc_spans d). m \<notin> sp_marker ` set sps" using assms(3) by (simp add: fresh_marker_def)
  have "extent (doc_spans d') m F E" unfolding assms(1) by (rule extent_marked_new [OF fr assms(4-7)])
  moreover have "getMarkedSpanFor (doc_spans d' ! i) m = Some (new_span m f t (n + int i))" if "F \<le> i" "i \<le> E" for i
    using that assms(5) by (simp add: assms(1) marked_new [OF _ fr])
  ultimately show ?thesis using find_new_loop [of F E "doc_spans d'" m f t n F fc ec None] assms(2,4,6,7)
    by (simp add: marker_find_def marker_lines_extent Let_def del: upt_Suc)
qed

lemma spans_ok_marked:
  assumes ok: "spans_ok d" and t: "doc_text d' = doc_text d" and d': "doc_spans d' = marked m f t F E (d_first d) (doc_spans d)"
    and FE: "F \<le> E" "E < length (doc_lines d)" and ft: "f = Pos (d_first d + int F) (int fc)" "t = Pos (d_first d + int E) (int ec)"
    and in_text: "fc \<le> length (doc_text d ! F)" "ec \<le> length (doc_text d ! E)" "f \<le> t"
  shows "spans_ok d'"
  unfolding spans_ok_def
proof
  fix l assume "l \<in> set (doc_lines d')"
  then obtain i where i: "i < length (doc_lines d')" "l = doc_lines d' ! i" by (auto simp: in_set_conv_nth)
  have len: "length (doc_lines d') = length (doc_lines d)" using t by (metis length_doc_text)
  have l: "l_text l = doc_text d ! i" "l_spans l = marked m f t F E (d_first d) (doc_spans d) ! i"
    using i len arg_cong [OF t, of "\<lambda>x. x ! i"] arg_cong [OF d', of "\<lambda>x. x ! i"] by (simp_all add: doc_text_def doc_spans_def)
  have "line_spans_ok (doc_text d ! i) (doc_spans d ! i)"
    using ok i len by (simp add: spans_ok_def doc_text_def doc_spans_def)
  moreover have "span_ok (int (length (doc_text d ! i))) (new_span m f t (d_first d + int i))"
    using ft in_text by (auto simp: span_ok_def new_span_def Pos_le_iff)
  ultimately show "line_spans_ok (l_text l) (l_spans l)" using l i len by (auto simp: line_spans_ok_def nth_marked doc_spans_def)
qed

section \<open>Hiding lines and conflicts\<close>

text \<open>Two documents that differ in the heights of lines only.\<close>

definition same_but_heights :: "('st, 'x) doc_scheme \<Rightarrow> ('st, 'x) doc_scheme \<Rightarrow> bool" where
  "same_but_heights d d' \<longleftrightarrow>
     doc_ok d' \<and> d_first d' = d_first d \<and> doc.more d' = doc.more d \<and> doc_text d' = doc_text d \<and> doc_spans d' = doc_spans d"

lemma markers_ok_spans: "doc_spans d' = doc_spans d \<Longrightarrow> markers_ok M d' = markers_ok M d"
  by (simp add: markers_ok_def)

lemma spans_ok_zip: "spans_ok d \<longleftrightarrow> (\<forall>p \<in> set (zip (doc_text d) (doc_spans d)). line_spans_ok (fst p) (snd p))"
  unfolding spans_ok_def doc_text_def doc_spans_def zip_map_map zip_same_conv_map by auto

lemma spans_ok_same: "doc_text d' = doc_text d \<Longrightarrow> doc_spans d' = doc_spans d \<Longrightarrow> spans_ok d' = spans_ok d"
  by (simp add: spans_ok_zip)

lemma updateLineHeight_same:
  assumes "doc_ok d" and "k < length (doc_lines d)"
  shows "same_but_heights d (updateLineHeight d (l_id (doc_lines d ! k)) h)"
  using doc_update_ok [OF assms refl, of "\<lambda>l. l\<lparr>l_height := h\<rparr>"] assms(2)
  by (auto simp: same_but_heights_def updateLineHeight_def doc_text_def doc_spans_def map_update_same)

lemma hide_lines_ok:
  "doc_ok d \<Longrightarrow> markers_ok M d \<Longrightarrow> spans_ok d \<Longrightarrow> \<forall>n \<in> set ns. d_first d \<le> n \<and> n < d_first d + int (length (doc_lines d)) \<Longrightarrow>
    \<exists>d'. hide_lines M saw ns d = Some (Inr d') \<and> same_but_heights d d'"
proof (induction ns arbitrary: d)
  case Nil
  then show ?case by (simp add: ret_def same_but_heights_def)
next
  case (Cons n ns)
  define k where "k = nat (n - d_first d)"
  have k: "k < length (doc_lines d)" "n = d_first d + int k" using Cons(5) by (auto simp: k_def)
  obtain b where b: "lineIsHidden M saw d (doc_lines d ! k) = Some (Inr b)" using lineIsHidden_returns [OF Cons(2-4) k(1)] by blast
  define d1 where "d1 = (if b then updateLineHeight d (l_id (doc_lines d ! k)) 0 else d)"
  have s: "same_but_heights d d1" using updateLineHeight_same [OF Cons(2) k(1)] Cons(2) by (auto simp: d1_def same_but_heights_def)
  have len: "length (doc_lines d1) = length (doc_lines d)" using s unfolding same_but_heights_def by (metis length_doc_text)
  have f: "doc_ok d1" "d_first d1 = d_first d" and ts: "doc_text d1 = doc_text d" "doc_spans d1 = doc_spans d"
    using s by (simp_all add: same_but_heights_def)
  have "\<forall>n \<in> set ns. d_first d1 \<le> n \<and> n < d_first d1 + int (length (doc_lines d1))" using Cons(5) unfolding f len by simp
  from Cons(1) [OF f(1) iffD2 [OF markers_ok_spans [OF ts(2)] Cons(3)] iffD2 [OF spans_ok_same [OF ts] Cons(4)] this]
  obtain d' where d': "hide_lines M saw ns d1 = Some (Inr d')" "same_but_heights d1 d'" by blast
  moreover have "hide_lines M saw (n # ns) d = hide_lines M saw ns d1"
    using getLine_ok [OF Cons(2) k(1)] b by (simp add: k(2) d1_def)
  moreover have "same_but_heights d d'" using s d'(2) by (simp add: same_but_heights_def)
  ultimately show ?case by simp
qed

lemma conflict_returns:
  assumes "doc_ok d" and "markers_ok M d" and "k < length (doc_lines d)"
  shows "\<exists>b. conflictingCollapsedRange M saw d (d_first d + int k) f t mk = Inr b"
proof -
  have "\<exists>b. conflict_loop M d f t mk sps = Inr b" if "set sps \<subseteq> set (l_spans (doc_lines d ! k))" for sps
    using that
  proof (induction sps)
    case (Cons sp sps)
    then obtain b where b: "conflict_loop M d f t mk sps = Inr b" by auto
    obtain a e where "extent (doc_spans d) (sp_marker sp) a e" by (rule span_extent [OF assms(2,3)]) (use Cons(2) in auto)
    then obtain r where r: "found_range (marker_find M d (sp_marker sp) (Some 0)) = Inr r"
      using find_both_loop [of "doc_spans d" "sp_marker sp" a e a None "d_first d" None] extent_order [of "doc_spans d" "sp_marker sp" a e]
      by (auto simp: marker_find_def marker_lines_extent found_range_def simp del: upt_Suc)
    show ?case by (simp add: Let_def r b)
  qed simp
  then show ?thesis by (simp add: conflictingCollapsedRange_def getLine_ok [OF assms(1,3)])
qed

lemma conflicting_returns:
  assumes "doc_ok d" and "markers_ok (d_markers d) d" and "pline f = d_first d + int F" "F < length (doc_lines d)"
    and "pline t = d_first d + int E" "E < length (doc_lines d)"
  shows "\<exists>b. conflicting saw d f t mk = Inr b"
  using conflict_returns [OF assms(1,2,4), of saw f t mk] conflict_returns [OF assms(1,2,6), of saw f t mk] assms(3,5)
  by (auto simp: conflicting_def)

section \<open>The whole operation\<close>

lemma mark_lines_spans:
  assumes "doc_ok d" and FE: "F \<le> E" "E < length (doc_lines d)" and ft: "pline f = d_first d + int F" "pline t = d_first d + int E"
    and d': "d' = mark_lines m collapsed f t (pline f) (line_ids d (pline f) (pline t + 1)) d"
  shows "doc_ok d' \<and> d_first d' = d_first d \<and> doc.more d' = doc.more d \<and> doc_text d' = doc_text d \<and>
    doc_spans d' = marked m f t F E (d_first d) (doc_spans d)"
proof -
  have "d' = mark_lines m collapsed f t (d_first d + int F) (map l_id (take (Suc E - F) (drop F (doc_lines d)))) d"
    unfolding d' ft by (simp only: line_ids_ok [OF assms(1) FE])
  note ok = mark_lines_ok [OF assms(1) _ this]
  have "F + (Suc E - F) = Suc E" using FE by simp
  then have *: "doc_ok d'" "d_first d' = d_first d" "doc.more d' = doc.more d"
    "doc_lines d' = map (\<lambda>i. if F \<le> i \<and> i < Suc E then mark_line m collapsed f t (d_first d + int i) (doc_lines d ! i) else doc_lines d ! i)
       [0..<length (doc_lines d)]" using ok FE by simp_all
  then have "doc_text d' = doc_text d" by (intro nth_equalityI) (simp_all add: doc_text_def)
  moreover have "doc_spans d' = marked m f t F E (d_first d) (doc_spans d)"
    using *(4) by (intro nth_equalityI) (simp_all add: doc_spans_def nth_marked less_Suc_eq_le)
  ultimately show ?thesis using * by simp
qed

definition unmarked :: "('st, 'x) hdoc_scheme \<Rightarrow> ('st, 'x) hdoc_scheme" where
  "unmarked d = d\<lparr>d_markers := \<lambda>_. TextMarker False\<rparr>"

text \<open>The change that is recorded for a marker is never merged into the event before it.\<close>

lemma not_merged: "\<not> merges (env\<lparr>e_opId := None\<rparr>) h (c_origin (mark_change d f t))"
  by (cases "h_lastOp h") (simp_all add: merges_def same_op_def first_char_def mark_change_def js_def)

lemma marker_updates [simp]:
  "getBetween (d\<lparr>d_markers := M\<rparr>) f t = getBetween d f t" "doc_text (d\<lparr>d_markers := M\<rparr>) = doc_text d"
  "new_event (d\<lparr>d_markers := M\<rparr>) c evs = new_event d c evs" "doc_ok (d\<lparr>d_markers := M\<rparr>) = doc_ok d"
  "doc_lines (d\<lparr>d_markers := M\<rparr>) = doc_lines d" "doc_spans (d\<lparr>d_markers := M\<rparr>) = doc_spans d"
  "doc_spans (d\<lparr>d_hist := h\<rparr>) = doc_spans d"
  by (simp_all add: new_event_def historyChangeFromChange_def attachLocalSpans_def getBetween_def doc_iter_def d_size_def
      doc_text_def doc_spans_def doc_lines_def doc_ok_def cong: option.case_cong hevent.case_cong)

lemma history_of_mark:
  fixes d :: "('st, 'x) hdoc_scheme"
  assumes h: "hist_ok (unmarked d)" and f: "tpos_ok (d_first d) (doc_text d) f" and t: "tpos_ok (d_first d) (doc_text d) t" and "f \<le> t"
  shows "\<exists>h'. addChangeToHistory (env\<lparr>e_opId := None\<rparr>) (set_marker d m mk) (mark_change (set_marker d m mk) f t) s =
    Inr ((set_marker d m mk)\<lparr>d_hist := h'\<rparr>)"
proof -
  let ?u = "unmarked d" and ?c = "mark_change (set_marker d m mk) f t"
  have u: "d_first ?u = d_first d" "doc_text ?u = doc_text d" "d_hist ?u = d_hist d" by (simp_all add: unmarked_def)
  have ok: "doc_ok d" "stack_ok (d_first ?u) (doc_text ?u) (rev (h_done (d_hist d)))" using h by (simp_all add: hist_ok_def u) (simp add: unmarked_def)
  have "getBetween d f t = tbetween (d_first d) (doc_text d) f t" by (rule getBetween_text [OF ok(1) f t assms(4)])
  then have "tvalid (d_first ?u) (doc_text ?u) (c_from ?c) (c_to ?c) (c_text ?c)"
    using f t assms(4) by (simp add: mark_change_def set_marker_def tvalid_def u tbetween_def)
  from new_event_ok [OF h ok(2) this refl] obtain evs' where "new_event ?u ?c (h_done (d_hist d)) = Inr evs'" by blast
  then have "new_event (set_marker d m mk) ?c (h_done (d_hist (set_marker d m mk))) = Inr evs'" by (simp add: unmarked_def set_marker_def)
  then show ?thesis by (simp add: addChangeToHistory_def not_merged Let_def) (rule exI, rule refl)
qed

definition marker_of :: "marker \<Rightarrow> marker" where
  "marker_of opts = (if mk_widget opts then opts\<lparr>mk_collapsed := True\<rparr> else opts)"

definition without :: "nat \<Rightarrow> span list \<Rightarrow> span list" where
  "without m sps = (case getMarkedSpanFor sps m of None \<Rightarrow> sps | Some sp \<Rightarrow> removeMarkedSpan sps sp)"

lemma without_marked:
  assumes "\<forall>sps \<in> set ss. m \<notin> sp_marker ` set sps"
  shows "map (without m) (marked m f t F E n ss) = ss"
proof (rule nth_equalityI)
  fix i assume "i < length (map (without m) (marked m f t F E n ss))"
  then have i: "i < length ss" by simp
  then have m: "m \<notin> sp_marker ` set (ss ! i)" using assms by (metis nth_mem)
  then have "remove1 sp (ss ! i @ [sp]) = ss ! i" if "sp_marker sp = m" for sp using that by (auto simp: remove1_append)
  then show "map (without m) (marked m f t F E n ss) ! i = ss ! i" using i m marked_new [OF i assms, of f t F E n]
    by (auto simp: without_def removeMarkedSpan_def nth_marked getMarkedSpanFor_None)
qed simp

text \<open>What a document looks like with a new marker \<open>m\<close> between \<open>f\<close> and \<open>t\<close>.\<close>

definition has_new ::
  "('st, 'x) hdoc_scheme \<Rightarrow> ('st, 'x) hdoc_scheme \<Rightarrow> nat \<Rightarrow> marker \<Rightarrow> pos \<Rightarrow> pos \<Rightarrow> bool" where
  "has_new d d' m mk f t \<longleftrightarrow>
     doc_ok d' \<and> d_first d' = d_first d \<and> doc_text d' = doc_text d \<and> d_sel d' = d_sel d \<and>
     map (without m) (doc_spans d') = doc_spans d \<and> mk_cleared (d_markers d' m) = mk_cleared mk \<and>
     markers_ok (d_markers d') d' \<and> spans_ok d' \<and> marker_find (d_markers d') d' m (Some 0) = FoundRange f (Some t) \<and>
     (\<forall>m'. m' \<noteq> m \<longrightarrow> d_markers d' m' = d_markers d m' \<and> (\<forall>side. marker_find (d_markers d') d' m' side = marker_find (d_markers d) d m' side))"

lemma has_newI:
  assumes d: "markers_ok (d_markers d) d" "spans_ok d" "fresh_marker m d"
    and f: "tpos_ok (d_first d) (doc_text d) f" and t: "tpos_ok (d_first d) (doc_text d) t" and "f \<le> t"
    and FE: "pline f = d_first d + int F" "pline t = d_first d + int E" "F \<le> E" and b: "mk_bookmark mk \<longrightarrow> F = E"
    and d': "doc_ok d'" "d_first d' = d_first d" "doc_text d' = doc_text d" "d_sel d' = d_sel d" "d_markers d' = (d_markers d)(m := mk)"
      "doc_spans d' = marked m f t F E (d_first d) (doc_spans d)"
  shows "has_new d d' m mk f t"
proof -
  obtain F' fc where f': "f = Pos (d_first d + int F') (int fc)" "F' < length (doc_text d)" "fc \<le> length (doc_text d ! F')" by (rule tpos_okE [OF f])
  obtain E' ec where t': "t = Pos (d_first d + int E') (int ec)" "E' < length (doc_text d)" "ec \<le> length (doc_text d ! E')" by (rule tpos_okE [OF t])
  have eq: "F' = F" "E' = E" using FE f' t' by simp_all
  have len: "E < length (doc_lines d)" "E < length (doc_spans d)" using t'(2) eq by (simp_all add: doc_text_def doc_spans_def)
  note ft = f'(1) [unfolded eq] t'(1) [unfolded eq]
  have "markers_ok (d_markers d') d'" unfolding d'(5) by (rule markers_ok_marked [OF d(1,3) FE(3) len(1) ft b d'(6)])
  moreover have "spans_ok d'" by (rule spans_ok_marked [OF d(2) d'(3,6) FE(3) len(1) ft]) (use f' t' eq assms(6) in simp_all)
  moreover have "marker_find (d_markers d') d' m (Some 0) = FoundRange f (Some t)" by (rule find_new [OF d'(6,2) d(3) FE(3) len(2) ft])
  moreover have "marker_find (d_markers d') d' m' side = marker_find (d_markers d) d m' side" if "m' \<noteq> m" for m' side
    by (rule find_old [OF d'(6,2) that]) (simp add: d'(5) that)
  ultimately show ?thesis using d' without_marked [of "doc_spans d" m f t F E "d_first d"] d(3) by (simp add: has_new_def fresh_marker_def)
qed

lemma marker_find_updates:
  assumes "\<forall>m. mk_bookmark (M' m) = mk_bookmark (M m)" and "doc_spans d' = doc_spans d" and "d_first d' = d_first d"
  shows "marker_find M' d' m side = marker_find M d m side" "markers_ok M' d' = markers_ok M d"
  using assms by (simp_all add: marker_find_def marker_lines_spans markers_ok_def)

lemma has_new_update:
  assumes "has_new d d' m mk f t" and "\<forall>m. mk_bookmark (d_markers d'' m) = mk_bookmark (d_markers d' m)"
    and "\<forall>m'. m' \<noteq> m \<longrightarrow> d_markers d'' m' = d_markers d' m'" "mk_cleared (d_markers d'' m) = mk_cleared (d_markers d' m)"
    and "doc_ok d''" "doc_spans d'' = doc_spans d'" "d_first d'' = d_first d'" "doc_text d'' = doc_text d'" "d_sel d'' = d_sel d'"
  shows "has_new d d'' m mk f t"
  using assms(1,3-9) marker_find_updates [OF assms(2,6,7)] spans_ok_same [OF assms(8,6)] by (simp add: has_new_def)

lemma has_new_doc_ok: "has_new d d' m mk f t \<Longrightarrow> doc_ok d'"
  by (simp add: has_new_def)

lemma has_new_clearHistory: "has_new d d' m mk f t \<Longrightarrow> has_new d (clearHistory d') m mk f t"
  by (rule has_new_update) (simp_all add: clearHistory_def has_new_doc_ok)

lemma has_new_set_marker:
  "has_new d d' m mk f t \<Longrightarrow> mk_bookmark mk' = mk_bookmark (d_markers d' m) \<Longrightarrow> mk_cleared mk' = mk_cleared (d_markers d' m) \<Longrightarrow>
    has_new d (set_marker d' m mk') m mk f t"
  by (rule has_new_update) (simp_all add: set_marker_def has_new_doc_ok)

lemma mark_body_ok:
  fixes d :: "('st, 'x) hdoc_scheme"
  assumes d: "doc_ok d" "markers_ok (d_markers d) d" "spans_ok d" "fresh_marker m d"
    and f: "tpos_ok (d_first d) (doc_text d) f" and t: "tpos_ok (d_first d) (doc_text d) t" and "f \<le> t"
    and b: "mk_bookmark mk \<longrightarrow> pline f = pline t" and h: "addToHistory \<longrightarrow> hist_ok (unmarked d)"
  shows "\<exists>g' d'. mark_body env g (set_marker d m mk) m f t mk addToHistory = Some (Inr (g', d')) \<and> has_new d d' m mk f t"
proof -
  let ?d0 = "set_marker d m mk"
  obtain F where F: "pline f = d_first d + int F" "F < length (doc_text d)" by (rule tpos_okE [OF f]) simp
  obtain E where E: "pline t = d_first d + int E" "E < length (doc_text d)" by (rule tpos_okE [OF t]) simp
  have FE: "F \<le> E" using assms(7) F E by (auto simp: less_eq_pos_def)
  have bFE: "mk_bookmark mk \<longrightarrow> F = E" using b F E by simp
  obtain d1 where d1: "(if addToHistory then addChangeToHistory (env\<lparr>e_opId := None\<rparr>) ?d0 (mark_change ?d0 f t) (d_sel ?d0) else Inr ?d0) = Inr d1"
    "doc_ok d1" "d_first d1 = d_first d" "doc_text d1 = doc_text d" "doc_spans d1 = doc_spans d" "d_sel d1 = d_sel d"
    "d_markers d1 = (d_markers d)(m := mk)"
  proof (cases addToHistory)
    case True
    then obtain h' where "addChangeToHistory (env\<lparr>e_opId := None\<rparr>) ?d0 (mark_change ?d0 f t) (d_sel ?d0) = Inr (?d0\<lparr>d_hist := h'\<rparr>)"
      using history_of_mark [OF _ f t assms(7)] h by blast
    then show ?thesis using True d(1) by (intro that [of "?d0\<lparr>d_hist := h'\<rparr>"]) (simp_all add: set_marker_def)
  next
    case False
    then show ?thesis using d(1) by (intro that [of ?d0]) (simp_all add: set_marker_def)
  qed
  define d2 where "d2 = mark_lines m (mk_collapsed mk) f t (pline f) (line_ids d1 (pline f) (pline t + 1)) d1"
  have len: "length (doc_lines d1) = length (doc_text d)" using d1(4) by (metis length_doc_text)
  have "doc_ok d2 \<and> d_first d2 = d_first d1 \<and> doc.more d2 = doc.more d1 \<and> doc_text d2 = doc_text d1 \<and>
    doc_spans d2 = marked m f t F E (d_first d1) (doc_spans d1)"
    by (rule mark_lines_spans [OF d1(2) FE _ _ _ d2_def]) (use F E len d1(3) in simp_all)
  then have d2: "doc_ok d2" "d_first d2 = d_first d" "doc.more d2 = doc.more d1" "doc_text d2 = doc_text d"
    "doc_spans d2 = marked m f t F E (d_first d) (doc_spans d)" using d1 by simp_all
  have new: "has_new d d2 m mk f t" using hdoc_more [OF d2(3)] d1
    by (intro has_newI [OF d(2-4) f t assms(7) F(1) E(1) FE bFE d2(1,2,4) _ _ d2(5)]) simp_all
  obtain d3 where d3: "(if mk_collapsed mk then hide_lines (d_markers d2) (g_sawCollapsed g) [pline f..pline t] d2 else ret d2) = Some (Inr d3)"
    "has_new d d3 m mk f t" "d_markers d3 m = mk"
  proof (cases "mk_collapsed mk")
    case True
    have ok: "markers_ok (d_markers d2) d2" "spans_ok d2" using new by (simp_all add: has_new_def)
    have "length (doc_lines d2) = length (doc_text d)" using d2(4) by (metis length_doc_text)
    then have "\<forall>n \<in> set [pline f..pline t]. d_first d2 \<le> n \<and> n < d_first d2 + int (length (doc_lines d2))" using F E d2(2) by simp
    from hide_lines_ok [OF d2(1) ok this] obtain d3 where "hide_lines (d_markers d2) (g_sawCollapsed g) [pline f..pline t] d2 = Some (Inr d3)"
      "same_but_heights d2 d3" by blast
    moreover from this(2) have "has_new d d3 m mk f t" "d_markers d3 m = mk" using hdoc_more [of d3 d2] hdoc_more [OF d2(3)] d1(7)
      by (auto intro!: has_new_update [OF new] simp: same_but_heights_def)
    ultimately show ?thesis using True by (intro that) simp_all
  next
    case False
    moreover have "d_markers d2 m = mk" using hdoc_more [OF d2(3)] d1(7) by auto
    ultimately show ?thesis using new by (intro that) (simp_all add: ret_def)
  qed
  define d4 where "d4 = (if mk_readOnly mk \<and> (h_done (d_hist d3) \<noteq> [] \<or> h_undone (d_hist d3) \<noteq> []) then clearHistory d3 else d3)"
  have d4: "has_new d d4 m mk f t" "mk_bookmark (d_markers d4 m) = mk_bookmark mk" "mk_cleared (d_markers d4 m) = mk_cleared mk"
    using d3 has_new_clearHistory [OF d3(2)] by (simp_all add: d4_def) (simp_all add: clearHistory_def)
  have "has_new d (set_marker d4 m (mk\<lparr>mk_id := i, mk_atomic := True\<rparr>)) m mk f t" for i
    by (rule has_new_set_marker [OF d4(1)]) (simp_all add: d4(2,3))
  with d4(1) show ?thesis unfolding mark_body_def d1(1) pbind_simps Let_def d2_def [symmetric] d3(1) d4_def [symmetric]
    by (simp add: ret_def)
qed

lemma markText_ok:
  fixes d :: "('st, 'x) hdoc_scheme"
  assumes d: "doc_ok d" "markers_ok (d_markers d) d" "spans_ok d" "fresh_marker m d"
    and f: "tpos_ok (d_first d) (doc_text d) f" and t: "tpos_ok (d_first d) (doc_text d) t"
    and ft: "f < t \<or> f = t \<and> \<not> mk_clearWhenEmpty opts" and b: "mk_bookmark opts \<longrightarrow> pline f = pline t"
    and h: "addToHistory \<longrightarrow> hist_ok (unmarked d)"
  shows "if mk_collapsed (marker_of opts) \<and> conflicting (g_sawCollapsed g) d f t (marker_of opts) = Inr True
    then markText env g d m f t opts addToHistory = Some (Inl PartialOverlap)
    else \<exists>g' d'. markText env g d m f t opts addToHistory = Some (Inr (g', d')) \<and> has_new d d' m (marker_of opts) f t"
proof -
  let ?mk = "marker_of opts" and ?g = "if mk_collapsed (marker_of opts) then g\<lparr>g_sawCollapsed := True\<rparr> else g"
  have le: "f \<le> t" and guard: "\<not> (cmp f t > 0 \<or> cmp f t = 0 \<and> mk_clearWhenEmpty opts)" using ft by auto
  obtain F where F: "pline f = d_first d + int F" "F < length (doc_lines d)" by (rule tpos_okE [OF f]) (simp add: doc_text_def)
  obtain E where E: "pline t = d_first d + int E" "E < length (doc_lines d)" by (rule tpos_okE [OF t]) (simp add: doc_text_def)
  obtain c where c: "conflicting (g_sawCollapsed g) d f t ?mk = Inr c" using conflicting_returns [OF d(1,2) F E] by blast
  have eq: "markText env g d m f t opts addToHistory =
    (if mk_collapsed ?mk \<and> c then Some (Inl PartialOverlap) else mark_body env ?g (set_marker d m ?mk) m f t ?mk addToHistory)"
    unfolding markText_def if_not_P [OF guard] marker_of_def [symmetric] Let_def c by (cases c) simp_all
  have "mk_bookmark ?mk \<longrightarrow> pline f = pline t" using b by (simp add: marker_of_def)
  from mark_body_ok [OF d f t le this h] show ?thesis unfolding eq c by simp
qed

text \<open>A marker that is not attached to any line is not found.\<close>

lemma find_unattached:
  assumes "fresh_marker m d"
  shows "marker_find M (d\<lparr>d_markers := M'\<rparr>) m side = NotFound"
proof -
  have "getMarkedSpanFor sps m = None" if "sps \<in> set (map l_spans (collapse (d_root d)))" for sps
    using assms that getMarkedSpanFor_in [of sps m] by (cases "getMarkedSpanFor sps m") (force simp: fresh_marker_def doc_spans_def doc_lines_def)+
  then have "marker_lines (d\<lparr>d_markers := M'\<rparr>) m = []" by (auto simp: marker_lines_def filter_empty_conv dest!: set_zip_rightD)
  then show ?thesis by (simp add: marker_find_def)
qed

text \<open>C15: In a document that is in no editor, a new marker that does not partly overlap a collapsed one is found between the two
  positions it was made with; the text, the selection and the positions of all other markers stay, and the
  document stays well-formed. A marker that is collapsed and overlaps another collapsed one partly raises. An empty marker
  that is cleared when empty, as markers are by default, and one whose ends are in the wrong order is returned without being
  attached, so that it is not found, and nothing else changes. When the marker is to be recorded, the history
  has to be consistent.\<close>

theorem markText_then_find:
  fixes d :: "('st, 'x) hdoc_scheme"
  assumes d: "doc_ok d" "markers_ok (d_markers d) d" "spans_ok d" "fresh_marker m d"
    and f: "tpos_ok (d_first d) (doc_text d) f" and t: "tpos_ok (d_first d) (doc_text d) t"
    and b: "mk_bookmark opts \<longrightarrow> pline f = pline t" and h: "addToHistory \<longrightarrow> hist_ok (unmarked d)"
  shows "if t < f \<or> f = t \<and> mk_clearWhenEmpty opts
    then \<exists>d'. markText env g d m f t opts addToHistory = Some (Inr (g, d')) \<and> d' = d\<lparr>d_markers := (d_markers d)(m := opts)\<rparr> \<and>
      (\<forall>side. marker_find (d_markers d') d' m side = NotFound)
    else if mk_collapsed (marker_of opts) \<and> conflicting (g_sawCollapsed g) d f t (marker_of opts) = Inr True
    then markText env g d m f t opts addToHistory = Some (Inl PartialOverlap)
    else \<exists>g' d'. markText env g d m f t opts addToHistory = Some (Inr (g', d')) \<and> has_new d d' m (marker_of opts) f t"
proof (cases "t < f \<or> f = t \<and> mk_clearWhenEmpty opts")
  case True
  then have "cmp f t > 0 \<or> cmp f t = 0 \<and> mk_clearWhenEmpty opts" by auto
  then have "markText env g d m f t opts addToHistory = Some (Inr (g, set_marker d m opts))"
    unfolding markText_def by (simp add: ret_def)
  then show ?thesis using True find_unattached [OF d(4)] by (simp add: set_marker_def)
next
  case False
  then have "f < t \<or> f = t \<and> \<not> mk_clearWhenEmpty opts" by auto
  from markText_ok [OF d f t this b h, of g env] show ?thesis unfolding if_not_P [OF False] .
qed

section \<open>Clearing a marker\<close>

lemma foldl_update:
  assumes "\<And>l. l_id (u l) = l_id l"
  shows "doc_ok d \<Longrightarrow> distinct ns \<Longrightarrow> \<forall>n \<in> set ns. n < length (doc_lines d) \<Longrightarrow>
    d' = foldl (\<lambda>d i. doc_update d i u) d (map (\<lambda>n. l_id (doc_lines d ! n)) ns) \<Longrightarrow>
    doc_ok d' \<and> d_first d' = d_first d \<and> doc.more d' = doc.more d \<and>
    doc_lines d' = map (\<lambda>n. if n \<in> set ns then u (doc_lines d ! n) else doc_lines d ! n) [0..<length (doc_lines d)]"
proof (induction ns arbitrary: d)
  case Nil
  then show ?case by (simp add: map_nth)
next
  case (Cons n ns)
  let ?d1 = "doc_update d (l_id (doc_lines d ! n)) u"
  have n: "n < length (doc_lines d)" "n \<notin> set ns" using Cons(3,4) by simp_all
  have d1: "doc_ok ?d1" "doc_lines ?d1 = (doc_lines d)[n := u (doc_lines d ! n)]" "d_first ?d1 = d_first d"
    using doc_update_ok [OF Cons(2) n(1) refl, of u] assms by simp_all
  have "map (\<lambda>k. l_id (doc_lines d ! k)) ns = map (\<lambda>k. l_id (doc_lines ?d1 ! k)) ns" using n(2) unfolding d1(2)
    by (intro map_cong refl) (metis nth_list_update_neq)
  then have "d' = foldl (\<lambda>d i. doc_update d i u) ?d1 (map (\<lambda>k. l_id (doc_lines ?d1 ! k)) ns)" unfolding Cons(5)
    by (simp only: list.map foldl.simps)
  from Cons(1) [OF d1(1) _ _ this] have *: "doc_ok d'" "d_first d' = d_first d" "doc.more d' = doc.more d"
    "doc_lines d' = map (\<lambda>k. if k \<in> set ns then u (doc_lines ?d1 ! k) else doc_lines ?d1 ! k) [0..<length (doc_lines d)]"
    using Cons(3,4) d1 by simp_all
  have "map (\<lambda>k. if k \<in> set ns then u (doc_lines ?d1 ! k) else doc_lines ?d1 ! k) [0..<length (doc_lines d)] =
    map (\<lambda>k. if k \<in> set (n # ns) then u (doc_lines d ! k) else doc_lines d ! k) [0..<length (doc_lines d)]"
    using n d1(2) by (intro map_cong refl) (auto simp: nth_list_update)
  with * show ?case by simp
qed

lemma marker_clear_spans:
  assumes "doc_ok d" and "\<not> mk_cleared (d_markers d m)"
  shows "doc_ok (marker_clear d m) \<and> d_first (marker_clear d m) = d_first d \<and> doc_text (marker_clear d m) = doc_text d \<and>
    doc_spans (marker_clear d m) = map (without m) (doc_spans d) \<and> mk_cleared (d_markers (marker_clear d m) m)"
proof -
  let ?ls = "doc_lines d" and ?P = "\<lambda>l. getMarkedSpanFor (l_spans l) m \<noteq> None"
  define u where "u = (\<lambda>l :: 'a line. l\<lparr>l_spans := removeMarkedSpan (l_spans l) (the (getMarkedSpanFor (l_spans l) m))\<rparr>)"
  define ns where "ns = filter (\<lambda>n. ?P (?ls ! n)) [0..<length ?ls]"
  define d' where "d' = foldl (\<lambda>d i. doc_update d i u) d (map (\<lambda>n. l_id (?ls ! n)) ns)"
  have "filter ?P ?ls = map (\<lambda>n. ?ls ! n) ns" unfolding ns_def
    by (subst (1) map_nth [symmetric]) (simp only: filter_map comp_def)
  then have ids: "map l_id (filter ?P (collapse (d_root d))) = map (\<lambda>n. l_id (?ls ! n)) ns" by (simp add: doc_lines_def)
  have *: "doc_ok d' \<and> d_first d' = d_first d \<and> doc.more d' = doc.more d \<and>
    doc_lines d' = map (\<lambda>n. if n \<in> set ns then u (?ls ! n) else ?ls ! n) [0..<length ?ls]"
    by (rule foldl_update [OF _ assms(1) _ _ d'_def]) (simp_all add: u_def ns_def)
  then have t: "doc_text d' = doc_text d" by (intro nth_equalityI) (simp_all add: doc_text_def u_def)
  have "doc_spans d' = map (without m) (doc_spans d)"
    using * by (intro nth_equalityI) (auto simp: doc_spans_def u_def ns_def without_def split: option.split)
  moreover have "marker_clear d m = d'\<lparr>d_markers := (d_markers d)(m := (d_markers d m)\<lparr>mk_cleared := True\<rparr>),
                 d_cantEdit := (if mk_atomic (d_markers d m) then False else d_cantEdit d)\<rparr>"
    using assms(2) unfolding marker_clear_def ids Let_def d'_def u_def by simp
  ultimately show ?thesis using * t by (simp add: doc_spans_def doc_text_def doc_lines_def)
qed
lemma mark_example_doc:
  "\<exists>d. Doc plain [js ''ab'', js ''c''] 0 = Some (Inr d) \<and> hist_ok d \<and> d_first d = 0 \<and> doc_text d = [js ''ab'', js ''c''] \<and>
     doc_spans d = [[], []] \<and> hist_ok (unmarked d)"
proof -
  obtain d where d: "Doc plain [js ''ab'', js ''c''] 0 = Some (Inr d)" "hist_ok d" "d_first d = 0" "doc_text d = [js ''ab'', js ''c'']"
    by (rule Doc_example)
  have "case Doc plain [js ''ab'', js ''c''] 0 of Some (Inr d) \<Rightarrow> doc_spans d = [[], []] | _ \<Rightarrow> False" by code_simp
  then have "doc_spans d = [[], []]" by (simp add: d(1))
  moreover have "hist_ok (unmarked d)" using d(2) by (simp add: hist_ok_def unmarked_def calm_def TextMarker_def)
  ultimately show ?thesis using d by blast
qed

lemma no_spans_ok: "\<forall>sps \<in> set (doc_spans d). sps = [] \<Longrightarrow> markers_ok M d \<and> spans_ok d \<and> fresh_marker m d"
  by (auto simp: markers_ok_def spans_ok_def fresh_marker_def doc_spans_def line_spans_ok_def)

definition example_globals :: globals where
  "example_globals = \<lparr>g_sawCollapsed = False, g_sawReadOnly = False, g_nextMarkerId = 0\<rparr>"

theorem markText_then_find_witness:
  "case Doc plain [js ''ab'', js ''c''] 0 of
     Some (Inr d) \<Rightarrow>
       (case markText plain example_globals d 0 (Pos 0 1) (Pos 1 0) ((TextMarker False)\<lparr>mk_collapsed := True\<rparr>) True of
          Some (Inr (g', d')) \<Rightarrow> marker_find (d_markers d') d' 0 (Some 0) = FoundRange (Pos 0 1) (Some (Pos 1 0)) \<and> doc_text d' = doc_text d
        | _ \<Rightarrow> False)
   | _ \<Rightarrow> False"
proof -
  obtain d where d: "Doc plain [js ''ab'', js ''c''] 0 = Some (Inr d)" "hist_ok d" "d_first d = 0" "doc_text d = [js ''ab'', js ''c'']"
    "doc_spans d = [[], []]" "hist_ok (unmarked d)" using mark_example_doc by blast
  have "case Doc plain [js ''ab'', js ''c''] 0 of Some (Inr d) \<Rightarrow>
      conflicting False d (Pos 0 1) (Pos 1 0) ((TextMarker False)\<lparr>mk_collapsed := True\<rparr>) = Inr False | _ \<Rightarrow> False" by code_simp
  then have c: "conflicting (g_sawCollapsed example_globals) d (Pos 0 1) (Pos 1 0) ((TextMarker False)\<lparr>mk_collapsed := True\<rparr>) = Inr False"
    by (simp add: d(1) example_globals_def)
  have ok: "markers_ok (d_markers d) d \<and> spans_ok d \<and> fresh_marker 0 d" by (rule no_spans_ok) (simp add: d(5))
  have "\<exists>g' d'. markText plain example_globals d 0 (Pos 0 1) (Pos 1 0) ((TextMarker False)\<lparr>mk_collapsed := True\<rparr>) True = Some (Inr (g', d')) \<and>
    has_new d d' 0 ((TextMarker False)\<lparr>mk_collapsed := True\<rparr>) (Pos 0 1) (Pos 1 0)"
    using markText_then_find [of d 0 "Pos 0 1" "Pos 1 0" "(TextMarker False)\<lparr>mk_collapsed := True\<rparr>" True plain example_globals] d ok c
    by (simp add: tpos_ok_def js_def less_pos_def TextMarker_def marker_of_def hist_ok_def)
  then show ?thesis using d(1) by (auto simp: has_new_def)
qed

text \<open>C16: In a document that is in no editor, clearing a marker right after it was made takes away exactly the spans that making it added: every line
  has the spans it had before, in the same order, and the text is the same.\<close>

theorem markText_then_clear:
  fixes d :: "('st, 'x) hdoc_scheme"
  assumes d: "doc_ok d" "markers_ok (d_markers d) d" "spans_ok d" "fresh_marker m d"
    and f: "tpos_ok (d_first d) (doc_text d) f" and t: "tpos_ok (d_first d) (doc_text d) t"
    and ft: "f < t \<or> f = t \<and> \<not> mk_clearWhenEmpty opts" and b: "mk_bookmark opts \<longrightarrow> pline f = pline t"
    and h: "addToHistory \<longrightarrow> hist_ok (unmarked d)" and made: "markText env g d m f t opts addToHistory = Some (Inr (g', d'))"
    and "\<not> mk_cleared opts"
  shows "doc_spans (marker_clear d' m) = doc_spans d \<and> doc_text (marker_clear d' m) = doc_text d \<and> doc_ok (marker_clear d' m) \<and>
    mk_cleared (d_markers (marker_clear d' m) m)"
proof -
  have "has_new d d' m (marker_of opts) f t"
    using markText_ok [OF d f t ft b h, of g env] unfolding made by (auto split: if_splits)
  then have "doc_ok d'" "map (without m) (doc_spans d') = doc_spans d" "doc_text d' = doc_text d" "\<not> mk_cleared (d_markers d' m)"
    using assms(11) by (simp_all add: has_new_def marker_of_def)
  then show ?thesis using marker_clear_spans [of d' m] by simp
qed

theorem markText_then_clear_witness:
  "case Doc plain [js ''ab'', js ''c''] 0 of
     Some (Inr d) \<Rightarrow>
       (case markText plain example_globals d 0 (Pos 0 1) (Pos 1 0) (TextMarker False) True of
          Some (Inr (g', d')) \<Rightarrow> doc_spans d' \<noteq> [[], []] \<and> doc_spans (marker_clear d' 0) = [[], []]
        | _ \<Rightarrow> False)
   | _ \<Rightarrow> False"
proof -
  obtain d where d: "Doc plain [js ''ab'', js ''c''] 0 = Some (Inr d)" "hist_ok d" "d_first d = 0" "doc_text d = [js ''ab'', js ''c'']"
    "doc_spans d = [[], []]" "hist_ok (unmarked d)" using mark_example_doc by blast
  have ok: "markers_ok (d_markers d) d \<and> spans_ok d \<and> fresh_marker 0 d" by (rule no_spans_ok) (simp add: d(5))
  have "case Doc plain [js ''ab'', js ''c''] 0 of Some (Inr d) \<Rightarrow>
      (case markText plain example_globals d 0 (Pos 0 1) (Pos 1 0) (TextMarker False) True of
          Some (Inr (g', d')) \<Rightarrow> doc_spans d' \<noteq> [[], []] | _ \<Rightarrow> False) | _ \<Rightarrow> False" by code_simp
  then obtain g' d' where m: "markText plain example_globals d 0 (Pos 0 1) (Pos 1 0) (TextMarker False) True = Some (Inr (g', d'))" "doc_spans d' \<noteq> [[], []]"
    unfolding d(1) by (auto split: option.splits sum.splits)
  have "doc_spans (marker_clear d' 0) = doc_spans d"
    using markText_then_clear [of d 0 "Pos 0 1" "Pos 1 0" "TextMarker False" True plain example_globals g' d'] d ok m(1)
    by (simp add: tpos_ok_def js_def less_pos_def TextMarker_def hist_ok_def)
  then show ?thesis using d(1,5) m by simp
qed

end
