(* ===== verification/StringStream.thy ===== *)
theory StringStream
  imports Columns
begin

text \<open>
  \<^verbatim>\<open>CodeMirror.StringStream\<close>, the reader that the tokenizers of language modes work on
  (\<^verbatim>\<open>src/js/codemirror/codemirror.js\<close>, section STRING STREAM). The object is the record \<open>stream\<close>, and
  each method is a function that returns its result and the changed stream. Characters read at
  the end of the line are the empty string, which is why single characters are strings here.
\<close>

record stream =
  s_pos :: nat
  s_start :: nat
  s_string :: jsstring
  s_tabSize :: nat
  s_lastColumnPos :: nat
  s_lastColumnValue :: int
  s_lineStart :: nat

definition StringStream :: "jsstring \<Rightarrow> nat \<Rightarrow> stream" where
  "StringStream string tabSize =
     \<lparr>s_pos = 0, s_start = 0, s_string = string, s_tabSize = (if tabSize = 0 then 8 else tabSize),
      s_lastColumnPos = 0, s_lastColumnValue = 0, s_lineStart = 0\<rparr>"

text \<open>What a character is matched against: a string, or a regular expression or predicate.\<close>

datatype matcher = MStr jsstring | MPred "jchar \<Rightarrow> bool"

definition charAt :: "jsstring \<Rightarrow> nat \<Rightarrow> jsstring" where
  "charAt s i = (if i < length s then [s ! i] else [])"

definition eol :: "stream \<Rightarrow> bool" where
  "eol st \<longleftrightarrow> s_pos st \<ge> length (s_string st)"

definition sol :: "stream \<Rightarrow> bool" where
  "sol st \<longleftrightarrow> s_pos st = s_lineStart st"

definition peek :: "stream \<Rightarrow> jchar option" where
  "peek st = (case charAt (s_string st) (s_pos st) of [] \<Rightarrow> None | c # _ \<Rightarrow> Some c)"

definition next_char :: "stream \<Rightarrow> jchar option \<times> stream" where
  "next_char st =
     (if s_pos st < length (s_string st)
      then (Some (s_string st ! s_pos st), st\<lparr>s_pos := s_pos st + 1\<rparr>)
      else (None, st))"

definition matches :: "matcher \<Rightarrow> jsstring \<Rightarrow> bool" where
  "matches m ch =
     (case m of MStr s \<Rightarrow> ch = s | MPred p \<Rightarrow> (case ch of [] \<Rightarrow> False | c # _ \<Rightarrow> p c))"

definition eat :: "matcher \<Rightarrow> stream \<Rightarrow> jsstring option \<times> stream" where
  "eat m st =
     (let ch = charAt (s_string st) (s_pos st)
      in if matches m ch then (Some ch, st\<lparr>s_pos := s_pos st + 1\<rparr>) else (None, st))"

text \<open>The loop of \<open>eatWhile\<close> goes on while \<open>eat\<close> returns a string that is not empty.\<close>

function eatWhile_loop :: "matcher \<Rightarrow> stream \<Rightarrow> stream" where
  "eatWhile_loop m st =
     (case eat m st of
        (Some (c # cs), st') \<Rightarrow> eatWhile_loop m st'
      | (_, st') \<Rightarrow> st')"
  by pat_completeness auto
termination
  by (relation "measure (\<lambda>(m, st). length (s_string st) - s_pos st)")
    (auto simp: eat_def charAt_def Let_def split: if_splits)

declare eatWhile_loop.simps [simp del]

definition eatWhile :: "matcher \<Rightarrow> stream \<Rightarrow> bool \<times> stream" where
  "eatWhile m st = (let st' = eatWhile_loop m st in (s_pos st' > s_pos st, st'))"

function eatSpace_loop :: "stream \<Rightarrow> stream" where
  "eatSpace_loop st =
     (if s_pos st < length (s_string st) \<and> is_space (s_string st ! s_pos st)
      then eatSpace_loop (st\<lparr>s_pos := s_pos st + 1\<rparr>) else st)"
  by pat_completeness auto
termination
  by (relation "measure (\<lambda>st. length (s_string st) - s_pos st)") auto

declare eatSpace_loop.simps [simp del]

definition eatSpace :: "stream \<Rightarrow> bool \<times> stream" where
  "eatSpace st = (let st' = eatSpace_loop st in (s_pos st' > s_pos st, st'))"

definition skipToEnd :: "stream \<Rightarrow> stream" where
  "skipToEnd st = st\<lparr>s_pos := length (s_string st)\<rparr>"

definition skipTo :: "jchar \<Rightarrow> stream \<Rightarrow> bool \<times> stream" where
  "skipTo c st =
     (case index_from c (s_string st) (s_pos st) of
        Some found \<Rightarrow> (True, st\<lparr>s_pos := found\<rparr>)
      | None \<Rightarrow> (False, st))"

text \<open>Backing up beyond the beginning of the line has no defined meaning: \<open>None\<close>.\<close>

definition backUp :: "nat \<Rightarrow> stream \<Rightarrow> stream option" where
  "backUp n st = (if n \<le> s_pos st then Some (st\<lparr>s_pos := s_pos st - n\<rparr>) else None)"

definition line_start_column :: "stream \<Rightarrow> int" where
  "line_start_column st =
     (if s_lineStart st \<noteq> 0
      then countColumn (s_string st) (Some (s_lineStart st)) (s_tabSize st) 0 0 else 0)"

definition column :: "stream \<Rightarrow> int \<times> stream" where
  "column st =
     (let st' = (if s_lastColumnPos st < s_start st
                 then st\<lparr>s_lastColumnValue :=
                          countColumn (s_string st) (Some (s_start st)) (s_tabSize st)
                            (s_lastColumnPos st) (nat (s_lastColumnValue st)),
                         s_lastColumnPos := s_start st\<rparr>
                 else st)
      in (s_lastColumnValue st' - line_start_column st', st'))"

definition indentation :: "stream \<Rightarrow> int" where
  "indentation st = countColumn (s_string st) None (s_tabSize st) 0 0 - line_start_column st"

text \<open>
  \<open>match\<close> with a string pattern; \<open>lower\<close> stands for \<^verbatim>\<open>toLowerCase\<close>. With a regular expression \<open>re\<close>
  (a function that gives the index and the text of the first match) a match that does not
  begin at the position is ignored.
\<close>

definition match_string ::
  "(jsstring \<Rightarrow> jsstring) \<Rightarrow> jsstring \<Rightarrow> bool \<Rightarrow> bool \<Rightarrow> stream \<Rightarrow> bool \<times> stream" where
  "match_string lower pattern consume caseInsensitive st =
     (let cased = (\<lambda>s. if caseInsensitive then lower s else s);
          sub = take (length pattern) (drop (s_pos st) (s_string st))
      in if cased sub = cased pattern
         then (True, if consume then st\<lparr>s_pos := s_pos st + length pattern\<rparr> else st)
         else (False, st))"

definition match_regexp ::
  "(jsstring \<Rightarrow> (nat \<times> jsstring) option) \<Rightarrow> bool \<Rightarrow> stream \<Rightarrow> jsstring option \<times> stream" where
  "match_regexp re consume st =
     (case re (drop (s_pos st) (s_string st)) of
        None \<Rightarrow> (None, st)
      | Some (index, m) \<Rightarrow>
          if index > 0 then (None, st)
          else (Some m, if consume then st\<lparr>s_pos := s_pos st + length m\<rparr> else st))"

definition current :: "stream \<Rightarrow> jsstring" where
  "current st = js_slice (s_string st) (int (s_start st)) (int (s_pos st))"

text \<open>\<open>inner\<close> runs with the first characters hidden; \<^verbatim>\<open>finally\<close> restores the line start even when
  it throws.\<close>

definition hideFirstChars ::
  "nat \<Rightarrow> (stream \<Rightarrow> ('e + 'a) \<times> stream) \<Rightarrow> stream \<Rightarrow> ('e + 'a) \<times> stream" where
  "hideFirstChars n inner st =
     (let (r, st') = inner (st\<lparr>s_lineStart := s_lineStart st + n\<rparr>)
      in (r, st'\<lparr>s_lineStart := s_lineStart st' - n\<rparr>))"

named_theorems stream_defs \<open>the methods of streams\<close>

lemmas [stream_defs] = eol_def sol_def peek_def next_char_def matches_def eat_def eatWhile_def
  eatSpace_def skipToEnd_def skipTo_def current_def charAt_def StringStream_def

lemmas [js_eval] = stream_defs

section \<open>Well-formed streams and what reading keeps\<close>

text \<open>
  Reading never changes the text, the token start or the tab size, never moves backwards and
  never moves beyond the end: \<open>reads st st'\<close>. It is reflexive and transitive, and every reading
  method satisfies it.
\<close>

definition stream_ok :: "stream \<Rightarrow> bool" where
  "stream_ok st \<longleftrightarrow> s_start st \<le> s_pos st \<and> s_pos st \<le> length (s_string st)"

definition reads :: "stream \<Rightarrow> stream \<Rightarrow> bool" where
  "reads st st' \<longleftrightarrow>
     (\<exists>p. st' = st\<lparr>s_pos := p\<rparr> \<and> s_pos st \<le> p \<and>
       (s_pos st \<le> length (s_string st) \<longrightarrow> p \<le> length (s_string st)))"

lemma reads_refl [simp, intro]: "reads st st"
  unfolding reads_def by (rule exI [of _ "s_pos st"]) simp

lemma reads_update [intro]:
  "s_pos st \<le> p \<Longrightarrow> (s_pos st \<le> length (s_string st) \<Longrightarrow> p \<le> length (s_string st)) \<Longrightarrow>
    reads st (st\<lparr>s_pos := p\<rparr>)"
  unfolding reads_def by blast

lemma reads_trans [trans]: "reads st st' \<Longrightarrow> reads st' st'' \<Longrightarrow> reads st st''"
  by (auto simp: reads_def)

lemma reads_pos: "reads st st' \<Longrightarrow> s_pos st \<le> s_pos st'"
  by (auto simp: reads_def)

lemma reads_frame:
  "reads st st' \<Longrightarrow> s_string st' = s_string st \<and> s_start st' = s_start st \<and> s_tabSize st' = s_tabSize st \<and>
    s_lineStart st' = s_lineStart st"
  by (auto simp: reads_def)

lemma reads_ok: "reads st st' \<Longrightarrow> stream_ok st \<Longrightarrow> stream_ok st'"
  by (auto simp: reads_def stream_ok_def)

lemma next_char_reads: "reads st (snd (next_char st))"
  by (auto simp: next_char_def)

lemma next_char_Some:
  "next_char st = (Some c, st') \<Longrightarrow>
    reads st st' \<and> s_pos st' = Suc (s_pos st) \<and> s_pos st < length (s_string st) \<and>
    c = s_string st ! s_pos st"
  by (auto simp: next_char_def split: if_splits)

lemma next_char_None: "next_char st = (None, st') \<Longrightarrow> st' = st \<and> eol st"
  by (auto simp: next_char_def eol_def split: if_splits)

lemma next_char_not_eol: "\<not> eol st \<Longrightarrow> fst (next_char st) \<noteq> None"
  by (simp add: next_char_def eol_def)

text \<open>A matcher that never matches the empty string cannot eat at the end of the line.\<close>

definition proper :: "matcher \<Rightarrow> bool" where
  "proper m \<longleftrightarrow> m \<noteq> MStr []"

lemma eat_reads: "proper m \<Longrightarrow> reads st (snd (eat m st))"
  by (cases m) (auto simp: eat_def matches_def charAt_def proper_def Let_def split: if_splits)

lemma eatWhile_loop_reads: "proper m \<Longrightarrow> reads st (eatWhile_loop m st)"
proof (induction m st rule: eatWhile_loop.induct)
  case (1 m st)
  have *: "reads st (snd (eat m st))" using 1(2) by (rule eat_reads)
  show ?case
  proof (cases "fst (eat m st)")
    case None
    with * show ?thesis by (subst eatWhile_loop.simps) (simp add: case_prod_unfold)
  next
    case (Some r)
    show ?thesis
    proof (cases r)
      case Nil
      with Some * show ?thesis by (subst eatWhile_loop.simps) (simp add: case_prod_unfold)
    next
      case (Cons c cs)
      with Some 1 have "reads (snd (eat m st)) (eatWhile_loop m (snd (eat m st)))"
        by (metis prod.collapse)
      with * have "reads st (eatWhile_loop m (snd (eat m st)))" by (rule reads_trans)
      with Some Cons show ?thesis by (subst eatWhile_loop.simps) (simp add: case_prod_unfold)
    qed
  qed
qed

lemma eatWhile_reads: "proper m \<Longrightarrow> reads st (snd (eatWhile m st))"
  by (simp add: eatWhile_def Let_def eatWhile_loop_reads)

lemma eatSpace_loop_reads: "reads st (eatSpace_loop st)"
proof (induction st rule: eatSpace_loop.induct)
  case (1 st)
  show ?case
  proof (cases "s_pos st < length (s_string st) \<and> is_space (s_string st ! s_pos st)")
    case True
    then have "reads st (st\<lparr>s_pos := s_pos st + 1\<rparr>)" by auto
    with 1 True show ?thesis by (subst eatSpace_loop.simps) (auto intro: reads_trans)
  next
    case False
    then show ?thesis by (subst eatSpace_loop.simps) (simp only: if_False reads_refl)
  qed
qed

lemma eatSpace_reads: "reads st (snd (eatSpace st))"
  by (simp add: eatSpace_def Let_def eatSpace_loop_reads)

lemma skipTo_reads: "reads st (snd (skipTo c st))"
  using index_from_Some_bounds [of c "s_string st" "s_pos st"]
  by (auto simp: skipTo_def split: option.splits)

lemma proper_simps [simp]: "proper (MPred p)" "proper (MStr (c # cs))"
  by (simp_all add: proper_def)

lemmas stream_reads = next_char_reads eat_reads eatWhile_reads eatSpace_reads skipTo_reads

text \<open>\<open>eatWhile\<close> with a predicate skips exactly the longest run of characters that satisfy it.\<close>

lemma eatWhile_loop_pred:
  "eatWhile_loop (MPred p) st =
     st\<lparr>s_pos := s_pos st + length (takeWhile p (drop (s_pos st) (s_string st)))\<rparr>"
proof (induction "MPred p" st rule: eatWhile_loop.induct)
  case (1 st)
  show ?case
  proof (cases "s_pos st < length (s_string st) \<and> p (s_string st ! s_pos st)")
    case True
    then have "eat (MPred p) st = (Some [s_string st ! s_pos st], st\<lparr>s_pos := s_pos st + 1\<rparr>)"
      by (simp add: eat_def matches_def charAt_def)
    moreover have "drop (s_pos st) (s_string st) = s_string st ! s_pos st # drop (Suc (s_pos st)) (s_string st)"
      using True by (simp add: Cons_nth_drop_Suc)
    ultimately show ?thesis
      using 1 True by (subst eatWhile_loop.simps) simp
  next
    case False
    then have "eat (MPred p) st = (None, st)"
      by (simp add: eat_def matches_def charAt_def)
    moreover have "takeWhile p (drop (s_pos st) (s_string st)) = []"
      using False by (cases "s_pos st < length (s_string st)") (auto simp: Cons_nth_drop_Suc [symmetric])
    ultimately show ?thesis by (subst eatWhile_loop.simps) simp
  qed
qed

end
