(* ===== verification/SmlMode.thy ===== *)
theory SmlMode
  imports StringStream
begin

text \<open>
  The language mode that colours Standard ML in the editor, \<^verbatim>\<open>src/js/codemirror/sml.js\<close>. The mode
  keeps between tokens which tokenizer reads next (\<open>tokenize\<close>) and how deeply comments are nested
  (\<open>commentDepth\<close>); a token function reads from the stream and returns a style, \<open>None\<close> for \<^verbatim>\<open>null\<close>.
\<close>

section \<open>Definitions\<close>

datatype tokenizer = TokBase | TokString | TokComment

record sml_state =
  tokenize :: tokenizer
  commentDepth :: int

type_synonym style = "jsstring option"

definition startState :: sml_state where
  "startState = \<lparr>tokenize = TokBase, commentDepth = 0\<rparr>"

definition sml_keywords :: "jsstring list" where
  "sml_keywords = map js
     [''abstype'', ''and'', ''andalso'', ''as'', ''case'', ''datatype'', ''do'', ''else'',
      ''eqtype'', ''end'', ''exception'', ''fn'', ''fun'', ''functor'', ''handle'', ''if'', ''in'',
      ''include'', ''inf'' @ ''ix'', ''inf'' @ ''ixr'', ''let'', ''local'', ''nonfix'', ''of'', ''op'', ''open'',
      ''orelse'', ''raise'', ''rec'', ''sharing'', ''sig'', ''signature'', ''struct'',
      ''structure'', ''then'', ''type'', ''val'', ''where'', ''while'', ''with'', ''withtype'']"

definition is_digit :: "jchar \<Rightarrow> bool" where
  "is_digit c \<longleftrightarrow> (let n = char_code c in 48 \<le> n \<and> n \<le> 57)"

definition is_hex :: "jchar \<Rightarrow> bool" where
  "is_hex c \<longleftrightarrow>
     (let n = char_code c in (65 \<le> n \<and> n \<le> 70) \<or> (97 \<le> n \<and> n \<le> 102) \<or> (48 \<le> n \<and> n \<le> 57))"

definition is_exp :: "jchar \<Rightarrow> bool" where
  "is_exp c \<longleftrightarrow> c = cc (CHR ''e'') \<or> c = cc (CHR ''E'')"

abbreviation digits :: matcher where
  "digits \<equiv> MPred is_digit"

abbreviation hexdigits :: matcher where
  "hexdigits \<equiv> MPred is_hex"

function tokenString_loop :: "stream \<Rightarrow> bool \<Rightarrow> bool \<times> bool \<times> stream" where
  "tokenString_loop st escaped =
     (case next_char st of
        (None, st') \<Rightarrow> (False, escaped, st')
      | (Some c, st') \<Rightarrow>
          if c = cc (CHR 0x22) \<and> \<not> escaped then (True, escaped, st')
          else tokenString_loop st' (\<not> escaped \<and> c = cc (CHR 0x5C)))"
  by pat_completeness auto
termination
  by (relation "measure (\<lambda>(st, e). length (s_string st) - s_pos st)")
    (auto simp: next_char_def split: if_splits)

declare tokenString_loop.simps [simp del]

definition tokenString :: "stream \<Rightarrow> sml_state \<Rightarrow> style \<times> stream \<times> sml_state" where
  "tokenString st state =
     (let (e, escaped, st') = tokenString_loop st False;
          state' = (if e \<and> \<not> escaped then state\<lparr>tokenize := TokBase\<rparr> else state)
      in (Some (js (if \<not> e then ''string error'' else ''string'')), st', state'))"

function tokenComment_loop :: "stream \<Rightarrow> int \<Rightarrow> jchar option \<Rightarrow> stream \<times> int" where
  "tokenComment_loop st depth prev =
     (if depth > 0
      then (case next_char st of
              (None, st') \<Rightarrow> (st', depth)
            | (Some c, st') \<Rightarrow>
                let d1 = (if prev = Some (cc (CHR ''('')) \<and> c = cc (CHR ''*'') then depth + 1 else depth);
                    d2 = (if prev = Some (cc (CHR ''*'')) \<and> c = cc (CHR '')'') then d1 - 1 else d1)
                in tokenComment_loop st' d2 (Some c))
      else (st, depth))"
  by pat_completeness auto
termination
  by (relation "measure (\<lambda>(st, d, p). length (s_string st) - s_pos st)")
    (auto simp: next_char_def split: if_splits)

declare tokenComment_loop.simps [simp del]

definition tokenComment :: "stream \<Rightarrow> sml_state \<Rightarrow> style \<times> stream \<times> sml_state" where
  "tokenComment st state =
     (let (st', depth) = tokenComment_loop st (commentDepth state) None;
          state1 = state\<lparr>commentDepth := depth\<rparr>;
          state2 = (if depth \<le> 0 then state1\<lparr>tokenize := TokBase\<rparr> else state1)
      in (Some (js ''comment''), st', state2))"

text \<open>The number literals: hexadecimal, word (after the \<^verbatim>\<open>w\<close>), and the optional exponent.\<close>

definition hexLiteral :: "stream \<Rightarrow> style \<times> stream" where
  "hexLiteral st =
     (let (ok, st') = eatWhile hexdigits st
      in (Some (js (if ok then ''number'' else ''error'')), st'))"

definition wordLiteral :: "stream \<Rightarrow> style \<times> stream" where
  "wordLiteral st =
     (if peek st = Some (cc (CHR ''x'')) then hexLiteral (snd (next_char st))
      else let (ok, st') = eatWhile digits st
           in (Some (js (if ok then ''number'' else ''error'')), st'))"

definition eatFraction :: "stream \<Rightarrow> stream" where
  "eatFraction st =
     (case eat (MStr (js ''.'')) st of
        (Some _, st') \<Rightarrow> snd (eatWhile digits st')
      | (None, st') \<Rightarrow> st')"

definition eatExponent :: "stream \<Rightarrow> stream" where
  "eatExponent st =
     (case eat (MPred is_exp) st of
        (Some _, st') \<Rightarrow> snd (eatWhile digits (snd (eat (MStr (js ''~'')) st')))
      | (None, st') \<Rightarrow> st')"

definition tildeToken :: "stream \<Rightarrow> style \<times> stream" where
  "tildeToken st =
     (if peek st = Some (cc (CHR ''0'')) then
        (let st1 = snd (next_char st)
         in if peek st1 = Some (cc (CHR ''x'')) then hexLiteral (snd (next_char st1))
            else if peek st1 = Some (cc (CHR ''w'')) then wordLiteral (snd (next_char st1))
            else (Some (js ''number''), eatFraction (snd (eatWhile digits st1))))
      else
        (let (ok, st1) = eatWhile digits st
         in if ok then (Some (js ''number''), eatExponent (eatFraction st1)) else (None, st1)))"

definition keywordStyle :: "jsstring \<Rightarrow> jsstring" where
  "keywordStyle cur = (if cur \<in> set sml_keywords then js ''keyword'' else js ''variable'')"

definition hashToken :: "stream \<Rightarrow> sml_state \<Rightarrow> style \<times> stream \<times> sml_state" where
  "hashToken st state =
     (case peek st of
        Some c \<Rightarrow>
          if c = cc (CHR 0x22) then tokenString (snd (next_char st)) (state\<lparr>tokenize := TokString\<rparr>)
          else if is_digit c then (Some (js ''keyword''), snd (eatWhile digits st), state)
          else (None, st, state)
      | None \<Rightarrow> (None, st, state))"

definition tokenBase :: "stream \<Rightarrow> sml_state \<Rightarrow> style \<times> stream \<times> sml_state" where
  "tokenBase stream state =
     (let (ch, st) = next_char stream
      in if ch = Some (cc (CHR 0x22)) then tokenString st (state\<lparr>tokenize := TokString\<rparr>)
         else if ch = Some (cc (CHR ''('')) then
           (case eat (MStr (js ''*'')) st of
              (Some _, st') \<Rightarrow>
                tokenComment st' (state\<lparr>commentDepth := commentDepth state + 1, tokenize := TokComment\<rparr>)
            | (None, st') \<Rightarrow> (None, st', state))
         else if ch = Some (cc (CHR ''~'')) then
           (let (sty, st') = tildeToken st in (sty, st', state))
         else if ch = Some (cc (CHR ''0'')) \<and> peek st = Some (cc (CHR ''x'')) then
           (let (sty, st') = hexLiteral (snd (next_char st)) in (sty, st', state))
         else if ch = Some (cc (CHR ''0'')) \<and> peek st = Some (cc (CHR ''w'')) then
           (let (sty, st') = wordLiteral (snd (next_char st)) in (sty, st', state))
         else if (case ch of Some c \<Rightarrow> is_digit c | None \<Rightarrow> False) then
           (Some (js ''number''), eatExponent (eatFraction (snd (eatWhile digits st))), state)
         else if ch = Some (cc (CHR ''*'')) then
           (case eat (MStr (js '')'')) st of
              (Some _, st') \<Rightarrow> (Some (js ''error''), st', state)
            | (None, st') \<Rightarrow> (None, st', state))
         else if ch = Some (cc (CHR ''#'')) then hashToken st state
         else (let st' = snd (eatWhile (MPred is_word) st)
               in (Some (keywordStyle (current st')), st', state)))"

definition token :: "stream \<Rightarrow> sml_state \<Rightarrow> style \<times> stream \<times> sml_state" where
  "token st state =
     (let (spaces, st') = eatSpace st
      in if spaces then (None, st', state)
         else (case tokenize state of
                 TokBase \<Rightarrow> tokenBase st' state
               | TokString \<Rightarrow> tokenString st' state
               | TokComment \<Rightarrow> tokenComment st' state))"

definition blockCommentStart :: jsstring where
  "blockCommentStart = js ''(*''"

definition blockCommentEnd :: jsstring where
  "blockCommentEnd = js ''*)''"

named_theorems sml_mode \<open>the definitions of the mode\<close>

lemmas [sml_mode] = tokenString_def tokenComment_def hexLiteral_def wordLiteral_def eatFraction_def
  eatExponent_def tildeToken_def hashToken_def tokenBase_def token_def

lemmas [js_eval] = sml_mode startState_def sml_keywords_def is_digit_def is_hex_def is_word_def is_exp_def
  keywordStyle_def

section \<open>Reading, progress and the invariant of the state\<close>

definition sml_ok :: "sml_state \<Rightarrow> bool" where
  "sml_ok state \<longleftrightarrow>
     (if tokenize state = TokComment then commentDepth state > 0 else commentDepth state = 0)"

lemma startState_ok: "sml_ok startState"
  by (simp add: sml_ok_def startState_def)

lemma tokenString_loop_reads:
  "tokenString_loop st e = (ended, esc, st') \<Longrightarrow> reads st st' \<and> (\<not> eol st \<longrightarrow> s_pos st < s_pos st')"
proof (induction st e arbitrary: ended esc st' rule: tokenString_loop.induct)
  case (1 st e)
  obtain ch st1 where n: "next_char st = (ch, st1)" by fastforce
  show ?case
  proof (cases ch)
    case None
    with n 1(2) show ?thesis
      using next_char_None [of st st1] by (subst (asm) tokenString_loop.simps) auto
  next
    case (Some c)
    have r: "reads st st1" "s_pos st1 = Suc (s_pos st)" using n Some next_char_Some by blast+
    show ?thesis
    proof (cases "c = cc (CHR 0x22) \<and> \<not> e")
      case True
      with n Some 1(2) r show ?thesis by (subst (asm) tokenString_loop.simps) simp
    next
      case False
      with n Some 1(2) have "tokenString_loop st1 (\<not> e \<and> c = cc (CHR 0x5C)) = (ended, esc, st')"
        by (subst (asm) tokenString_loop.simps) simp
      with 1(1) [OF n [symmetric] Some False] have "reads st1 st'" by blast
      with r show ?thesis using reads_trans [of st st1 st'] reads_pos [of st1 st'] by simp
    qed
  qed
qed

lemma tokenComment_loop_reads:
  "tokenComment_loop st d p = (st', d') \<Longrightarrow>
    reads st st' \<and> (\<not> eol st \<and> d > 0 \<longrightarrow> s_pos st < s_pos st') \<and> (d \<ge> 0 \<longrightarrow> d' \<ge> 0)"
proof (induction st d p arbitrary: st' d' rule: tokenComment_loop.induct)
  case (1 st d p)
  show ?case
  proof (cases "d > 0")
    case False
    with 1(2) show ?thesis by (subst (asm) tokenComment_loop.simps) auto
  next
    case pos: True
    obtain ch st1 where n: "next_char st = (ch, st1)" by fastforce
    show ?thesis
    proof (cases ch)
      case None
      with n 1(2) pos show ?thesis
        using next_char_None [of st st1] by (subst (asm) tokenComment_loop.simps) auto
    next
      case (Some c)
      have r: "reads st st1" "s_pos st1 = Suc (s_pos st)" using n Some next_char_Some by blast+
      define d1 where "d1 = (if p = Some (cc (CHR ''('')) \<and> c = cc (CHR ''*'') then d + 1 else d)"
      define d2 where "d2 = (if p = Some (cc (CHR ''*'')) \<and> c = cc (CHR '')'') then d1 - 1 else d1)"
      have "d2 \<ge> 0" using pos by (auto simp: d1_def d2_def)
      have "tokenComment_loop st1 d2 (Some c) = (st', d')"
        using 1(2) n Some pos
        unfolding d2_def d1_def by (subst (asm) tokenComment_loop.simps) (simp only: if_True Let_def prod.case option.case)
      with 1(1) [OF pos n [symmetric] Some d1_def d2_def]
      have "reads st1 st'" "d2 \<ge> 0 \<longrightarrow> d' \<ge> 0" by blast+
      with r \<open>d2 \<ge> 0\<close> show ?thesis using reads_trans [of st st1 st'] reads_pos [of st1 st'] by simp
    qed
  qed
qed

text \<open>What every token function guarantees of the stream and the state it returns.\<close>

definition token_post :: "stream \<Rightarrow> style \<times> stream \<times> sml_state \<Rightarrow> bool" where
  "token_post st r \<longleftrightarrow> reads st (fst (snd r)) \<and> sml_ok (snd (snd r))"

lemma tokenString_post:
  "commentDepth state = 0 \<Longrightarrow> tokenize state \<noteq> TokComment \<Longrightarrow> token_post st (tokenString st state)"
  using tokenString_loop_reads [of st False]
  by (auto simp: tokenString_def token_post_def sml_ok_def split: prod.splits)

lemma tokenComment_post:
  "commentDepth state > 0 \<Longrightarrow> tokenize state = TokComment \<Longrightarrow> token_post st (tokenComment st state)"
  using tokenComment_loop_reads [of st "commentDepth state" None]
  by (auto simp: tokenComment_def token_post_def sml_ok_def Let_def split: prod.splits)

lemma reads_snd_trans:
  "reads st (snd (next_char st)) \<Longrightarrow> reads (snd (next_char st)) st' \<Longrightarrow> reads st st'"
  by (rule reads_trans)

lemma hexLiteral_reads: "reads st (snd (hexLiteral st))"
  using eatWhile_reads [of hexdigits st] by (simp add: hexLiteral_def Let_def case_prod_unfold)

lemma wordLiteral_reads: "reads st (snd (wordLiteral st))"
  using eatWhile_reads [of digits st] reads_trans [OF next_char_reads hexLiteral_reads, of st]
  by (simp add: wordLiteral_def Let_def case_prod_unfold)

lemma eatFraction_reads: "reads st (eatFraction st)"
proof -
  have "reads st (snd (eat (MStr (js ''.'')) st))" by (rule eat_reads) (simp add: js_def)
  then show ?thesis
    using eatWhile_reads [of digits "snd (eat (MStr (js ''.'')) st)"]
    by (auto simp: eatFraction_def case_prod_unfold split: option.split intro: reads_trans)
qed

lemma eatExponent_reads: "reads st (eatExponent st)"
proof -
  define st1 where "st1 = snd (eat (MPred is_exp) st)"
  define st2 where "st2 = snd (eat (MStr (js ''~'')) st1)"
  have 1: "reads st st1" unfolding st1_def by (rule eat_reads) simp
  have 2: "reads st1 st2" unfolding st2_def by (rule eat_reads) (simp add: js_def)
  have 3: "reads st2 (snd (eatWhile digits st2))" by (rule eatWhile_reads) simp
  show ?thesis
    using 1 reads_trans [OF reads_trans [OF 1 2] 3]
    by (auto simp: eatExponent_def case_prod_unfold st1_def st2_def split: option.split)
qed

lemma tildeToken_reads: "reads st (snd (tildeToken st))"
proof -
  have e: "reads s (snd (eatWhile digits s))" for s by (rule eatWhile_reads) simp
  have n: "reads s t \<Longrightarrow> reads s (snd (next_char t))" for s t
    using reads_trans next_char_reads by blast
  show ?thesis
    using reads_trans [OF n [OF n [OF reads_refl]] hexLiteral_reads, of st]
      reads_trans [OF n [OF n [OF reads_refl]] wordLiteral_reads, of st]
      reads_trans [OF reads_trans [OF n [OF reads_refl] e] eatFraction_reads, of st]
      reads_trans [OF reads_trans [OF e eatFraction_reads] eatExponent_reads, of st] e [of st]
    by (simp add: tildeToken_def Let_def case_prod_unfold)
qed

lemma token_post_trans: "reads st st1 \<Longrightarrow> token_post st1 r \<Longrightarrow> token_post st r"
  using reads_trans by (auto simp: token_post_def)

lemma hashToken_post: "sml_ok state \<Longrightarrow> tokenize state = TokBase \<Longrightarrow> token_post st (hashToken st state)"
  using token_post_trans [OF next_char_reads tokenString_post, of "state\<lparr>tokenize := TokString\<rparr>" st]
    eatWhile_reads [of digits st]
  by (auto simp: hashToken_def sml_ok_def token_post_def split: option.split)

lemma tokenBase_post:
  assumes "sml_ok state" and "tokenize state = TokBase"
  shows "token_post (snd (next_char st)) (tokenBase st state)"
proof -
  obtain ch st1 where n: "next_char st = (ch, st1)" by fastforce
  have d: "commentDepth state = 0" using assms by (simp add: sml_ok_def)
  have eat: "reads st1 (snd (eat (MStr (js [c])) st1))" for c by (rule eat_reads) (simp add: js_def)
  have comment: "token_post (snd (eat (MStr (js ''*'')) st1)) (tokenComment (snd (eat (MStr (js ''*'')) st1))
      (state\<lparr>commentDepth := commentDepth state + 1, tokenize := TokComment\<rparr>))"
    by (rule tokenComment_post) (simp_all add: d)
  have string: "token_post st1 (tokenString st1 (state\<lparr>tokenize := TokString\<rparr>))"
    by (rule tokenString_post) (simp_all add: d)
  have num: "reads st1 (eatExponent (eatFraction (snd (eatWhile digits st1))))"
    using reads_trans [OF reads_trans [OF eatWhile_reads [of digits] eatFraction_reads] eatExponent_reads]
    by simp
  have word: "reads st1 (snd (eatWhile (MPred is_word) st1))" by (rule eatWhile_reads) simp
  have literal: "reads st1 (snd (hexLiteral (snd (next_char st1))))"
    "reads st1 (snd (wordLiteral (snd (next_char st1))))"
    by (rule reads_trans [OF next_char_reads hexLiteral_reads]
          reads_trans [OF next_char_reads wordLiteral_reads])+
  show ?thesis
    using token_post_trans [OF eat comment] string num word literal eat [of "CHR ''*''"]
      eat [of "CHR '')''"] tildeToken_reads [of st1] hashToken_post [OF assms, of st1] assms(1)
    by (auto simp: tokenBase_def n Let_def case_prod_unfold token_post_def split: option.split)
qed

lemma eatSpace_pos: "eatSpace st = (b, st') \<Longrightarrow> b \<longleftrightarrow> s_pos st < s_pos st'"
  by (auto simp: eatSpace_def Let_def)

lemma eatSpace_stays: "eatSpace st = (False, st') \<Longrightarrow> st' = st"
  using eatSpace_reads [of st] by (auto simp: eatSpace_def Let_def reads_def)

lemma token_reads: "sml_ok state \<Longrightarrow> token_post st (token st state)"
proof -
  assume ok: "sml_ok state"
  obtain b st' where e: "eatSpace st = (b, st')" by fastforce
  then have r: "reads st st'" using eatSpace_reads [of st] by simp
  show ?thesis
    using token_post_trans [OF r tokenString_post [of state]] token_post_trans [OF r tokenComment_post [of state]]
      token_post_trans [OF reads_trans [OF r next_char_reads] tokenBase_post [OF ok]] ok r
    by (auto simp: token_def e sml_ok_def token_post_def split: tokenizer.split)
qed

lemma token_progress:
  assumes ok: "sml_ok state" and "\<not> eol st"
  shows "s_pos st < s_pos (fst (snd (token st state)))"
proof -
  obtain b st' where e: "eatSpace st = (b, st')" by fastforce
  show ?thesis
  proof (cases b)
    case True
    then show ?thesis using e eatSpace_pos by (simp add: token_def)
  next
    case False
    then have "st' = st" using e eatSpace_stays by simp
    have str: "s_pos st < s_pos (fst (snd (tokenString st state)))"
      using tokenString_loop_reads [of st False] assms(2)
      by (auto simp: tokenString_def Let_def split: prod.split)
    have com: "commentDepth state > 0 \<Longrightarrow> s_pos st < s_pos (fst (snd (tokenComment st state)))"
      using tokenComment_loop_reads [of st "commentDepth state" None] assms(2)
      by (auto simp: tokenComment_def Let_def split: prod.split)
    have base: "tokenize state = TokBase \<Longrightarrow> s_pos st < s_pos (fst (snd (tokenBase st state)))"
      using tokenBase_post [OF ok, of st] reads_pos assms(2)
      by (fastforce simp: token_post_def next_char_def eol_def)
    show ?thesis
      using str com base ok \<open>st' = st\<close> False e
      by (auto simp: token_def sml_ok_def split: tokenizer.split)
  qed
qed

section \<open>Comments and strings against the definition of the language\<close>

text \<open>
  The lexical rule for the inside of a comment: the two characters of \<^verbatim>\<open>(*\<close> open a nested comment
  and the two of \<^verbatim>\<open>*)\<close> close one, no character taking part in two delimiters. The result is how
  many characters were read when the depth reached zero or the line ended, and the depth.
\<close>

fun comment_scan :: "int \<Rightarrow> jsstring \<Rightarrow> nat \<times> int" where
  "comment_scan d [] = (0, d)"
| "comment_scan d [c] = (if d \<le> 0 then (0, d) else (1, d))"
| "comment_scan d (a # b # cs) =
     (if d \<le> 0 then (0, d)
      else if a = cc (CHR ''('') \<and> b = cc (CHR ''*'')
        then (let (n, d') = comment_scan (d + 1) cs in (n + 2, d'))
      else if a = cc (CHR ''*'') \<and> b = cc (CHR '')'')
        then (let (n, d') = comment_scan (d - 1) cs in (n + 2, d'))
      else (let (n, d') = comment_scan d (b # cs) in (n + 1, d')))"

fun star_shared :: "jsstring \<Rightarrow> bool" where
  "star_shared (a # b # c # cs) \<longleftrightarrow>
     (a = cc (CHR ''('') \<and> b = cc (CHR ''*'') \<and> c = cc (CHR '')'')) \<or> star_shared (b # c # cs)"
| "star_shared _ \<longleftrightarrow> False"

definition rest :: "stream \<Rightarrow> jsstring" where
  "rest st = drop (s_pos st) (s_string st)"

lemma next_char_rest:
  "next_char st = (case rest st of [] \<Rightarrow> (None, st) | c # _ \<Rightarrow> (Some c, st\<lparr>s_pos := s_pos st + 1\<rparr>))"
  by (auto simp: next_char_def rest_def Cons_nth_drop_Suc [symmetric] split: list.split)

lemma rest_advance: "rest (st\<lparr>s_pos := s_pos st + n\<rparr>) = drop n (rest st)"
  by (simp add: rest_def add.commute)

text \<open>The remembered character cannot take part in a delimiter with the next one.\<close>

definition harmless :: "jchar option \<Rightarrow> jsstring \<Rightarrow> bool" where
  "harmless prev cs \<longleftrightarrow>
     (case cs of [] \<Rightarrow> True
      | c # _ \<Rightarrow> \<not> (prev = Some (cc (CHR ''('')) \<and> c = cc (CHR ''*'')) \<and>
                \<not> (prev = Some (cc (CHR ''*'')) \<and> c = cc (CHR '')'')))"

lemma tokenComment_loop_step:
  "0 < d \<Longrightarrow> rest st = c # cs \<Longrightarrow> harmless prev (c # cs) \<Longrightarrow>
    tokenComment_loop st d prev = tokenComment_loop (st\<lparr>s_pos := s_pos st + 1\<rparr>) d (Some c)"
  by (subst tokenComment_loop.simps) (auto simp: next_char_rest harmless_def Let_def)

lemma tokenComment_loop_open:
  "0 < d \<Longrightarrow> rest st = cc (CHR ''*'') # cs \<Longrightarrow>
    tokenComment_loop st d (Some (cc (CHR ''(''))) =
      tokenComment_loop (st\<lparr>s_pos := s_pos st + 1\<rparr>) (d + 1) (Some (cc (CHR ''*'')))"
  by (subst tokenComment_loop.simps) (simp add: next_char_rest Let_def)

lemma tokenComment_loop_close:
  "0 < d \<Longrightarrow> rest st = cc (CHR '')'') # cs \<Longrightarrow>
    tokenComment_loop st d (Some (cc (CHR ''*''))) =
      tokenComment_loop (st\<lparr>s_pos := s_pos st + 1\<rparr>) (d - 1) (Some (cc (CHR '')'')))"
  by (subst tokenComment_loop.simps) (simp add: next_char_rest Let_def)

lemma tokenComment_loop_done: "d \<le> 0 \<Longrightarrow> tokenComment_loop st d prev = (st, d)"
  by (subst tokenComment_loop.simps) simp

lemma tokenComment_loop_eol: "rest st = [] \<Longrightarrow> tokenComment_loop st d prev = (st, d)"
  by (subst tokenComment_loop.simps) (simp add: next_char_rest)

lemma star_shared_Cons: "\<not> star_shared (a # cs) \<Longrightarrow> \<not> star_shared cs"
  by (cases cs; cases "tl cs") auto

lemma tokenComment_loop_scan:
  "rest st = cs \<Longrightarrow> \<not> star_shared cs \<Longrightarrow> harmless prev cs \<Longrightarrow>
    tokenComment_loop st d prev =
      (st\<lparr>s_pos := s_pos st + fst (comment_scan d cs)\<rparr>, snd (comment_scan d cs))"
proof (induction d cs arbitrary: st prev rule: comment_scan.induct)
  case (1 d)
  then show ?case by (simp add: tokenComment_loop_eol)
next
  case (2 d c)
  then show ?case
    using rest_advance [of st 1]
    by (simp add: tokenComment_loop_done tokenComment_loop_step tokenComment_loop_eol)
next
  case (3 d a b cs)
  let ?st1 = "st\<lparr>s_pos := s_pos st + 1\<rparr>" and ?st2 = "st\<lparr>s_pos := s_pos st + 2\<rparr>"
  have r: "rest ?st1 = b # cs" "rest ?st2 = cs"
    using rest_advance [of st 1] rest_advance [of st 2] 3(4) by simp_all
  have ns: "\<not> star_shared cs" "\<not> star_shared (b # cs)" using 3(5) star_shared_Cons by blast+
  have first: "0 < d \<Longrightarrow> tokenComment_loop st d prev = tokenComment_loop ?st1 d (Some a)"
    using tokenComment_loop_step 3(4,6) by blast
  consider (zero) "d \<le> 0" | (opens) "0 < d" "a = cc (CHR ''('')" "b = cc (CHR ''*'')"
    | (closes) "0 < d" "a = cc (CHR ''*'')" "b = cc (CHR '')'')"
    | (other) "0 < d" "\<not> (a = cc (CHR ''('') \<and> b = cc (CHR ''*''))" "\<not> (a = cc (CHR ''*'') \<and> b = cc (CHR '')''))"
    by linarith
  then show ?case
  proof cases
    case zero
    then show ?thesis by (simp add: tokenComment_loop_done)
  next
    case opens
    have "harmless (Some b) cs" using 3(5) opens by (auto simp: harmless_def split: list.split)
    with 3(1) opens r ns have "tokenComment_loop ?st2 (d + 1) (Some b) =
        (?st2\<lparr>s_pos := s_pos ?st2 + fst (comment_scan (d + 1) cs)\<rparr>, snd (comment_scan (d + 1) cs))" by simp
    moreover have "tokenComment_loop ?st1 d (Some a) = tokenComment_loop ?st2 (d + 1) (Some b)"
      using tokenComment_loop_open [of d ?st1 cs] opens r by simp
    ultimately show ?thesis using first opens by (simp add: case_prod_unfold Let_def)
  next
    case closes
    have "harmless (Some b) cs" using closes by (auto simp: harmless_def split: list.split)
    with 3(2) closes r ns have "tokenComment_loop ?st2 (d - 1) (Some b) =
        (?st2\<lparr>s_pos := s_pos ?st2 + fst (comment_scan (d - 1) cs)\<rparr>, snd (comment_scan (d - 1) cs))" by simp
    moreover have "tokenComment_loop ?st1 d (Some a) = tokenComment_loop ?st2 (d - 1) (Some b)"
      using tokenComment_loop_close [of d ?st1 cs] closes r by simp
    ultimately show ?thesis using first closes by (simp add: case_prod_unfold Let_def)
  next
    case other
    then have "harmless (Some a) (b # cs)" by (auto simp: harmless_def)
    with 3(3) other r ns have "tokenComment_loop ?st1 d (Some a) =
        (?st1\<lparr>s_pos := s_pos ?st1 + fst (comment_scan d (b # cs))\<rparr>, snd (comment_scan d (b # cs)))" by auto
    then show ?thesis using first other by (auto simp: case_prod_unfold Let_def)
  qed
qed

text \<open>
  A string literal ends at the first quote that is not escaped; a backslash escapes the character
  after it.
\<close>

fun string_scan :: "jsstring \<Rightarrow> nat option" where
  "string_scan [] = None"
| "string_scan (c # cs) =
     (if c = cc (CHR 0x22) then Some 1
      else if c = cc (CHR 0x5C) then
        (case cs of [] \<Rightarrow> None | _ # cs' \<Rightarrow> map_option (\<lambda>n. n + 2) (string_scan cs'))
      else map_option (\<lambda>n. n + 1) (string_scan cs))"

lemma tokenString_loop_eol: "rest st = [] \<Longrightarrow> tokenString_loop st e = (False, e, st)"
  by (subst tokenString_loop.simps) (simp add: next_char_rest)

lemma tokenString_loop_step:
  "rest st = c # cs \<Longrightarrow>
    tokenString_loop st e =
      (if c = cc (CHR 0x22) \<and> \<not> e then (True, e, st\<lparr>s_pos := s_pos st + 1\<rparr>)
       else tokenString_loop (st\<lparr>s_pos := s_pos st + 1\<rparr>) (\<not> e \<and> c = cc (CHR 0x5C)))"
  by (subst tokenString_loop.simps) (simp add: next_char_rest)

lemma tokenString_loop_scan:
  "rest st = cs \<Longrightarrow>
    (case string_scan cs of
       Some n \<Rightarrow> tokenString_loop st False = (True, False, st\<lparr>s_pos := s_pos st + n\<rparr>)
     | None \<Rightarrow> \<exists>e. tokenString_loop st False = (False, e, st\<lparr>s_pos := s_pos st + length cs\<rparr>))"
proof (induction cs arbitrary: st rule: string_scan.induct)
  case 1
  then show ?case by (auto simp: tokenString_loop_eol)
next
  case (2 c cs)
  let ?st1 = "st\<lparr>s_pos := s_pos st + 1\<rparr>" and ?st2 = "st\<lparr>s_pos := s_pos st + 2\<rparr>"
  have r: "rest ?st1 = cs" "rest ?st2 = drop 1 cs"
    using rest_advance [of st 1] rest_advance [of st 2] 2(3) by simp_all
  note step = tokenString_loop_step [OF 2(3), of False]
  consider (quote) "c = cc (CHR 0x22)" | (last) "c = cc (CHR 0x5C)" "cs = []"
    | (escape) d ds where "c = cc (CHR 0x5C)" "cs = d # ds"
    | (other) "c \<noteq> cc (CHR 0x22)" "c \<noteq> cc (CHR 0x5C)"
    by (cases cs) auto
  then show ?case
  proof cases
    case quote
    then show ?thesis using step by simp
  next
    case last
    then show ?thesis using step r tokenString_loop_eol [of ?st1] by auto
  next
    case escape
    have "tokenString_loop ?st1 True = tokenString_loop ?st2 False"
      using tokenString_loop_step [of ?st1 d ds True] r escape by simp
    then show ?thesis
      using step escape 2(1) [of d ds ?st2] r by (auto simp: add.assoc split: option.splits)
  next
    case other
    then show ?thesis using step 2(2) [OF other r(1)] by (auto split: option.splits)
  qed
qed

lemma current_word:
  "s_start st = s_pos st \<Longrightarrow> rest st = c # cs \<Longrightarrow> n \<le> length cs \<Longrightarrow>
    current (st\<lparr>s_pos := s_pos st + Suc n\<rparr>) = c # take n cs"
proof -
  assume a: "s_start st = s_pos st" "rest st = c # cs" "n \<le> length cs"
  have "s_pos st < length (s_string st)"
    using a(2) by (metis drop_all linorder_not_less list.distinct(1) rest_def)
  moreover have "length (s_string st) - s_pos st = Suc (length cs)"
    using a(2) by (metis length_Cons length_drop rest_def)
  moreover have "drop (s_pos st) (s_string st) = c # cs" using a(2) by (simp add: rest_def)
  ultimately show ?thesis
    using a js_slice_nat [of "s_pos st" "s_pos st + Suc n" "s_string st"]
    by (simp add: current_def)
qed

section \<open>Properties\<close>

text \<open>C29: A token of the SML mode is never empty and never leaves the line: unless the stream is at
  the end of the line the position strictly advances, the text, the start of the token and the tab
  size of the stream stay the same, and the mode's state keeps its invariant (the comment depth is
  positive exactly while the comment tokenizer is installed, and zero otherwise).\<close>

theorem sml_token_advances:
  assumes "sml_ok state" and "stream_ok st" and "token st state = (sty, st', state')"
  shows "s_string st' = s_string st \<and> s_start st' = s_start st \<and> s_tabSize st' = s_tabSize st \<and>
    s_pos st' \<le> length (s_string st) \<and> (s_pos st < length (s_string st) \<longrightarrow> s_pos st < s_pos st') \<and>
    sml_ok state'"
  using token_reads [OF assms(1), of st] token_progress [OF assms(1), of st] assms(2,3)
  by (auto simp: token_post_def stream_ok_def eol_def reads_def)

theorem sml_token_advances_witness:
  "sml_ok startState \<and> stream_ok (StringStream (js ''val x'') 4) \<and>
    0 < s_pos (fst (snd (token (StringStream (js ''val x'') 4) startState)))"
proof -
  let ?st = "StringStream (js ''val x'') 4"
  obtain sty st' state' where t: "token ?st startState = (sty, st', state')" by (rule prod_cases3)
  have ok: "sml_ok startState" "stream_ok ?st"
    by (simp_all add: startState_ok stream_ok_def StringStream_def)
  have "0 < s_pos st'"
    using sml_token_advances [OF ok t] by (simp add: StringStream_def js_def)
  with ok t show ?thesis by simp
qed

text \<open>C37: Inside a comment the mode follows the lexical rule of the language for nested comments,
  across any number of nested delimiters, on every line in which no star belongs to both an opening
  and a closing delimiter: the token ends where the depth reaches zero, or at the end of the line,
  and the state keeps the depth for the next line.\<close>

theorem tokenComment_nesting:
  assumes "\<not> star_shared (rest st)"
  shows "tokenComment st state =
    (let (n, d) = comment_scan (commentDepth state) (rest st)
     in (Some (js ''comment''), st\<lparr>s_pos := s_pos st + n\<rparr>,
         if d \<le> 0 then state\<lparr>commentDepth := d, tokenize := TokBase\<rparr> else state\<lparr>commentDepth := d\<rparr>))"
proof -
  have "harmless None (rest st)" by (simp add: harmless_def split: list.split)
  then show ?thesis
    using tokenComment_loop_scan [OF refl assms, of None "commentDepth state"]
    by (simp add: tokenComment_def Let_def case_prod_unfold)
qed

theorem tokenComment_nesting_witness:
  "tokenComment (StringStream (js ''a(*b*)c*) d'') 4) \<lparr>tokenize = TokComment, commentDepth = 1\<rparr> =
    (Some (js ''comment''), (StringStream (js ''a(*b*)c*) d'') 4)\<lparr>s_pos := 9\<rparr>, startState)"
  using tokenComment_nesting [of "StringStream (js ''a(*b*)c*) d'') 4" "\<lparr>tokenize = TokComment, commentDepth = 1\<rparr>"]
  by (simp add: rest_def StringStream_def js_def startState_def Let_def)

text \<open>When a star belongs to both delimiters the mode counts it twice: \<^verbatim>\<open>(*)\<close> inside a comment leaves
  the depth as it was, where the language opens one more comment.\<close>

lemma star_shared_counts_twice:
  assumes "0 < d" and "rest st = js ''(*)'' @ cs"
  shows "tokenComment_loop st d None =
      tokenComment_loop (st\<lparr>s_pos := s_pos st + 3\<rparr>) d (Some (cc (CHR '')''))) \<and>
    snd (comment_scan d (js ''(*)'' @ cs)) = snd (comment_scan (d + 1) (cc (CHR '')'') # cs))"
proof -
  let ?st1 = "st\<lparr>s_pos := s_pos st + 1\<rparr>" and ?st2 = "st\<lparr>s_pos := s_pos st + 2\<rparr>"
  have r: "rest st = cc (CHR ''('') # cc (CHR ''*'') # cc (CHR '')'') # cs"
    "rest ?st1 = cc (CHR ''*'') # cc (CHR '')'') # cs" "rest ?st2 = cc (CHR '')'') # cs"
    using assms(2) rest_advance [of st 1] rest_advance [of st 2] by (simp_all add: js_def)
  show ?thesis
    using tokenComment_loop_step [OF assms(1) r(1), of None] tokenComment_loop_open [OF assms(1) r(2)]
      tokenComment_loop_close [OF _ r(3), of "d + 1"] assms(1)
    by (simp add: harmless_def js_def Let_def case_prod_unfold numeral_3_eq_3)
qed

text \<open>A string literal is read up to and including the first quote that is not escaped, and then
  the mode returns to its base state; a line that ends first is marked as an error and the mode
  stays inside the string.\<close>

theorem tokenString_ends:
  "tokenString st state =
     (case string_scan (rest st) of
        Some n \<Rightarrow> (Some (js ''string''), st\<lparr>s_pos := s_pos st + n\<rparr>, state\<lparr>tokenize := TokBase\<rparr>)
      | None \<Rightarrow> (Some (js ''string error''), st\<lparr>s_pos := s_pos st + length (rest st)\<rparr>, state))"
  using tokenString_loop_scan [of st, OF refl]
  by (auto simp: tokenString_def Let_def split: option.splits)

text \<open>An identifier is one token: at a letter or underscore the mode reads the longest run of word
  characters, and its style is \<^verbatim>\<open>keyword\<close> exactly when the run is in the keyword table.\<close>

theorem identifier_token:
  assumes "tokenize state = TokBase" and "s_start st = s_pos st" and "rest st = c # cs"
    and "is_word c" and "\<not> is_digit c"
  shows "token st state =
    (Some (js (if c # takeWhile is_word cs \<in> set sml_keywords then ''keyword'' else ''variable'')),
     st\<lparr>s_pos := s_pos st + Suc (length (takeWhile is_word cs))\<rparr>, state)"
proof -
  have ne: "c \<noteq> cc (CHR 0x22)" "c \<noteq> cc (CHR ''('')" "c \<noteq> cc (CHR ''~'')" "c \<noteq> cc (CHR ''0'')"
    "c \<noteq> cc (CHR ''*'')" "c \<noteq> cc (CHR ''#'')"
    using assms(4,5) by (auto simp: is_word_def is_digit_def Let_def)
  have "\<not> is_space c" using assms(4) by (auto simp: is_word_def is_space_def Let_def char_code_def)
  moreover have "s_string st ! s_pos st = c" "s_pos st < length (s_string st)"
    using assms(3) by (auto simp: rest_def nth_via_drop) (metis drop_all linorder_not_less list.distinct(1))
  ultimately have sp: "eatSpace st = (False, st)"
    unfolding eatSpace_def by (subst eatSpace_loop.simps) (simp add: Let_def)
  let ?st1 = "st\<lparr>s_pos := s_pos st + 1\<rparr>"
  let ?n = "length (takeWhile is_word cs)"
  have "rest ?st1 = cs" using assms(3) rest_advance [of st 1] by simp
  then have w: "snd (eatWhile (MPred is_word) ?st1) = st\<lparr>s_pos := s_pos st + Suc ?n\<rparr>"
    by (simp add: eatWhile_def Let_def eatWhile_loop_pred rest_def)
  have "current (st\<lparr>s_pos := s_pos st + Suc ?n\<rparr>) = c # takeWhile is_word cs"
    using current_word [OF assms(2,3), of ?n] by (simp add: length_takeWhile_le takeWhile_eq_take [symmetric])
  then show ?thesis
    using ne assms(1,3,5) w
    by (simp add: token_def sp tokenBase_def next_char_rest keywordStyle_def Let_def)
qed

theorem identifier_token_witness:
  "token (StringStream (js ''val x'') 4) startState =
    (Some (js ''keyword''), (StringStream (js ''val x'') 4)\<lparr>s_pos := 3\<rparr>, startState)"
  using identifier_token [of startState "StringStream (js ''val x'') 4" "cc (CHR ''v'')" "js ''al x''"]
  by (simp add: rest_def StringStream_def js_def startState_def is_word_def is_digit_def sml_keywords_def)

end
