(* ===== verification/Highlight.thy ===== *)
theory Highlight
  imports SmlMode
begin

text \<open>
  How the editor runs a language mode over the lines of a document: \<open>readToken\<close>, \<open>runMode\<close>,
  \<open>highlightLine\<close> with its overlays, \<open>processLine\<close>, and the lookup \<open>getTokenTypeAt\<close> in the resulting
  table (\<^verbatim>\<open>src/js/codemirror/codemirror.js\<close>). A mode is the record \<open>mode\<close> of the functions the editor
  calls; the callback of \<open>runMode\<close> is the list of its calls. The loops end only when the mode
  advances, so they are partial functions: \<open>None\<close> is a loop that does not end, a left injection the
  exception that \<open>readToken\<close> throws or the \<^verbatim>\<open>SyntaxError\<close> for a line class that makes no regular expression.
\<close>

section \<open>Definitions\<close>

record 'st mode =
  m_name :: "jsstring option"
  m_token :: "stream \<Rightarrow> 'st \<Rightarrow> style \<times> stream \<times> 'st"
  m_blankLine :: "('st \<Rightarrow> style \<times> 'st) option"
  m_innerMode :: "('st \<Rightarrow> jsstring option \<times> ('st \<Rightarrow> style \<times> 'st) option) option"
  m_flattenSpans :: "bool option"

text \<open>The options of the editor, and the constructor \<^verbatim>\<open>RegExp\<close>.\<close>

record hl_options =
  o_tabSize :: nat
  o_maxHighlightLength :: nat
  o_flattenSpans :: bool
  o_addModeClass :: bool
  o_regexp :: regexps

datatype mode_exn = FailedToAdvance "jsstring option" | BadRegExp jsstring

record line_classes =
  bgClass :: "jsstring option"
  textClass :: "jsstring option"

definition no_classes :: line_classes where
  "no_classes = \<lparr>bgClass = None, textClass = None\<rparr>"

text \<open>A style is used only when it is neither \<^verbatim>\<open>null\<close> nor the empty string.\<close>

definition style_set :: "style \<Rightarrow> bool" where
  "style_set s \<longleftrightarrow> s \<noteq> None \<and> s \<noteq> Some []"

subsection \<open>Line classes\<close>

definition starts_with :: "jsstring \<Rightarrow> jsstring \<Rightarrow> bool" where
  "starts_with p s \<longleftrightarrow> take (length p) s = p"

text \<open>
  A match of the regular expression of \<open>extractLineClasses\<close> at a given index: white space (none is
  needed at the beginning of the string), \<^verbatim>\<open>line-\<close>, possibly \<^verbatim>\<open>background-\<close>, and at least one
  character that is not white space. The result is the length of the match, whether the optional
  part took part in it, and the class.
\<close>

definition class_after :: "jsstring \<Rightarrow> (bool \<times> jsstring) option" where
  "class_after s =
     (let run = takeWhile (\<lambda>c. \<not> is_space c) s;
          bg = js ''background-''
      in if starts_with bg run \<and> length run > length bg then Some (True, drop (length bg) run)
         else if run \<noteq> [] then Some (False, run) else None)"

definition line_class_at :: "jsstring \<Rightarrow> nat \<Rightarrow> (nat \<times> bool \<times> jsstring) option" where
  "line_class_at s i =
     (let t = drop i s; k = length (takeWhile is_space t); u = drop k t
      in if (i = 0 \<or> k > 0) \<and> starts_with (js ''line-'') u then
           (case class_after (drop 5 u) of
              Some (b, c) \<Rightarrow> Some (k + 5 + (if b then 11 else 0) + length c, b, c)
            | None \<Rightarrow> None)
         else None)"

definition line_class_match :: "jsstring \<Rightarrow> (nat \<times> nat \<times> bool \<times> jsstring) option" where
  "line_class_match s =
     (case List.find (\<lambda>i. line_class_at s i \<noteq> None) [0..<Suc (length s)] of
        None \<Rightarrow> None
      | Some i \<Rightarrow> map_option (\<lambda>r. (i, r)) (line_class_at s i))"

text \<open>The test for a class that is already there, as the source writes it: the \<^verbatim>\<open>\s\<close> of its string
  literals is the letter s.\<close>

definition class_present :: "jsstring \<Rightarrow> jsstring \<Rightarrow> bool" where
  "class_present cls out \<longleftrightarrow>
     (let n = length cls; s = cc (CHR ''s'')
      in list_ex (\<lambda>i. (i = 0 \<or> out ! (i - 1) = s) \<and> take n (drop i out) = cls \<and>
                      (i + n = length out \<or> (i + n < length out \<and> out ! (i + n) = s)))
           [0..<Suc (length out)])"

definition class_regexp :: "regexps \<Rightarrow> jsstring \<Rightarrow> (jsstring \<Rightarrow> bool) option" where
  "class_regexp rx cls = regexp_around rx (js ''(?:^|s)'') cls (js ''(?:$|s)'') (class_present cls)"

definition add_class :: "regexps \<Rightarrow> jsstring option \<Rightarrow> jsstring \<Rightarrow> mode_exn + jsstring option" where
  "add_class rx out cls =
     (case out of
        None \<Rightarrow> Inr (Some cls)
      | Some o' \<Rightarrow>
          (case class_regexp rx cls of
             None \<Rightarrow> Inl (BadRegExp cls)
           | Some test \<Rightarrow> Inr (Some (if test o' then o' else o' @ js '' '' @ cls))))"

definition add_line_class :: "regexps \<Rightarrow> bool \<Rightarrow> jsstring \<Rightarrow> line_classes \<Rightarrow> mode_exn + line_classes" where
  "add_line_class rx background cls output =
     (if background then rbind (add_class rx (bgClass output) cls) (\<lambda>c. Inr (output\<lparr>bgClass := c\<rparr>))
      else rbind (add_class rx (textClass output) cls) (\<lambda>c. Inr (output\<lparr>textClass := c\<rparr>)))"

lemma starts_with_length: "starts_with p s \<Longrightarrow> length p \<le> length s"
  unfolding starts_with_def by (metis length_take min.cobounded1)

lemma class_after_length: "class_after s = Some (b, c) \<Longrightarrow> (if b then 11 else 0) + length c \<le> length s"
proof -
  assume a: "class_after s = Some (b, c)"
  have "length (takeWhile (\<lambda>c. \<not> is_space c) s) \<le> length s" by (rule length_takeWhile_le)
  with a show ?thesis
    by (auto simp: class_after_def Let_def js_def split: if_splits)
qed

lemma line_class_at_length: "line_class_at s i = Some (n, b, c) \<Longrightarrow> 0 < n \<and> i + n \<le> length s"
proof -
  assume a: "line_class_at s i = Some (n, b, c)"
  let ?t = "drop i s" let ?k = "length (takeWhile is_space ?t)" let ?u = "drop ?k ?t"
  from a have c: "class_after (drop 5 ?u) = Some (b, c)" "starts_with (js ''line-'') ?u"
    and n: "n = ?k + 5 + (if b then 11 else 0) + length c"
    by (auto simp: line_class_at_def Let_def split: if_splits option.splits)
  have "length ?u \<ge> 5" using starts_with_length [OF c(2)] by (simp add: js_def)
  with class_after_length [OF c(1)] n show ?thesis by auto
qed

lemma line_class_match_length:
  "line_class_match s = Some (i, n, b, c) \<Longrightarrow> 0 < n \<and> i + n \<le> length s"
  using line_class_at_length by (auto simp: line_class_match_def split: option.splits)

function extract_loop :: "regexps \<Rightarrow> jsstring \<Rightarrow> line_classes \<Rightarrow> mode_exn + jsstring \<times> line_classes" where
  "extract_loop rx type output =
     (case line_class_match type of
        None \<Rightarrow> Inr (type, output)
      | Some (i, n, background, cls) \<Rightarrow>
          (case add_line_class rx background cls output of
             Inl e \<Rightarrow> Inl e
           | Inr output' \<Rightarrow> extract_loop rx (take i type @ drop (i + n) type) output'))"
  by pat_completeness auto
termination
  by (relation "measure (\<lambda>(_, t, _). length t)") (auto dest!: line_class_match_length)

declare extract_loop.simps [simp del]

definition extractLineClasses :: "regexps \<Rightarrow> style \<Rightarrow> line_classes \<Rightarrow> mode_exn + style \<times> line_classes" where
  "extractLineClasses rx type output =
     (case type of
        Some t \<Rightarrow> if t = [] then Inr (type, output)
                  else rbind (extract_loop rx t output) (\<lambda>(t', out'). Inr (Some t', out'))
      | None \<Rightarrow> Inr (None, output))"

subsection \<open>Running a mode over a line\<close>

definition callBlankLine :: "'st mode \<Rightarrow> 'st \<Rightarrow> style \<times> 'st" where
  "callBlankLine mode state =
     (case m_blankLine mode of
        Some blankLine \<Rightarrow> blankLine state
      | None \<Rightarrow>
          (case m_innerMode mode of
             None \<Rightarrow> (None, state)
           | Some innerMode \<Rightarrow>
               (case snd (innerMode state) of
                  Some blankLine \<Rightarrow> blankLine state
                | None \<Rightarrow> (None, state))))"

definition innerModeName :: "'st mode \<Rightarrow> 'st \<Rightarrow> jsstring option" where
  "innerModeName mode state =
     (case m_innerMode mode of None \<Rightarrow> m_name mode | Some innerMode \<Rightarrow> fst (innerMode state))"

fun readToken_loop :: "nat \<Rightarrow> 'st mode \<Rightarrow> stream \<Rightarrow> 'st \<Rightarrow> mode_exn + style \<times> stream \<times> 'st" where
  "readToken_loop 0 mode st state = Inl (FailedToAdvance (m_name mode))"
| "readToken_loop (Suc i) mode st state =
     (let (style, st', state') = m_token mode st state
      in if s_pos st' > s_start st' then Inr (style, st', state')
         else readToken_loop i mode st' state')"

definition readToken :: "'st mode \<Rightarrow> stream \<Rightarrow> 'st \<Rightarrow> mode_exn + style \<times> stream \<times> 'st" where
  "readToken = readToken_loop 10"

partial_function (option) process_loop ::
  "hl_options \<Rightarrow> 'st mode \<Rightarrow> stream \<Rightarrow> 'st \<Rightarrow> (mode_exn + stream \<times> 'st) option" where
  "process_loop opts mode st state =
     (if \<not> eol st \<and> s_pos st \<le> o_maxHighlightLength opts
      then (case readToken mode st state of
              Inl e \<Rightarrow> Some (Inl e)
            | Inr (style, st', state') \<Rightarrow> process_loop opts mode (st'\<lparr>s_start := s_pos st'\<rparr>) state')
      else Some (Inr (st, state)))"

declare process_loop.simps [code]

definition processLine ::
  "hl_options \<Rightarrow> 'st mode \<Rightarrow> jsstring \<Rightarrow> 'st \<Rightarrow> nat \<Rightarrow> (mode_exn + stream \<times> 'st) option" where
  "processLine opts mode text state startAt =
     process_loop opts mode
       ((StringStream text (o_tabSize opts))\<lparr>s_start := startAt, s_pos := startAt\<rparr>)
       (if text = [] then snd (callBlankLine mode state) else state)"

record 'st run =
  r_stream :: stream
  r_state :: 'st
  r_flatten :: bool
  r_curStart :: nat
  r_curStyle :: style
  r_classes :: line_classes
  r_calls :: "(nat \<times> style) list"

text \<open>
  One round of the loop of \<open>runMode\<close>. Beyond the length limit the rest of the line is one unstyled
  token; \<^verbatim>\<open>forceToEnd\<close> then asks \<open>processLine\<close> to bring the state to the end of the line, with the
  mode of the document, which is \<open>mode\<close> wherever the flag is set.
\<close>

definition run_token ::
  "hl_options \<Rightarrow> 'st mode \<Rightarrow> bool \<Rightarrow> 'st run \<Rightarrow> (mode_exn + style \<times> 'st run) option" where
  "run_token opts mode forceToEnd r =
     (let text = s_string (r_stream r)
      in if s_pos (r_stream r) > o_maxHighlightLength opts then
           (case (if forceToEnd
                  then processLine opts mode text (r_state r) (s_pos (r_stream r))
                  else Some (Inr (r_stream r, r_state r))) of
              None \<Rightarrow> None
            | Some (Inl e) \<Rightarrow> Some (Inl e)
            | Some (Inr (_, state)) \<Rightarrow>
                Some (Inr (None, r\<lparr>r_flatten := False, r_state := state,
                                  r_stream := (r_stream r)\<lparr>s_pos := length text\<rparr>\<rparr>)))
         else
           Some (rbind (readToken mode (r_stream r) (r_state r))
             (\<lambda>(style, st', state').
                rbind (extractLineClasses (o_regexp opts) style (r_classes r)) (\<lambda>(style', classes).
                  Inr (style', r\<lparr>r_stream := st', r_state := state', r_classes := classes\<rparr>)))))"

definition mode_class :: "hl_options \<Rightarrow> 'st mode \<Rightarrow> 'st \<Rightarrow> style \<Rightarrow> style" where
  "mode_class opts mode state style =
     (if o_addModeClass opts then
        (let mName = innerModeName mode state
         in if style_set mName
            then Some (js ''m-'' @ (if style_set style then the mName @ js '' '' @ the style else the mName))
            else style)
      else style)"

definition run_emit :: "style \<Rightarrow> 'st run \<Rightarrow> 'st run" where
  "run_emit style r =
     (let r1 = (if \<not> r_flatten r \<or> r_curStyle r \<noteq> style
                then (let calls = (if r_curStart r < s_start (r_stream r)
                                   then r_calls r @ [(s_start (r_stream r), r_curStyle r)]
                                   else r_calls r)
                      in r\<lparr>r_calls := calls, r_curStart := s_start (r_stream r), r_curStyle := style\<rparr>)
                else r)
      in r1\<lparr>r_stream := (r_stream r1)\<lparr>s_start := s_pos (r_stream r1)\<rparr>\<rparr>)"

definition run_step ::
  "hl_options \<Rightarrow> 'st mode \<Rightarrow> bool \<Rightarrow> 'st run \<Rightarrow> (mode_exn + 'st run) option" where
  "run_step opts mode forceToEnd r =
     (case run_token opts mode forceToEnd r of
        None \<Rightarrow> None
      | Some (Inl e) \<Rightarrow> Some (Inl e)
      | Some (Inr (style, r')) \<Rightarrow> Some (Inr (run_emit (mode_class opts mode (r_state r') style) r')))"

partial_function (option) run_loop ::
  "hl_options \<Rightarrow> 'st mode \<Rightarrow> bool \<Rightarrow> 'st run \<Rightarrow> (mode_exn + 'st run) option" where
  "run_loop opts mode forceToEnd r =
     (if eol (r_stream r) then Some (Inr r)
      else Option.bind (run_step opts mode forceToEnd r)
             (\<lambda>x. case x of Inl e \<Rightarrow> Some (Inl e) | Inr r' \<Rightarrow> run_loop opts mode forceToEnd r'))"

declare run_loop.simps [code]

text \<open>The last token is cut into pieces of at most 50000 characters.\<close>

function flush_loop :: "nat \<Rightarrow> nat \<Rightarrow> style \<Rightarrow> (nat \<times> style) list" where
  "flush_loop curStart end_pos curStyle =
     (if curStart < end_pos
      then (let pos = min end_pos (curStart + 50000)
            in (pos, curStyle) # flush_loop pos end_pos curStyle)
      else [])"
  by pat_completeness auto
termination
  by (relation "measure (\<lambda>(a, b, _). b - a)") auto

declare flush_loop.simps [simp del]

definition runMode ::
  "hl_options \<Rightarrow> jsstring \<Rightarrow> 'st mode \<Rightarrow> 'st \<Rightarrow> line_classes \<Rightarrow> bool \<Rightarrow>
    (mode_exn + (nat \<times> style) list \<times> line_classes \<times> 'st) option" where
  "runMode opts text mode state classes forceToEnd =
     (let flatten = (case m_flattenSpans mode of Some b \<Rightarrow> b | None \<Rightarrow> o_flattenSpans opts);
          (blank, state0) = (if text = [] then callBlankLine mode state else (None, state));
          found = (if text = [] then rbind (extractLineClasses (o_regexp opts) blank classes) (\<lambda>(_, cls). Inr cls) else Inr classes)
      in case found of
           Inl e \<Rightarrow> Some (Inl e)
         | Inr classes0 \<Rightarrow>
             (let r0 = \<lparr>r_stream = StringStream text (o_tabSize opts), r_state = state0, r_flatten = flatten,
                       r_curStart = 0, r_curStyle = None, r_classes = classes0, r_calls = []\<rparr>
              in map_option
                   (\<lambda>x. rbind x (\<lambda>r. Inr (r_calls r @ flush_loop (r_curStart r) (s_pos (r_stream r)) (r_curStyle r),
                                          r_classes r, r_state r)))
                   (run_loop opts mode forceToEnd r0)))"

subsection \<open>Overlays\<close>

text \<open>
  The style array of a line is its generation number followed by pairs of an end and a style; the
  pairs are a list here and the index \<^verbatim>\<open>i\<close> counts pairs. \<open>split_loop\<close> is the loop that makes a token
  end at \<open>end_pos\<close>; beyond the end of the array \<^verbatim>\<open>at\<close> becomes \<^verbatim>\<open>NaN\<close> (\<open>None\<close>), which ends the loop.
\<close>

function split_loop ::
  "(nat \<times> style) list \<Rightarrow> nat \<Rightarrow> nat option \<Rightarrow> nat \<Rightarrow> (nat \<times> style) list \<times> nat \<times> nat option" where
  "split_loop st i at end_pos =
     (case at of
        None \<Rightarrow> (st, i, at)
      | Some a \<Rightarrow>
          if a < end_pos then
            (if i < length st then
               (let (i_end, sty) = st ! i
                in if i_end > end_pos
                   then (js_splice st i 1 [(end_pos, sty), (i_end, sty)], i + 1, Some end_pos)
                   else split_loop st (i + 1) (Some i_end) end_pos)
             else (st, i + 1, None))
          else (st, i, at))"
  by pat_completeness auto
termination
  by (relation "measure (\<lambda>(st, i, _, _). length st - i)") auto

declare split_loop.simps [simp del]

definition overlay_prefix :: jsstring where
  "overlay_prefix = js ''cm-overlay ''"

definition combine_style :: "style \<Rightarrow> jsstring \<Rightarrow> style" where
  "combine_style cur style =
     Some ((if style_set cur then the cur @ js '' '' else []) @ overlay_prefix @ style)"

definition overlay_token ::
  "bool \<Rightarrow> (nat \<times> style) list \<times> nat \<times> nat option \<Rightarrow> nat \<times> style \<Rightarrow> (nat \<times> style) list \<times> nat \<times> nat option" where
  "overlay_token opaque acc call =
     (let (st, start, at) = acc; (end_pos, style) = call;
          (st1, i, at1) = split_loop st start at end_pos
      in if \<not> style_set style then (st1, i, at1)
         else if opaque
         then (js_splice st1 start (i - start) [(end_pos, Some (overlay_prefix @ the style))], start + 1, at1)
         else (take start st1 @
                 map (\<lambda>(e, cur). (e, combine_style cur (the style))) (take (i - start) (drop start st1)) @
                 drop i st1, i, at1))"

definition apply_overlay :: "bool \<Rightarrow> (nat \<times> style) list \<Rightarrow> (nat \<times> style) list \<Rightarrow> (nat \<times> style) list" where
  "apply_overlay opaque st calls = fst (foldl (overlay_token opaque) (st, 0, Some 0) calls)"

text \<open>An overlay is a mode without state (its state is \<^verbatim>\<open>true\<close>) and a flag.\<close>

fun run_overlays ::
  "hl_options \<Rightarrow> jsstring \<Rightarrow> (bool mode \<times> bool) list \<Rightarrow> (nat \<times> style) list \<Rightarrow> line_classes \<Rightarrow>
    (mode_exn + (nat \<times> style) list \<times> line_classes) option" where
  "run_overlays opts text [] st classes = Some (Inr (st, classes))"
| "run_overlays opts text ((mode, opaque) # os) st classes =
     (case runMode opts text mode True classes False of
        None \<Rightarrow> None
      | Some (Inl e) \<Rightarrow> Some (Inl e)
      | Some (Inr (calls, classes', _)) \<Rightarrow>
          run_overlays opts text os (apply_overlay opaque st calls) classes')"

definition highlightLine ::
  "hl_options \<Rightarrow> 'st mode \<Rightarrow> (bool mode \<times> bool) list \<Rightarrow> jsstring \<Rightarrow> 'st \<Rightarrow> bool \<Rightarrow>
    (mode_exn + (nat \<times> style) list \<times> line_classes option \<times> 'st) option" where
  "highlightLine opts mode overlays text state forceToEnd =
     (case runMode opts text mode state no_classes forceToEnd of
        None \<Rightarrow> None
      | Some (Inl e) \<Rightarrow> Some (Inl e)
      | Some (Inr (st, classes, state')) \<Rightarrow>
          map_option
            (\<lambda>x. rbind x (\<lambda>(styles, classes').
               Inr (styles,
                    if style_set (bgClass classes') \<or> style_set (textClass classes')
                    then Some classes' else None,
                    state')))
            (run_overlays opts text overlays st classes))"

subsection \<open>Looking up a style\<close>

text \<open>
  The binary search of \<open>getTokenTypeAt\<close> for the token that contains the character before \<open>ch\<close>. An
  index beyond the array makes the comparison fail, and the lookup gives \<^verbatim>\<open>undefined\<close>.
\<close>

partial_function (option) type_search :: "(nat \<times> style) list \<Rightarrow> nat \<Rightarrow> nat \<Rightarrow> nat \<Rightarrow> style option" where
  "type_search styles ch before after =
     (let mid = (before + after) div 2
      in if (if mid \<noteq> 0 then mid - 1 < length styles \<and> fst (styles ! (mid - 1)) \<ge> ch else 0 \<ge> ch)
         then type_search styles ch before mid
         else if mid < length styles \<and> fst (styles ! mid) < ch
         then type_search styles ch (mid + 1) after
         else Some (if mid < length styles then snd (styles ! mid) else None))"

declare type_search.simps [code]

fun find_sub :: "nat \<Rightarrow> jsstring \<Rightarrow> jsstring \<Rightarrow> nat option" where
  "find_sub k p [] = (if p = [] then Some k else None)"
| "find_sub k p (c # cs) = (if starts_with p (c # cs) then Some k else find_sub (Suc k) p cs)"

definition cut_overlay :: "style \<Rightarrow> style" where
  "cut_overlay type =
     (if style_set type then
        (case find_sub 0 overlay_prefix (the type) of
           None \<Rightarrow> type
         | Some 0 \<Rightarrow> None
         | Some (Suc k) \<Rightarrow> Some (take k (the type)))
      else type)"

definition getTokenTypeAt :: "(nat \<times> style) list \<Rightarrow> nat \<Rightarrow> style option" where
  "getTokenTypeAt styles ch =
     map_option cut_overlay
       (if ch = 0 then Some (case styles of [] \<Rightarrow> None | p # _ \<Rightarrow> snd p)
        else type_search styles ch 0 (length styles))"

section \<open>Tilings of a line\<close>

text \<open>A list of ends and styles tiles the characters from \<open>a\<close> to \<open>b\<close>: the tokens are not empty, follow
  each other and the last one ends at \<open>b\<close>.\<close>

fun tiling :: "nat \<Rightarrow> (nat \<times> style) list \<Rightarrow> nat \<Rightarrow> bool" where
  "tiling a [] b \<longleftrightarrow> a = b"
| "tiling a ((e, s) # xs) b \<longleftrightarrow> a < e \<and> tiling e xs b"

fun style_at :: "(nat \<times> style) list \<Rightarrow> nat \<Rightarrow> style option" where
  "style_at [] p = None"
| "style_at ((e, s) # xs) p = (if p < e then Some s else style_at xs p)"

lemma tiling_append: "tiling a (xs @ ys) c \<longleftrightarrow> (\<exists>b. tiling a xs b \<and> tiling b ys c)"
  by (induction a xs c rule: tiling.induct) auto

lemma tiling_le: "tiling a xs b \<Longrightarrow> a \<le> b"
  by (induction a xs b rule: tiling.induct) auto

lemma style_at_append:
  "tiling a xs b \<Longrightarrow> style_at (xs @ ys) p = (if p < b \<and> xs \<noteq> [] then style_at xs p else style_at ys p)"
proof (induction a xs b rule: tiling.induct)
  case (2 a e s xs b)
  then show ?case using tiling_le [of e xs b] by (cases xs) auto
qed simp

lemma style_at_Some: "tiling a xs b \<Longrightarrow> p < b \<Longrightarrow> a \<le> p \<Longrightarrow> style_at xs p \<noteq> None"
  by (induction a xs b rule: tiling.induct) auto

lemma style_at_map:
  "style_at (map (\<lambda>(e, s). (e, f s)) xs) p = map_option f (style_at xs p)"
  by (induction xs p rule: style_at.induct) auto

lemma tiling_map: "tiling a (map (\<lambda>(e, s). (e, f s)) xs) b \<longleftrightarrow> tiling a xs b"
  by (induction a xs b rule: tiling.induct) auto

lemma tiling_flush: "a \<le> b \<Longrightarrow> tiling a (flush_loop a b s) b"
proof (induction a b s rule: flush_loop.induct)
  case (1 a b s)
  show ?case
  proof (cases "a < b")
    case True
    with 1 show ?thesis by (subst flush_loop.simps) (simp add: Let_def)
  next
    case False
    with 1(2) show ?thesis by (subst flush_loop.simps) simp
  qed
qed

section \<open>Line classes that make regular expressions\<close>

text \<open>The line classes in a style, in the order in which \<open>extractLineClasses\<close> takes them out.\<close>

function line_class_list :: "jsstring \<Rightarrow> jsstring list" where
  "line_class_list type =
     (case line_class_match type of
        None \<Rightarrow> []
      | Some (i, n, background, cls) \<Rightarrow> cls # line_class_list (take i type @ drop (i + n) type))"
  by pat_completeness auto
termination by (relation "measure length") (auto dest!: line_class_match_length)

declare line_class_list.simps [simp del]

definition style_ok :: "regexps \<Rightarrow> style \<Rightarrow> bool" where
  "style_ok rx sty \<longleftrightarrow> (case sty of None \<Rightarrow> True | Some t \<Rightarrow> list_all (\<lambda>cls. class_regexp rx cls \<noteq> None) (line_class_list t))"

lemma plain_class_regexp: "plain_pattern cls \<Longrightarrow> class_regexp rx cls = Some (class_present cls)"
  by (simp add: class_regexp_def regexp_around_def)

lemma add_line_class_ok: "class_regexp rx cls \<noteq> None \<Longrightarrow> \<exists>out'. add_line_class rx bg cls out = Inr out'"
  by (auto simp: add_line_class_def add_class_def split: option.split)

lemma extract_loop_ok:
  "list_all (\<lambda>cls. class_regexp rx cls \<noteq> None) (line_class_list t) \<Longrightarrow> \<exists>x. extract_loop rx t out = Inr x"
proof (induction rx t out rule: extract_loop.induct)
  case (1 rx t out)
  show ?case
  proof (cases "line_class_match t")
    case None
    then show ?thesis by (subst extract_loop.simps) simp
  next
    case (Some m)
    obtain i n bg cls where m: "m = (i, n, bg, cls)" by (rule prod_cases4)
    have cls: "class_regexp rx cls \<noteq> None" "list_all (\<lambda>cls. class_regexp rx cls \<noteq> None) (line_class_list (take i t @ drop (i + n) t))"
      using 1(2) Some m by (subst (asm) line_class_list.simps, simp)+
    obtain out' where out: "add_line_class rx bg cls out = Inr out'" using add_line_class_ok [OF cls(1)] by blast
    then show ?thesis using 1(1) [OF Some m [symmetric] refl refl out cls(2)] Some m by (subst extract_loop.simps) simp
  qed
qed

lemma extractLineClasses_ok: "style_ok rx sty \<Longrightarrow> \<exists>sty' cls. extractLineClasses rx sty out = Inr (sty', cls)"
proof (cases sty)
  case (Some t)
  moreover assume "style_ok rx sty"
  ultimately obtain t' out' where "extract_loop rx t out = Inr (t', out')" using extract_loop_ok [of rx t out] by (auto simp: style_ok_def)
  with Some show ?thesis by (simp add: extractLineClasses_def)
qed (simp add: extractLineClasses_def)

section \<open>The contract of a mode\<close>

text \<open>
  What the editor needs of a mode: away from the end of the line a call of its token function moves
  the position forward within the line and changes neither the text nor the start of the token,
  and the state keeps an invariant.
\<close>

locale advancing_mode =
  fixes md :: "'st mode" and inv :: "'st \<Rightarrow> bool"
  assumes token_advances: "inv s \<Longrightarrow> stream_ok st \<Longrightarrow> \<not> eol st \<Longrightarrow> m_token md st s = (sty, st', s') \<Longrightarrow>
      s_string st' = s_string st \<and> s_start st' = s_start st \<and>
      s_pos st < s_pos st' \<and> s_pos st' \<le> length (s_string st) \<and> inv s'"
    and blank_keeps: "inv s \<Longrightarrow> inv (snd (callBlankLine md s))"
begin

lemma readToken_advances:
  assumes "inv s" and "stream_ok st" and "\<not> eol st"
  shows "\<exists>sty st' s'. readToken md st s = Inr (sty, st', s') \<and> s_string st' = s_string st \<and>
    s_start st' = s_start st \<and> s_pos st < s_pos st' \<and> s_pos st' \<le> length (s_string st) \<and> inv s'"
proof -
  obtain sty st' s' where t: "m_token md st s = (sty, st', s')" by (rule prod_cases3)
  note a = token_advances [OF assms t]
  have "s_start st \<le> s_pos st" using assms(2) by (simp add: stream_ok_def)
  with a have "s_start st' < s_pos st'" by linarith
  then have "readToken md st s = Inr (sty, st', s')"
    using t by (simp add: readToken_def numeral_eq_Suc)
  with a show ?thesis by blast
qed

lemma process_loop_ends:
  "inv s \<Longrightarrow> stream_ok st \<Longrightarrow>
    \<exists>st' s'. process_loop opts md st s = Some (Inr (st', s')) \<and> inv s' \<and>
      (eol st' \<or> o_maxHighlightLength opts < s_pos st')"
proof (induction "length (s_string st) - s_pos st" arbitrary: st s rule: less_induct)
  case less
  show ?case
  proof (cases "\<not> eol st \<and> s_pos st \<le> o_maxHighlightLength opts")
    case True
    obtain sty st' s' where r: "readToken md st s = Inr (sty, st', s')" "s_string st' = s_string st"
      "s_pos st < s_pos st'" "s_pos st' \<le> length (s_string st)" "inv s'"
      using readToken_advances [OF less(2,3)] True by blast
    let ?st = "st'\<lparr>s_start := s_pos st'\<rparr>"
    have "length (s_string ?st) - s_pos ?st < length (s_string st) - s_pos st"
      using r True by (simp add: eol_def)
    moreover have "stream_ok ?st" using r by (simp add: stream_ok_def)
    ultimately show ?thesis
      using less(1) [of ?st s'] r True by (subst process_loop.simps) simp
  next
    case False
    with less(2) show ?thesis by (subst process_loop.simps) auto
  qed
qed

lemma processLine_ends:
  "inv s \<Longrightarrow> n \<le> length text \<Longrightarrow>
    \<exists>st' s'. processLine opts md text s n = Some (Inr (st', s')) \<and> inv s'"
  using process_loop_ends [of "if text = [] then snd (callBlankLine md s) else s"
      "(StringStream text (o_tabSize opts))\<lparr>s_start := n, s_pos := n\<rparr>" opts] blank_keeps [of s]
  by (auto simp: processLine_def stream_ok_def StringStream_def split: if_splits)

lemma readToken_first:
  assumes "inv s" and "stream_ok st" and "\<not> eol st"
  shows "readToken md st s = Inr (m_token md st s)"
proof -
  obtain sty st' s' where t: "m_token md st s = (sty, st', s')" by (rule prod_cases3)
  have "s_start st' < s_pos st'" using token_advances [OF assms t] assms(2) by (simp add: stream_ok_def)
  then show ?thesis using t by (simp add: readToken_def numeral_eq_Suc)
qed

end

text \<open>
  For styles that the editor looks for line classes in, every line class of a token or of a blank line has to be
  accepted by \<^verbatim>\<open>RegExp\<close>, as it is when it has no special characters.
\<close>

locale styled_mode = advancing_mode md inv for md :: "'st mode" and inv :: "'st \<Rightarrow> bool" +
  fixes opts :: hl_options
  assumes token_styles: "inv s \<Longrightarrow> stream_ok st \<Longrightarrow> \<not> eol st \<Longrightarrow> style_ok (o_regexp opts) (fst (m_token md st s))"
    and blank_styles: "inv s \<Longrightarrow> style_ok (o_regexp opts) (fst (callBlankLine md s))"
begin

lemma readToken_styles:
  assumes "inv s" and "stream_ok st" and "\<not> eol st" and "readToken md st s = Inr (sty, st', s')"
  shows "\<exists>sty' cls. extractLineClasses (o_regexp opts) sty out = Inr (sty', cls)"
proof (rule extractLineClasses_ok)
  have "m_token md st s = (sty, st', s')" using readToken_first [OF assms(1-3)] assms(4) by simp
  then show "style_ok (o_regexp opts) sty" using token_styles [OF assms(1-3)] by simp
qed

text \<open>The invariant of the loop of \<open>runMode\<close>: the calls so far tile the line up to \<^verbatim>\<open>curStart\<close>.\<close>

definition run_inv :: "jsstring \<Rightarrow> 'st run \<Rightarrow> bool" where
  "run_inv text r \<longleftrightarrow> inv (r_state r) \<and> s_string (r_stream r) = text \<and>
     s_start (r_stream r) = s_pos (r_stream r) \<and> s_pos (r_stream r) \<le> length text \<and>
     r_curStart r \<le> s_pos (r_stream r) \<and> tiling 0 (r_calls r) (r_curStart r)"

lemma run_token_ok:
  assumes "run_inv text r" and "\<not> eol (r_stream r)"
  shows "\<exists>sty r'. run_token opts md force r = Some (Inr (sty, r')) \<and> inv (r_state r') \<and>
    s_string (r_stream r') = text \<and> s_start (r_stream r') = s_pos (r_stream r) \<and>
    s_pos (r_stream r) < s_pos (r_stream r') \<and> s_pos (r_stream r') \<le> length text \<and>
    r_curStart r' = r_curStart r \<and> r_calls r' = r_calls r"
proof (cases "s_pos (r_stream r) > o_maxHighlightLength opts")
  case True
  obtain st' s' where p: "processLine opts md text (r_state r) (s_pos (r_stream r)) = Some (Inr (st', s'))"
    "inv s'" using processLine_ends [of "r_state r" "s_pos (r_stream r)" "text" opts] assms(1)
    by (auto simp: run_inv_def)
  then show ?thesis
    using True assms by (cases force) (auto simp: run_token_def run_inv_def eol_def)
next
  case False
  have ok: "inv (r_state r)" "stream_ok (r_stream r)" using assms(1) by (simp_all add: run_inv_def stream_ok_def)
  then obtain sty st' s' where r: "readToken md (r_stream r) (r_state r) = Inr (sty, st', s')"
    "s_string st' = text" "s_start st' = s_pos (r_stream r)" "s_pos (r_stream r) < s_pos st'"
    "s_pos st' \<le> length text" "inv s'"
    using readToken_advances [of "r_state r" "r_stream r"] assms by (auto simp: run_inv_def)
  obtain sty' cls where "extractLineClasses (o_regexp opts) sty (r_classes r) = Inr (sty', cls)"
    using readToken_styles [OF ok assms(2) r(1)] by blast
  with False r show ?thesis by (auto simp: run_token_def Let_def)
qed

lemma run_step_ok:
  assumes "run_inv text r" and "\<not> eol (r_stream r)"
  shows "\<exists>r'. run_step opts md force r = Some (Inr r') \<and> run_inv text r' \<and>
    s_pos (r_stream r) < s_pos (r_stream r')"
  using run_token_ok [OF assms, of force] assms(1)
  by (auto simp: run_step_def run_emit_def run_inv_def Let_def tiling_append)

lemma run_loop_ends:
  "run_inv text r \<Longrightarrow> \<exists>r'. run_loop opts md force r = Some (Inr r') \<and> run_inv text r' \<and> eol (r_stream r')"
proof (induction "length text - s_pos (r_stream r)" arbitrary: r rule: less_induct)
  case less
  show ?case
  proof (cases "eol (r_stream r)")
    case True
    with less(2) show ?thesis by (subst run_loop.simps) simp
  next
    case False
    from run_step_ok [OF less(2) False, of force] obtain r' where
      r': "run_step opts md force r = Some (Inr r')" "run_inv text r'" "s_pos (r_stream r) < s_pos (r_stream r')"
      by blast
    have "length text - s_pos (r_stream r') < length text - s_pos (r_stream r)"
      using r' False less(2) by (auto simp: run_inv_def eol_def)
    then show ?thesis using less(1) [of r'] r' False by (subst run_loop.simps) simp
  qed
qed

lemma runMode_tiles:
  assumes "inv s"
  shows "\<exists>calls classes' s'. runMode opts text md s classes force = Some (Inr (calls, classes', s')) \<and>
    tiling 0 calls (length text) \<and> inv s'"
proof -
  define fl where "fl = (case m_flattenSpans md of Some b \<Rightarrow> b | None \<Rightarrow> o_flattenSpans opts)"
  define b where "b = (if text = [] then callBlankLine md s else (None, s))"
  obtain c0 where c0: "(if text = [] then rbind (extractLineClasses (o_regexp opts) (fst b) classes) (\<lambda>(_, cls). Inr cls) else Inr classes) = Inr c0"
    using extractLineClasses_ok [OF blank_styles [OF assms], of classes] by (cases "text = []") (auto simp: b_def)
  define r0 where "r0 = \<lparr>r_stream = StringStream text (o_tabSize opts), r_state = snd b, r_flatten = fl,
    r_curStart = 0, r_curStyle = None, r_classes = c0, r_calls = []\<rparr>"
  have "run_inv text r0"
    using assms blank_keeps by (auto simp: run_inv_def r0_def b_def StringStream_def)
  from run_loop_ends [OF this] obtain r' where r': "run_loop opts md force r0 = Some (Inr r')"
    "run_inv text r'" "eol (r_stream r')" by blast
  have "runMode opts text md s classes force = map_option (\<lambda>x. rbind x (\<lambda>r.
      Inr (r_calls r @ flush_loop (r_curStart r) (s_pos (r_stream r)) (r_curStyle r), r_classes r, r_state r)))
      (run_loop opts md force r0)"
    using c0 by (simp add: runMode_def Let_def fl_def b_def r0_def case_prod_unfold cong: if_cong split: if_splits)
  with r' tiling_flush [of "r_curStart r'" "s_pos (r_stream r')"] show ?thesis
    by (auto simp: run_inv_def eol_def tiling_append)
qed

end

text \<open>The SML mode fulfils the contract with the invariant \<open>sml_ok\<close>.\<close>

definition smlMode :: "sml_state mode" where
  "smlMode = \<lparr>m_name = Some (js ''sml''), m_token = token, m_blankLine = None, m_innerMode = None,
              m_flattenSpans = None\<rparr>"

interpretation sml: advancing_mode smlMode sml_ok
proof
  fix s st sty st' s'
  assume a: "sml_ok s" "stream_ok st" "\<not> eol st" "m_token smlMode st s = (sty, st', s')"
  then have t: "token st s = (sty, st', s')" by (simp add: smlMode_def)
  then have "reads st st'" "sml_ok s'" "s_pos st < s_pos st'"
    using token_reads [OF a(1), of st] token_progress [OF a(1,3)] by (simp_all add: token_post_def)
  with a(2) show "s_string st' = s_string st \<and> s_start st' = s_start st \<and> s_pos st < s_pos st' \<and>
      s_pos st' \<le> length (s_string st) \<and> sml_ok s'"
    by (auto simp: reads_def stream_ok_def)
next
  fix s assume "sml_ok s"
  then show "sml_ok (snd (callBlankLine smlMode s))" by (simp add: callBlankLine_def smlMode_def)
qed

text \<open>The SML mode uses seven styles, none with a line class.\<close>

definition sml_styles :: "style list" where
  "sml_styles = None # map (\<lambda>s. Some (js s)) [''string'', ''string error'', ''comment'', ''number'', ''error'', ''keyword'', ''variable'']"

lemma sml_styles_ok: "sty \<in> set sml_styles \<Longrightarrow> style_ok rx sty"
proof -
  have "list_all (\<lambda>sty. case sty of None \<Rightarrow> True | Some t \<Rightarrow> line_class_list t = []) sml_styles" by code_simp
  then show "sty \<in> set sml_styles \<Longrightarrow> ?thesis" by (cases sty) (auto simp: style_ok_def list_all_iff)
qed

lemma token_style: "fst (token st s) \<in> set sml_styles"
proof -
  have str: "fst (tokenString st s) \<in> set sml_styles" "fst (tokenComment st s) \<in> set sml_styles" for st s
    by (simp_all add: tokenString_def tokenComment_def sml_styles_def Let_def split: prod.split)
  have num: "fst (hexLiteral st) \<in> set sml_styles" "fst (wordLiteral st) \<in> set sml_styles" for st
    by (auto simp: wordLiteral_def hexLiteral_def sml_styles_def split: prod.split)
  have others: "fst (tildeToken st) \<in> set sml_styles" "fst (hashToken st s) \<in> set sml_styles" "Some (keywordStyle w) \<in> set sml_styles"
    "None \<in> set sml_styles" "Some (js ''number'') \<in> set sml_styles" "Some (js ''error'') \<in> set sml_styles" for st s w
    using num str
    by (auto simp: tildeToken_def hashToken_def keywordStyle_def Let_def split: prod.split option.split) (simp_all add: sml_styles_def)
  have "fst (tokenBase st s) \<in> set sml_styles" for st s
    using str num others by (auto simp: tokenBase_def Let_def case_prod_unfold split: option.split)
  then show ?thesis using str others(4) by (auto simp: token_def split: prod.split tokenizer.split)
qed

interpretation sml_styled: styled_mode smlMode sml_ok opts for opts
proof
  show "style_ok (o_regexp opts) (fst (m_token smlMode st s))" for st s
    using sml_styles_ok [OF token_style] by (simp add: smlMode_def)
  show "style_ok (o_regexp opts) (fst (callBlankLine smlMode s))" for s
    by (simp add: callBlankLine_def smlMode_def style_ok_def)
qed

section \<open>Overlays\<close>

lemma nth_pre: "(pre @ x # xs) ! length pre = x"
  by simp

lemma js_splice_pre: "js_splice (pre @ x # xs) (length pre) 1 ins = pre @ ins @ xs"
  by (simp add: js_splice_def)

lemma split_loop_splits:
  "tiling a todo n \<Longrightarrow> a \<le> e \<Longrightarrow> e \<le> n \<Longrightarrow>
    \<exists>mid todo'. split_loop (pre @ todo) (length pre) (Some a) e =
        (pre @ mid @ todo', length pre + length mid, Some e) \<and>
      tiling a mid e \<and> tiling e todo' n \<and>
      (\<forall>p. a \<le> p \<and> p < e \<longrightarrow> style_at mid p = style_at todo p) \<and>
      (\<forall>p. e \<le> p \<longrightarrow> style_at todo' p = style_at todo p)"
proof (induction a todo n arbitrary: pre rule: tiling.induct)
  case (1 a b)
  then have "a = e" by simp
  then show ?case using 1 by (intro exI [of _ "[]"]) (subst split_loop.simps, simp)
next
  case (2 a i_end s xs n)
  show ?case
  proof (cases "a < e")
    case False
    then have "a = e" using 2(3) by simp
    then show ?thesis
      using 2 by (intro exI [of _ "[]"] exI [of _ "(i_end, s) # xs"]) (subst split_loop.simps, simp)
  next
    case lt: True
    show ?thesis
    proof (cases "i_end > e")
      case True
      have "split_loop (pre @ (i_end, s) # xs) (length pre) (Some a) e =
          (pre @ [(e, s)] @ (i_end, s) # xs, length pre + 1, Some e)"
        using True lt by (subst split_loop.simps) (simp add: js_splice_def)
      then show ?thesis
        using True lt 2(2) by (intro exI [of _ "[(e, s)]"] exI [of _ "(i_end, s) # xs"]) auto
    next
      case False
      have "split_loop (pre @ (i_end, s) # xs) (length pre) (Some a) e =
          split_loop ((pre @ [(i_end, s)]) @ xs) (length (pre @ [(i_end, s)])) (Some i_end) e"
        using False lt by (subst split_loop.simps) simp
      moreover obtain mid todo' where
        m: "split_loop ((pre @ [(i_end, s)]) @ xs) (length (pre @ [(i_end, s)])) (Some i_end) e =
            ((pre @ [(i_end, s)]) @ mid @ todo', length (pre @ [(i_end, s)]) + length mid, Some e)"
        "tiling i_end mid e" "tiling e todo' n"
        "\<forall>p. i_end \<le> p \<and> p < e \<longrightarrow> style_at mid p = style_at xs p"
        "\<forall>p. e \<le> p \<longrightarrow> style_at todo' p = style_at xs p"
        using 2(1) [of "pre @ [(i_end, s)]"] 2(2,4) False by auto
      ultimately show ?thesis
        using 2(2) False by (intro exI [of _ "(i_end, s) # mid"] exI [of _ todo']) auto
    qed
  qed
qed

text \<open>The style of a character under an overlay.\<close>

definition overlay_style :: "bool \<Rightarrow> style \<Rightarrow> style \<Rightarrow> style" where
  "overlay_style opaque base over =
     (if \<not> style_set over then base
      else if opaque then Some (overlay_prefix @ the over) else combine_style base (the over))"

definition overlaid :: "bool \<Rightarrow> (nat \<times> style) list \<Rightarrow> (nat \<times> style) list \<Rightarrow> (nat \<times> style) list \<Rightarrow> nat \<Rightarrow> bool" where
  "overlaid opaque base over res p \<longleftrightarrow>
     style_at res p = Some (overlay_style opaque (the (style_at base p)) (the (style_at over p)))"

lemma overlay_token_ok:
  assumes "tiling a todo n" and "a < e" and "e \<le> n"
  shows "\<exists>mid todo'. overlay_token opaque (pre @ todo, length pre, Some a) (e, s) =
        (pre @ mid @ todo', length pre + length mid, Some e) \<and>
      tiling a mid e \<and> tiling e todo' n \<and>
      (\<forall>p. a \<le> p \<and> p < e \<longrightarrow> style_at mid p = Some (overlay_style opaque (the (style_at todo p)) s)) \<and>
      (\<forall>p. e \<le> p \<longrightarrow> style_at todo' p = style_at todo p)"
proof -
  have "a \<le> e" using assms(2) by simp
  from split_loop_splits [OF assms(1) this assms(3), of pre] obtain mid todo' where
    m: "split_loop (pre @ todo) (length pre) (Some a) e = (pre @ mid @ todo', length pre + length mid, Some e)"
      "tiling a mid e" "tiling e todo' n"
      "\<forall>p. a \<le> p \<and> p < e \<longrightarrow> style_at mid p = style_at todo p"
      "\<forall>p. e \<le> p \<longrightarrow> style_at todo' p = style_at todo p" by blast
  have some: "\<exists>t. style_at todo p = Some t" if "a \<le> p" "p < e" for p
    using style_at_Some [OF assms(1)] that assms(3) by (meson not_Some_eq order_less_le_trans)
  let ?mid = "if \<not> style_set s then mid else if opaque then [(e, Some (overlay_prefix @ the s))]
     else map (\<lambda>(e, cur). (e, combine_style cur (the s))) mid"
  show ?thesis
    using m some assms(2)
    by (rule_tac exI [of _ ?mid], rule_tac exI [of _ todo'])
      (auto simp: overlay_token_def js_splice_def overlay_style_def style_at_map tiling_map;
        use some in force)
qed

lemma apply_overlay_loop:
  "tiling a over n \<Longrightarrow> tiling a todo n \<Longrightarrow> tiling 0 pre a \<Longrightarrow>
    \<exists>res. fst (foldl (overlay_token opaque) (pre @ todo, length pre, Some a) over) = pre @ res \<and>
      tiling a res n \<and> (\<forall>p. a \<le> p \<and> p < n \<longrightarrow> overlaid opaque todo over res p)"
proof (induction a over n arbitrary: pre todo rule: tiling.induct)
  case (1 a b)
  then have "todo = []" using tiling_le by (cases todo) fastforce+
  with 1 show ?case by auto
next
  case (2 a e s over n)
  then have e: "a < e" "e \<le> n" by (auto dest: tiling_le)
  from overlay_token_ok [OF 2(3) e, of opaque pre s] obtain mid todo' where
    m: "overlay_token opaque (pre @ todo, length pre, Some a) (e, s) =
        (pre @ mid @ todo', length pre + length mid, Some e)" "tiling a mid e" "tiling e todo' n"
      "\<forall>p. a \<le> p \<and> p < e \<longrightarrow> style_at mid p = Some (overlay_style opaque (the (style_at todo p)) s)"
      "\<forall>p. e \<le> p \<longrightarrow> style_at todo' p = style_at todo p" by blast
  have "tiling 0 (pre @ mid) e" using 2(4) m(2) tiling_append by blast
  with 2(1) [of todo' "pre @ mid"] 2(2) m(3) obtain res where
    r: "fst (foldl (overlay_token opaque) ((pre @ mid) @ todo', length (pre @ mid), Some e) over) = (pre @ mid) @ res"
      "tiling e res n" "\<forall>p. e \<le> p \<and> p < n \<longrightarrow> overlaid opaque todo' over res p" by auto
  have "mid \<noteq> []" using m(2) e(1) by auto
  then have "\<forall>p. a \<le> p \<and> p < n \<longrightarrow> overlaid opaque todo ((e, s) # over) (mid @ res) p"
    using m(4,5) r(3) style_at_append [OF m(2), of res] by (auto simp: overlaid_def not_less)
  then show ?case using m(1,2) r(1,2) tiling_append by (intro exI [of _ "mid @ res"]) auto
qed

lemma apply_overlay_tiles:
  "tiling 0 base n \<Longrightarrow> tiling 0 over n \<Longrightarrow> tiling 0 (apply_overlay opaque base over) n"
  using apply_overlay_loop [of 0 over n base "[]" opaque] by (auto simp: apply_overlay_def)

section \<open>The lookup\<close>

lemma tiling_increasing: "tiling a xs b \<Longrightarrow> i < length xs \<Longrightarrow> a < fst (xs ! i) \<and> fst (xs ! i) \<le> b"
proof (induction a xs b arbitrary: i rule: tiling.induct)
  case (2 a e s xs b)
  then show ?case using tiling_le [of e xs b] by (cases i) fastforce+
qed simp

lemma tiling_sorted: "tiling a xs b \<Longrightarrow> i < j \<Longrightarrow> j < length xs \<Longrightarrow> fst (xs ! i) < fst (xs ! j)"
proof (induction a xs b arbitrary: i j rule: tiling.induct)
  case (2 a e s xs b)
  then show ?case using tiling_increasing [of e xs b "j - 1"] by (cases i; cases j) auto
qed simp

lemma style_at_index:
  "tiling a xs b \<Longrightarrow> a \<le> p \<Longrightarrow> p < b \<Longrightarrow>
    \<exists>i. i < length xs \<and> style_at xs p = Some (snd (xs ! i)) \<and> p < fst (xs ! i) \<and>
      (i \<noteq> 0 \<longrightarrow> fst (xs ! (i - 1)) \<le> p)"
proof (induction a xs b rule: tiling.induct)
  case (2 a e s xs b)
  show ?case
  proof (cases "p < e")
    case True
    then show ?thesis by (intro exI [of _ 0]) simp
  next
    case False
    with 2 obtain i where "i < length xs" "style_at xs p = Some (snd (xs ! i))" "p < fst (xs ! i)"
      "i \<noteq> 0 \<longrightarrow> fst (xs ! (i - 1)) \<le> p" by auto
    with False show ?thesis by (intro exI [of _ "Suc i"]) (auto simp: nth_Cons')
  qed
qed simp

lemma type_search_finds:
  assumes "tiling 0 styles n" and "0 < ch" and "i < length styles" and "ch \<le> fst (styles ! i)"
    and "i \<noteq> 0 \<Longrightarrow> fst (styles ! (i - 1)) < ch"
  shows "before \<le> i \<Longrightarrow> i < after \<Longrightarrow> after \<le> length styles \<Longrightarrow>
    type_search styles ch before after = Some (snd (styles ! i))"
proof (induction "after - before" arbitrary: before after rule: less_induct)
  case less
  define mid where "mid = (before + after) div 2"
  have mid: "before \<le> mid" "mid < after" using less(2,3) by (auto simp: mid_def)
  have sorted: "j \<le> k \<Longrightarrow> k < length styles \<Longrightarrow> fst (styles ! j) \<le> fst (styles ! k)" for j k
    using tiling_sorted [OF assms(1), of j k] by (cases "j = k") auto
  consider (low) "mid \<noteq> 0" "fst (styles ! (mid - 1)) \<ge> ch"
    | (high) "\<not> (mid \<noteq> 0 \<and> fst (styles ! (mid - 1)) \<ge> ch)" "fst (styles ! mid) < ch"
    | (found) "\<not> (mid \<noteq> 0 \<and> fst (styles ! (mid - 1)) \<ge> ch)" "\<not> fst (styles ! mid) < ch"
    by blast
  then show ?case
  proof cases
    case low
    have "i < mid"
    proof (rule ccontr)
      assume "\<not> i < mid"
      then have "mid - 1 \<le> i - 1" "i - 1 < length styles" "i \<noteq> 0" using low(1) assms(3) by auto
      with sorted [of "mid - 1" "i - 1"] low(2) assms(5) show False by simp
    qed
    moreover have "type_search styles ch before after = type_search styles ch before mid"
      using low mid less(4) by (subst type_search.simps) (auto simp: mid_def [symmetric])
    ultimately show ?thesis using less(1) [of mid before] less(2,4) mid by simp
  next
    case high
    have "mid < i"
    proof (rule ccontr)
      assume "\<not> mid < i"
      then have "i \<le> mid" "mid < length styles" using mid less(4) by auto
      with sorted [of i mid] high(2) assms(4) show False by simp
    qed
    moreover have "type_search styles ch before after = type_search styles ch (mid + 1) after"
      using high mid less(4) assms(2) by (subst type_search.simps) (auto simp: mid_def [symmetric])
    ultimately show ?thesis using less(1) [of after "mid + 1"] less(3,4) mid by simp
  next
    case found
    have "mid = i"
    proof (rule ccontr)
      assume "mid \<noteq> i"
      then consider "mid < i" | "i < mid" by linarith
      then show False
      proof cases
        case 1
        then have "mid \<le> i - 1" "i - 1 < length styles" using assms(3) by auto
        with sorted [of mid "i - 1"] assms(5) found(2) 1 show False by simp
      next
        case 2
        then have "i \<le> mid - 1" "mid - 1 < length styles" using mid less(4) by auto
        with sorted [of i "mid - 1"] assms(4) found(1) 2 show False by simp
      qed
    qed
    with found mid less(4) assms(2,3) show ?thesis
      by (subst type_search.simps) (auto simp: mid_def [symmetric])
  qed
qed

section \<open>Properties\<close>

lemma run_overlays_tiles:
  "\<forall>(m, opq) \<in> set overlays. styled_mode m (\<lambda>_. True) opts \<Longrightarrow> tiling 0 st (length text) \<Longrightarrow>
    \<exists>st' classes'. run_overlays opts text overlays st classes = Some (Inr (st', classes')) \<and>
      tiling 0 st' (length text)"
proof (induction overlays arbitrary: st classes)
  case (Cons ov overlays)
  obtain m opq where ov: "ov = (m, opq)" by fastforce
  with Cons.prems have "styled_mode m (\<lambda>_. True) opts" by simp
  then obtain calls classes' s' where "runMode opts text m True classes False = Some (Inr (calls, classes', s'))"
    "tiling 0 calls (length text)" using styled_mode.runMode_tiles [of m "\<lambda>_. True" opts] by blast
  with Cons.IH [of "apply_overlay opq st calls" classes'] Cons.prems ov
    apply_overlay_tiles [of st "length text" calls opq]
  show ?case by simp
qed simp

text \<open>C4: Highlighting a line in the SML mode never throws and always ends, whatever the text and the
  overlays (overlays that advance, and whose line classes, if they have any, are accepted by \<^verbatim>\<open>RegExp\<close>), and the
  styles it computes tile the line: tokens are not empty, adjacent, and the last one ends at the end of the
  line. The state stays within the mode's invariant.\<close>

theorem highlightLine_sml_tiles:
  assumes "sml_ok s" and "\<forall>(m, opq) \<in> set overlays. styled_mode m (\<lambda>_. True) opts"
  shows "\<exists>styles classes s'.
    highlightLine opts smlMode overlays text s force = Some (Inr (styles, classes, s')) \<and>
    tiling 0 styles (length text) \<and> sml_ok s'"
proof -
  obtain calls classes s' where r: "runMode opts text smlMode s no_classes force = Some (Inr (calls, classes, s'))"
    "tiling 0 calls (length text)" "sml_ok s'"
    using sml_styled.runMode_tiles [OF assms(1), of opts "text" no_classes force] by blast
  with run_overlays_tiles [OF assms(2) r(2), of classes] show ?thesis
    by (auto simp: highlightLine_def)
qed

text \<open>An overlay that marks every line as a whole, and gives it two line classes.\<close>

definition plain_overlay :: "bool mode" where
  "plain_overlay = \<lparr>m_name = None, m_token = (\<lambda>st s. (Some (js ''marked line-a line-b''), skipToEnd st, s)),
     m_blankLine = None, m_innerMode = None, m_flattenSpans = None\<rparr>"

lemma plain_overlay_styled: "styled_mode plain_overlay (\<lambda>_. True) opts"
proof -
  have "line_class_list (js ''marked line-a line-b'') = [js ''a'', js ''b'']" "plain_pattern (js ''a'')" "plain_pattern (js ''b'')"
    by code_simp+
  then have "style_ok rx (Some (js ''marked line-a line-b''))" for rx by (simp add: style_ok_def plain_class_regexp)
  then show ?thesis
    by unfold_locales (auto simp: plain_overlay_def skipToEnd_def eol_def callBlankLine_def style_ok_def)
qed

text \<open>An engine that accepts no pattern with special characters.\<close>

definition example_opts :: hl_options where
  "example_opts = \<lparr>o_tabSize = 4, o_maxHighlightLength = 100, o_flattenSpans = True, o_addModeClass = False, o_regexp = \<lambda>_. None\<rparr>"

theorem highlightLine_sml_tiles_witness:
  "\<exists>styles classes s'.
    highlightLine (example_opts\<lparr>o_maxHighlightLength := 10\<rparr>) smlMode [(plain_overlay, False)] (js ''val x = (* a'') startState True =
      Some (Inr (styles, classes, s')) \<and>
    tiling 0 styles (length (js ''val x = (* a'')) \<and> sml_ok s'"
  by (rule highlightLine_sml_tiles) (simp_all add: startState_ok plain_overlay_styled)

text \<open>A class that is no regular expression makes highlighting throw when the line has a line class already.\<close>

lemma bad_line_class:
  "extractLineClasses (\<lambda>_. None) (Some (js ''line-a line-*'')) no_classes = Inl (BadRegExp (js ''*''))"
  by code_simp

text \<open>The regular expression that looks for a class that is there already has the letter s in place of white space: a
  class behind a space is not found, and is added again.\<close>

lemma line_class_added_twice:
  "extractLineClasses (\<lambda>_. None) (Some (js ''line-a line-b line-b'')) no_classes =
    Inr (Some [], no_classes\<lparr>textClass := Some (js ''a b b'')\<rparr>)"
  by code_simp

text \<open>C32: Overlays act character by character: wherever the styles of the mode and of the overlay both
  tile the line, a character whose overlay style is empty keeps its style, an opaque overlay replaces
  the style, and any other one is appended to it; and the result tiles the line again.\<close>

theorem apply_overlay_styles:
  assumes "tiling 0 base n" and "tiling 0 over n"
  shows "tiling 0 (apply_overlay opaque base over) n \<and>
    (\<forall>p < n. style_at (apply_overlay opaque base over) p =
      Some (overlay_style opaque (the (style_at base p)) (the (style_at over p))))"
  using apply_overlay_loop [OF assms(2,1), of "[]" opaque] by (auto simp: apply_overlay_def overlaid_def)

theorem apply_overlay_styles_witness:
  "style_at (apply_overlay False [(4, Some (js ''a'')), (9, None)] [(2, None), (9, Some (js ''b''))]) 3 =
    Some (Some (js ''a cm-overlay b''))"
proof -
  have "tiling 0 (apply_overlay False [(4, Some (js ''a'')), (9, None)] [(2, None), (9, Some (js ''b''))]) 9 \<and>
    (\<forall>p < 9. style_at (apply_overlay False [(4, Some (js ''a'')), (9, None)] [(2, None), (9, Some (js ''b''))]) p =
      Some (overlay_style False (the (style_at [(4, Some (js ''a'')), (9, None)] p))
        (the (style_at [(2, None), (9, Some (js ''b''))] p))))"
    by (rule apply_overlay_styles) simp_all
  then show ?thesis
    by (simp add: overlay_style_def combine_style_def style_set_def js_def overlay_prefix_def)
qed

text \<open>The lookup of a token type finds, by binary search and always, the token that contains the
  character before the given one (the first token for the beginning of the line), with the part that
  overlays added cut off.\<close>

theorem getTokenTypeAt_correct:
  assumes "tiling 0 styles n" and "0 < n" and "ch \<le> n"
  shows "getTokenTypeAt styles ch = map_option cut_overlay (style_at styles (ch - 1))"
proof (cases "ch = 0")
  case True
  then show ?thesis using assms by (cases styles) (auto simp: getTokenTypeAt_def)
next
  case False
  then have "ch - 1 < n" using assms(3) by linarith
  then obtain i where i: "i < length styles" "style_at styles (ch - 1) = Some (snd (styles ! i))"
    "ch - 1 < fst (styles ! i)" "i \<noteq> 0 \<longrightarrow> fst (styles ! (i - 1)) \<le> ch - 1"
    using style_at_index [OF assms(1), of "ch - 1"] by auto
  then have "type_search styles ch 0 (length styles) = Some (snd (styles ! i))"
    using False by (intro type_search_finds [OF assms(1)]) auto
  with i(2) False show ?thesis by (simp add: getTokenTypeAt_def)
qed

theorem getTokenTypeAt_correct_witness:
  "getTokenTypeAt [(3, Some (js ''keyword'')), (4, None), (5, Some (js ''variable''))] 5 =
    Some (Some (js ''variable''))"
  using getTokenTypeAt_correct [of "[(3, Some (js ''keyword'')), (4, None), (5, Some (js ''variable''))]" 5 5]
  by (simp add: cut_overlay_def style_set_def js_def overlay_prefix_def starts_with_def)

lemma run_step_force:
  assumes "\<not> eol (r_stream r)"
  shows "run_step opts mode b r = run_step opts mode False r"
proof -
  have "s_string (r_stream r) \<noteq> []" using assms by (auto simp: eol_def)
  then have "s_pos (r_stream r) > o_maxHighlightLength opts \<Longrightarrow>
      \<exists>st. processLine opts mode (s_string (r_stream r)) (r_state r) (s_pos (r_stream r)) = Some (Inr (st, r_state r))"
    unfolding processLine_def by (subst process_loop.simps) (simp add: StringStream_def)
  then have "run_token opts mode b r = run_token opts mode False r"
    by (cases b) (auto simp: run_token_def Let_def)
  then show ?thesis by (simp add: run_step_def)
qed

lemma run_loop_force:
  assumes "run_loop opts mode b r = Some y"
  shows "run_loop opts mode b' r = Some y"
proof -
  let ?P = "\<lambda>opts mode b r y. \<forall>b'. run_loop opts mode b' r = Some y"
  have "?P opts mode b r y"
  proof (rule run_loop.raw_induct [where P = ?P, OF _ assms], intro allI)
    fix f opts mode b r y b'
    assume ih: "\<And>opts mode b r y. f opts mode b r = Some y \<Longrightarrow> ?P opts mode b r y"
      and eq: "(if eol (r_stream r) then Some (Inr r)
        else Option.bind (run_step opts mode b r)
          (\<lambda>x. case x of Inl e \<Rightarrow> Some (Inl e) | Inr r' \<Rightarrow> f opts mode b r')) = Some y"
    show "run_loop opts mode b' r = Some y"
    proof (cases "eol (r_stream r)")
      case True
      with eq show ?thesis by (subst run_loop.simps) simp
    next
      case False
      with eq obtain x where x: "run_step opts mode False r = Some x"
        "(case x of Inl e \<Rightarrow> Some (Inl e) | Inr r' \<Rightarrow> f opts mode b r') = Some y"
        by (auto simp: run_step_force [OF False, of opts mode b] bind_eq_Some_conv)
      then show ?thesis
        using False ih
        by (subst run_loop.simps) (auto simp: run_step_force [OF False, of opts mode b'] split: sum.splits)
    qed
  qed
  then show ?thesis ..
qed

text \<open>Asking for a line to be processed to its end has no effect: with a line longer than the limit
  \<open>processLine\<close> starts beyond the limit and returns at once, so \<open>runMode\<close> computes the same styles and
  the same state with the flag and without it.\<close>

theorem forceToEnd_has_no_effect:
  "runMode opts text mode state classes True = runMode opts text mode state classes False"
proof -
  have "run_loop opts mode True r = run_loop opts mode False r" for r
    using run_loop_force [of opts mode True r _ False] run_loop_force [of opts mode False r _ True]
    by (cases "run_loop opts mode True r"; cases "run_loop opts mode False r") auto
  then show ?thesis by (simp only: runMode_def)
qed

end
