(* ===== verification/Bidi.thy ===== *)
theory Bidi
  imports History
begin

text \<open>
  Bidirectional text (\<^verbatim>\<open>src/js/codemirror/codemirror.js\<close>, section BIDI HELPERS): the types of characters,
  the rules that change them, the sections of a line in the order in which they are seen, and moving the
  cursor through them. Types are the one-character codes of the source. A line reads left to right when
  it has no order (\<open>None\<close>, \<^verbatim>\<open>false\<close> in the source). The main results are that the sections of a line tile
  its text and that moving the cursor never leaves the line and never raises.
\<close>

section \<open>Definitions\<close>

subsection \<open>Types of characters\<close>

definition lowTypes :: string where
  "lowTypes = ''bbbbbbbbbtstwsbbbbbbbbbbbbbbssstwNN%%%NNNNNN,N,N1111111111NNNNNNNLLLLLLLLLLLLLLLLLLLLLLLLLLNNNNNNLLLLLLLLLLLLLLLLLLLLLLLLLLNNNNbbbbbbsbbbbbbbbbbbbbbbbbbbbbbbbbb,N%%%%NNNNLNNNNN%%11NLNNN1LNNNNNLLLLLLLLLLLLLLLLLLLLLLLNLLLLLLLLLLLLLLLLLLLLLLLLLLLLLLLN''"

definition arabicTypes :: string where
  "arabicTypes = ''rrrrrrrrrrrr,rNNmmmmmmrrrrrrrrrrrrrrrrrrrrrrrrrrrrrrrrrrrrrrrrrrrrrrrrrrrrrmmmmmmmmmmmmmmrrrrrrrnnnnnnnnnn%nnrrrmrrrrrrrrrrrrrrrrrrrrrrrrrrrrrrrrrrrrrrrrrrrrrrrrrrrrrrrrrrrrrrrrrrrrrrrrrrrrrrrrrrrrrrrrrrrrrrrrrrrrrmmmmmmmmmmmmmmmmmmmNmmmm''"

definition charType :: "int \<Rightarrow> char" where
  "charType code =
     (if code \<le> 247 then lowTypes ! nat code
      else if 1424 \<le> code \<and> code \<le> 1524 then CHR ''R''
      else if 1536 \<le> code \<and> code \<le> 1773 then arabicTypes ! nat (code - 1536)
      else if 1774 \<le> code \<and> code \<le> 2220 then CHR ''r''
      else if 8192 \<le> code \<and> code \<le> 8203 then CHR ''w''
      else if code = 8204 then CHR ''b''
      else CHR ''L'')"

definition bidiRE :: "jsstring \<Rightarrow> bool" where
  "bidiRE s = list_ex (in_ranges [(1424, 1524), (1536, 1791), (1792, 2220)]) s"

definition isNeutral :: "char \<Rightarrow> bool" where
  "isNeutral t \<longleftrightarrow> t \<in> set ''stwN''"

definition isStrong :: "char \<Rightarrow> bool" where
  "isStrong t \<longleftrightarrow> t \<in> set ''LRr''"

definition countsAsLeft :: "char \<Rightarrow> bool" where
  "countsAsLeft t \<longleftrightarrow> t \<in> set ''Lb1n''"

definition countsAsNum :: "char \<Rightarrow> bool" where
  "countsAsNum t \<longleftrightarrow> t \<in> set ''1n''"

definition outerType :: char where
  "outerType = CHR ''L''"

subsection \<open>The rules on types\<close>

text \<open>
  One function for each loop over the array of types; the first argument is the variable \<open>prev\<close> or \<open>cur\<close>
  of the loop.
\<close>

fun rule_W1 :: "char \<Rightarrow> string \<Rightarrow> string" where
  "rule_W1 prev [] = []"
| "rule_W1 prev (t # ts) = (if t = CHR ''m'' then prev # rule_W1 prev ts else t # rule_W1 t ts)"

fun rule_W2 :: "char \<Rightarrow> string \<Rightarrow> string" where
  "rule_W2 cur [] = []"
| "rule_W2 cur (t # ts) =
     (if t = CHR ''1'' \<and> cur = CHR ''r'' then CHR ''n'' # rule_W2 cur ts
      else if isStrong t then (if t = CHR ''r'' then CHR ''R'' else t) # rule_W2 t ts
      else t # rule_W2 cur ts)"

fun W4_loop :: "char \<Rightarrow> string \<Rightarrow> string" where
  "W4_loop prev [] = []"
| "W4_loop prev [t] = [t]"
| "W4_loop prev (t # n # ts) =
     (if t = CHR ''+'' \<and> prev = CHR ''1'' \<and> n = CHR ''1'' then CHR ''1''
      else if t = CHR '','' \<and> prev = n \<and> (prev = CHR ''1'' \<or> prev = CHR ''n'') then prev
      else t) # W4_loop t (n # ts)"

definition rule_W4 :: "string \<Rightarrow> string" where
  "rule_W4 ts = (case ts of [] \<Rightarrow> [] | t # ts' \<Rightarrow> t # W4_loop t ts')"

text \<open>
  In rules W5 and N1 the argument \<open>bef\<close> is the type at the index before the current one, as the loop has
  left it, and absent at the start.
\<close>

function rule_W5 :: "char option \<Rightarrow> string \<Rightarrow> string" where
  "rule_W5 bef [] = []"
| "rule_W5 bef (t # ts) =
     (if t = CHR '','' then CHR ''N'' # rule_W5 (Some (CHR ''N'')) ts
      else if t = CHR ''%'' then
        (let run = takeWhile (\<lambda>x. x = CHR ''%'') ts; after = dropWhile (\<lambda>x. x = CHR ''%'') ts;
             replace = (if bef = Some (CHR ''!'') \<or> (after \<noteq> [] \<and> hd after = CHR ''1'') then CHR ''1'' else CHR ''N'')
         in replicate (length run + 1) replace @ rule_W5 (Some replace) after)
      else t # rule_W5 (Some t) ts)"
  by pat_completeness auto
termination
  by (relation "measure (\<lambda>(_, ts). length ts)") (auto simp: le_imp_less_Suc length_dropWhile_le)

fun rule_W7 :: "char \<Rightarrow> string \<Rightarrow> string" where
  "rule_W7 cur [] = []"
| "rule_W7 cur (t # ts) =
     (if cur = CHR ''L'' \<and> t = CHR ''1'' then CHR ''L'' # rule_W7 cur ts
      else t # rule_W7 (if isStrong t then t else cur) ts)"

function rule_N1 :: "char option \<Rightarrow> string \<Rightarrow> string" where
  "rule_N1 bef [] = []"
| "rule_N1 bef (t # ts) =
     (if isNeutral t then
        (let run = takeWhile isNeutral ts; after = dropWhile isNeutral ts;
             left = ((case bef of Some b \<Rightarrow> b | None \<Rightarrow> outerType) = CHR ''L'');
             right = ((if after \<noteq> [] then hd after else outerType) = CHR ''L'');
             replace = (if left \<or> right then CHR ''L'' else CHR ''R'')
         in replicate (length run + 1) replace @ rule_N1 (Some replace) after)
      else t # rule_N1 (Some t) ts)"
  by pat_completeness auto
termination
  by (relation "measure (\<lambda>(_, ts). length ts)") (auto simp: le_imp_less_Suc length_dropWhile_le)

definition bidi_types :: "jsstring \<Rightarrow> string" where
  "bidi_types str =
     rule_N1 None (rule_W7 outerType (rule_W5 None (rule_W4 (rule_W2 outerType (rule_W1 outerType
       (map (\<lambda>c. charType (char_code c)) str))))))"

subsection \<open>The sections of a line\<close>

text \<open>\<^verbatim>\<open>for (; i < len && p(types[i]); ++i) {}\<close>\<close>

definition skip_while :: "(char \<Rightarrow> bool) \<Rightarrow> string \<Rightarrow> nat \<Rightarrow> nat" where
  "skip_while p ts i = i + length (takeWhile p (drop i ts))"

text \<open>
  The numbers in a run of text that is not left to right, which ends at the end of \<open>ts\<close>: each section is
  inserted before the earlier ones of the run. The result has the start of the last section.
\<close>

function num_loop :: "string \<Rightarrow> nat \<Rightarrow> nat \<Rightarrow> bidi_span list \<Rightarrow> nat \<times> bidi_span list" where
  "num_loop ts j pos secs =
     (if j \<ge> length ts then (pos, secs)
      else if countsAsNum (ts ! j) then
        (let secs1 = (if pos < j then BidiSpan 1 (int pos) (int j) # secs else secs);
             j' = skip_while countsAsNum ts (j + 1)
         in num_loop ts j' j' (BidiSpan 2 (int j) (int j') # secs1))
      else num_loop ts (j + 1) pos secs)"
  by pat_completeness auto
termination
  by (relation "measure (\<lambda>(ts, j, _). length ts - j)") (auto simp: skip_while_def)

definition run_sections :: "string \<Rightarrow> nat \<Rightarrow> nat \<Rightarrow> bidi_span list" where
  "run_sections ts i e =
     (let (pos, secs) = num_loop (take e ts) i i [] in if pos < e then BidiSpan 1 (int pos) (int e) # secs else secs)"

function order_loop :: "string \<Rightarrow> nat \<Rightarrow> bidi_span list \<Rightarrow> bidi_span list" where
  "order_loop ts i order =
     (if i \<ge> length ts then order
      else if countsAsLeft (ts ! i) then
        (let e = skip_while countsAsLeft ts (i + 1) in order_loop ts e (order @ [BidiSpan 0 (int i) (int e)]))
      else (let e = skip_while (\<lambda>t. t \<noteq> CHR ''L'') ts (i + 1) in order_loop ts e (order @ run_sections ts i e)))"
  by pat_completeness auto
termination
  by (relation "measure (\<lambda>(ts, i, _). length ts - i)") (auto simp: skip_while_def)

declare num_loop.simps [simp del] order_loop.simps [simp del]

definition leading_space :: "jsstring \<Rightarrow> nat" where
  "leading_space str = length (takeWhile is_space str)"

definition trailing_space :: "jsstring \<Rightarrow> nat" where
  "trailing_space str = length (takeWhile is_space (rev str))"

definition trim_start :: "jsstring \<Rightarrow> bidi_span list \<Rightarrow> bidi_span list" where
  "trim_start str order =
     (if bs_level (hd order) = 1 \<and> leading_space str > 0
      then BidiSpan 0 0 (int (leading_space str)) #
             BidiSpan (bs_level (hd order)) (int (leading_space str)) (bs_to (hd order)) # tl order
      else order)"

definition trim_end :: "jsstring \<Rightarrow> bidi_span list \<Rightarrow> bidi_span list" where
  "trim_end str order =
     (if bs_level (last order) = 1 \<and> trailing_space str > 0
      then butlast order @
             [BidiSpan (bs_level (last order)) (bs_from (last order)) (bs_to (last order) - int (trailing_space str)),
              BidiSpan 0 (int (length str - trailing_space str)) (int (length str))]
      else order)"

definition close_order :: "nat \<Rightarrow> bidi_span list \<Rightarrow> bidi_span list" where
  "close_order len order =
     (if bs_level (hd order) \<noteq> bs_level (last order) then order @ [BidiSpan (bs_level (hd order)) (int len) (int len)] else order)"

definition bidiOrdering :: "jsstring \<Rightarrow> bidi_span list option" where
  "bidiOrdering str =
     (if \<not> bidiRE str then None
      else Some (close_order (length str) (trim_end str (trim_start str (order_loop (bidi_types str) 0 [])))))"

definition getOrder :: "'st line \<Rightarrow> bidi_span list option \<times> 'st line" where
  "getOrder l =
     (case l_order l of Some order \<Rightarrow> (order, l)
      | None \<Rightarrow> let order = bidiOrdering (l_text l) in (order, l\<lparr>l_order := Some order\<rparr>))"

definition order_of :: "'st line \<Rightarrow> bidi_span list option" where
  "order_of l = fst (getOrder l)"

text \<open>The calls of \<open>f\<close>: the ends of a part and whether it reads from right to left.\<close>

definition iterateBidiSections :: "bidi_span list option \<Rightarrow> int \<Rightarrow> int \<Rightarrow> (int \<times> int \<times> bool) list" where
  "iterateBidiSections order f t =
     (case order of
        None \<Rightarrow> [(f, t, False)]
      | Some parts \<Rightarrow>
          let calls = map (\<lambda>p. (max (bs_from p) f, min (bs_to p) t, bs_level p = 1))
                (filter (\<lambda>p. bs_from p < t \<and> bs_to p > f \<or> f = t \<and> bs_to p = f) parts)
          in if calls = [] then [(f, t, False)] else calls)"

subsection \<open>Ends of lines\<close>

definition bidiLeft :: "bidi_span \<Rightarrow> int" where
  "bidiLeft part = (if odd (bs_level part) then bs_to part else bs_from part)"

definition bidiRight :: "bidi_span \<Rightarrow> int" where
  "bidiRight part = (if odd (bs_level part) then bs_from part else bs_to part)"

definition lineLeft :: "'st line \<Rightarrow> int" where
  "lineLeft l = (case order_of l of None \<Rightarrow> 0 | Some order \<Rightarrow> bidiLeft (hd order))"

definition lineRight :: "'st line \<Rightarrow> int" where
  "lineRight l = (case order_of l of None \<Rightarrow> int (length (l_text l)) | Some order \<Rightarrow> bidiRight (last order))"

definition lineStart :: "bool \<Rightarrow> ('st, 'x) hdoc_scheme \<Rightarrow> int \<Rightarrow> pos comp" where
  "lineStart saw d n =
     pbind (Some (getLine d n)) (\<lambda>l.
     pbind (visualLine (d_markers d) saw d l) (\<lambda>vis.
     pbind (if l_id vis \<noteq> l_id l then (case lineNo d (l_id vis) of Some k \<Rightarrow> ret k | None \<Rightarrow> Some (Inl TypeErr)) else ret n) (\<lambda>k.
       ret (Pos k (case order_of vis of None \<Rightarrow> 0 | Some order \<Rightarrow> if odd (bs_level (hd order)) then lineRight vis else lineLeft vis)))))"

definition lineEnd :: "bool \<Rightarrow> ('st, 'x) hdoc_scheme \<Rightarrow> int \<Rightarrow> pos comp" where
  "lineEnd saw d n =
     pbind (Some (getLine d n)) (\<lambda>l.
     pbind (visualLineContinued (d_markers d) saw d l) (\<lambda>ls.
       let e = (if ls = [] then l else last ls)
       in pbind (if ls = [] then ret n else (case lineNo d (l_id e) of Some k \<Rightarrow> ret k | None \<Rightarrow> Some (Inl TypeErr))) (\<lambda>k.
            ret (Pos k (case order_of e of
                          None \<Rightarrow> int (length (l_text e))
                        | Some order \<Rightarrow> if odd (bs_level (hd order)) then lineLeft e else lineRight e)))))"

subsection \<open>Moving the cursor\<close>

definition compareBidiLevel :: "bidi_span list \<Rightarrow> nat \<Rightarrow> nat \<Rightarrow> bool" where
  "compareBidiLevel order a b =
     (let linedir = bs_level (hd order) in if a = linedir then True else if b = linedir then False else a < b)"

text \<open>The second component is the variable \<open>bidiOther\<close>.\<close>

fun part_loop :: "bidi_span list \<Rightarrow> int \<Rightarrow> bidi_span list \<Rightarrow> nat \<Rightarrow> nat option \<Rightarrow> nat option \<times> nat option" where
  "part_loop order p [] i found = (found, None)"
| "part_loop order p (cur # parts) i found =
     (if bs_from cur < p \<and> bs_to cur > p then (Some i, None)
      else if bs_from cur = p \<or> bs_to cur = p then
        (case found of
           None \<Rightarrow> part_loop order p parts (i + 1) (Some i)
         | Some k \<Rightarrow>
             if compareBidiLevel order (bs_level cur) (bs_level (order ! k))
             then (Some i, if bs_from cur \<noteq> bs_to cur then Some k else None)
             else (Some k, if bs_from cur \<noteq> bs_to cur then Some i else None))
      else part_loop order p parts (i + 1) found)"

definition getBidiPartAt :: "bidi_span list \<Rightarrow> int \<Rightarrow> nat option \<times> nat option" where
  "getBidiPartAt order p = part_loop order p order 0 None"

definition extending_at :: "jsstring \<Rightarrow> int \<Rightarrow> bool" where
  "extending_at s i = (case js_at s i of None \<Rightarrow> False | Some c \<Rightarrow> isExtendingChar c)"

partial_function (option) unit_loop :: "jsstring \<Rightarrow> int \<Rightarrow> int \<Rightarrow> int option" where
  "unit_loop s p dir = (if p + dir > 0 \<and> extending_at s (p + dir) then unit_loop s (p + dir) dir else Some (p + dir))"

declare unit_loop.simps [code]

definition moveInLine :: "'st line \<Rightarrow> int \<Rightarrow> int \<Rightarrow> bool \<Rightarrow> int comp" where
  "moveInLine l p dir byUnit = (if byUnit then map_option Inr (unit_loop (l_text l) p dir) else ret (p + dir))"

definition moveLogically :: "'st line \<Rightarrow> int \<Rightarrow> int \<Rightarrow> bool \<Rightarrow> int option comp" where
  "moveLogically l start dir byUnit =
     pbind (moveInLine l start dir byUnit) (\<lambda>target.
       ret (if target < 0 \<or> target > int (length (l_text l)) then None else Some target))"

text \<open>One round of the loop of \<open>moveVisually\<close>: the next state, or the result.\<close>

definition visually_step ::
  "'st line \<Rightarrow> bidi_span list \<Rightarrow> int \<Rightarrow> bool \<Rightarrow> int \<times> bidi_span \<times> int \<Rightarrow> ((int \<times> bidi_span \<times> int) + int option) comp" where
  "visually_step l bidi dir byUnit st =
     (case st of (p, part, target) \<Rightarrow>
        if bs_from part < target \<and> target < bs_to part then ret (Inr (Some target))
        else if target = bs_from part \<or> target = bs_to part then
          (if map_option int (fst (getBidiPartAt bidi target)) = Some p then ret (Inr (Some target))
           else (case js_at bidi (p + dir) of
                   None \<Rightarrow> Some (Inl TypeErr)
                 | Some part' \<Rightarrow> ret (Inr (Some (if (dir > 0) = odd (bs_level part') then bs_to part' else bs_from part')))))
        else (case js_at bidi (p + dir) of
               None \<Rightarrow> ret (Inr None)
             | Some part' \<Rightarrow>
                 pbind (if (dir > 0) = odd (bs_level part') then moveInLine l (bs_to part') (-1) byUnit
                        else moveInLine l (bs_from part') 1 byUnit) (\<lambda>target'. ret (Inl (p + dir, part', target')))))"

partial_function (option) visually_loop ::
  "'st line \<Rightarrow> bidi_span list \<Rightarrow> int \<Rightarrow> bool \<Rightarrow> int \<times> bidi_span \<times> int \<Rightarrow> int option comp" where
  "visually_loop l bidi dir byUnit st =
     (case visually_step l bidi dir byUnit st of
        None \<Rightarrow> None
      | Some (Inl e) \<Rightarrow> Some (Inl e)
      | Some (Inr (Inl st')) \<Rightarrow> visually_loop l bidi dir byUnit st'
      | Some (Inr (Inr r)) \<Rightarrow> Some (Inr r))"

declare visually_loop.simps [code]

definition moveVisually :: "'st line \<Rightarrow> int \<Rightarrow> int \<Rightarrow> bool \<Rightarrow> int option comp" where
  "moveVisually l start dir byUnit =
     (case order_of l of
        None \<Rightarrow> moveLogically l start dir byUnit
      | Some bidi \<Rightarrow>
          (case fst (getBidiPartAt bidi start) of
             None \<Rightarrow> Some (Inl TypeErr)
           | Some k \<Rightarrow>
               let part = bidi ! k
               in pbind (moveInLine l start (if odd (bs_level part) then - dir else dir) byUnit) (\<lambda>target.
                    visually_loop l bidi dir byUnit (int k, part, target))))"

section \<open>The types of the first and the last character\<close>

lemma length_W1 [simp]: "length (rule_W1 p ts) = length ts"
  by (induction p ts rule: rule_W1.induct) auto

lemma length_W2 [simp]: "length (rule_W2 c ts) = length ts"
  by (induction c ts rule: rule_W2.induct) auto

lemma length_W4 [simp]: "length (rule_W4 ts) = length ts"
proof -
  have "length (W4_loop p xs) = length xs" for p xs by (induction p xs rule: W4_loop.induct) auto
  then show ?thesis by (simp add: rule_W4_def split: list.split)
qed

lemma length_W7 [simp]: "length (rule_W7 c ts) = length ts"
  by (induction c ts rule: rule_W7.induct) auto

lemma length_split: "length (takeWhile p xs) + length (dropWhile p xs) = length xs"
  by (metis length_append takeWhile_dropWhile_id)

lemma length_W5 [simp]: "length (rule_W5 b ts) = length ts"
  by (induction b ts rule: rule_W5.induct) (auto simp: Let_def length_split)

lemma length_N1 [simp]: "length (rule_N1 b ts) = length ts"
  by (induction b ts rule: rule_N1.induct) (auto simp: Let_def length_split)

lemma length_bidi_types [simp]: "length (bidi_types str) = length str"
  by (simp add: bidi_types_def)

lemma low_spaces:
  "charType 9 = CHR ''t''" "charType 10 = CHR ''s''" "charType 11 = CHR ''t''" "charType 12 = CHR ''w''" "charType 13 = CHR ''s''"
  "charType 32 = CHR ''w''" "charType 160 = CHR '',''"
  by code_simp+

text \<open>The types of white space before rule W5, and before rule N1.\<close>

definition early :: "char \<Rightarrow> bool" where
  "early t \<longleftrightarrow> t \<in> set ''stw,L''"

definition late :: "char \<Rightarrow> bool" where
  "late t \<longleftrightarrow> t \<in> set ''stwNL''"

lemma early_simps [simp]: "early t \<Longrightarrow> t \<noteq> CHR ''m'' \<and> t \<noteq> CHR ''1'' \<and> t \<noteq> CHR ''r'' \<and> t \<noteq> CHR ''%''"
  by (auto simp: early_def)

lemma late_simps [simp]: "late t \<Longrightarrow> t \<noteq> CHR ''1''" "late t \<Longrightarrow> isNeutral t \<or> t = CHR ''L''" "late (CHR ''N'')"
  by (auto simp: late_def isNeutral_def)

lemma early_late: "early t \<Longrightarrow> t \<noteq> CHR '','' \<Longrightarrow> late t"
  by (auto simp: early_def late_def)

lemma space_type: "is_space c \<Longrightarrow> early (charType (char_code c))"
proof -
  assume "is_space c"
  then consider "char_code c \<in> {9, 10, 11, 12, 13, 32, 160}" | "8192 \<le> char_code c" "char_code c \<le> 8202"
    | "char_code c \<in> {5760, 8232, 8233, 8239, 8287, 12288, 65279}"
    unfolding is_space_def Let_def by force
  then show ?thesis
  proof cases
    case 1
    then show ?thesis by (auto simp: low_spaces early_def)
  qed (auto simp: charType_def early_def)
qed

lemma rules_Nil [simp]:
  "rule_W1 p ts = [] \<longleftrightarrow> ts = []" "rule_W2 p ts = [] \<longleftrightarrow> ts = []" "rule_W4 ts = [] \<longleftrightarrow> ts = []"
  "rule_W5 b ts = [] \<longleftrightarrow> ts = []" "rule_W7 p ts = [] \<longleftrightarrow> ts = []" "rule_N1 b ts = [] \<longleftrightarrow> ts = []"
  by (metis length_W1 length_0_conv, metis length_W2 length_0_conv, metis length_W4 length_0_conv, metis length_W5 length_0_conv,
      metis length_W7 length_0_conv, metis length_N1 length_0_conv)

lemma rules_hd:
  assumes "ts \<noteq> []" and "early (hd ts)"
  shows "hd (rule_W1 p ts) = hd ts" "hd (rule_W2 c ts) = hd ts" "hd (rule_W4 ts) = hd ts"
    "late (hd (rule_W5 None ts))"
  using assms by (cases ts; simp add: rule_W4_def early_late)+

lemma rules_hd_end:
  assumes "ts \<noteq> []" and "late (hd ts)"
  shows "hd (rule_W7 c ts) = hd ts" "hd (rule_N1 None ts) = CHR ''L''"
  using assms late_simps(2) [OF assms(2)] by (cases ts; auto simp: outerType_def Let_def)+

lemma last_W1: "ts \<noteq> [] \<Longrightarrow> last ts \<noteq> CHR ''m'' \<Longrightarrow> last (rule_W1 p ts) = last ts"
  by (induction p ts rule: rule_W1.induct) auto

lemma last_W2: "ts \<noteq> [] \<Longrightarrow> last ts \<noteq> CHR ''1'' \<Longrightarrow> last ts \<noteq> CHR ''r'' \<Longrightarrow> last (rule_W2 c ts) = last ts"
  by (induction c ts rule: rule_W2.induct) auto

lemma last_W4: "ts \<noteq> [] \<Longrightarrow> last (rule_W4 ts) = last ts"
proof -
  have n: "length (W4_loop p xs) = length xs" for p xs by (induction p xs rule: W4_loop.induct) auto
  then have n: "W4_loop p xs = [] \<longleftrightarrow> xs = []" for p xs by (metis length_0_conv)
  have "xs \<noteq> [] \<Longrightarrow> last (W4_loop p xs) = last xs" for p xs
    by (induction p xs rule: W4_loop.induct) (simp_all add: n)
  then show "ts \<noteq> [] \<Longrightarrow> last (rule_W4 ts) = last ts" by (cases ts) (simp_all add: rule_W4_def n)
qed

lemma last_W7: "ts \<noteq> [] \<Longrightarrow> last ts \<noteq> CHR ''1'' \<Longrightarrow> last (rule_W7 c ts) = last ts"
  by (induction c ts rule: rule_W7.induct) auto

lemma last_dropWhile: "dropWhile p xs \<noteq> [] \<Longrightarrow> last (dropWhile p xs) = last xs"
  by (metis last_appendR takeWhile_dropWhile_id)

lemma last_all: "dropWhile p xs = [] \<Longrightarrow> xs \<noteq> [] \<Longrightarrow> p (last xs)"
  by (simp add: dropWhile_eq_Nil_conv)

lemma last_W5: "ts \<noteq> [] \<Longrightarrow> early (last ts) \<Longrightarrow> late (last (rule_W5 b ts))"
proof (induction b ts rule: rule_W5.induct)
  case (2 b t ts)
  show ?case
  proof (cases "t = CHR ''%''")
    case True
    with 2(5) have "ts \<noteq> []" by (auto simp: early_def)
    moreover from this 2(5) have "dropWhile (\<lambda>x. x = CHR ''%'') ts \<noteq> []" using last_all [of "\<lambda>x. x = CHR ''%''" ts] by (auto simp: early_def)
    ultimately show ?thesis using 2(2) 2(5) True last_dropWhile [of "\<lambda>x. x = CHR ''%''" ts]
      by (auto simp: Let_def split: if_splits)
  next
    case False
    then show ?thesis using 2(1,3,5) by (cases "ts = []") (auto simp: early_late)
  qed
qed simp

lemma last_N1: "ts \<noteq> [] \<Longrightarrow> late (last ts) \<Longrightarrow> last (rule_N1 b ts) = CHR ''L''"
proof (induction b ts rule: rule_N1.induct)
  case (2 b t ts)
  show ?case
  proof (cases "isNeutral t")
    case True
    show ?thesis
    proof (cases "dropWhile isNeutral ts = []")
      case True
      then show ?thesis using \<open>isNeutral t\<close> by (simp add: Let_def outerType_def)
    next
      case False
      then have "late (last (dropWhile isNeutral ts))" using last_dropWhile [of isNeutral ts] 2(4) by (cases ts) auto
      then show ?thesis using 2(1) [OF \<open>isNeutral t\<close> refl refl refl refl refl False] False \<open>isNeutral t\<close>
        by (simp add: Let_def)
    qed
  next
    case False
    then show ?thesis using 2(2,4) by (cases "ts = []") (auto simp: isNeutral_def late_def)
  qed
qed simp

lemma bidi_types_hd:
  assumes "str \<noteq> []" and "is_space (hd str)"
  shows "hd (bidi_types str) = CHR ''L''"
proof -
  define t0 where "t0 = map (\<lambda>c. charType (char_code c)) str"
  have t0: "t0 \<noteq> []" "early (hd t0)" using assms space_type by (simp_all add: t0_def hd_map)
  define t1 where "t1 = rule_W1 outerType t0"
  have t1: "t1 \<noteq> []" "early (hd t1)" unfolding t1_def rules_hd(1) [OF t0] using t0 by simp_all
  define t2 where "t2 = rule_W2 outerType t1"
  have t2: "t2 \<noteq> []" "early (hd t2)" unfolding t2_def rules_hd(2) [OF t1] using t1 by simp_all
  define t4 where "t4 = rule_W4 t2"
  have t4: "t4 \<noteq> []" "early (hd t4)" unfolding t4_def rules_hd(3) [OF t2] using t2 by simp_all
  define t5 where "t5 = rule_W5 None t4"
  have t5: "t5 \<noteq> []" "late (hd t5)" unfolding t5_def using t4 rules_hd(4) [OF t4] by simp_all
  define t7 where "t7 = rule_W7 outerType t5"
  have t7: "t7 \<noteq> []" "late (hd t7)" unfolding t7_def rules_hd_end(1) [OF t5] using t5 by simp_all
  have "bidi_types str = rule_N1 None t7" by (simp add: bidi_types_def t0_def t1_def t2_def t4_def t5_def t7_def)
  then show ?thesis using rules_hd_end(2) [OF t7] by simp
qed

lemma bidi_types_last:
  assumes "str \<noteq> []" and "is_space (last str)"
  shows "last (bidi_types str) = CHR ''L''"
proof -
  define t0 where "t0 = map (\<lambda>c. charType (char_code c)) str"
  have t0: "t0 \<noteq> []" "early (last t0)" using assms space_type by (simp_all add: t0_def last_map)
  define t1 where "t1 = rule_W1 outerType t0"
  have t1: "t1 \<noteq> []" "last t1 = last t0" using t0 by (auto simp: t1_def last_W1)
  define t2 where "t2 = rule_W2 outerType t1"
  have t2: "t2 \<noteq> []" "last t2 = last t0" using t0 t1 by (auto simp: t2_def last_W2)
  define t4 where "t4 = rule_W4 t2"
  have t4: "t4 \<noteq> []" "last t4 = last t0" using t2 by (auto simp: t4_def last_W4)
  define t5 where "t5 = rule_W5 None t4"
  have t5: "t5 \<noteq> []" "late (last t5)" using t0 t4 last_W5 [of t4 None] by (auto simp: t5_def)
  define t7 where "t7 = rule_W7 outerType t5"
  have t7: "t7 \<noteq> []" "late (last t7)" using t5 by (auto simp: t7_def last_W7)
  have "bidi_types str = rule_N1 None t7" by (simp add: bidi_types_def t0_def t1_def t2_def t4_def t5_def t7_def)
  then show ?thesis using last_N1 [OF t7] by simp
qed

section \<open>The sections of a line\<close>

definition sec :: "bidi_span \<Rightarrow> nat list" where
  "sec p = [nat (bs_from p)..<nat (bs_to p)]"

definition tiles :: "bidi_span list \<Rightarrow> nat \<Rightarrow> nat \<Rightarrow> bool" where
  "tiles order a b \<longleftrightarrow>
     mset (concat (map sec order)) = mset [a..<b] \<and>
     (\<forall>p \<in> set order. int a \<le> bs_from p \<and> bs_from p < bs_to p \<and> bs_to p \<le> int b \<and> bs_level p \<le> 2)"

definition alternating :: "bidi_span list \<Rightarrow> bool" where
  "alternating order \<longleftrightarrow> (\<forall>p \<in> set order. \<forall>q \<in> set order. bs_to p = bs_from q \<longrightarrow> bs_level p \<noteq> bs_level q)"

lemma tiles_append: "tiles x a b \<Longrightarrow> tiles y b c \<Longrightarrow> a \<le> b \<Longrightarrow> b \<le> c \<Longrightarrow> tiles (x @ y) a c"
proof -
  assume "a \<le> b" "b \<le> c"
  then have "[a..<c] = [a..<b] @ [b..<c]" by (metis le_add_diff_inverse upt_add_eq_append)
  then show "tiles x a b \<Longrightarrow> tiles y b c \<Longrightarrow> tiles (x @ y) a c" using \<open>a \<le> b\<close> \<open>b \<le> c\<close> unfolding tiles_def by fastforce
qed

lemma tiles_swap: "tiles (x @ y) a b \<longleftrightarrow> tiles (y @ x) a b"
  by (auto simp: tiles_def add.commute)

lemma tiles_Cons: "tiles x a b \<Longrightarrow> tiles [p] b c \<Longrightarrow> a \<le> b \<Longrightarrow> b \<le> c \<Longrightarrow> tiles (p # x) a c"
  using tiles_append [of x a b "[p]" c] tiles_swap [of x "[p]" a c] by simp

lemma tiles_one: "a < b \<Longrightarrow> n \<le> 2 \<Longrightarrow> tiles [BidiSpan n (int a) (int b)] a b"
  by (simp add: tiles_def sec_def)

lemma tiles_Nil [simp]: "tiles [] a b \<longleftrightarrow> b \<le> a"
  by (auto simp: tiles_def mset_set_empty_iff)

lemma skip_while_bounds: "i \<le> length ts \<Longrightarrow> i \<le> skip_while p ts i \<and> skip_while p ts i \<le> length ts"
  using length_takeWhile_le [of p "drop i ts"] by (simp add: skip_while_def)

lemma skip_while_stops:
  "skip_while p ts i < length ts \<Longrightarrow> \<not> p (ts ! skip_while p ts i)"
  using nth_length_takeWhile [of p "drop i ts"] by (simp add: skip_while_def)

lemma skip_while_between: "i \<le> k \<Longrightarrow> k < skip_while p ts i \<Longrightarrow> p (ts ! k)"
proof -
  assume k: "i \<le> k" "k < skip_while p ts i"
  then have "k - i < length (takeWhile p (drop i ts))" by (simp add: skip_while_def)
  then have "p (drop i ts ! (k - i))" by (metis nth_mem set_takeWhileD takeWhile_nth)
  moreover have "k < length ts" using k length_takeWhile_le [of p "drop i ts"] by (simp add: skip_while_def)
  ultimately show ?thesis using k by simp
qed

text \<open>The sections of a run, while its numbers are found.\<close>

definition run_inv :: "string \<Rightarrow> nat \<Rightarrow> nat \<Rightarrow> nat \<Rightarrow> bidi_span list \<Rightarrow> bool" where
  "run_inv ts i j k secs \<longleftrightarrow>
     i \<le> k \<and> k \<le> j \<and> j \<le> length ts \<and> tiles secs i k \<and> alternating secs \<and>
     (\<forall>p \<in> set secs. 1 \<le> bs_level p \<and> (bs_to p = int k \<longrightarrow> bs_level p = 2) \<and> (bs_from p = int i \<longrightarrow> bs_level p = 1)) \<and>
     (secs \<noteq> [] \<longrightarrow> bs_level (last secs) = 1) \<and> (k = i \<longrightarrow> secs = []) \<and>
     (k = j \<and> j < length ts \<longrightarrow> \<not> countsAsNum (ts ! j))"

lemma alternating_Cons:
  "alternating (p # x) \<longleftrightarrow> alternating x \<and> bs_to p \<noteq> bs_from p \<and>
    (\<forall>q \<in> set x. (bs_to p = bs_from q \<or> bs_to q = bs_from p) \<longrightarrow> bs_level p \<noteq> bs_level q)"
  by (auto simp: alternating_def)

lemma tiles_bounds: "tiles x a b \<Longrightarrow> p \<in> set x \<Longrightarrow> int a \<le> bs_from p \<and> bs_from p < bs_to p \<and> bs_to p \<le> int b"
  by (simp add: tiles_def)

lemma run_inv_num:
  assumes inv: "run_inv ts i j k secs" and j: "j < length ts" "countsAsNum (ts ! j)" and j': "j' = skip_while countsAsNum ts (j + 1)"
  shows "k < j" "run_inv ts i j' j' (BidiSpan 2 (int j) (int j') # BidiSpan 1 (int k) (int j) # secs)"
proof -
  show k: "k < j" using inv j by (auto simp: run_inv_def)
  have j'b: "j < j'" "j' \<le> length ts" using skip_while_bounds [of "j + 1" ts countsAsNum] j(1) by (simp_all add: j')
  have stop: "j' < length ts \<Longrightarrow> \<not> countsAsNum (ts ! j')" using skip_while_stops [of countsAsNum ts "j + 1"] by (simp add: j')
  have t: "tiles secs i k" "i \<le> k" using inv by (simp_all add: run_inv_def)
  then have "tiles (BidiSpan 2 (int j) (int j') # BidiSpan 1 (int k) (int j) # secs) i j'"
    using k j'b by (intro tiles_Cons [of _ i j] tiles_Cons [of secs i k] tiles_one) simp_all
  moreover have "alternating (BidiSpan 2 (int j) (int j') # BidiSpan 1 (int k) (int j) # secs)"
    using inv k j'b tiles_bounds [OF t(1)] unfolding alternating_Cons run_inv_def by fastforce
  moreover have "\<forall>p \<in> set secs. bs_to p \<noteq> int j'" using tiles_bounds [OF t(1)] k j'b by fastforce
  ultimately show "run_inv ts i j' j' (BidiSpan 2 (int j) (int j') # BidiSpan 1 (int k) (int j) # secs)"
    using inv k j'b stop unfolding run_inv_def by (auto simp: last_ConsR)
qed

lemma num_loop_inv: "run_inv ts i j k secs \<Longrightarrow> num_loop ts j k secs = (k', secs') \<Longrightarrow> run_inv ts i (length ts) k' secs'"
proof (induction ts j k secs rule: num_loop.induct)
  case (1 ts j k secs)
  show ?case
  proof (cases "j \<ge> length ts")
    case True
    moreover from this have "num_loop ts j k secs = (k, secs)" by (simp add: num_loop.simps [of ts j])
    moreover have "j = length ts" using True 1(3) by (simp add: run_inv_def)
    ultimately show ?thesis using 1(3,4) by simp
  next
    case False
    show ?thesis
    proof (cases "countsAsNum (ts ! j)")
      case True
      have "k < j" using run_inv_num(1) [OF 1(3) _ True refl] False by simp
      then show ?thesis using 1(1) [OF False True refl refl] run_inv_num(2) [OF 1(3) _ True refl] 1(4) False True
        by (simp add: num_loop.simps [of ts j] Let_def)
    next
      case no: False
      have "run_inv ts i (j + 1) k secs" using 1(3) False no by (auto simp: run_inv_def)
      then show ?thesis using 1(2) [OF False no] 1(4) False no by (simp add: num_loop.simps [of ts j])
    qed
  qed
qed

lemma run_sections_ok:
  assumes "i < e" and "e \<le> length ts" and "\<not> countsAsLeft (ts ! i)"
  shows "tiles (run_sections ts i e) i e" "alternating (run_sections ts i e)" "run_sections ts i e \<noteq> []"
    "bs_level (last (run_sections ts i e)) = 1"
    "\<forall>p \<in> set (run_sections ts i e). 1 \<le> bs_level p \<and> (bs_from p = int i \<longrightarrow> bs_level p = 1)"
proof -
  have "\<not> countsAsNum (ts ! i)" using assms(3) by (auto simp: countsAsNum_def countsAsLeft_def)
  then have init: "run_inv (take e ts) i i i []" using assms by (simp add: run_inv_def alternating_def)
  obtain k secs where r: "num_loop (take e ts) i i [] = (k, secs)" by (meson surj_pair)
  have inv: "run_inv (take e ts) i e k secs" using num_loop_inv [OF init r] assms(2) by (simp add: min_absorb2)
  have R: "run_sections ts i e = (if k < e then BidiSpan 1 (int k) (int e) # secs else secs)" by (simp add: run_sections_def r)
  have t: "tiles secs i k" "i \<le> k" "k \<le> e" using inv by (simp_all add: run_inv_def)
  show "tiles (run_sections ts i e) i e"
    using t tiles_one [of k e 1] tiles_Cons [OF t(1), of _ e] by (auto simp: R)
  have a: "alternating secs" "\<forall>q \<in> set secs. bs_to q = int k \<longrightarrow> bs_level q = 2" using inv by (simp_all add: run_inv_def)
  have "\<forall>q \<in> set secs. int e \<noteq> bs_from q" using tiles_bounds [OF t(1)] t(3) by fastforce
  with a show "alternating (run_sections ts i e)" unfolding R by (auto simp: alternating_Cons)
  show "run_sections ts i e \<noteq> []" "bs_level (last (run_sections ts i e)) = 1"
    using inv assms(1) by (auto simp: R run_inv_def)
  show "\<forall>p \<in> set (run_sections ts i e). 1 \<le> bs_level p \<and> (bs_from p = int i \<longrightarrow> bs_level p = 1)"
    using inv by (auto simp: R run_inv_def)
qed

definition order_inv :: "string \<Rightarrow> nat \<Rightarrow> bidi_span list \<Rightarrow> bool" where
  "order_inv ts i order \<longleftrightarrow>
     i \<le> length ts \<and> tiles order 0 i \<and> alternating order \<and> (order = [] \<longleftrightarrow> i = 0) \<and>
     (\<forall>p \<in> set order. bs_to p = int i \<longrightarrow>
        (bs_level p = 0 \<longleftrightarrow> bs_level (last order) = 0) \<and> (i < length ts \<longrightarrow> (bs_level p = 0 \<longleftrightarrow> \<not> countsAsLeft (ts ! i)))) \<and>
     (order \<noteq> [] \<longrightarrow> bs_level (last order) \<le> 1 \<and> (countsAsLeft (ts ! 0) \<longrightarrow> bs_level (hd order) = 0) \<and>
        (ts ! (i - 1) = CHR ''L'' \<longrightarrow> bs_level (last order) = 0))"

lemma alternating_append:
  assumes "alternating x" "alternating y" "tiles x 0 i" "tiles y i e"
    and "\<forall>p \<in> set x. \<forall>q \<in> set y. bs_to p = int i \<and> bs_from q = int i \<longrightarrow> bs_level p \<noteq> bs_level q"
  shows "alternating (x @ y)"
  unfolding alternating_def
proof (intro ballI impI)
  fix p q assume pq: "p \<in> set (x @ y)" "q \<in> set (x @ y)" "bs_to p = bs_from q"
  consider "p \<in> set x" "q \<in> set x" | "p \<in> set y" "q \<in> set y" | "p \<in> set x" "q \<in> set y" | "p \<in> set y" "q \<in> set x"
    using pq by auto
  then show "bs_level p \<noteq> bs_level q"
  proof cases
    case 3
    then have "bs_to p = int i" "bs_from q = int i" using tiles_bounds [OF assms(3), of p] tiles_bounds [OF assms(4), of q] pq(3) by auto
    then show ?thesis using assms(5) 3 by blast
  next
    case 4
    then show ?thesis using tiles_bounds [OF assms(3), of q] tiles_bounds [OF assms(4), of p] pq(3) by auto
  qed (use assms(1,2) pq(3) in \<open>auto simp: alternating_def\<close>)
qed

lemma tiles_last_level:
  "tiles x a i \<Longrightarrow> p \<in> set x \<Longrightarrow> bs_to p \<le> int i"
  by (simp add: tiles_def)

lemma order_inv_left:
  assumes inv: "order_inv ts i order" and i: "i < length ts" "countsAsLeft (ts ! i)" and e: "e = skip_while countsAsLeft ts (i + 1)"
  shows "order_inv ts e (order @ [BidiSpan 0 (int i) (int e)])"
proof -
  have b: "i < e" "e \<le> length ts" using skip_while_bounds [of "i + 1" ts countsAsLeft] i(1) by (simp_all add: e)
  have stop: "e < length ts \<Longrightarrow> \<not> countsAsLeft (ts ! e)" using skip_while_stops [of countsAsLeft ts "i + 1"] by (simp add: e)
  have t: "tiles order 0 i" using inv by (simp add: order_inv_def)
  have n: "tiles [BidiSpan 0 (int i) (int e)] i e" using b by (simp add: tiles_one)
  have "tiles (order @ [BidiSpan 0 (int i) (int e)]) 0 e" using tiles_append [OF t n] b by simp
  moreover have "alternating (order @ [BidiSpan 0 (int i) (int e)])"
    by (rule alternating_append [OF _ _ t n]) (use inv i b in \<open>auto simp: order_inv_def alternating_def\<close>)
  moreover have "\<forall>p \<in> set order. bs_to p \<noteq> int e" using tiles_last_level [OF t] b by fastforce
  ultimately show ?thesis using inv i b stop by (auto simp: order_inv_def hd_append)
qed

lemma order_inv_run:
  assumes inv: "order_inv ts i order" and i: "i < length ts" "\<not> countsAsLeft (ts ! i)" and e: "e = skip_while (\<lambda>t. t \<noteq> CHR ''L'') ts (i + 1)"
  shows "order_inv ts e (order @ run_sections ts i e)"
proof -
  have b: "i < e" "e \<le> length ts" using skip_while_bounds [of "i + 1" ts "\<lambda>t. t \<noteq> CHR ''L''"] i(1) by (simp_all add: e)
  have stop: "e < length ts \<Longrightarrow> countsAsLeft (ts ! e)"
    using skip_while_stops [of "\<lambda>t. t \<noteq> CHR ''L''" ts "i + 1"] by (simp add: e countsAsLeft_def)
  have l: "ts ! (e - 1) \<noteq> CHR ''L''"
  proof (cases "e - 1 = i")
    case True
    then show ?thesis using i(2) by (auto simp: countsAsLeft_def)
  next
    case False
    then show ?thesis using skip_while_between [of "i + 1" "e - 1" "\<lambda>t. t \<noteq> CHR ''L''" ts] b by (simp add: e)
  qed
  have t: "tiles order 0 i" using inv by (simp add: order_inv_def)
  note R = run_sections_ok [OF b i(2)]
  have "tiles (order @ run_sections ts i e) 0 e" using tiles_append [OF t R(1)] b by simp
  moreover have "alternating (order @ run_sections ts i e)"
    by (rule alternating_append [OF _ R(2) t R(1)]) (use inv i b R(5) in \<open>auto simp: order_inv_def\<close>)
  moreover have "\<forall>p \<in> set order. bs_to p \<noteq> int e" using tiles_last_level [OF t] b by fastforce
  moreover have "order = [] \<Longrightarrow> \<not> countsAsLeft (ts ! 0)" using inv i by (simp add: order_inv_def)
  ultimately show ?thesis using inv i b stop l R(3-5) by (auto simp: order_inv_def hd_append)
qed

lemma order_loop_inv: "order_inv ts i order \<Longrightarrow> order_inv ts (length ts) (order_loop ts i order)"
proof (induction ts i order rule: order_loop.induct)
  case (1 ts i order)
  show ?case
  proof (cases "i \<ge> length ts")
    case True
    then have "i = length ts" using 1(3) by (simp add: order_inv_def)
    then show ?thesis using 1(3) by (simp add: order_loop.simps)
  next
    case False
    show ?thesis
    proof (cases "countsAsLeft (ts ! i)")
      case True
      show ?thesis using 1(1) [OF False True refl order_inv_left [OF 1(3) _ True refl]] False True
        by (simp add: order_loop.simps [of ts i] Let_def)
    next
      case no: False
      show ?thesis using 1(2) [OF False no refl order_inv_run [OF 1(3) _ no refl]] False no
        by (simp add: order_loop.simps [of ts i] Let_def)
    qed
  qed
qed

text \<open>The corrections for white space at the ends never apply: it counts as left to right.\<close>

lemma bidiOrdering_cases:
  assumes "bidiOrdering str = Some order"
  obtains secs where "order = close_order (length str) secs" "order_inv (bidi_types str) (length str) secs" "secs \<noteq> []" "str \<noteq> []"
proof -
  let ?ts = "bidi_types str" and ?secs = "order_loop (bidi_types str) 0 []"
  have str: "str \<noteq> []" using assms by (auto simp: bidiOrdering_def bidiRE_def split: if_splits)
  have "order_inv ?ts 0 []" by (simp add: order_inv_def alternating_def)
  then have inv: "order_inv ?ts (length str) ?secs" using order_loop_inv [of ?ts 0 "[]"] by simp
  then have ne: "?secs \<noteq> []" using str by (simp add: order_inv_def)
  have nt: "?ts \<noteq> []" using str length_bidi_types [of str] by (metis length_0_conv)
  have "trim_start str ?secs = ?secs"
  proof (cases "leading_space str > 0")
    case True
    then have "is_space (hd str)" using str by (cases str) (auto simp: leading_space_def split: if_splits)
    then have "countsAsLeft (?ts ! 0)" using bidi_types_hd [OF str] nt by (simp add: countsAsLeft_def hd_conv_nth)
    then show ?thesis using inv ne by (simp add: trim_start_def order_inv_def)
  qed (simp add: trim_start_def)
  moreover have "trim_end str ?secs = ?secs"
  proof (cases "trailing_space str > 0")
    case True
    then have "is_space (last str)" using str by (cases str rule: rev_cases) (auto simp: trailing_space_def split: if_splits)
    then have "?ts ! (length str - 1) = CHR ''L''" using bidi_types_last [OF str] nt by (simp add: last_conv_nth)
    then show ?thesis using inv ne by (simp add: trim_end_def order_inv_def)
  qed (simp add: trim_end_def)
  ultimately have "order = close_order (length str) ?secs" using assms by (simp add: bidiOrdering_def split: if_splits)
  then show ?thesis using inv ne str by (intro that)
qed

section \<open>Finding the section at a position\<close>

lemma distinct_concat_nth:
  "distinct (concat xss) \<Longrightarrow> i < j \<Longrightarrow> j < length xss \<Longrightarrow> set (xss ! i) \<inter> set (xss ! j) = {}"
proof (induction xss arbitrary: i j)
  case (Cons xs xss)
  obtain j' where j: "j = Suc j'" using Cons(3) by (cases j) auto
  show ?case
  proof (cases i)
    case 0
    have "xss ! j' \<in> set xss" using Cons(4) j by simp
    then have "set (xss ! j') \<subseteq> set (concat xss)" by auto
    then show ?thesis using Cons(2) 0 j by auto
  next
    case (Suc i')
    then show ?thesis using Cons(1) [of i' j'] Cons(2-4) j by simp
  qed
qed simp

definition apart :: "bidi_span \<Rightarrow> bidi_span \<Rightarrow> bool" where
  "apart p q \<longleftrightarrow> bs_to p \<le> bs_from q \<or> bs_to q \<le> bs_from p"

lemma tiles_apart:
  assumes "tiles secs 0 n" and "i < j" and "j < length secs"
  shows "apart (secs ! i) (secs ! j)"
proof (rule ccontr)
  let ?p = "secs ! i" and ?q = "secs ! j"
  assume "\<not> apart ?p ?q"
  moreover have "0 \<le> bs_from ?p" "bs_from ?p < bs_to ?p" "0 \<le> bs_from ?q" "bs_from ?q < bs_to ?q"
    using tiles_bounds [OF assms(1)] assms by auto
  ultimately have "nat (max (bs_from ?p) (bs_from ?q)) \<in> set (sec ?p) \<inter> set (sec ?q)" by (auto simp: sec_def apart_def)
  moreover have "mset (concat (map sec secs)) = mset [0..<n]" using assms(1) by (simp add: tiles_def)
  then have "distinct (concat (map sec secs))" by (metis distinct_upt mset_eq_imp_distinct_iff)
  ultimately show False using distinct_concat_nth [of "map sec secs" i j] assms by auto
qed

lemma tiles_covers:
  assumes "tiles secs 0 n" and "0 < n" and "0 \<le> x" and "x \<le> int n"
  shows "\<exists>p \<in> set secs. bs_from p \<le> x \<and> x \<le> bs_to p"
proof -
  define k where "k = (if x = int n then n - 1 else nat x)"
  have "set (concat (map sec secs)) = set [0..<n]" using assms(1) unfolding tiles_def by (metis set_mset_mset)
  moreover have "k < n" using assms by (auto simp: k_def)
  ultimately have "k \<in> set (concat (map sec secs))" by simp
  then obtain p where p: "p \<in> set secs" "k \<in> set (sec p)" by auto
  then have "bs_from p \<le> int k" "int k < bs_to p" "bs_to p \<le> int n" using tiles_bounds [OF assms(1) p(1)] by (auto simp: sec_def)
  then show ?thesis using p(1) assms by (intro bexI [of _ p]) (auto simp: k_def split: if_splits)
qed

definition touches :: "int \<Rightarrow> bidi_span \<Rightarrow> bool" where
  "touches x p \<longleftrightarrow> bs_from p = x \<or> bs_to p = x"

definition inside :: "int \<Rightarrow> bidi_span \<Rightarrow> bool" where
  "inside x p \<longleftrightarrow> bs_from p < x \<and> x < bs_to p"

lemma part_loop_Cons:
  "part_loop order x (p # parts) i found =
     (if inside x p then (Some i, None)
      else if touches x p then
        (case found of
           None \<Rightarrow> part_loop order x parts (i + 1) (Some i)
         | Some k \<Rightarrow>
             if compareBidiLevel order (bs_level p) (bs_level (order ! k))
             then (Some i, if bs_from p \<noteq> bs_to p then Some k else None)
             else (Some k, if bs_from p \<noteq> bs_to p then Some i else None))
      else part_loop order x parts (i + 1) found)"
  by (simp add: inside_def touches_def)

lemma part_loop_found:
  "(case found of None \<Rightarrow> \<exists>p \<in> set parts. bs_from p \<le> x \<and> x \<le> bs_to p | Some k \<Rightarrow> k < i) \<Longrightarrow>
    \<exists>k. fst (part_loop order x parts i found) = Some k \<and> k < i + length parts"
proof (induction parts arbitrary: i found)
  case Nil
  then show ?case by (auto split: option.splits)
next
  case (Cons p parts)
  consider "inside x p" | "touches x p" "found = None" | k where "touches x p" "\<not> inside x p" "found = Some k" | "\<not> inside x p" "\<not> touches x p"
    by (cases found) auto
  then show ?case
  proof cases
    case 1
    then show ?thesis by (simp add: part_loop_Cons del: part_loop.simps)
  next
    case 2
    then have "\<not> inside x p" by (auto simp: inside_def touches_def)
    then show ?thesis using 2 Cons(1) [of "i + 1" "Some i"] by (auto simp: part_loop_Cons simp del: part_loop.simps)
  next
    case 3
    then show ?thesis using Cons(2) by (auto simp: part_loop_Cons simp del: part_loop.simps)
  next
    case 4
    then have "\<not> (bs_from p \<le> x \<and> x \<le> bs_to p)" by (auto simp: inside_def touches_def)
    then show ?thesis using 4 Cons(1) [of "i + 1" found] Cons(2)
      by (auto simp: part_loop_Cons simp del: part_loop.simps split: option.splits)
  qed
qed

lemma part_loop_last:
  "parts \<noteq> [] \<Longrightarrow> touches x (last parts) \<Longrightarrow> \<forall>p \<in> set parts. \<not> inside x p \<Longrightarrow> bs_level (last parts) = bs_level (hd order) \<Longrightarrow>
    length (filter (touches x) (butlast parts)) + (if found = None then 0 else 1) \<le> 1 \<Longrightarrow>
    fst (part_loop order x parts i found) = Some (i + length parts - 1)"
proof (induction parts arbitrary: i found)
  case (Cons p parts)
  show ?case
  proof (cases "parts = []")
    case True
    then show ?thesis using Cons(3-5) by (cases found) (auto simp: part_loop_Cons compareBidiLevel_def simp del: part_loop.simps(2))
  next
    case False
    then show ?thesis using Cons(1) [of "Some i" "i + 1"] Cons(1) [of found "i + 1"] Cons(3-6)
      by (cases found) (auto simp: part_loop_Cons simp del: part_loop.simps)
  qed
qed simp

lemma part_loop_first:
  "hd order = order ! 0 \<Longrightarrow> \<forall>p \<in> set parts. \<not> inside x p \<and> (touches x p \<longrightarrow> bs_level p \<noteq> bs_level (hd order)) \<Longrightarrow>
    fst (part_loop order x parts i (Some 0)) = Some 0"
  by (induction parts arbitrary: i) (auto simp: part_loop_Cons compareBidiLevel_def simp del: part_loop.simps(2))

lemma filter_at_most_one:
  "(\<And>i j. i < j \<Longrightarrow> j < length xs \<Longrightarrow> \<not> (P (xs ! i) \<and> P (xs ! j))) \<Longrightarrow> length (filter P xs) \<le> 1"
proof (induction xs)
  case (Cons y ys)
  have ih: "length (filter P ys) \<le> 1" using Cons(1) Cons(2) [of "Suc _" "Suc _"] by simp
  show ?case
  proof (cases "P y")
    case True
    have "\<not> P (ys ! j)" if "j < length ys" for j using Cons(2) [of 0 "Suc j"] True that by simp
    then have "filter P ys = []" by (auto simp: filter_empty_conv in_set_conv_nth)
    then show ?thesis by simp
  qed (use ih in simp)
qed simp

section \<open>Moving\<close>

lemma unit_loop_returns:
  assumes "dir = 1 \<or> dir = -1"
  shows "\<exists>q. unit_loop s p dir = Some q \<and> (if dir = 1 then p < q else q < p)"
  using assms
proof
  assume d: "dir = 1"
  have "\<exists>q. unit_loop s p 1 = Some q \<and> p < q"
  proof (induction "nat (int (length s) - p)" arbitrary: p rule: less_induct)
    case less
    show ?case
    proof (cases "p + 1 > 0 \<and> extending_at s (p + 1)")
      case True
      then have "p + 1 < int (length s)" by (auto simp: extending_at_def js_at_def split: option.splits if_splits)
      then obtain q where "unit_loop s (p + 1) 1 = Some q" "p + 1 < q" using less [of "p + 1"] by auto
      then show ?thesis using True by (subst unit_loop.simps) auto
    qed (subst unit_loop.simps, auto)
  qed
  then show ?thesis using d by simp
next
  assume d: "dir = -1"
  have "\<exists>q. unit_loop s p (-1) = Some q \<and> q < p"
  proof (induction "nat p" arbitrary: p rule: less_induct)
    case less
    show ?case
    proof (cases "p + -1 > 0 \<and> extending_at s (p + -1)")
      case True
      then obtain q where "unit_loop s (p + -1) (-1) = Some q" "q < p + -1" using less [of "p + -1"] by auto
      then show ?thesis using True by (subst unit_loop.simps) auto
    qed (subst unit_loop.simps, auto)
  qed
  then show ?thesis using d by simp
qed

lemma moveInLine_returns:
  assumes "dir = 1 \<or> dir = -1"
  shows "\<exists>q. moveInLine l p dir byUnit = Some (Inr q) \<and> (if dir = 1 then p < q else q < p)"
  using assms unit_loop_returns [OF assms, of "l_text l" p] by (cases byUnit) (auto simp: moveInLine_def ret_def)

text \<open>What moving relies on: the sections of a line, closed by an empty one where the ends differ in level.\<close>

definition order_ok :: "nat \<Rightarrow> bidi_span list \<Rightarrow> bidi_span list \<Rightarrow> bool" where
  "order_ok n secs order \<longleftrightarrow>
     order = close_order n secs \<and> secs \<noteq> [] \<and> tiles secs 0 n \<and> alternating secs \<and> 0 < n \<and>
     bs_level (last secs) \<le> 1 \<and> (\<forall>p \<in> set secs. bs_to p = int n \<longrightarrow> (bs_level p = 0 \<longleftrightarrow> bs_level (last secs) = 0))"

lemma bidiOrdering_ok:
  assumes "bidiOrdering str = Some order"
  shows "\<exists>secs. order_ok (length str) secs order"
proof -
  obtain secs where "order = close_order (length str) secs" "order_inv (bidi_types str) (length str) secs" "secs \<noteq> []" "str \<noteq> []"
    by (rule bidiOrdering_cases [OF assms])
  then have "order_ok (length str) secs order" by (simp add: order_ok_def order_inv_def)
  then show ?thesis ..
qed

lemma order_okD:
  assumes "order_ok n secs order"
  shows "order \<noteq> []" "hd order = hd secs" "bs_level (last order) = bs_level (hd order)"
    "\<forall>p \<in> set order. 0 \<le> bs_from p \<and> bs_from p \<le> bs_to p \<and> bs_to p \<le> int n \<and> bs_level p \<le> 2"
    "\<forall>p \<in> set (butlast order). bs_from p < bs_to p" "bs_from (last order) < bs_to (last order) \<or> bs_from (last order) = int n"
  using assms by (auto simp: order_ok_def close_order_def tiles_def dest: in_set_butlastD)

lemma order_apart:
  assumes "order_ok n secs order" and "i < j" and "j < length order"
  shows "apart (order ! i) (order ! j)"
proof (cases "j < length secs")
  case True
  then have "order ! i = secs ! i" "order ! j = secs ! j" using assms by (auto simp: order_ok_def close_order_def nth_append)
  then show ?thesis using tiles_apart [of secs n i j] True assms by (simp add: order_ok_def)
next
  case False
  then have "order = secs @ [BidiSpan (bs_level (hd secs)) (int n) (int n)]" "j = length secs"
    using assms by (auto simp: order_ok_def close_order_def split: if_splits)
  moreover have "tiles secs 0 n" using assms(1) by (simp add: order_ok_def)
  ultimately show ?thesis using assms(2) tiles_bounds [of secs 0 n "secs ! i"] by (simp add: apart_def nth_append)
qed

lemma apart_sym: "apart p q \<Longrightarrow> apart q p"
  by (auto simp: apart_def)

lemma order_not_inside:
  assumes "order_ok n secs order" and "i < length order" and "touches x (order ! i)" and "p \<in> set order"
  shows "\<not> inside x p"
proof
  assume "inside x p"
  obtain j where j: "j < length order" "p = order ! j" using assms(4) by (auto simp: in_set_conv_nth)
  show False
  proof (cases "i = j")
    case True
    then show ?thesis using assms(3) \<open>inside x p\<close> j by (auto simp: inside_def touches_def)
  next
    case False
    then have "apart (order ! i) p" using order_apart [OF assms(1), of i j] order_apart [OF assms(1), of j i] assms(2) j
      by (metis apart_sym linorder_neqE_nat)
    moreover have "bs_from (order ! i) \<le> bs_to (order ! i)" using order_okD(4) [OF assms(1)] assms(2) by simp
    ultimately show ?thesis using \<open>inside x p\<close> assms(3) by (auto simp: inside_def touches_def apart_def)
  qed
qed

lemma three_touching:
  fixes a b c d e f n x :: int
  assumes "a < b" "c < d" "e \<le> f" "f \<le> n" "b \<le> n" "d \<le> n" "e < f \<or> e = n"
    and "b \<le> c \<or> d \<le> a" "b \<le> e \<or> f \<le> a" "d \<le> e \<or> f \<le> c" "e = x \<or> f = x" "a = x \<or> b = x" "c = x \<or> d = x"
  shows False
  using assms by (elim disjE) linarith+

lemma getBidiPartAt_last:
  assumes ok: "order_ok n secs order" and x: "touches x (last order)"
  shows "fst (getBidiPartAt order x) = Some (length order - 1)"
proof -
  have ne: "order \<noteq> []" using order_okD(1) [OF ok] .
  then have l: "last order = order ! (length order - 1)" by (simp add: last_conv_nth)
  have "length (filter (touches x) (butlast order)) \<le> 1"
  proof (rule filter_at_most_one)
    fix i j assume ij: "i < j" "j < length (butlast order)"
    let ?p = "order ! i" and ?q = "order ! j"
    have a: "apart ?p ?q" "apart ?p (last order)" "apart ?q (last order)"
      using order_apart [OF ok, of i j] order_apart [OF ok, of i "length order - 1"] order_apart [OF ok, of j "length order - 1"] ij l by auto
    have "?p \<in> set (butlast order)" "?q \<in> set (butlast order)" using ij by (metis nth_butlast nth_mem order_less_trans)+
    then have "bs_from ?p < bs_to ?p" "bs_from ?q < bs_to ?q" using order_okD(5) [OF ok] by auto
    moreover have "bs_from (last order) \<le> bs_to (last order)" "bs_to (last order) \<le> int n" "bs_to ?p \<le> int n" "bs_to ?q \<le> int n"
      using order_okD(4) [OF ok] ne ij by auto
    ultimately have "\<not> (touches x ?p \<and> touches x ?q)"
      using a x order_okD(6) [OF ok] three_touching [of "bs_from ?p" "bs_to ?p" "bs_from ?q" "bs_to ?q" "bs_from (last order)" "bs_to (last order)" "int n" x]
      unfolding apart_def touches_def by blast
    then show "\<not> (touches x (butlast order ! i) \<and> touches x (butlast order ! j))" using ij by (simp add: nth_butlast)
  qed
  moreover have "\<forall>p \<in> set order. \<not> inside x p" using order_not_inside [OF ok, of "length order - 1"] x l ne by auto
  ultimately show ?thesis
    using part_loop_last [OF ne x _ order_okD(3) [OF ok], of None 0] by (simp add: getBidiPartAt_def)
qed

lemma getBidiPartAt_first:
  assumes ok: "order_ok n secs order" and x: "touches x (hd order)" and c: "even (bs_level (hd order)) \<longrightarrow> x < int n"
  shows "fst (getBidiPartAt order x) = Some 0"
proof -
  obtain p ps where o': "order = p # ps" using order_okD(1) [OF ok] by (cases order) auto
  have p: "p \<in> set secs" "bs_from p < bs_to p" "bs_to p \<le> int n" using order_okD(2) [OF ok] ok tiles_bounds [of secs 0 n p]
    by (auto simp: o' order_ok_def)
  have diff: "bs_level q \<noteq> bs_level p" if q: "q \<in> set ps" "touches x q" for q
  proof -
    obtain j where j: "j < length ps" "q = ps ! j" using q(1) by (auto simp: in_set_conv_nth)
    have a: "apart p q" using order_apart [OF ok, of 0 "Suc j"] j by (simp add: o')
    show ?thesis
    proof (cases "q \<in> set secs")
      case True
      then have "bs_from q < bs_to q" "alternating secs" using ok tiles_bounds [of secs 0 n q] by (auto simp: order_ok_def)
      moreover have "bs_to p = bs_from q \<or> bs_to q = bs_from p" using a p \<open>bs_from q < bs_to q\<close> x q(2) by (auto simp: o' touches_def apart_def)
      ultimately show ?thesis using True p(1) unfolding alternating_def by metis
    next
      case False
      have "order = secs \<or> order = secs @ [BidiSpan (bs_level (hd secs)) (int n) (int n)] \<and> bs_level (last secs) \<noteq> bs_level (hd secs)"
        using ok by (auto simp: order_ok_def close_order_def)
      moreover have "q \<in> set order" using q(1) o' by simp
      ultimately have q': "bs_from q = int n" "bs_to q = int n" "bs_level (last secs) \<noteq> bs_level (hd secs)" using False by auto
      then have "x = int n" "bs_to p = int n" using q(2) x p by (auto simp: touches_def o')
      then have "bs_level p = 1" using c order_okD(4) [OF ok] by (auto simp: o' elim!: oddE)
      moreover have "bs_level (last secs) = 1" using \<open>bs_to p = int n\<close> p(1) ok \<open>bs_level p = 1\<close> by (auto simp: order_ok_def)
      ultimately show ?thesis using q'(3) order_okD(2) [OF ok] by (simp add: o')
    qed
  qed
  have "\<forall>q \<in> set order. \<not> inside x q" using order_not_inside [OF ok, of 0] x by (simp add: o')
  then show ?thesis using x diff part_loop_first [of order ps x 1]
    by (auto simp: getBidiPartAt_def o' part_loop_Cons simp del: part_loop.simps(2))
qed

text \<open>One round: it ends inside the line, or goes on to the next section.\<close>

lemma visually_step_ok:
  assumes ok: "order_ok n secs order" and dir: "dir = 1 \<or> dir = -1" and p: "p < length order"
    and c: "dir = -1 \<and> p = 0 \<and> even (bs_level (hd order)) \<longrightarrow> target < int n"
  shows "(\<exists>r. visually_step l order dir byUnit (int p, order ! p, target) = Some (Inr (Inr r)) \<and> (\<forall>t. r = Some t \<longrightarrow> 0 \<le> t \<and> t \<le> int n)) \<or>
    (\<exists>p' target'. visually_step l order dir byUnit (int p, order ! p, target) = Some (Inr (Inl (int p', order ! p', target'))) \<and>
      p' < length order \<and> int p' = int p + dir \<and> (dir = -1 \<and> p' = 0 \<and> even (bs_level (hd order)) \<longrightarrow> target' < int n))"
proof -
  have b: "0 \<le> bs_from (order ! k)" "bs_from (order ! k) \<le> bs_to (order ! k)" "bs_to (order ! k) \<le> int n" if "k < length order" for k
    using order_okD(4) [OF ok] that by auto
  have ends: "hd order = order ! 0" "last order = order ! (length order - 1)" using order_okD(1) [OF ok] by (simp_all add: hd_conv_nth last_conv_nth)
  show ?thesis
  proof (cases "inside target (order ! p)")
    case True
    then show ?thesis using b [OF p] by (intro disjI1) (auto simp: visually_step_def inside_def ret_def)
  next
    case out: False
    show ?thesis
    proof (cases "touches target (order ! p)")
      case True
      show ?thesis
      proof (cases "fst (getBidiPartAt order target) = Some p")
        case True
        then show ?thesis using \<open>touches target (order ! p)\<close> out b [OF p]
          by (intro disjI1) (auto simp: visually_step_def inside_def touches_def ret_def)
      next
        case no: False
        have "\<not> (dir = 1 \<and> p = length order - 1)" using getBidiPartAt_last [OF ok, of target] True no ends by auto
        moreover have "\<not> (dir = -1 \<and> p = 0)"
        proof
          assume "dir = -1 \<and> p = 0"
          then show False using getBidiPartAt_first [OF ok, of target] True no ends c by simp
        qed
        ultimately have "0 \<le> int p + dir" "int p + dir < int (length order)" using dir p by auto
        then obtain k where k: "int k = int p + dir" "k < length order" by (metis int_nat_eq of_nat_less_iff)
        then have "js_at order (int p + dir) = Some (order ! k)" by (simp add: js_at_def flip: k(1))
        then show ?thesis using True out no b [OF k(2)]
          by (intro disjI1) (auto simp: visually_step_def inside_def touches_def ret_def)
      qed
    next
      case no: False
      show ?thesis
      proof (cases "js_at order (int p + dir)")
        case None
        then show ?thesis using no out by (intro disjI1) (auto simp: visually_step_def inside_def touches_def ret_def)
      next
        case (Some part')
        then obtain k where k: "int k = int p + dir" "k < length order" "part' = order ! k"
          by (auto simp: js_at_def split: if_splits intro: that [of "nat (int p + dir)"])
        define q where "q = (if (dir > 0) = odd (bs_level part') then moveInLine l (bs_to part') (-1) byUnit else moveInLine l (bs_from part') 1 byUnit)"
        have "\<exists>t. q = Some (Inr t) \<and> ((dir > 0) = odd (bs_level part') \<longrightarrow> t < bs_to part')"
          using moveInLine_returns [of "-1" l "bs_to part'" byUnit] moveInLine_returns [of 1 l "bs_from part'" byUnit] by (auto simp: q_def)
        then obtain t where t: "q = Some (Inr t)" "(dir > 0) = odd (bs_level part') \<longrightarrow> t < bs_to part'" by blast
        have "visually_step l order dir byUnit (int p, order ! p, target) = Some (Inr (Inl (int k, order ! k, t)))"
          using no out Some t(1) [unfolded q_def] k by (auto simp: visually_step_def inside_def touches_def ret_def split: if_splits)
        moreover have "dir = -1 \<and> k = 0 \<and> even (bs_level (hd order)) \<longrightarrow> t < int n" using t(2) b [OF k(2)] k(3) ends by auto
        ultimately show ?thesis using k by blast
      qed
    qed
  qed
qed

lemma visually_loop_ok:
  assumes ok: "order_ok n secs order" and dir: "dir = 1 \<or> dir = -1"
  shows "p < length order \<Longrightarrow> dir = -1 \<and> p = 0 \<and> even (bs_level (hd order)) \<longrightarrow> target < int n \<Longrightarrow>
    \<exists>r. visually_loop l order dir byUnit (int p, order ! p, target) = Some (Inr r) \<and> (\<forall>t. r = Some t \<longrightarrow> 0 \<le> t \<and> t \<le> int n)"
proof (induction "if dir = 1 then length order - p else p" arbitrary: p target rule: less_induct)
  case less
  from visually_step_ok [OF ok dir less(2,3), of l byUnit] show ?case
  proof (elim disjE exE conjE)
    fix p' target'
    assume s: "visually_step l order dir byUnit (int p, order ! p, target) = Some (Inr (Inl (int p', order ! p', target')))"
      and p': "p' < length order" "int p' = int p + dir" "dir = -1 \<and> p' = 0 \<and> even (bs_level (hd order)) \<longrightarrow> target' < int n"
    have "(if dir = 1 then length order - p' else p') < (if dir = 1 then length order - p else p)" using p' dir less(2) by auto
    from less(1) [OF this p'(1,3)] show ?thesis by (subst visually_loop.simps) (simp add: s)
  qed (subst visually_loop.simps, simp)
qed

section \<open>Properties\<close>

text \<open>The cached order of a line is the one of its text: lines start without one, and changing the text drops it.\<close>

definition order_cache_ok :: "'st line \<Rightarrow> bool" where
  "order_cache_ok l \<longleftrightarrow> (case l_order l of None \<Rightarrow> True | Some order \<Rightarrow> order = bidiOrdering (l_text l))"

lemma getOrder_cached:
  assumes "order_cache_ok l"
  shows "order_of l = bidiOrdering (l_text l)" "order_cache_ok (snd (getOrder l))"
  using assms by (auto simp: order_of_def getOrder_def order_cache_ok_def Let_def split: option.splits)

lemma order_cache_new: "order_cache_ok (mkLine eh i txt spans)" "order_cache_ok (updateLine eh txt spans l)"
  by (simp_all add: order_cache_ok_def mkLine_def updateLine_def Let_def)

text \<open>C13: The sections that the bidirectional algorithm finds tile the line: every character is in exactly one
  of them, whatever the text; they lie in the line, have the levels 0 to 2, and the first and the last one
  have the same level.\<close>

theorem bidi_sections_tile:
  assumes "bidiOrdering str = Some order"
  shows "mset (concat (map (\<lambda>p. [nat (bs_from p)..<nat (bs_to p)]) order)) = mset [0..<length str] \<and>
    (\<forall>p \<in> set order. 0 \<le> bs_from p \<and> bs_from p \<le> bs_to p \<and> bs_to p \<le> int (length str) \<and> bs_level p \<le> 2) \<and>
    order \<noteq> [] \<and> bs_level (hd order) = bs_level (last order)"
proof -
  obtain secs where ok: "order_ok (length str) secs order" using bidiOrdering_ok [OF assms] by blast
  then have "mset (concat (map sec order)) = mset [0..<length str]" by (auto simp: order_ok_def close_order_def tiles_def sec_def)
  then show ?thesis using order_okD [OF ok] unfolding sec_def [abs_def] by simp
qed

theorem bidi_sections_tile_witness:
  "\<exists>order. bidiOrdering [97, 1488, 1489, 32, 49, 50, 1491, 98] = Some order \<and> length order = 5 \<and>
     mset (concat (map (\<lambda>p. [nat (bs_from p)..<nat (bs_to p)]) order)) = mset [0..<length [97, 1488, 1489, 32, 49, 50, 1491, 98 :: jchar]]"
proof -
  have e: "bidiOrdering [97, 1488, 1489, 32, 49, 50, 1491, 98] =
      Some [BidiSpan 0 0 1, BidiSpan 1 6 7, BidiSpan 2 4 6, BidiSpan 1 1 4, BidiSpan 0 7 8]"
    by code_simp
  have "length [BidiSpan 0 0 1, BidiSpan 1 6 7, BidiSpan 2 4 6, BidiSpan 1 1 4, BidiSpan 0 7 8] = 5" by simp
  then show ?thesis using bidi_sections_tile [OF e] e by blast
qed

lemma extending_at_inside: "extending_at s i \<Longrightarrow> 0 \<le> i \<and> i < int (length s)"
  by (auto simp: extending_at_def js_at_def split: option.splits if_splits)

lemma unit_right:
  "\<exists>q. unit_loop s p 1 = Some q \<and> p < q \<and> \<not> (q > 0 \<and> extending_at s q) \<and> (\<forall>r. p < r \<and> r < q \<longrightarrow> r > 0 \<and> extending_at s r)"
proof (induction "nat (int (length s) - p)" arbitrary: p rule: less_induct)
  case less
  show ?case
  proof (cases "p + 1 > 0 \<and> extending_at s (p + 1)")
    case True
    then have "p + 1 < int (length s)" using extending_at_inside by blast
    then obtain q where q: "unit_loop s (p + 1) 1 = Some q" "p + 1 < q" "\<not> (q > 0 \<and> extending_at s q)" "\<forall>r. p + 1 < r \<and> r < q \<longrightarrow> r > 0 \<and> extending_at s r"
      using less [of "p + 1"] by auto
    have "\<forall>r. p < r \<and> r < q \<longrightarrow> r > 0 \<and> extending_at s r"
    proof (intro allI impI)
      fix r assume "p < r \<and> r < q"
      then show "r > 0 \<and> extending_at s r" using True q(4) by (cases "r = p + 1") auto
    qed
    then show ?thesis using True q by (subst unit_loop.simps) auto
  qed (subst unit_loop.simps, auto)
qed

lemma unit_left: "\<exists>q. unit_loop s p (-1) = Some q \<and> q < p \<and> \<not> (q > 0 \<and> extending_at s q) \<and> (p > 0 \<longrightarrow> q \<ge> 0)"
proof (induction "nat p" arbitrary: p rule: less_induct)
  case less
  show ?case
  proof (cases "p + -1 > 0 \<and> extending_at s (p + -1)")
    case True
    then obtain q where "unit_loop s (p + -1) (-1) = Some q" "q < p + -1" "\<not> (q > 0 \<and> extending_at s q)" "q \<ge> 0" using less [of "p + -1"] by auto
    then show ?thesis using True by (subst unit_loop.simps) auto
  qed (subst unit_loop.simps, auto)
qed

section \<open>The visual end of a line\<close>

lemma part_loop_within:
  assumes "\<And>q. q \<in> set order \<Longrightarrow> bs_from q \<le> bs_to q"
  shows "fst (part_loop order x parts i found) = Some k \<Longrightarrow> parts = drop i order \<Longrightarrow>
    (\<And>j. found = Some j \<Longrightarrow> bs_from (order ! j) \<le> x \<and> x \<le> bs_to (order ! j)) \<Longrightarrow> bs_from (order ! k) \<le> x \<and> x \<le> bs_to (order ! k)"
proof (induction parts arbitrary: i found)
  case (Cons p parts)
  have p: "p = order ! i" "parts = drop (Suc i) order" "i < length order"
    using Cons.prems(2) by (metis nth_via_drop, metis drop_Suc list.sel(3) tl_drop, metis drop_all leI list.distinct(1))
  then have "bs_from p \<le> bs_to p" using assms by simp
  then have here: "bs_from p \<le> x \<and> x \<le> bs_to p" if "inside x p \<or> touches x p" using that by (auto simp: inside_def touches_def)
  consider "inside x p" | "touches x p" "found = None" | j where "touches x p" "\<not> inside x p" "found = Some j" | "\<not> inside x p" "\<not> touches x p"
    by (cases found) auto
  then show ?case
  proof cases
    case 1
    then show ?thesis using here Cons.prems(1) p(1) by (simp add: part_loop_Cons del: part_loop.simps)
  next
    case 2
    then have "\<not> inside x p" by (auto simp: inside_def touches_def)
    then have "fst (part_loop order x parts (Suc i) (Some i)) = Some k" using 2 Cons.prems(1) by (simp add: part_loop_Cons del: part_loop.simps)
    then show ?thesis using Cons.IH [of "Suc i" "Some i"] here 2 p by simp
  next
    case 3
    then show ?thesis using here Cons.prems(1,3) p(1) by (auto simp: part_loop_Cons simp del: part_loop.simps split: if_splits)
  next
    case 4
    then have "fst (part_loop order x parts (Suc i) found) = Some k" using Cons.prems(1) by (simp add: part_loop_Cons del: part_loop.simps)
    then show ?thesis using Cons.IH [of "Suc i" found] Cons.prems(3) p(2) by simp
  qed
qed simp

text \<open>
  The position behind which nothing follows in the direction of the movement: the end of the line, or, in a line with
  sections, the far end of a section behind which there are only empty ones.
\<close>

definition beyond_empty :: "bidi_span list \<Rightarrow> int \<Rightarrow> nat \<Rightarrow> bool" where
  "beyond_empty order dir k \<longleftrightarrow>
     (\<forall>j < length order. (if dir = 1 then k < j else j < k) \<longrightarrow> bs_from (order ! j) = bs_to (order ! j))"

definition at_visual_end :: "'st line \<Rightarrow> int \<Rightarrow> int \<Rightarrow> bool" where
  "at_visual_end l start dir \<longleftrightarrow>
     (case order_of l of
        None \<Rightarrow> start = (if dir = 1 then int (length (l_text l)) else 0)
      | Some order \<Rightarrow>
          (case fst (getBidiPartAt order start) of
             None \<Rightarrow> False
           | Some k \<Rightarrow>
               start = (if (dir = 1) = odd (bs_level (order ! k)) then bs_from (order ! k) else bs_to (order ! k)) \<and>
               beyond_empty order dir k))"

text \<open>The loop returns null when it leaves a section behind which all others are empty.\<close>

lemma visually_step_leaves:
  assumes "\<not> inside target part" "\<not> touches target part"
  shows "visually_step l order dir byUnit (p, part, target) =
    (case js_at order (p + dir) of
       None \<Rightarrow> ret (Inr None)
     | Some part' \<Rightarrow>
         pbind (if (dir > 0) = odd (bs_level part') then moveInLine l (bs_to part') (-1) byUnit
                else moveInLine l (bs_from part') 1 byUnit) (\<lambda>target'. ret (Inl (p + dir, part', target'))))"
  using assms by (auto simp: visually_step_def inside_def touches_def)

lemma next_part:
  assumes "js_at order (int p + dir) = Some part'" and "dir = 1 \<or> dir = -1"
  obtains k where "int k = int p + dir" "k < length order" "part' = order ! k"
    "(if dir = 1 then length order - k else k) < (if dir = 1 then length order - p else p)"
  using assms by (auto simp: js_at_def split: if_splits intro!: that [of "nat (int p + dir)"])

lemma visually_loop_leaves:
  assumes dir: "dir = 1 \<or> dir = -1"
  shows "p < length order \<Longrightarrow> \<not> inside target (order ! p) \<Longrightarrow> \<not> touches target (order ! p) \<Longrightarrow> beyond_empty order dir p \<Longrightarrow>
    visually_loop l order dir byUnit (int p, order ! p, target) = Some (Inr None)"
proof (induction "if dir = 1 then length order - p else p" arbitrary: p target rule: less_induct)
  case less
  note step = visually_step_leaves [OF less(3,4), of l order dir byUnit "int p"]
  show ?case
  proof (cases "js_at order (int p + dir)")
    case None
    then show ?thesis by (subst visually_loop.simps) (simp add: step ret_def)
  next
    case (Some part')
    then obtain k where k: "int k = int p + dir" "k < length order" "part' = order ! k"
      "(if dir = 1 then length order - k else k) < (if dir = 1 then length order - p else p)" by (rule next_part [OF _ dir])
    have e: "bs_from (order ! k) = bs_to (order ! k)" "beyond_empty order dir k"
      using less(5) k(1,2) dir by (auto simp: beyond_empty_def)
    define q where "q = (if (dir > 0) = odd (bs_level part') then moveInLine l (bs_to part') (-1) byUnit else moveInLine l (bs_from part') 1 byUnit)"
    have "\<exists>t. q = Some (Inr t) \<and> t \<noteq> bs_to (order ! k)"
      using moveInLine_returns [of "-1" l "bs_to part'" byUnit] moveInLine_returns [of 1 l "bs_from part'" byUnit] e(1)
      unfolding q_def k(3) by (auto split: if_split)
    then obtain t where t: "q = Some (Inr t)" "t \<noteq> bs_to (order ! k)" by blast
    have "visually_loop l order dir byUnit (int k, order ! k, t) = Some (Inr None)"
      using t(2) e by (intro less(1) [OF k(4,2)]) (auto simp: inside_def touches_def)
    then show ?thesis using t(1) unfolding q_def
      by (subst visually_loop.simps) (simp add: step Some ret_def k(1) flip: k(3))
  qed
qed

lemma beyond_empty_step:
  assumes "bs_from (order ! k) = bs_to (order ! k)" "beyond_empty order dir k" "int k = int p + dir" "dir = 1 \<or> dir = -1"
  shows "beyond_empty order dir p"
  unfolding beyond_empty_def
proof (intro allI impI)
  fix j assume j: "j < length order" "if dir = 1 then p < j else j < p"
  show "bs_from (order ! j) = bs_to (order ! j)"
  proof (cases "j = k")
    case False
    then have "if dir = 1 then k < j else j < k" using j(2) assms(3,4) by auto
    then show ?thesis using assms(2) j(1) by (simp add: beyond_empty_def)
  qed (simp add: assms(1))
qed

lemma visually_loop_null:
  assumes dir: "dir = 1 \<or> dir = -1" and ne: "\<And>q. q \<in> set order \<Longrightarrow> bs_from q \<le> bs_to q"
  shows "p < length order \<Longrightarrow> visually_loop l order dir False (int p, order ! p, target) = Some (Inr None) \<Longrightarrow>
    \<not> inside target (order ! p) \<and> \<not> touches target (order ! p) \<and> beyond_empty order dir p"
proof (induction "if dir = 1 then length order - p else p" arbitrary: p target rule: less_induct)
  case less
  have out: "\<not> inside target (order ! p)" "\<not> touches target (order ! p)"
    using less(3) by (subst (asm) visually_loop.simps, auto simp: visually_step_def inside_def touches_def ret_def split: if_splits option.splits)+
  note step = visually_step_leaves [OF out, of l order dir False "int p"]
  show ?case
  proof (cases "js_at order (int p + dir)")
    case None
    then have "beyond_empty order dir p" using dir less(2) by (auto simp: beyond_empty_def js_at_def split: if_splits)
    then show ?thesis using out by simp
  next
    case (Some part')
    then obtain k where k: "int k = int p + dir" "k < length order" "part' = order ! k"
      "(if dir = 1 then length order - k else k) < (if dir = 1 then length order - p else p)" by (rule next_part [OF _ dir])
    define t where "t = (if (dir > 0) = odd (bs_level part') then bs_to part' - 1 else bs_from part' + 1)"
    have "visually_loop l order dir False (int k, order ! k, t) = Some (Inr None)"
      using less(3) by (subst (asm) visually_loop.simps) (simp add: step Some ret_def moveInLine_def t_def k(1,3) split: if_splits)
    from less(1) [OF k(4,2) this] have "\<not> inside t part'" "\<not> touches t part'" "beyond_empty order dir k" by (simp_all add: k(3))
    moreover have "bs_from part' \<le> bs_to part'" using ne k(2,3) by simp
    ultimately have "bs_from (order ! k) = bs_to (order ! k)" by (auto simp: t_def inside_def touches_def k(3) split: if_splits)
    then have "beyond_empty order dir p" by (rule beyond_empty_step [OF _ \<open>beyond_empty order dir k\<close> k(1) dir])
    then show ?thesis using out by simp
  qed
qed

lemma part_at:
  assumes ok: "order_ok n secs order" and "0 \<le> x" and "x \<le> int n"
  obtains k where "fst (getBidiPartAt order x) = Some k" "k < length order" "bs_from (order ! k) \<le> x" "x \<le> bs_to (order ! k)"
proof -
  have "\<exists>p \<in> set secs. bs_from p \<le> x \<and> x \<le> bs_to p"
    using tiles_covers [OF _ _ assms(2,3)] ok by (simp add: order_ok_def)
  moreover have "set secs \<subseteq> set order" using ok by (auto simp: order_ok_def close_order_def)
  ultimately have "\<exists>p \<in> set order. bs_from p \<le> x \<and> x \<le> bs_to p" by blast
  then obtain k where k: "fst (getBidiPartAt order x) = Some k" "k < length order"
    using part_loop_found [where found = None and parts = order and x = x and i = 0 and order = order] by (auto simp: getBidiPartAt_def)
  have "bs_from (order ! k) \<le> x \<and> x \<le> bs_to (order ! k)"
    by (rule part_loop_within [OF _ k(1) [unfolded getBidiPartAt_def]]) (simp_all add: order_okD(4) [OF ok])
  then show ?thesis using k that by blast
qed

text \<open>Logically, the line ends at its last position, or at its first one.\<close>

lemma moveLogically_null:
  assumes "0 \<le> start" and "start \<le> int (length (l_text l))" and "dir = 1 \<or> dir = -1"
  shows "\<exists>r. moveLogically l start dir byUnit = Some (Inr r) \<and> (\<forall>t. r = Some t \<longrightarrow> 0 \<le> t \<and> t \<le> int (length (l_text l))) \<and>
    (r = None \<longleftrightarrow> start = (if dir = 1 then int (length (l_text l)) else 0))"
proof -
  have "\<exists>q. moveInLine l start dir byUnit = Some (Inr q) \<and> ((q < 0 \<or> q > int (length (l_text l))) \<longleftrightarrow> start = (if dir = 1 then int (length (l_text l)) else 0))"
  proof (cases byUnit)
    case False
    then show ?thesis using assms by (auto simp: moveInLine_def ret_def)
  next
    case True
    show ?thesis
    proof (cases "dir = 1")
      case d: True
      obtain q where q: "unit_loop (l_text l) start 1 = Some q" "start < q" "\<forall>r. start < r \<and> r < q \<longrightarrow> r > 0 \<and> extending_at (l_text l) r"
        using unit_right [of "l_text l" start] by blast
      have "q > int (length (l_text l)) \<longleftrightarrow> start = int (length (l_text l))"
        using q(2) q(3) [rule_format, of "int (length (l_text l))"] extending_at_inside [of "l_text l" "int (length (l_text l))"] assms(2) by force
      then show ?thesis using q(1,2) True d assms(1) by (auto simp: moveInLine_def)
    next
      case False
      then have d: "dir = -1" using assms(3) by simp
      obtain q where q: "unit_loop (l_text l) start (-1) = Some q" "q < start" "start > 0 \<longrightarrow> q \<ge> 0"
        using unit_left [of "l_text l" start] by blast
      then show ?thesis using True d assms(1,2) by (auto simp: moveInLine_def)
    qed
  qed
  then show ?thesis by (auto simp: moveLogically_def ret_def)
qed

text \<open>C14: Moving the cursor one step visually from a position of the line always returns and never raises, in both directions and
  for bidirectional text, and the result is a position of the line or null. It is null at the visual end of
  the line; and nowhere else when the line reads from left to right or the step is by single characters.\<close>

theorem moveVisually_stays_in_line:
  assumes "order_cache_ok l" and "0 \<le> start" and "start \<le> int (length (l_text l))" and "dir = 1 \<or> dir = -1"
  shows "\<exists>r. moveVisually l start dir byUnit = Some (Inr r) \<and> (\<forall>t. r = Some t \<longrightarrow> 0 \<le> t \<and> t \<le> int (length (l_text l))) \<and>
    (at_visual_end l start dir \<longrightarrow> r = None) \<and> (r = None \<and> (order_of l = None \<or> \<not> byUnit) \<longrightarrow> at_visual_end l start dir)"
proof (cases "bidiOrdering (l_text l)")
  case None
  then have o: "order_of l = None" using getOrder_cached(1) [OF assms(1)] by simp
  obtain r where "moveLogically l start dir byUnit = Some (Inr r)" "\<forall>t. r = Some t \<longrightarrow> 0 \<le> t \<and> t \<le> int (length (l_text l))"
    "r = None \<longleftrightarrow> start = (if dir = 1 then int (length (l_text l)) else 0)"
    using moveLogically_null [OF assms(2-4), of byUnit] by blast
  moreover have "at_visual_end l start dir \<longleftrightarrow> start = (if dir = 1 then int (length (l_text l)) else 0)" by (simp add: at_visual_end_def o)
  moreover have "moveVisually l start dir byUnit = moveLogically l start dir byUnit" by (simp add: moveVisually_def o)
  ultimately show ?thesis by simp
next
  case (Some order)
  then have o: "order_of l = Some order" using getOrder_cached(1) [OF assms(1)] by simp
  obtain secs where ok: "order_ok (length (l_text l)) secs order" using bidiOrdering_ok [OF Some] by blast
  have ne: "bs_from q \<le> bs_to q" if "q \<in> set order" for q using order_okD(4) [OF ok] that by simp
  obtain k where k: "fst (getBidiPartAt order start) = Some k" "k < length order" "bs_from (order ! k) \<le> start" "start \<le> bs_to (order ! k)"
    by (rule part_at [OF ok assms(2,3)])
  define dir' where "dir' = (if odd (bs_level (order ! k)) then - dir else dir)"
  have "dir' = 1 \<or> dir' = -1" using assms(4) by (auto simp: dir'_def)
  then obtain t where t: "moveInLine l start dir' byUnit = Some (Inr t)" "if dir' = 1 then start < t else t < start"
    using moveInLine_returns [of dir' l start byUnit] by blast
  have mv: "moveVisually l start dir byUnit = visually_loop l order dir byUnit (int k, order ! k, t)"
    using k(1) t(1) by (simp add: moveVisually_def o Let_def flip: dir'_def)
  have "dir = -1 \<and> k = 0 \<and> even (bs_level (hd order)) \<longrightarrow> t < int (length (l_text l))"
    using t(2) assms(3) order_okD(1) [OF ok] by (auto simp: hd_conv_nth dir'_def)
  from visually_loop_ok [OF ok assms(4) k(2) this, of l byUnit] obtain r where
    r: "visually_loop l order dir byUnit (int k, order ! k, t) = Some (Inr r)" "\<forall>t. r = Some t \<longrightarrow> 0 \<le> t \<and> t \<le> int (length (l_text l))" by blast
  define far where "far = (if (dir = 1) = odd (bs_level (order ! k)) then bs_from (order ! k) else bs_to (order ! k))"
  have e: "at_visual_end l start dir \<longleftrightarrow> start = far \<and> beyond_empty order dir k" using k(1) by (simp add: at_visual_end_def o far_def)
  have "r = None" if "at_visual_end l start dir"
  proof -
    have "\<not> inside t (order ! k)" "\<not> touches t (order ! k)" using that k(3,4) t(2) assms(4) unfolding e far_def dir'_def
      by (auto simp: inside_def touches_def split: if_splits)
    then show ?thesis using visually_loop_leaves [OF assms(4) k(2), of t l byUnit] r(1) that e by simp
  qed
  moreover have "at_visual_end l start dir" if "r = None" "\<not> byUnit"
  proof -
    have "\<not> inside t (order ! k) \<and> \<not> touches t (order ! k) \<and> beyond_empty order dir k"
      using that r(1) by (intro visually_loop_null [where l = l, OF assms(4) ne k(2)]) simp_all
    moreover have "t = start + dir'" using t(1) that(2) by (simp add: moveInLine_def ret_def)
    ultimately show ?thesis using k(3,4) assms(4) unfolding e far_def dir'_def by (auto simp: inside_def touches_def split: if_splits)
  qed
  ultimately show ?thesis using r mv o by auto
qed

definition bidi_line :: "jsstring \<Rightarrow> unit line" where
  "bidi_line str = mkLine (\<lambda>_. 1) 0 str []"

theorem moveVisually_stays_in_line_witness:
  "(\<exists>r. moveVisually (bidi_line [97, 1488, 49, 98]) 2 (-1) True = Some (Inr r) \<and> (\<forall>t. r = Some t \<longrightarrow> 0 \<le> t \<and> t \<le> 4)) \<and>
   at_visual_end (bidi_line [97, 1488, 49, 98]) 4 1 \<and> moveVisually (bidi_line [97, 1488, 49, 98]) 4 1 True = Some (Inr None)"
proof -
  let ?l = "bidi_line [97, 1488, 49, 98]"
  have l: "order_cache_ok ?l" "length (l_text ?l) = 4" by (simp_all add: bidi_line_def order_cache_new mkLine_def order_cache_ok_def Let_def)
  moreover have "at_visual_end ?l 4 1" by code_simp
  ultimately show ?thesis using moveVisually_stays_in_line [of ?l 2 "-1" True] moveVisually_stays_in_line [of ?l 4 1 True] by auto
qed

text \<open>
  By units, the result can be null inside the line: with two letters and an extending character of a right-to-left
  script, the cursor between the letters cannot be moved to the right.
\<close>

lemma cursor_stuck_before_extending:
  "moveVisually (bidi_line [97, 97, 1425]) 1 1 True = Some (Inr None)" "\<not> at_visual_end (bidi_line [97, 97, 1425]) 1 1"
  by code_simp+

text \<open>
  When a line starts with right-to-left text that ends in a number, its first section in visual order is the
  number, with level 2, and the level of the line direction is taken from it. In the text of a letter and a
  digit the cursor then moves nowhere: right from behind the letter, and left from the end.
\<close>

lemma cursor_stuck_behind_number:
  "moveVisually (bidi_line [1488, 49]) 1 1 True = Some (Inr (Some 1))" "moveVisually (bidi_line [1488, 49]) 2 (-1) True = Some (Inr (Some 2))"
  by code_simp+

text \<open>
  Rule W5 compares the type before a sequence of terminators with an exclamation mark instead of the digit 1.
  No character has that type, so terminators behind a number stay neutral.
\<close>

lemma terminator_behind_number: "rule_W5 None ''1%'' = ''1N''" "rule_W5 None ''%1'' = ''11''"
  by code_simp+

end
