(* ===== verification/LineContent.thy ===== *)
theory LineContent
  imports Highlight Bidi
begin

text \<open>
  Rendering the text of a line (\<^verbatim>\<open>src/js/codemirror/codemirror.js\<close>, section LINE DATA STRUCTURE): the tokens that a line
  is cut into by its styles and its marked spans, the nodes that are made for them, and the map from text
  positions to nodes. The nodes are the values of a datatype.
\<close>

section \<open>Definitions\<close>

subsection \<open>Styles\<close>

text \<open>\<^verbatim>\<open>style.replace(/\S+/g, "cm-$&")\<close>: each word gets a prefix. No style (\<^verbatim>\<open>null\<close>) is the empty string.\<close>

fun prefix_words :: "bool \<Rightarrow> jsstring \<Rightarrow> jsstring" where
  "prefix_words inWord [] = []"
| "prefix_words inWord (c # cs) =
     (if is_space c then c # prefix_words False cs
      else (if inWord then [] else js ''cm-'') @ c # prefix_words True cs)"

definition interpretTokenStyle :: "style \<Rightarrow> jsstring" where
  "interpretTokenStyle style =
     (case style of None \<Rightarrow> [] | Some s \<Rightarrow> if list_all is_space s then [] else prefix_words False s)"

subsection \<open>The tokens of a line\<close>

text \<open>The options of a marker that say how it looks; the empty string stands for an option that is not set.\<close>

record render =
  r_className :: jsstring
  r_startStyle :: jsstring
  r_endStyle :: jsstring
  r_title :: jsstring

text \<open>
  What \<open>insertLineContent\<close> does to the builder: it adds tokens (text, style, styles of the start and the end, title)
  and collapsed spans (size, marker, whether the widget is left out).
\<close>

datatype action = Token (tok_text: jsstring) jsstring jsstring jsstring jsstring | Collapse int nat bool

text \<open>The variables that are set from the spans at a position; no next change is \<^verbatim>\<open>Infinity\<close>.\<close>

record scan =
  sc_next :: "int option"
  sc_style :: jsstring
  sc_start :: jsstring
  sc_end :: jsstring
  sc_title :: jsstring
  sc_collapsed :: "span option"
  sc_bookmarks :: "nat list"

definition no_scan :: scan where
  "no_scan = \<lparr>sc_next = None, sc_style = [], sc_start = [], sc_end = [], sc_title = [], sc_collapsed = None, sc_bookmarks = []\<rparr>"

definition beyond :: "int option \<Rightarrow> int \<Rightarrow> bool" where
  "beyond next n \<longleftrightarrow> (case next of None \<Rightarrow> True | Some k \<Rightarrow> k > n)"

definition active :: "int \<Rightarrow> span \<Rightarrow> bool" where
  "active pos sp \<longleftrightarrow> (case sp_from sp of Some f \<Rightarrow> f | None \<Rightarrow> 0) \<le> pos \<and> beyond (sp_to sp) pos"

definition and_class :: "jsstring \<Rightarrow> bool \<Rightarrow> jsstring \<Rightarrow> jsstring" where
  "and_class cls b styles = (if cls \<noteq> [] \<and> b then styles @ js '' '' @ cls else styles)"

definition scan_active :: "(nat \<Rightarrow> render) \<Rightarrow> int \<Rightarrow> span \<Rightarrow> scan \<Rightarrow> scan" where
  "scan_active R pos sp sc =
     (let r = R (sp_marker sp);
          sc1 = (case sp_to sp of
                   Some t \<Rightarrow> if beyond (sc_next sc) t then sc\<lparr>sc_next := Some t, sc_end := []\<rparr> else sc
                 | None \<Rightarrow> sc)
      in sc1\<lparr>sc_style := and_class (r_className r) True (sc_style sc1),
             sc_start := and_class (r_startStyle r) (sp_from sp = Some pos) (sc_start sc1),
             sc_end := and_class (r_endStyle r) (sp_to sp \<noteq> None \<and> sp_to sp = sc_next sc1) (sc_end sc1),
             sc_title := (if sc_title sc1 = [] then r_title r else sc_title sc1)\<rparr>)"

definition scan_collapsed :: "(nat \<Rightarrow> marker) \<Rightarrow> ('st, 'x) doc_scheme \<Rightarrow> span \<Rightarrow> scan \<Rightarrow> doc_exn + scan" where
  "scan_collapsed M d sp sc =
     (if mk_collapsed (M (sp_marker sp))
      then (case sc_collapsed sc of
              None \<Rightarrow> Inr (sc\<lparr>sc_collapsed := Some sp\<rparr>)
            | Some c \<Rightarrow> rbind (compareCollapsedMarkers M d (sp_marker c) (sp_marker sp)) (\<lambda>k.
                Inr (if k < 0 then sc\<lparr>sc_collapsed := Some sp\<rparr> else sc)))
      else Inr sc)"

definition scan_span :: "(nat \<Rightarrow> marker) \<Rightarrow> (nat \<Rightarrow> render) \<Rightarrow> ('st, 'x) doc_scheme \<Rightarrow> int \<Rightarrow> span \<Rightarrow> scan \<Rightarrow> doc_exn + scan" where
  "scan_span M R d pos sp sc =
     rbind (if active pos sp then scan_collapsed M d sp (scan_active R pos sp sc)
            else Inr (case sp_from sp of
                        Some f \<Rightarrow> if f > pos \<and> beyond (sc_next sc) f then sc\<lparr>sc_next := Some f\<rparr> else sc
                      | None \<Rightarrow> sc)) (\<lambda>sc1.
       Inr (if mk_bookmark (M (sp_marker sp)) \<and> sp_from sp = Some pos \<and> mk_widget (M (sp_marker sp))
            then sc1\<lparr>sc_bookmarks := sc_bookmarks sc1 @ [sp_marker sp]\<rparr> else sc1))"

fun scan_spans :: "(nat \<Rightarrow> marker) \<Rightarrow> (nat \<Rightarrow> render) \<Rightarrow> ('st, 'x) doc_scheme \<Rightarrow> int \<Rightarrow> span list \<Rightarrow> scan \<Rightarrow> doc_exn + scan" where
  "scan_spans M R d pos [] sc = Inr sc"
| "scan_spans M R d pos (sp # sps) sc = rbind (scan_span M R d pos sp sc) (scan_spans M R d pos sps)"

text \<open>The collapsed span and the bookmarks at a position, and whether the rest of the line is collapsed.\<close>

definition scan_actions :: "int \<Rightarrow> int \<Rightarrow> scan \<Rightarrow> action list \<times> bool" where
  "scan_actions len pos sc =
     (case sc_collapsed sc of
        Some c \<Rightarrow>
          if (case sp_from c of Some f \<Rightarrow> f | None \<Rightarrow> 0) = pos
          then ([Collapse ((case sp_to c of None \<Rightarrow> len + 1 | Some t \<Rightarrow> t) - pos) (sp_marker c) (sp_from c = None)], sp_to c = None)
          else ([], False)
      | None \<Rightarrow> (map (\<lambda>m. Collapse 0 m False) (sc_bookmarks sc), False))"

text \<open>
  The rest of the state of \<open>insertLineContent\<close>: the position, the part of the current style's text that is not yet
  used, the current style, where the next style starts, and the styles to come.
\<close>

record content =
  i_pos :: int
  i_text :: jsstring
  i_style :: jsstring
  i_at :: nat
  i_styles :: "(nat \<times> style) list"
  i_scan :: scan

definition next_style :: "jsstring \<Rightarrow> content \<Rightarrow> content" where
  "next_style allText s =
     (case i_styles s of
        (e, st) # sts \<Rightarrow> s\<lparr>i_text := take (e - i_at s) (drop (i_at s) allText), i_at := e, i_style := interpretTokenStyle st, i_styles := sts\<rparr>
      | [] \<Rightarrow> s\<lparr>i_text := drop (i_at s) allText, i_at := 0, i_style := []\<rparr>)"

definition token_of :: "int \<Rightarrow> content \<Rightarrow> action list" where
  "token_of til s =
     (if sc_collapsed (i_scan s) = None
      then let tokenText = (if i_pos s + int (length (i_text s)) > til then take (nat (til - i_pos s)) (i_text s) else i_text s)
           in [Token tokenText (i_style s @ sc_style (i_scan s)) (sc_start (i_scan s))
                 (if Some (i_pos s + int (length tokenText)) = sc_next (i_scan s) then sc_end (i_scan s) else []) (sc_title (i_scan s))]
      else [])"

partial_function (option) text_loop :: "jsstring \<Rightarrow> int \<Rightarrow> content \<Rightarrow> action list \<Rightarrow> (content \<times> action list) option" where
  "text_loop allText til s acts =
     (if i_text s = [] then text_loop allText til (next_style allText s) acts
      else let e = i_pos s + int (length (i_text s)); acts' = acts @ token_of til s
           in if e \<ge> til then Some (s\<lparr>i_text := drop (nat (til - i_pos s)) (i_text s), i_pos := til\<rparr>, acts')
              else text_loop allText til (next_style allText (s\<lparr>i_pos := e, i_scan := (i_scan s)\<lparr>sc_start := []\<rparr>\<rparr>)) acts')"

declare text_loop.simps [code]

definition scan_step ::
  "(nat \<Rightarrow> marker) \<Rightarrow> (nat \<Rightarrow> render) \<Rightarrow> ('st, 'x) doc_scheme \<Rightarrow> 'st line \<Rightarrow> content \<Rightarrow> doc_exn + (content \<times> action list \<times> bool)" where
  "scan_step M R d l s =
     (if sc_next (i_scan s) = Some (i_pos s)
      then rbind (scan_spans M R d (i_pos s) (l_spans l) no_scan) (\<lambda>sc.
             let (acts, stop) = scan_actions (int (length (l_text l))) (i_pos s) sc in Inr (s\<lparr>i_scan := sc\<rparr>, acts, stop))
      else Inr (s, [], False))"

partial_function (option) content_loop ::
  "(nat \<Rightarrow> marker) \<Rightarrow> (nat \<Rightarrow> render) \<Rightarrow> ('st, 'x) doc_scheme \<Rightarrow> 'st line \<Rightarrow> content \<Rightarrow> action list \<Rightarrow> (doc_exn + action list) option" where
  "content_loop M R d l s acts =
     (case scan_step M R d l s of
        Inl e \<Rightarrow> Some (Inl e)
      | Inr (s1, acts1, stop) \<Rightarrow>
          if stop \<or> i_pos s1 \<ge> int (length (l_text l)) then Some (Inr (acts @ acts1))
          else (case text_loop (l_text l) (case sc_next (i_scan s1) of None \<Rightarrow> int (length (l_text l)) | Some n \<Rightarrow> min (int (length (l_text l))) n)
                       s1 (acts @ acts1) of
                  None \<Rightarrow> None
                | Some (s2, acts2) \<Rightarrow> content_loop M R d l s2 acts2))"

declare content_loop.simps [code]

fun style_tokens :: "jsstring \<Rightarrow> nat \<Rightarrow> (nat \<times> style) list \<Rightarrow> action list" where
  "style_tokens allText at [] = []"
| "style_tokens allText at ((e, st) # sts) =
     Token (take (e - at) (drop at allText)) (interpretTokenStyle st) [] [] [] # style_tokens allText e sts"

definition insertLineContent ::
  "(nat \<Rightarrow> marker) \<Rightarrow> (nat \<Rightarrow> render) \<Rightarrow> ('st, 'x) doc_scheme \<Rightarrow> 'st line \<Rightarrow> (nat \<times> style) list \<Rightarrow> action list comp" where
  "insertLineContent M R d l styles =
     (if l_spans l = [] then ret (style_tokens (l_text l) 0 styles)
      else content_loop M R d l \<lparr>i_pos = 0, i_text = [], i_style = [], i_at = 0, i_styles = styles, i_scan = no_scan\<lparr>sc_next := Some 0\<rparr>\<rparr> [])"

subsection \<open>Nodes\<close>

datatype node = TextNode jsstring | TabNode int | Placeholder jchar | Widget nat | ZeroWidth

text \<open>A node in the line, in a span with a class and a title when it has styles.\<close>

datatype element = Plain "node list" | Styled "node list" jsstring jsstring

record builder =
  b_content :: "element list"
  b_col :: int
  b_pos :: int
  b_map :: "(int \<times> int \<times> node) list"
  b_bgClass :: jsstring
  b_textClass :: jsstring

text \<open>
  The options of the editor and the properties of the browser that matter: the class of special characters, the
  width of a tab, old versions of Internet Explorer, whether runs of spaces are split, whether text from right to left is
  split, and the constructor \<^verbatim>\<open>RegExp\<close>.
\<close>

record view_options =
  vo_special :: "jchar \<Rightarrow> bool"
  vo_tabSize :: int
  vo_oldIE :: bool
  vo_splitSpaces :: bool
  vo_badBidi :: bool
  vo_regexp :: regexps

definition add_node :: "node \<Rightarrow> int \<Rightarrow> int \<Rightarrow> builder \<Rightarrow> builder" where
  "add_node n len width b =
     b\<lparr>b_map := b_map b @ [(b_pos b, b_pos b + len, n)], b_pos := b_pos b + len, b_col := b_col b + width\<rparr>"

text \<open>The loop of \<open>buildToken\<close> over the special characters in a text.\<close>

definition special_node :: "view_options \<Rightarrow> jchar \<Rightarrow> builder \<Rightarrow> node \<times> builder" where
  "special_node opts c b =
     (if c = tab then let width = vo_tabSize opts - b_col b mod vo_tabSize opts in (TabNode width, add_node (TabNode width) 1 width b)
      else (Placeholder c, add_node (Placeholder c) 1 1 b))"

function special_loop :: "view_options \<Rightarrow> jsstring \<Rightarrow> node list \<Rightarrow> builder \<Rightarrow> node list \<times> builder" where
  "special_loop opts txt nodes b =
     (let plain = takeWhile (\<lambda>c. \<not> vo_special opts c) txt;
          (nodes1, b1) = (if plain = [] then (nodes, b) else (nodes @ [TextNode plain], add_node (TextNode plain) (int (length plain)) (int (length plain)) b))
      in case drop (length plain) txt of
           [] \<Rightarrow> (nodes1, b1)
         | c # cs \<Rightarrow> let (n, b2) = special_node opts c b1 in special_loop opts cs (nodes1 @ [n]) b2)"
  by pat_completeness auto
termination
  by (relation "measure (\<lambda>(opts, txt, nodes, b). length txt)") (auto dest: arg_cong [of _ _ length])

declare special_loop.simps [simp del]

definition buildToken ::
  "view_options \<Rightarrow> builder \<Rightarrow> jsstring \<Rightarrow> jsstring \<Rightarrow> jsstring \<Rightarrow> jsstring \<Rightarrow> jsstring \<Rightarrow> builder" where
  "buildToken opts b txt style startStyle endStyle title =
     (if txt = [] then b
      else let (nodes, b1) =
                 (if list_all (\<lambda>c. \<not> vo_special opts c) txt
                  then ([TextNode txt], add_node (TextNode txt) (int (length txt)) (int (length txt)) b)
                  else special_loop opts txt [] b);
               mustWrap = (list_all (\<lambda>c. \<not> vo_special opts c) txt \<and> vo_oldIE opts)
           in b1\<lparr>b_content := b_content b1 @
                [if style \<noteq> [] \<or> startStyle \<noteq> [] \<or> endStyle \<noteq> [] \<or> mustWrap
                 then Styled nodes (style @ startStyle @ endStyle) title else Plain nodes]\<rparr>)"

text \<open>Runs of at least three spaces: every second one inside becomes a no-break space.\<close>

definition nbsp :: jchar where
  "nbsp = 160"

definition split :: "nat \<Rightarrow> jsstring" where
  "split n = js '' '' @ map (\<lambda>i. if i mod 2 = 1 then cc (CHR '' '') else nbsp) [0..<n - 2] @ js '' ''"

function split_spaces :: "jsstring \<Rightarrow> jsstring" where
  "split_spaces [] = []"
| "split_spaces (c # cs) =
     (if c = cc (CHR '' '')
      then let n = Suc (length (takeWhile (\<lambda>x. x = cc (CHR '' '')) cs))
           in (if n \<ge> 3 then split n else replicate n (cc (CHR '' ''))) @ split_spaces (dropWhile (\<lambda>x. x = cc (CHR '' '')) cs)
      else c # split_spaces cs)"
  by pat_completeness auto
termination by (relation "measure length") (auto simp: length_dropWhile_le le_imp_less_Suc)

declare split_spaces.simps [simp del]

definition buildTokenSplitSpaces ::
  "(builder \<Rightarrow> jsstring \<Rightarrow> jsstring \<Rightarrow> jsstring \<Rightarrow> jsstring \<Rightarrow> jsstring \<Rightarrow> builder) \<Rightarrow>
   builder \<Rightarrow> jsstring \<Rightarrow> jsstring \<Rightarrow> jsstring \<Rightarrow> jsstring \<Rightarrow> jsstring \<Rightarrow> builder" where
  "buildTokenSplitSpaces inner b txt style startStyle endStyle title = inner b (split_spaces txt) style startStyle endStyle title"

text \<open>Text from right to left is cut at the ends of the sections of the line. The loop over the sections leaves the last one when none fits.\<close>

fun find_part :: "bidi_span list \<Rightarrow> int \<Rightarrow> bidi_span option" where
  "find_part [] start = None"
| "find_part [part] start = Some part"
| "find_part (part # parts) start = (if bs_to part > start \<and> bs_from part \<le> start then Some part else find_part parts start)"

partial_function (option) bidi_token_loop ::
  "(builder \<Rightarrow> jsstring \<Rightarrow> jsstring \<Rightarrow> jsstring \<Rightarrow> jsstring \<Rightarrow> jsstring \<Rightarrow> builder) \<Rightarrow> bidi_span list \<Rightarrow> int \<Rightarrow> int \<Rightarrow>
   builder \<Rightarrow> jsstring \<Rightarrow> jsstring \<Rightarrow> jsstring \<Rightarrow> jsstring \<Rightarrow> jsstring \<Rightarrow> (doc_exn + builder) option" where
  "bidi_token_loop inner order start end_pos b txt style startStyle endStyle title =
     (case find_part order start of
        None \<Rightarrow> Some (Inl TypeErr)
      | Some part \<Rightarrow>
          if bs_to part \<ge> end_pos then Some (Inr (inner b txt style startStyle endStyle title))
          else bidi_token_loop inner order (bs_to part) end_pos (inner b (js_slice txt 0 (bs_to part - start)) style startStyle [] title)
                 (js_slice_from txt (bs_to part - start)) style [] endStyle title)"

declare bidi_token_loop.simps [code]

definition buildTokenBadBidi ::
  "(builder \<Rightarrow> jsstring \<Rightarrow> jsstring \<Rightarrow> jsstring \<Rightarrow> jsstring \<Rightarrow> jsstring \<Rightarrow> builder) \<Rightarrow> bidi_span list \<Rightarrow>
   builder \<Rightarrow> jsstring \<Rightarrow> jsstring \<Rightarrow> jsstring \<Rightarrow> jsstring \<Rightarrow> jsstring \<Rightarrow> builder comp" where
  "buildTokenBadBidi inner order b txt style startStyle endStyle title =
     bidi_token_loop inner order (b_pos b) (b_pos b + int (length txt)) b txt
       (if style \<noteq> [] then style @ js '' cm-force-border'' else js ''cm-force-border'') startStyle endStyle title"

definition buildCollapsedSpan :: "(nat \<Rightarrow> marker) \<Rightarrow> builder \<Rightarrow> int \<Rightarrow> nat \<Rightarrow> bool \<Rightarrow> builder" where
  "buildCollapsedSpan M b n m ignoreWidget =
     (if \<not> ignoreWidget \<and> mk_widget (M m)
      then b\<lparr>b_map := b_map b @ [(b_pos b, b_pos b + n, Widget m)], b_content := b_content b @ [Plain [Widget m]], b_pos := b_pos b + n\<rparr>
      else b\<lparr>b_pos := b_pos b + n\<rparr>)"

text \<open>The function that adds a token, as \<open>buildLineContent\<close> chooses it.\<close>

definition addToken ::
  "view_options \<Rightarrow> bidi_span list option \<Rightarrow> builder \<Rightarrow> jsstring \<Rightarrow> jsstring \<Rightarrow> jsstring \<Rightarrow> jsstring \<Rightarrow> jsstring \<Rightarrow> builder comp" where
  "addToken opts order =
     (let add = (if vo_splitSpaces opts then buildTokenSplitSpaces (buildToken opts) else buildToken opts)
      in case order of
           Some parts \<Rightarrow> if vo_badBidi opts then buildTokenBadBidi add parts else (\<lambda>b txt style startStyle endStyle title. ret (add b txt style startStyle endStyle title))
         | None \<Rightarrow> (\<lambda>b txt style startStyle endStyle title. ret (add b txt style startStyle endStyle title)))"

fun run_actions :: "view_options \<Rightarrow> (nat \<Rightarrow> marker) \<Rightarrow> bidi_span list option \<Rightarrow> action list \<Rightarrow> builder \<Rightarrow> builder comp" where
  "run_actions opts M order [] b = ret b"
| "run_actions opts M order (Token txt style startStyle endStyle title # acts) b =
     pbind (addToken opts order b txt style startStyle endStyle title) (run_actions opts M order acts)"
| "run_actions opts M order (Collapse n m ignoreWidget # acts) b = run_actions opts M order acts (buildCollapsedSpan M b n m ignoreWidget)"

subsection \<open>A visual line\<close>

text \<open>
  Names of classes: \<open>classTest\<close> makes a regular expression from a class, with word boundaries around it. \<open>class_word\<close> is
  its meaning for a class without special characters.
\<close>

definition word_at :: "jsstring \<Rightarrow> nat \<Rightarrow> bool" where
  "word_at s i \<longleftrightarrow> i < length s \<and> is_word (s ! i)"

definition boundary :: "jsstring \<Rightarrow> nat \<Rightarrow> bool" where
  "boundary s i \<longleftrightarrow> (0 < i \<and> word_at s (i - 1)) \<noteq> word_at s i"

definition class_word :: "jsstring \<Rightarrow> jsstring \<Rightarrow> bool" where
  "class_word cls s \<longleftrightarrow>
     list_ex (\<lambda>i. boundary s i \<and> take (length cls) (drop i s) = cls \<and> boundary s (i + length cls)) [0..<Suc (length s)]"

definition classTest :: "regexps \<Rightarrow> jsstring \<Rightarrow> (jsstring \<Rightarrow> bool) option" where
  "classTest rx cls = regexp_around rx (0x5C # js ''b'') cls (0x5C # js ''b'' @ 0x5C # js ''s*'') (class_word cls)"

fun split_blanks :: "jsstring \<Rightarrow> jsstring \<Rightarrow> jsstring list" where
  "split_blanks w [] = [w]"
| "split_blanks w (c # cs) = (if c = cc (CHR '' '') then w # split_blanks [] cs else split_blanks (w @ [c]) cs)"

fun join_words :: "regexps \<Rightarrow> jsstring list \<Rightarrow> jsstring \<Rightarrow> doc_exn + jsstring" where
  "join_words rx [] b = Inr b"
| "join_words rx (w # ws) b =
     (if w = [] then join_words rx ws b
      else (case classTest rx w of
              None \<Rightarrow> Inl SyntaxErr
            | Some test \<Rightarrow> join_words rx ws (if test b then b else b @ js '' '' @ w)))"

definition joinClasses :: "regexps \<Rightarrow> jsstring \<Rightarrow> jsstring \<Rightarrow> doc_exn + jsstring" where
  "joinClasses rx a b = join_words rx (split_blanks [] a) b"

definition join_set :: "regexps \<Rightarrow> jsstring option \<Rightarrow> jsstring \<Rightarrow> doc_exn + jsstring" where
  "join_set rx cls b = (case cls of Some (c # cs) \<Rightarrow> joinClasses rx (c # cs) b | _ \<Rightarrow> Inr b)"

definition join_line_classes :: "regexps \<Rightarrow> line_classes option \<Rightarrow> builder \<Rightarrow> doc_exn + builder" where
  "join_line_classes rx classes b =
     (case classes of
        Some c \<Rightarrow>
          rbind (join_set rx (bgClass c) (b_bgClass b)) (\<lambda>bg.
          rbind (join_set rx (textClass c) (b_textClass b)) (\<lambda>cls. Inr (b\<lparr>b_bgClass := bg, b_textClass := cls\<rparr>)))
      | None \<Rightarrow> Inr b)"

text \<open>One line of a visual line, with the styles and the classes that highlighting gives for it.\<close>

definition line_content ::
  "view_options \<Rightarrow> (nat \<Rightarrow> marker) \<Rightarrow> (nat \<Rightarrow> render) \<Rightarrow> ('st, 'x) doc_scheme \<Rightarrow> 'st line \<Rightarrow>
   (nat \<times> style) list \<Rightarrow> line_classes option \<Rightarrow> builder \<Rightarrow> builder comp" where
  "line_content opts M R d l styles classes b =
     pbind (insertLineContent M R d l styles) (\<lambda>acts.
     pbind (run_actions opts M (order_of l) acts (b\<lparr>b_pos := 0, b_map := []\<rparr>)) (\<lambda>b1.
     pbind (Some (join_line_classes (vo_regexp opts) classes b1)) (\<lambda>b2.
       ret (if b_map b2 = [] then b2\<lparr>b_map := [(0, 0, ZeroWidth)], b_content := b_content b2 @ [Plain [ZeroWidth]]\<rparr> else b2))))"

text \<open>All lines of a visual line, with the maps that are stored for them.\<close>

fun buildLineContent ::
  "view_options \<Rightarrow> (nat \<Rightarrow> marker) \<Rightarrow> (nat \<Rightarrow> render) \<Rightarrow> ('st, 'x) doc_scheme \<Rightarrow> ('st line \<Rightarrow> (nat \<times> style) list) \<Rightarrow>
   ('st line \<Rightarrow> line_classes option) \<Rightarrow> 'st line list \<Rightarrow> builder \<Rightarrow> (builder \<times> (int \<times> int \<times> node) list list) comp" where
  "buildLineContent opts M R d styles classes [] b = ret (b, [])"
| "buildLineContent opts M R d styles classes (l # ls) b =
     pbind (line_content opts M R d l (styles l) (classes l) b) (\<lambda>b1.
     pbind (buildLineContent opts M R d styles classes ls b1) (\<lambda>(b2, maps). ret (b2, b_map b1 # maps)))"

section \<open>The visible text of a line\<close>

text \<open>A character is collapsed when a collapsed span covers it.\<close>

definition collapsed_at :: "(nat \<Rightarrow> marker) \<Rightarrow> span list \<Rightarrow> int \<Rightarrow> bool" where
  "collapsed_at M sps p \<longleftrightarrow> (\<exists>sp \<in> set sps. mk_collapsed (M (sp_marker sp)) \<and> active p sp)"

definition visible :: "(nat \<Rightarrow> marker) \<Rightarrow> span list \<Rightarrow> jsstring \<Rightarrow> nat \<Rightarrow> nat \<Rightarrow> jsstring" where
  "visible M sps txt a b = map ((!) txt) (filter (\<lambda>p. \<not> collapsed_at M sps (int p)) [a..<b])"

fun act_text :: "action \<Rightarrow> jsstring" where
  "act_text (Token txt _ _ _ _) = txt"
| "act_text (Collapse _ _ _) = []"

definition acts_text :: "action list \<Rightarrow> jsstring" where
  "acts_text acts = concat (map act_text acts)"

lemma acts_text_simps [simp]: "acts_text [] = []" "acts_text (a # as) = act_text a @ acts_text as" "acts_text (as @ bs) = acts_text as @ acts_text bs"
  by (simp_all add: acts_text_def)

lemma visible_split: "a \<le> b \<Longrightarrow> b \<le> c \<Longrightarrow> visible M sps txt a c = visible M sps txt a b @ visible M sps txt b c"
proof -
  assume "a \<le> b" "b \<le> c"
  then have "[a..<c] = [a..<b] @ [b..<c]" using upt_add_eq_append [of a b "c - b"] by simp
  then show ?thesis by (simp add: visible_def)
qed

lemma slice_nth: "a \<le> b \<Longrightarrow> b \<le> length txt \<Longrightarrow> map ((!) txt) [a..<b] = take (b - a) (drop a txt)"
  by (rule nth_equalityI) auto

lemma visible_all: "a \<le> b \<Longrightarrow> b \<le> length txt \<Longrightarrow> (\<And>p. a \<le> p \<Longrightarrow> p < b \<Longrightarrow> \<not> collapsed_at M sps (int p)) \<Longrightarrow>
    visible M sps txt a b = take (b - a) (drop a txt)"
  unfolding visible_def by (subst filter_True) (auto simp: slice_nth)

lemma visible_none: "(\<And>p. a \<le> p \<Longrightarrow> p < b \<Longrightarrow> collapsed_at M sps (int p)) \<Longrightarrow> visible M sps txt a b = []"
  by (simp add: visible_def)

section \<open>Scanning the spans\<close>

definition scan_inv :: "(nat \<Rightarrow> marker) \<Rightarrow> int \<Rightarrow> span set \<Rightarrow> scan \<Rightarrow> bool" where
  "scan_inv M pos S sc \<longleftrightarrow>
     beyond (sc_next sc) pos \<and>
     (\<forall>sp \<in> S. (active pos sp \<longrightarrow> (\<forall>t. sp_to sp = Some t \<longrightarrow> \<not> beyond (sc_next sc) t)) \<and>
        (\<forall>f. sp_from sp = Some f \<and> pos < f \<longrightarrow> \<not> beyond (sc_next sc) f)) \<and>
     (sc_collapsed sc = None \<longrightarrow> \<not> (\<exists>sp \<in> S. mk_collapsed (M (sp_marker sp)) \<and> active pos sp)) \<and>
     (\<forall>c. sc_collapsed sc = Some c \<longrightarrow> c \<in> S \<and> mk_collapsed (M (sp_marker c)) \<and> active pos c)"

lemma scan_active_simps:
  "sc_collapsed (scan_active R pos sp sc) = sc_collapsed sc"
  "sc_next (scan_active R pos sp sc) =
    (case sp_to sp of Some t \<Rightarrow> if beyond (sc_next sc) t then Some t else sc_next sc | None \<Rightarrow> sc_next sc)"
  by (simp_all add: scan_active_def Let_def split: option.split)

text \<open>Two collapsed spans that are active at one position can be compared.\<close>

definition comparable :: "(nat \<Rightarrow> marker) \<Rightarrow> ('st, 'x) doc_scheme \<Rightarrow> int \<Rightarrow> span set \<Rightarrow> bool" where
  "comparable M d pos S \<longleftrightarrow>
     (\<forall>a \<in> S. \<forall>b \<in> S. mk_collapsed (M (sp_marker a)) \<and> active pos a \<and> mk_collapsed (M (sp_marker b)) \<and> active pos b \<longrightarrow>
        (\<exists>k. compareCollapsedMarkers M d (sp_marker a) (sp_marker b) = Inr k))"

lemma scan_span_active:
  assumes inv: "scan_inv M pos S sc" and c: "comparable M d pos (insert sp S)" and a: "active pos sp"
  shows "\<exists>sc'. scan_collapsed M d sp (scan_active R pos sp sc) = Inr sc' \<and> scan_inv M pos (insert sp S) sc'"
proof -
  let ?sc = "scan_active R pos sp sc"
  have pos: "\<forall>t. sp_to sp = Some t \<longrightarrow> pos < t" using a by (auto simp: active_def beyond_def)
  have nxt: "beyond (sc_next ?sc) pos" "\<And>n. \<not> beyond (sc_next sc) n \<Longrightarrow> \<not> beyond (sc_next ?sc) n" "\<forall>t. sp_to sp = Some t \<longrightarrow> \<not> beyond (sc_next ?sc) t"
    using inv pos by (auto simp: scan_inv_def scan_active_simps beyond_def split: option.splits if_splits)
  have from_sp: "\<not> (sp_from sp = Some f \<and> pos < f)" for f using a by (auto simp: active_def)
  have inv': "scan_inv M pos (insert sp S) (?sc\<lparr>sc_collapsed := x\<rparr>)"
    if "x = None \<longrightarrow> \<not> mk_collapsed (M (sp_marker sp)) \<and> sc_collapsed sc = None" "\<forall>y. x = Some y \<longrightarrow> (y = sp \<and> mk_collapsed (M (sp_marker sp))) \<or> sc_collapsed sc = Some y" for x
    using inv nxt from_sp a that unfolding scan_inv_def by auto
  show ?thesis
  proof (cases "mk_collapsed (M (sp_marker sp))")
    case False
    then have "scan_collapsed M d sp ?sc = Inr (?sc\<lparr>sc_collapsed := sc_collapsed sc\<rparr>)"
      using scan_active_simps(1) [of R pos sp sc] by (simp add: scan_collapsed_def)
    then show ?thesis using inv' [of "sc_collapsed sc"] False by auto
  next
    case True
    show ?thesis
    proof (cases "sc_collapsed sc")
      case None
      then show ?thesis using True inv' [of "Some sp"] by (simp add: scan_collapsed_def scan_active_simps)
    next
      case (Some y)
      then have "y \<in> S" "mk_collapsed (M (sp_marker y))" "active pos y" using inv by (auto simp: scan_inv_def)
      then obtain k where k: "compareCollapsedMarkers M d (sp_marker y) (sp_marker sp) = Inr k"
        using c True a unfolding comparable_def by blast
      have same: "?sc\<lparr>sc_collapsed := Some y\<rparr> = ?sc" using scan_active_simps(1) [of R pos sp sc] Some by simp
      show ?thesis using True Some k inv' [of "Some sp"] inv' [of "Some y"] same
        by (cases "k < 0") (simp_all add: scan_collapsed_def scan_active_simps)
    qed
  qed
qed

lemma scan_span_ok:
  assumes inv: "scan_inv M pos S sc" and c: "comparable M d pos (insert sp S)"
  shows "\<exists>sc'. scan_span M R d pos sp sc = Inr sc' \<and> scan_inv M pos (insert sp S) sc'"
proof -
  have "\<exists>sc'. (if active pos sp then scan_collapsed M d sp (scan_active R pos sp sc)
            else Inr (case sp_from sp of
                        Some f \<Rightarrow> if f > pos \<and> beyond (sc_next sc) f then sc\<lparr>sc_next := Some f\<rparr> else sc
                      | None \<Rightarrow> sc)) = Inr sc' \<and> scan_inv M pos (insert sp S) sc'"
  proof (cases "active pos sp")
    case True
    then show ?thesis using scan_span_active [OF inv c] by simp
  next
    case False
    then show ?thesis using inv by (auto simp: scan_inv_def beyond_def split: option.splits)
  qed
  then obtain sc' where sc': "(if active pos sp then scan_collapsed M d sp (scan_active R pos sp sc)
            else Inr (case sp_from sp of
                        Some f \<Rightarrow> if f > pos \<and> beyond (sc_next sc) f then sc\<lparr>sc_next := Some f\<rparr> else sc
                      | None \<Rightarrow> sc)) = Inr sc'" "scan_inv M pos (insert sp S) sc'" by blast
  have "scan_inv M pos (insert sp S) (sc'\<lparr>sc_bookmarks := x\<rparr>)" for x using sc'(2) by (simp add: scan_inv_def)
  then show ?thesis using sc' unfolding scan_span_def by simp
qed

lemma scan_spans_ok:
  "scan_inv M pos S sc \<Longrightarrow> comparable M d pos (S \<union> set sps) \<Longrightarrow>
    \<exists>sc'. scan_spans M R d pos sps sc = Inr sc' \<and> scan_inv M pos (S \<union> set sps) sc'"
proof (induction sps arbitrary: S sc)
  case (Cons sp sps)
  have "comparable M d pos (insert sp S)" using Cons.prems(2) by (auto simp: comparable_def)
  from scan_span_ok [OF Cons.prems(1) this, of R] obtain sc1 where sc1: "scan_span M R d pos sp sc = Inr sc1" "scan_inv M pos (insert sp S) sc1" by blast
  from Cons.IH [OF sc1(2)] Cons.prems(2) show ?case by (simp add: sc1(1))
qed simp

lemma scan_from_start:
  assumes "comparable M d pos (set sps)"
  obtains sc where "scan_spans M R d pos sps no_scan = Inr sc" "scan_inv M pos (set sps) sc"
  using scan_spans_ok [of M pos "{}" no_scan d sps R] assms by (auto simp: scan_inv_def no_scan_def beyond_def)

text \<open>Up to the next change the same spans are active.\<close>

lemma active_until_change:
  assumes inv: "scan_inv M pos (set sps) sc" and sp: "sp \<in> set sps" and p: "0 \<le> pos" "pos \<le> p" "beyond (sc_next sc) p"
  shows "active p sp \<longleftrightarrow> active pos sp"
proof -
  have a: "active pos sp \<Longrightarrow> sp_to sp = Some t \<Longrightarrow> \<not> beyond (sc_next sc) t" and b: "sp_from sp = Some f \<Longrightarrow> pos < f \<Longrightarrow> \<not> beyond (sc_next sc) f" for t f
    using inv sp by (auto simp: scan_inv_def)
  have mono: "beyond (sc_next sc) q" if "q \<le> p" for q using p(3) that by (auto simp: beyond_def split: option.splits)
  show ?thesis
  proof
    assume act: "active p sp"
    then have "\<not> pos < f" if "sp_from sp = Some f" for f using that b [OF that] mono by (auto simp: active_def)
    then show "active pos sp" using act p by (auto simp: active_def beyond_def split: option.splits)
  next
    assume act: "active pos sp"
    then have "p < t" if "sp_to sp = Some t" for t using a [OF act that] mono [of t] by fastforce
    then show "active p sp" using act p by (auto simp: active_def beyond_def split: option.splits)
  qed
qed

lemma collapsed_until_change:
  assumes inv: "scan_inv M pos (set sps) sc" and p: "0 \<le> pos" "pos \<le> p" "beyond (sc_next sc) p"
  shows "collapsed_at M sps p \<longleftrightarrow> sc_collapsed sc \<noteq> None"
  using active_until_change [OF inv _ p] inv unfolding collapsed_at_def scan_inv_def by blast

section \<open>The loops\<close>

definition text_inv :: "jsstring \<Rightarrow> content \<Rightarrow> bool" where
  "text_inv txt s \<longleftrightarrow>
     0 \<le> i_pos s \<and> nat (i_pos s) \<le> i_at s \<and> i_text s = take (i_at s - nat (i_pos s)) (drop (nat (i_pos s)) txt) \<and>
     tiling (i_at s) (i_styles s) (length txt)"

definition is_token :: "action \<Rightarrow> bool" where
  "is_token a \<longleftrightarrow> (case a of Token t _ _ _ _ \<Rightarrow> t \<noteq> [] | Collapse _ _ _ \<Rightarrow> False)"

lemma text_inv_length: "text_inv txt s \<Longrightarrow> i_pos s + int (length (i_text s)) = int (i_at s)"
  using tiling_le [of "i_at s" "i_styles s" "length txt"] by (auto simp: text_inv_def)

lemma next_style_ok:
  assumes "text_inv txt s" and "i_at s < length txt" and "nat (i_pos s') = i_at s" "0 \<le> i_pos s'" and "i_styles s' = i_styles s" "i_at s' = i_at s"
  shows "text_inv txt (next_style txt s')" "length (i_styles (next_style txt s')) < length (i_styles s)" "i_pos (next_style txt s') = i_pos s'"
    "i_scan (next_style txt s') = i_scan s'"
  using assms by (cases "i_styles s"; force simp: text_inv_def next_style_def)+

lemma token_of_ok:
  assumes "i_text s \<noteq> []" and "i_pos s < til"
  shows "acts_text (token_of til s) = (if sc_collapsed (i_scan s) = None then take (nat (til - i_pos s)) (i_text s) else [])"
    "\<forall>a \<in> set (token_of til s). is_token a"
  using assms by (auto simp: token_of_def is_token_def Let_def)

lemma text_loop_ok:
  "text_inv txt s \<Longrightarrow> i_pos s < til \<Longrightarrow> til \<le> int (length txt) \<Longrightarrow>
    \<exists>s' acts'. text_loop txt til s acts = Some (s', acts @ acts') \<and> i_pos s' = til \<and> text_inv txt s' \<and> sc_next (i_scan s') = sc_next (i_scan s) \<and>
      (\<forall>a \<in> set acts'. is_token a) \<and>
      acts_text acts' = (if sc_collapsed (i_scan s) = None then take (nat (til - i_pos s)) (drop (nat (i_pos s)) txt) else [])"
proof (induction "length (i_styles s)" arbitrary: s acts rule: less_induct)
  case less
  note inv = less.prems(1)
  have at: "i_pos s + int (length (i_text s)) = int (i_at s)" by (rule text_inv_length [OF inv])
  have pos: "0 \<le> i_pos s" and ct: "i_text s = take (i_at s - nat (i_pos s)) (drop (nat (i_pos s)) txt)" using inv by (simp_all add: text_inv_def)
  show ?case
  proof (cases "i_text s = []")
    case True
    then have lt: "i_at s < length txt" "nat (i_pos s) = i_at s" using at less.prems(2,3) by simp_all
    note ns = next_style_ok [OF inv lt pos refl refl]
    have lt': "i_pos (next_style txt s) < til" using ns(3) less.prems(2) by simp
    have step: "text_loop txt til s acts = text_loop txt til (next_style txt s) acts" using True by (subst text_loop.simps) simp
    from less.hyps [OF ns(2) ns(1) lt' less.prems(3), of acts] show ?thesis unfolding ns(3,4) step .
  next
    case False
    define k where "k = nat (til - i_pos s)"
    note tok = token_of_ok [OF False less.prems(2)]
    show ?thesis
    proof (cases "i_pos s + int (length (i_text s)) \<ge> til")
      case True
      let ?s = "s\<lparr>i_text := drop k (i_text s), i_pos := til\<rparr>"
      have le: "nat til \<le> i_at s" "k = nat til - nat (i_pos s)" using True at less.prems(2) pos by (simp_all add: k_def)
      have "drop k (i_text s) = take (i_at s - nat til) (drop (nat til) txt)" using le less.prems(2) pos by (simp add: ct drop_take)
      then have "text_inv txt ?s" using inv le less.prems(2) pos by (simp add: text_inv_def)
      moreover have "take k (i_text s) = take k (drop (nat (i_pos s)) txt)" using le by (simp add: ct min_absorb1)
      moreover have "text_loop txt til s acts = Some (?s, acts @ token_of til s)" using False True by (subst text_loop.simps) (simp add: k_def)
      ultimately show ?thesis using tok by (simp add: k_def)
    next
      case False
      let ?e = "i_pos s + int (length (i_text s))"
      let ?s = "s\<lparr>i_pos := ?e, i_scan := (i_scan s)\<lparr>sc_start := []\<rparr>\<rparr>"
      have lt: "i_at s < length txt" "nat (i_pos ?s) = i_at s" "0 \<le> i_pos ?s" using False at less.prems(3) pos by simp_all
      have same: "i_styles ?s = i_styles s" "i_at ?s = i_at s" by simp_all
      note ns = next_style_ok [OF inv lt same]
      have n: "i_pos (next_style txt ?s) = ?e" "sc_next (i_scan (next_style txt ?s)) = sc_next (i_scan s)"
        "sc_collapsed (i_scan (next_style txt ?s)) = sc_collapsed (i_scan s)" using ns(3,4) by simp_all
      have "\<exists>s' acts'. text_loop txt til (next_style txt ?s) (acts @ token_of til s) = Some (s', (acts @ token_of til s) @ acts') \<and> i_pos s' = til \<and>
        text_inv txt s' \<and> sc_next (i_scan s') = sc_next (i_scan (next_style txt ?s)) \<and> (\<forall>a \<in> set acts'. is_token a) \<and>
        acts_text acts' = (if sc_collapsed (i_scan (next_style txt ?s)) = None then take (nat (til - ?e)) (drop (nat ?e) txt) else [])"
        using less.hyps [OF ns(2) ns(1) _ less.prems(3), of "acts @ token_of til s", unfolded n(1)] False by (simp only: not_le)
      then obtain s' acts' where s': "text_loop txt til (next_style txt ?s) (acts @ token_of til s) = Some (s', (acts @ token_of til s) @ acts')" "i_pos s' = til"
        "text_inv txt s'" "sc_next (i_scan s') = sc_next (i_scan s)" "\<forall>a \<in> set acts'. is_token a"
        "acts_text acts' = (if sc_collapsed (i_scan s) = None then take (nat (til - ?e)) (drop (nat ?e) txt) else [])"
        unfolding n(2,3) by (elim exE conjE) (rule that; assumption)
      have "take k (i_text s) @ take (nat (til - ?e)) (drop (nat ?e) txt) = take k (drop (nat (i_pos s)) txt)"
      proof -
        have "i_text s = take (length (i_text s)) (drop (nat (i_pos s)) txt)" using ct at pos by simp
        moreover have "k = length (i_text s) + nat (til - ?e)" "nat ?e = length (i_text s) + nat (i_pos s)" using False pos by (simp_all add: k_def)
        ultimately show ?thesis by (simp add: take_add)
      qed
      moreover have "text_loop txt til s acts = Some (s', (acts @ token_of til s) @ acts')"
        using \<open>i_text s \<noteq> []\<close> False s'(1) by (subst text_loop.simps) simp
      ultimately show ?thesis using s' tok by (intro exI [of _ s'] exI [of _ "token_of til s @ acts'"]) (auto simp: k_def)
    qed
  qed
qed

lemma scan_actions_ok:
  assumes inv: "scan_inv M pos (set sps) sc" and "0 \<le> pos" and a: "scan_actions len pos sc = (acts, stop)"
  shows "acts_text acts = []" "stop \<Longrightarrow> pos \<le> p \<Longrightarrow> collapsed_at M sps p"
proof -
  show "acts_text acts = []" using a by (auto simp: scan_actions_def acts_text_def split: option.splits if_splits)
  assume stop "pos \<le> p"
  then obtain c where c: "sc_collapsed sc = Some c" "sp_to c = None" "(case sp_from c of Some f \<Rightarrow> f | None \<Rightarrow> 0) = pos"
    using a by (auto simp: scan_actions_def split: option.splits if_splits)
  then have "c \<in> set sps" "mk_collapsed (M (sp_marker c))" using inv by (auto simp: scan_inv_def)
  moreover have "active p c" using c \<open>pos \<le> p\<close> by (simp add: active_def beyond_def)
  ultimately show "collapsed_at M sps p" by (auto simp: collapsed_at_def)
qed

text \<open>All actions add nothing but tokens, when no span of the line is collapsed, except for widgets of no size.\<close>

definition tame :: "(nat \<Rightarrow> marker) \<Rightarrow> span list \<Rightarrow> action list \<Rightarrow> bool" where
  "tame M sps acts \<longleftrightarrow>
     (\<forall>a \<in> set acts. case a of
        Token t _ _ _ _ \<Rightarrow> t \<noteq> [] | Collapse n _ _ \<Rightarrow> (\<forall>sp \<in> set sps. \<not> mk_collapsed (M (sp_marker sp))) \<longrightarrow> n = 0)"

lemma tame_append [simp]: "tame M sps (as @ bs) \<longleftrightarrow> tame M sps as \<and> tame M sps bs" "tame M sps []"
  by (auto simp: tame_def)

lemma scan_actions_tame:
  assumes "scan_inv M pos (set sps) sc" and "scan_actions len pos sc = (acts, stop)"
  shows "tame M sps acts"
  using assms by (auto simp: scan_actions_def tame_def scan_inv_def split: option.splits if_splits)

lemma content_loop_ok:
  fixes d :: "('st, 'x) doc_scheme"
  assumes cmp: "\<And>pos. comparable M d pos (set (l_spans l))"
  shows "text_inv (l_text l) s \<Longrightarrow> i_pos s \<le> int (length (l_text l)) \<Longrightarrow> sc_next (i_scan s) = Some (i_pos s) \<or> i_pos s = int (length (l_text l)) \<Longrightarrow>
    \<exists>acts'. content_loop M R d l s acts = Some (Inr (acts @ acts')) \<and> tame M (l_spans l) acts' \<and>
      acts_text acts' = visible M (l_spans l) (l_text l) (nat (i_pos s)) (length (l_text l))"
proof (induction "nat (int (length (l_text l)) - i_pos s)" arbitrary: s acts rule: less_induct)
  case less
  let ?txt = "l_text l" and ?len = "int (length (l_text l))" and ?sps = "l_spans l"
  have pos: "0 \<le> i_pos s" using less.prems(1) by (simp add: text_inv_def)
  show ?case
  proof (cases "sc_next (i_scan s) = Some (i_pos s)")
    case False
    then have "i_pos s = ?len" using less.prems(3) by simp
    then show ?thesis using False by (subst content_loop.simps) (simp add: scan_step_def visible_def)
  next
    case True
    obtain sc where sc: "scan_spans M R d (i_pos s) ?sps no_scan = Inr sc" "scan_inv M (i_pos s) (set ?sps) sc"
      by (rule scan_from_start [OF cmp])
    obtain acts1 stop where a: "scan_actions ?len (i_pos s) sc = (acts1, stop)" by (meson surj_pair)
    define s1 where "s1 = s\<lparr>i_scan := sc\<rparr>"
    have step: "scan_step M R d l s = Inr (s1, acts1, stop)" using True sc(1) a by (simp add: scan_step_def s1_def)
    note act = scan_actions_ok [OF sc(2) pos a] scan_actions_tame [OF sc(2) a]
    show ?thesis
    proof (cases "stop \<or> i_pos s \<ge> ?len")
      case True
      have "visible M ?sps ?txt (nat (i_pos s)) (length ?txt) = []"
      proof (rule visible_none)
        fix p assume p: "nat (i_pos s) \<le> p" "p < length ?txt"
        then have stop using True by auto
        then show "collapsed_at M ?sps (int p)" using act(2) p(1) by simp
      qed
      moreover have "content_loop M R d l s acts = Some (Inr (acts @ acts1))" using step True by (subst content_loop.simps) (simp add: s1_def)
      ultimately show ?thesis using act(1,3) by auto
    next
      case False
      define til where "til = (case sc_next sc of None \<Rightarrow> ?len | Some n \<Rightarrow> min ?len n)"
      have til: "i_pos s < til" "til \<le> ?len" "\<And>p. p < til \<Longrightarrow> beyond (sc_next sc) p" "sc_next sc = Some til \<or> til = ?len"
        using False sc(2) by (auto simp: til_def scan_inv_def beyond_def min_def split: option.splits if_splits)
      have inv1: "text_inv ?txt s1" using less.prems(1) by (simp add: s1_def text_inv_def)
      obtain s2 acts2 where s2: "text_loop ?txt til s1 (acts @ acts1) = Some (s2, (acts @ acts1) @ acts2)" "i_pos s2 = til" "text_inv ?txt s2"
        "sc_next (i_scan s2) = sc_next sc" "\<forall>a \<in> set acts2. is_token a"
        "acts_text acts2 = (if sc_collapsed sc = None then take (nat (til - i_pos s)) (drop (nat (i_pos s)) ?txt) else [])"
        using text_loop_ok [OF inv1, of til "acts @ acts1"] til(1,2) by (auto simp: s1_def)
      have vis: "acts_text acts2 = visible M ?sps ?txt (nat (i_pos s)) (nat til)"
      proof -
        have c: "collapsed_at M ?sps (int p) \<longleftrightarrow> sc_collapsed sc \<noteq> None" if "nat (i_pos s) \<le> p" "p < nat til" for p
          using that til(3) [of "int p"] by (intro collapsed_until_change [OF sc(2) pos]) auto
        have n: "nat til - nat (i_pos s) = nat (til - i_pos s)" "nat (i_pos s) \<le> nat til" "nat til \<le> length ?txt" using pos til(1,2) by auto
        show ?thesis
        proof (cases "sc_collapsed sc = None")
          case True
          then show ?thesis using visible_all [of "nat (i_pos s)" "nat til" ?txt M ?sps] c n s2(6) by simp
        next
          case False
          then show ?thesis using visible_none [of "nat (i_pos s)" "nat til" M ?sps ?txt] c s2(6) by auto
        qed
      qed
      have "nat (?len - i_pos s2) < nat (?len - i_pos s)" using til(1,2) s2(2) by simp
      from less.hyps [OF this s2(3), of "(acts @ acts1) @ acts2"] til(2,4) s2(2,4) obtain acts3 where
        a3: "content_loop M R d l s2 ((acts @ acts1) @ acts2) = Some (Inr (((acts @ acts1) @ acts2) @ acts3))" "tame M ?sps acts3"
          "acts_text acts3 = visible M ?sps ?txt (nat til) (length ?txt)" by auto
      have "content_loop M R d l s acts = Some (Inr (((acts @ acts1) @ acts2) @ acts3))"
        using step False s2(1) a3(1) by (subst content_loop.simps) (simp add: s1_def til_def)
      moreover have "visible M ?sps ?txt (nat (i_pos s)) (nat til) @ visible M ?sps ?txt (nat til) (length ?txt) =
          visible M ?sps ?txt (nat (i_pos s)) (length ?txt)"
        using til(1,2) pos by (intro visible_split [symmetric]) auto
      moreover have "tame M ?sps acts2" using s2(5) by (auto simp: tame_def is_token_def split: action.splits)
      ultimately show ?thesis using act(1,3) vis a3(2,3) by (intro exI [of _ "acts1 @ acts2 @ acts3"]) simp
    qed
  qed
qed

text \<open>The span of a bookmark is empty, so that it is never active.\<close>

definition bookmarks_empty :: "(nat \<Rightarrow> marker) \<Rightarrow> span list \<Rightarrow> bool" where
  "bookmarks_empty M sps \<longleftrightarrow> (\<forall>sp \<in> set sps. mk_bookmark (M (sp_marker sp)) \<longrightarrow> sp_from sp \<noteq> None \<and> sp_from sp = sp_to sp)"

lemma comparable_spans:
  assumes ok: "markers_ok M d" and k: "k < length (doc_lines d)" and b: "bookmarks_empty M (l_spans (doc_lines d ! k))"
  shows "comparable M d pos (set (l_spans (doc_lines d ! k)))"
proof -
  have "\<exists>r. found_range (marker_find M d (sp_marker sp) None) = Inr r" if sp: "sp \<in> set (l_spans (doc_lines d ! k))" "active pos sp" for sp
  proof -
    obtain x y where e: "extent (doc_spans d) (sp_marker sp) x y" by (rule span_extent [OF ok k sp(1)])
    have "\<not> mk_bookmark (M (sp_marker sp))" using b sp by (auto simp: bookmarks_empty_def active_def beyond_def split: option.splits)
    then show ?thesis
      using find_both_loop [OF e, of x None "d_first d" None] extent_order(1) [OF e]
      by (auto simp: marker_find_def marker_lines_extent [OF e] found_range_def simp del: upt_Suc)
  qed
  note r = this
  have "\<exists>c. compareCollapsedMarkers M d (sp_marker x) (sp_marker y) = Inr c"
    if x: "x \<in> set (l_spans (doc_lines d ! k))" "active pos x" and y: "y \<in> set (l_spans (doc_lines d ! k))" "active pos y" for x y
  proof -
    obtain f g where "found_range (marker_find M d (sp_marker x) None) = Inr f" "found_range (marker_find M d (sp_marker y) None) = Inr g"
      using r [OF x] r [OF y] by blast
    then show ?thesis by (simp add: compareCollapsedMarkers_def Let_def)
  qed
  then show ?thesis unfolding comparable_def by blast
qed

lemma style_tokens_ok:
  "tiling at styles (length txt) \<Longrightarrow> acts_text (style_tokens txt at styles) = drop at txt \<and> tame M sps (style_tokens txt at styles)"
proof (induction "txt" at styles rule: style_tokens.induct)
  case (2 t at e st sts)
  then have le: "at < e" "e \<le> length t" using tiling_le by auto
  then have "take (e - at) (drop at t) \<noteq> []" by simp
  moreover have "take (e - at) (drop at t) @ drop e t = drop at t" using le append_take_drop_id [of "e - at" "drop at t"] by simp
  ultimately have "take (e - at) (drop at t) @ drop e t = drop at t" "take (e - at) (drop at t) \<noteq> []" by simp_all
  then show ?case using 2 by (simp add: tame_def)
qed (simp add: tame_def)

lemma insertLineContent_ok:
  assumes ok: "markers_ok M d" and k: "k < length (doc_lines d)" and l: "l = doc_lines d ! k" and b: "bookmarks_empty M (l_spans l)"
    and st: "tiling 0 styles (length (l_text l))"
  obtains acts where "insertLineContent M R d l styles = Some (Inr acts)" "tame M (l_spans l) acts"
    "acts_text acts = visible M (l_spans l) (l_text l) 0 (length (l_text l))"
proof (cases "l_spans l = []")
  case True
  then have "visible M (l_spans l) (l_text l) 0 (length (l_text l)) = l_text l"
    by (simp add: visible_def collapsed_at_def map_nth)
  then show ?thesis using True style_tokens_ok [OF st, of M "l_spans l"]
    by (intro that [of "style_tokens (l_text l) 0 styles"]) (simp_all add: insertLineContent_def ret_def)
next
  case False
  let ?s = "\<lparr>i_pos = 0, i_text = [], i_style = [], i_at = 0, i_styles = styles, i_scan = no_scan\<lparr>sc_next := Some 0\<rparr>\<rparr>"
  have "\<exists>acts. content_loop M R d l ?s [] = Some (Inr ([] @ acts)) \<and> tame M (l_spans l) acts \<and>
      acts_text acts = visible M (l_spans l) (l_text l) (nat (i_pos ?s)) (length (l_text l))"
    using comparable_spans [OF ok k] b st unfolding l
    by (intro content_loop_ok) (simp_all add: text_inv_def)
  then show ?thesis using False that by (auto simp: insertLineContent_def)
qed

section \<open>The text of the nodes\<close>

fun node_text :: "node \<Rightarrow> jsstring" where
  "node_text (TextNode t) = t"
| "node_text (TabNode w) = [tab]"
| "node_text (Placeholder c) = [c]"
| "node_text (Widget m) = []"
| "node_text ZeroWidth = []"

fun element_text :: "element \<Rightarrow> jsstring" where
  "element_text (Plain ns) = concat (map node_text ns)"
| "element_text (Styled ns _ _) = concat (map node_text ns)"

definition rendered :: "builder \<Rightarrow> jsstring" where
  "rendered b = concat (map element_text (b_content b))"

text \<open>The entries of a map follow each other, and each is as long as the text of its node.\<close>

fun map_ok :: "int \<Rightarrow> (int \<times> int \<times> node) list \<Rightarrow> int \<Rightarrow> bool" where
  "map_ok a [] b \<longleftrightarrow> a = b"
| "map_ok a ((x, y, n) # es) b \<longleftrightarrow> x = a \<and> y = a + int (length (node_text n)) \<and> map_ok y es b"

definition map_text :: "builder \<Rightarrow> jsstring" where
  "map_text b = concat (map (\<lambda>(x, y, n). node_text n) (b_map b))"

lemma map_ok_append: "map_ok a (es @ fs) b \<longleftrightarrow> (\<exists>c. map_ok a es c \<and> map_ok c fs b)"
  by (induction a es b rule: map_ok.induct) auto

definition extends :: "builder \<Rightarrow> builder \<Rightarrow> jsstring \<Rightarrow> bool" where
  "extends b b' t \<longleftrightarrow>
     rendered b' = rendered b @ t \<and> map_text b' = map_text b @ t \<and> b_pos b' = b_pos b + int (length t) \<and>
     (map_ok 0 (b_map b) (b_pos b) \<longrightarrow> map_ok 0 (b_map b') (b_pos b'))"

lemma extends_trans: "extends a b t \<Longrightarrow> extends b c u \<Longrightarrow> extends a c (t @ u)"
  by (auto simp: extends_def)

lemma extends_refl: "extends b b []"
  by (simp add: extends_def)

text \<open>The same, for a builder whose content is still to be added.\<close>

definition mapped :: "builder \<Rightarrow> builder \<Rightarrow> jsstring \<Rightarrow> bool" where
  "mapped b b' t \<longleftrightarrow>
     b_content b' = b_content b \<and> map_text b' = map_text b @ t \<and> b_pos b' = b_pos b + int (length t) \<and>
     (map_ok 0 (b_map b) (b_pos b) \<longrightarrow> map_ok 0 (b_map b') (b_pos b'))"

lemma mapped_trans: "mapped a b t \<Longrightarrow> mapped b c u \<Longrightarrow> mapped a c (t @ u)"
  by (auto simp: mapped_def)

lemma mapped_add_node: "int (length (node_text n)) = k \<Longrightarrow> mapped b (add_node n k w b) (node_text n)"
  by (auto simp: mapped_def add_node_def map_text_def map_ok_append)

lemma special_loop_ok:
  "special_loop opts txt nodes b = (nodes', b') \<Longrightarrow>
    mapped b b' txt \<and> concat (map node_text nodes') = concat (map node_text nodes) @ txt"
proof (induction opts "txt" nodes b arbitrary: nodes' b' rule: special_loop.induct)
  case (1 opts t nodes b)
  define p where "p = takeWhile (\<lambda>c. \<not> vo_special opts c) t"
  obtain n1 b1 where nb: "(if p = [] then (nodes, b) else (nodes @ [TextNode p], add_node (TextNode p) (int (length p)) (int (length p)) b)) = (n1, b1)"
    by (meson surj_pair)
  have m1: "mapped b b1 p" "concat (map node_text n1) = concat (map node_text nodes) @ p"
    using nb mapped_add_node [of "TextNode p" "int (length p)" b "int (length p)"] by (auto simp: mapped_def split: if_splits)
  have split: "t = p @ drop (length p) t" by (metis append_take_drop_id p_def takeWhile_eq_take)
  have eq: "special_loop opts t nodes b =
      (case drop (length p) t of [] \<Rightarrow> (n1, b1) | c # cs \<Rightarrow> let (n, b2) = special_node opts c b1 in special_loop opts cs (n1 @ [n]) b2)"
    by (subst special_loop.simps) (simp only: Let_def p_def [symmetric] nb prod.case)
  show ?case
  proof (cases "drop (length p) t")
    case Nil
    then have "t = p" using split by simp
    then show ?thesis using 1(2) Nil m1 unfolding eq by simp
  next
    case (Cons c cs)
    obtain n b2 where n: "special_node opts c b1 = (n, b2)" by (meson surj_pair)
    then have m2: "mapped b1 b2 [c]" "node_text n = [c]"
      using mapped_add_node [of "TabNode (vo_tabSize opts - b_col b1 mod vo_tabSize opts)" 1 b1] mapped_add_node [of "Placeholder c" 1 b1]
      by (auto simp: special_node_def Let_def split: if_splits)
    have r: "special_loop opts cs (n1 @ [n]) b2 = (nodes', b')" using 1(2) Cons n unfolding eq by simp
    have "mapped b2 b' cs \<and> concat (map node_text nodes') = concat (map node_text (n1 @ [n])) @ cs"
      by (rule 1(1) [OF p_def nb [symmetric] refl Cons n [symmetric] refl r])
    then have "concat (map node_text nodes') = concat (map node_text nodes) @ p @ [c] @ cs" and m3: "mapped b2 b' cs" using m1 m2 by simp_all
    moreover have "mapped b b' (p @ [c] @ cs)" by (rule mapped_trans [OF m1(1) mapped_trans [OF m2(1) m3]])
    ultimately have "mapped b b' (p @ [c] @ cs)" "concat (map node_text nodes') = concat (map node_text nodes) @ p @ [c] @ cs" by simp_all
    then show ?thesis using split Cons by simp
  qed
qed

lemma buildToken_extends: "extends b (buildToken opts b txt style startStyle endStyle title) txt"
proof (cases "txt = []")
  case True
  then show ?thesis by (simp add: buildToken_def extends_refl)
next
  case False
  obtain nodes b1 where nb: "(if list_all (\<lambda>c. \<not> vo_special opts c) txt
      then ([TextNode txt], add_node (TextNode txt) (int (length txt)) (int (length txt)) b) else special_loop opts txt [] b) = (nodes, b1)"
    by (meson surj_pair)
  then have "mapped b b1 txt" "concat (map node_text nodes) = txt"
    using mapped_add_node [of "TextNode txt" "int (length txt)" b "int (length txt)"] special_loop_ok [of opts "txt" "[]" b nodes b1]
    by (auto split: if_splits)
  then show ?thesis using False unfolding buildToken_def if_not_P [OF False] nb Let_def prod.case
    by (auto simp: extends_def mapped_def rendered_def map_text_def)
qed

text \<open>Splitting runs of spaces changes some of them to no-break spaces, and nothing else.\<close>

definition unbreak :: "jchar \<Rightarrow> jchar" where
  "unbreak c = (if c = nbsp then cc (CHR '' '') else c)"

lemma split_same: "n \<ge> 3 \<Longrightarrow> length (split n) = n \<and> map unbreak (split n) = map unbreak (replicate n (cc (CHR '' '')))"
proof -
  assume "n \<ge> 3"
  then obtain m where m: "n = Suc (Suc m)" by (intro that [of "n - 2"]) simp
  have sp: "js '' '' = [cc (CHR '' '')]" by (simp add: js_def)
  have "map unbreak (map (\<lambda>i. if i mod 2 = 1 then cc (CHR '' '') else nbsp) [0..<k]) = replicate k (cc (CHR '' ''))" for k
    by (rule nth_equalityI) (auto simp: unbreak_def)
  moreover have "unbreak (cc (CHR '' '')) = cc (CHR '' '')" by (simp add: unbreak_def)
  ultimately show ?thesis by (simp add: split_def sp m replicate_append_same)
qed

lemma blanks_split: "replicate (length (takeWhile (\<lambda>x. x = a) cs)) a @ dropWhile (\<lambda>x. x = a) cs = cs"
  by (induction cs) auto

lemma split_spaces_same: "length (split_spaces s) = length s \<and> map unbreak (split_spaces s) = map unbreak s"
proof (induction s rule: split_spaces.induct)
  case (2 c cs)
  let ?sp = "cc (CHR '' '')"
  show ?case
  proof (cases "c = ?sp")
    case False
    then show ?thesis using 2(2) by (simp add: split_spaces.simps)
  next
    case True
    define n where "n = Suc (length (takeWhile (\<lambda>x. x = ?sp) cs))"
    define w where "w = (if n \<ge> 3 then split n else replicate n ?sp)"
    have w: "length w = n" "map unbreak w = map unbreak (replicate n ?sp)" using split_same [of n] by (simp_all add: w_def)
    have cs: "c # cs = replicate n ?sp @ dropWhile (\<lambda>x. x = ?sp) cs" using True blanks_split [of ?sp cs] by (simp add: n_def)
    have IH: "length (split_spaces (dropWhile (\<lambda>x. x = ?sp) cs)) = length (dropWhile (\<lambda>x. x = ?sp) cs)"
      "map unbreak (split_spaces (dropWhile (\<lambda>x. x = ?sp) cs)) = map unbreak (dropWhile (\<lambda>x. x = ?sp) cs)"
      using 2(1) [OF True n_def] by simp_all
    have e: "split_spaces (c # cs) = w @ split_spaces (dropWhile (\<lambda>x. x = ?sp) cs)"
      using True by (subst split_spaces.simps) (simp add: w_def n_def Let_def)
    have "length (c # cs) = n + length (dropWhile (\<lambda>x. x = ?sp) cs)"
      "map unbreak (c # cs) = map unbreak (replicate n ?sp) @ map unbreak (dropWhile (\<lambda>x. x = ?sp) cs)"
      by (simp_all only: cs length_append map_append length_replicate)
    then show ?thesis unfolding e length_append map_append w IH by simp
  qed
qed (simp add: split_spaces.simps)

text \<open>Two texts that look the same, under the options of the view.\<close>

definition same_look :: "view_options \<Rightarrow> jsstring \<Rightarrow> jsstring \<Rightarrow> bool" where
  "same_look opts s t \<longleftrightarrow> length s = length t \<and> (if vo_splitSpaces opts then map unbreak s = map unbreak t else s = t)"

lemma same_look_refl [simp]: "same_look opts s s"
  by (simp add: same_look_def)

lemma same_look_append: "same_look opts s t \<Longrightarrow> same_look opts s' t' \<Longrightarrow> same_look opts (s @ s') (t @ t')"
  by (simp add: same_look_def)

definition plain_add :: "view_options \<Rightarrow> builder \<Rightarrow> jsstring \<Rightarrow> jsstring \<Rightarrow> jsstring \<Rightarrow> jsstring \<Rightarrow> jsstring \<Rightarrow> builder" where
  "plain_add opts = (if vo_splitSpaces opts then buildTokenSplitSpaces (buildToken opts) else buildToken opts)"

lemma plain_add_ok: "\<exists>t'. extends b (plain_add opts b txt style startStyle endStyle title) t' \<and> same_look opts t' txt"
proof (cases "vo_splitSpaces opts")
  case True
  then have "extends b (plain_add opts b txt style startStyle endStyle title) (split_spaces txt)"
    by (simp add: plain_add_def buildTokenSplitSpaces_def buildToken_extends)
  then show ?thesis using True split_spaces_same [of "txt"] by (auto simp: same_look_def)
next
  case False
  then show ?thesis using buildToken_extends [of b opts "txt" style startStyle endStyle title] by (intro exI [of _ "txt"]) (simp add: plain_add_def)
qed

definition covering :: "bidi_span list \<Rightarrow> int \<Rightarrow> bool" where
  "covering parts n \<longleftrightarrow> (\<forall>p. 0 \<le> p \<and> p < n \<longrightarrow> (\<exists>part \<in> set parts. bs_from part \<le> p \<and> p < bs_to part))"

lemma covering_order:
  assumes "bidiOrdering str = Some order"
  shows "covering order (int (length str))"
proof -
  obtain secs where ok: "order_ok (length str) secs order" using bidiOrdering_ok [OF assms] by blast
  then have "mset (concat (map sec secs)) = mset [0..<length str]" by (auto simp: order_ok_def tiles_def)
  then have s: "set (concat (map sec secs)) = set [0..<length str]" by (metis set_mset_mset)
  have sub: "set secs \<subseteq> set order" using ok by (auto simp: order_ok_def close_order_def)
  have lo: "\<forall>q \<in> set secs. 0 \<le> bs_from q" using ok by (auto simp: order_ok_def tiles_def)
  show ?thesis unfolding covering_def
  proof (intro allI impI)
    fix p assume p: "0 \<le> p \<and> p < int (length str)"
    then have "nat p \<in> set (concat (map sec secs))" unfolding s by (simp add: nat_less_iff)
    then obtain q where "q \<in> set secs" "nat p \<in> set (sec q)" by auto
    then show "\<exists>part \<in> set order. bs_from part \<le> p \<and> p < bs_to part" using sub lo p by (force simp: sec_def)
  qed
qed

lemma find_part_ok:
  "\<exists>part \<in> set parts. bs_from part \<le> p \<and> p < bs_to part \<Longrightarrow> \<exists>part. find_part parts p = Some part \<and> bs_from part \<le> p \<and> p < bs_to part"
  by (induction parts p rule: find_part.induct) auto

lemma bidi_token_loop_ok:
  assumes parts: "covering parts n"
  shows "0 \<le> start \<Longrightarrow> start < stop \<Longrightarrow> stop \<le> n \<Longrightarrow> stop = start + int (length txt) \<Longrightarrow>
    \<exists>b' t'. bidi_token_loop (plain_add opts) parts start stop b txt style startStyle endStyle title = Some (Inr b') \<and> extends b b' t' \<and> same_look opts t' txt"
proof (induction "nat (stop - start)" arbitrary: start b "txt" startStyle rule: less_induct)
  case less
  obtain part where part: "find_part parts start = Some part" "start < bs_to part"
    using find_part_ok [of parts start] parts less.prems(1-3) by (auto simp: covering_def)
  show ?case
  proof (cases "bs_to part \<ge> stop")
    case True
    then show ?thesis using part plain_add_ok [of b opts "txt" style startStyle endStyle title]
      by (subst bidi_token_loop.simps) simp
  next
    case False
    define k where "k = nat (bs_to part - start)"
    have k: "js_slice txt 0 (bs_to part - start) = take k txt" "js_slice_from txt (bs_to part - start) = drop k txt" "k \<le> length txt" "int k = bs_to part - start"
      using part(2) False less.prems(4) by (simp_all add: js_slice_prefix js_slice_from_nonneg k_def)
    obtain t1 where t1: "extends b (plain_add opts b (take k txt) style startStyle [] title) t1" "same_look opts t1 (take k txt)"
      using plain_add_ok by blast
    have "\<exists>b' t'. bidi_token_loop (plain_add opts) parts (bs_to part) stop (plain_add opts b (take k txt) style startStyle [] title) (drop k txt) style [] endStyle title =
        Some (Inr b') \<and> extends (plain_add opts b (take k txt) style startStyle [] title) b' t' \<and> same_look opts t' (drop k txt)"
      using part(2) False less.prems k(3,4) by (intro less.hyps) auto
    then obtain b' t2 where t2: "bidi_token_loop (plain_add opts) parts (bs_to part) stop (plain_add opts b (take k txt) style startStyle [] title) (drop k txt) style [] endStyle title =
        Some (Inr b')" "extends (plain_add opts b (take k txt) style startStyle [] title) b' t2" "same_look opts t2 (drop k txt)" by blast
    have "bidi_token_loop (plain_add opts) parts start stop b txt style startStyle endStyle title = Some (Inr b')"
      using part False t2(1) by (subst bidi_token_loop.simps) (simp add: k(1,2))
    moreover have "same_look opts (t1 @ t2) txt" using same_look_append [OF t1(2) t2(3)] by simp
    ultimately show ?thesis using extends_trans [OF t1(1) t2(2)] by blast
  qed
qed

section \<open>Rendering a line\<close>

definition no_collapsed :: "(nat \<Rightarrow> marker) \<Rightarrow> span list \<Rightarrow> bool" where
  "no_collapsed M sps \<longleftrightarrow> (\<forall>sp \<in> set sps. \<not> mk_collapsed (M (sp_marker sp)))"

text \<open>Text from right to left is cut at positions of the line, so the position of the builder has to be one.\<close>

definition bidi_safe :: "view_options \<Rightarrow> bidi_span list option \<Rightarrow> int \<Rightarrow> int \<Rightarrow> nat \<Rightarrow> bool" where
  "bidi_safe opts order n pos len \<longleftrightarrow>
     (vo_badBidi opts \<longrightarrow> (case order of None \<Rightarrow> True | Some parts \<Rightarrow> covering parts n \<and> 0 \<le> pos \<and> pos + int len \<le> n))"

lemma addToken_ok:
  assumes "txt \<noteq> []" and "bidi_safe opts order n (b_pos b) (length txt)"
  shows "\<exists>b' t'. addToken opts order b txt style startStyle endStyle title = Some (Inr b') \<and> extends b b' t' \<and> same_look opts t' txt"
proof (cases "vo_badBidi opts \<and> order \<noteq> None")
  case True
  then obtain parts where parts: "order = Some parts" "covering parts n" "0 \<le> b_pos b" "b_pos b + int (length txt) \<le> n"
    using assms(2) by (auto simp: bidi_safe_def)
  have "addToken opts order b txt style startStyle endStyle title = bidi_token_loop (plain_add opts) parts (b_pos b) (b_pos b + int (length txt)) b txt
       (if style \<noteq> [] then style @ js '' cm-force-border'' else js ''cm-force-border'') startStyle endStyle title"
    using True parts(1) by (simp add: addToken_def buildTokenBadBidi_def plain_add_def Let_def)
  then show ?thesis using bidi_token_loop_ok [OF parts(2,3) _ parts(4) refl] assms(1) by simp
next
  case False
  then have "addToken opts order b txt style startStyle endStyle title = Some (Inr (plain_add opts b txt style startStyle endStyle title))"
    by (auto simp: addToken_def plain_add_def Let_def ret_def split: option.split)
  then show ?thesis using plain_add_ok by simp
qed

lemma run_actions_ok:
  assumes n: "vo_badBidi opts \<and> order \<noteq> None \<longrightarrow> no_collapsed M sps"
  shows "tame M sps acts \<Longrightarrow> bidi_safe opts order n (b_pos b) (length (acts_text acts)) \<Longrightarrow>
    \<exists>b' t'. run_actions opts M order acts b = Some (Inr b') \<and> rendered b' = rendered b @ t' \<and> same_look opts t' (acts_text acts) \<and>
      (no_collapsed M sps \<longrightarrow> extends b b' t')"
proof (induction acts arbitrary: b)
  case Nil
  then show ?case by (simp add: ret_def extends_refl)
next
  case (Cons a acts)
  have tame: "tame M sps acts" using Cons.prems(1) by (simp add: tame_def)
  show ?case
  proof (cases a)
    case (Token t style startStyle endStyle title)
    have t: "t \<noteq> []" "bidi_safe opts order n (b_pos b) (length t)"
      using Cons.prems Token by (auto simp: tame_def bidi_safe_def split: option.splits)
    obtain b1 t1 where b1: "addToken opts order b t style startStyle endStyle title = Some (Inr b1)" "extends b b1 t1" "same_look opts t1 t"
      using addToken_ok [OF t] by blast
    have "bidi_safe opts order n (b_pos b1) (length (acts_text acts))"
      using Cons.prems(2) b1(2,3) Token by (auto simp: bidi_safe_def extends_def same_look_def split: option.splits)
    from Cons.IH [OF tame this] obtain b' t2 where b2: "run_actions opts M order acts b1 = Some (Inr b')" "rendered b' = rendered b1 @ t2"
      "same_look opts t2 (acts_text acts)" "no_collapsed M sps \<longrightarrow> extends b1 b' t2" by blast
    have "rendered b' = rendered b @ t1 @ t2" using b2(2) b1(2) by (simp add: extends_def)
    moreover have "no_collapsed M sps \<longrightarrow> extends b b' (t1 @ t2)" using b2(4) extends_trans [OF b1(2)] by blast
    ultimately show ?thesis using b1(1) b2(1) same_look_append [OF b1(3) b2(3)] Token by (intro exI [of _ b'] exI [of _ "t1 @ t2"]) simp
  next
    case (Collapse k m i)
    let ?b = "buildCollapsedSpan M b k m i"
    have k: "no_collapsed M sps \<longrightarrow> k = 0" using Cons.prems(1) Collapse by (simp add: tame_def no_collapsed_def)
    then have e: "rendered ?b = rendered b" "no_collapsed M sps \<longrightarrow> extends b ?b [] \<and> b_pos ?b = b_pos b"
      by (auto simp: buildCollapsedSpan_def rendered_def extends_def map_text_def map_ok_append)
    have "bidi_safe opts order n (b_pos ?b) (length (acts_text acts))"
      using Cons.prems(2) e(2) n Collapse by (auto simp: bidi_safe_def split: option.splits)
    from Cons.IH [OF tame this] obtain b' t2 where b2: "run_actions opts M order acts ?b = Some (Inr b')" "rendered b' = rendered ?b @ t2"
      "same_look opts t2 (acts_text acts)" "no_collapsed M sps \<longrightarrow> extends ?b b' t2" by blast
    have "no_collapsed M sps \<longrightarrow> extends b b' t2" using b2(4) e(2) extends_trans [of b ?b "[]" b' t2] by auto
    then show ?thesis using b2 e(1) Collapse by (intro exI [of _ b'] exI [of _ t2]) simp
  qed
qed

lemma visible_plain: "no_collapsed M sps \<Longrightarrow> visible M sps txt 0 (length txt) = txt"
  by (simp add: visible_def no_collapsed_def collapsed_at_def map_nth)

definition line_fine :: "view_options \<Rightarrow> (nat \<Rightarrow> marker) \<Rightarrow> (nat \<times> style) list \<Rightarrow> 'st line \<Rightarrow> bool" where
  "line_fine opts M styles l \<longleftrightarrow>
     bookmarks_empty M (l_spans l) \<and> tiling 0 styles (length (l_text l)) \<and> order_cache_ok l \<and>
     (vo_badBidi opts \<and> order_of l \<noteq> None \<longrightarrow> no_collapsed M (l_spans l))"

text \<open>A map of a line without collapsed spans covers the whole text of the line.\<close>

definition line_map_ok :: "view_options \<Rightarrow> (nat \<Rightarrow> marker) \<Rightarrow> 'st line \<Rightarrow> (int \<times> int \<times> node) list \<Rightarrow> bool" where
  "line_map_ok opts M l es \<longleftrightarrow>
     (no_collapsed M (l_spans l) \<longrightarrow>
        map_ok 0 es (int (length (l_text l))) \<and> same_look opts (concat (map (\<lambda>(x, y, n). node_text n) es)) (l_text l))"

text \<open>Every class of a line is accepted by \<^verbatim>\<open>RegExp\<close>.\<close>

definition words_ok :: "regexps \<Rightarrow> jsstring option \<Rightarrow> bool" where
  "words_ok rx cls \<longleftrightarrow> (case cls of Some s \<Rightarrow> list_all (\<lambda>w. w \<noteq> [] \<longrightarrow> classTest rx w \<noteq> None) (split_blanks [] s) | None \<Rightarrow> True)"

definition classes_ok :: "regexps \<Rightarrow> line_classes option \<Rightarrow> bool" where
  "classes_ok rx classes \<longleftrightarrow> (case classes of Some c \<Rightarrow> words_ok rx (bgClass c) \<and> words_ok rx (textClass c) | None \<Rightarrow> True)"

lemma join_words_ok: "list_all (\<lambda>w. w \<noteq> [] \<longrightarrow> classTest rx w \<noteq> None) ws \<Longrightarrow> \<exists>b'. join_words rx ws b = Inr b'"
  by (induction rx ws b rule: join_words.induct) auto

lemma join_set_ok: "words_ok rx cls \<Longrightarrow> \<exists>b'. join_set rx cls b = Inr b'"
  using join_words_ok by (auto simp: join_set_def joinClasses_def words_ok_def split: option.split list.split)

lemma join_line_classes_ok:
  assumes "classes_ok rx classes"
  shows "\<exists>b'. join_line_classes rx classes b = Inr b' \<and> b_content b' = b_content b \<and> b_map b' = b_map b"
proof (cases classes)
  case (Some c)
  then obtain bg cls where "join_set rx (bgClass c) (b_bgClass b) = Inr bg" "join_set rx (textClass c) (b_textClass b) = Inr cls"
    using join_set_ok assms unfolding classes_ok_def by (metis (no_types, lifting) option.simps(5))
  with Some show ?thesis by (simp add: join_line_classes_def)
qed (simp add: join_line_classes_def)

lemma line_content_ok:
  assumes ok: "markers_ok M d" and k: "k < length (doc_lines d)" and l: "l = doc_lines d ! k" and fine: "line_fine opts M styles l"
    and cls: "classes_ok (vo_regexp opts) classes"
  shows "\<exists>b' t'. line_content opts M R d l styles classes b = Some (Inr b') \<and> rendered b' = rendered b @ t' \<and>
    same_look opts t' (visible M (l_spans l) (l_text l) 0 (length (l_text l))) \<and> line_map_ok opts M l (b_map b')"
proof -
  have f: "bookmarks_empty M (l_spans l)" "tiling 0 styles (length (l_text l))" "order_of l = bidiOrdering (l_text l)"
    "vo_badBidi opts \<and> order_of l \<noteq> None \<longrightarrow> no_collapsed M (l_spans l)"
    using fine getOrder_cached(1) [of l] by (simp_all add: line_fine_def)
  let ?vis = "visible M (l_spans l) (l_text l) 0 (length (l_text l))" and ?n = "int (length (l_text l))"
  obtain acts where acts: "insertLineContent M R d l styles = Some (Inr acts)" "tame M (l_spans l) acts" "acts_text acts = ?vis"
    by (rule insertLineContent_ok [OF ok k l f(1,2)])
  define b0 where "b0 = b\<lparr>b_pos := 0, b_map := []\<rparr>"
  have "length ?vis \<le> length (l_text l)" unfolding visible_def length_map using length_filter_le [of _ "[0..<length (l_text l)]"] by simp
  then have "bidi_safe opts (order_of l) ?n (b_pos b0) (length (acts_text acts))"
    using covering_order [of "l_text l"] acts(3) by (auto simp: bidi_safe_def b0_def f(3) split: option.split)
  from run_actions_ok [OF f(4) acts(2) this] obtain b1 t' where
    b1: "run_actions opts M (order_of l) acts b0 = Some (Inr b1)" "rendered b1 = rendered b0 @ t'" "same_look opts t' ?vis"
      "no_collapsed M (l_spans l) \<longrightarrow> extends b0 b1 t'" unfolding acts(3) by blast
  obtain b2 where j: "join_line_classes (vo_regexp opts) classes b1 = Inr b2" "b_content b2 = b_content b1" "b_map b2 = b_map b1"
    using join_line_classes_ok [OF cls] by blast
  define b3 where "b3 = (if b_map b2 = [] then b2\<lparr>b_map := [(0, 0, ZeroWidth)], b_content := b_content b2 @ [Plain [ZeroWidth]]\<rparr> else b2)"
  have b2: "rendered b2 = rendered b @ t'" "b_map b2 = b_map b1" using b1(2) j(2,3) by (simp_all add: b0_def rendered_def)
  have "line_content opts M R d l styles classes b = Some (Inr b3)"
    unfolding line_content_def acts(1) b0_def [symmetric] pbind_simps b1(1) j(1) b3_def [symmetric] by (simp add: ret_def)
  moreover have "rendered b3 = rendered b @ t'" using b2(1) by (simp add: b3_def rendered_def)
  moreover have "line_map_ok opts M l (b_map b3)" unfolding line_map_ok_def
  proof
    assume n: "no_collapsed M (l_spans l)"
    then have "map_ok 0 (b_map b1) (b_pos b1)" "b_pos b1 = int (length t')" "concat (map (\<lambda>(x, y, n). node_text n) (b_map b1)) = t'"
      using b1(4) by (auto simp: extends_def b0_def map_text_def)
    moreover have "same_look opts t' (l_text l)" using b1(3) visible_plain [OF n] by simp
    ultimately show "map_ok 0 (b_map b3) ?n \<and> same_look opts (concat (map (\<lambda>(x, y, n). node_text n) (b_map b3))) (l_text l)"
      using b2(2) by (auto simp: b3_def same_look_def)
  qed
  ultimately show ?thesis using b1(3) by blast
qed

text \<open>C22: Rendering a visual line always ends without an exception, and the nodes that are made show exactly the text of
  its lines without the collapsed parts, character for character and in order (where runs of spaces are split,
  up to no-break spaces); and for every line without collapsed parts the map from positions to nodes covers the
  text of the line without gaps, each entry with the text of its node. This is for lines whose styles tile them as
  highlighting makes them, with bookmarks that cover no text, a cached order that is that of the text, and line classes that
  \<^verbatim>\<open>RegExp\<close> accepts; and in browsers with wrong rectangles for text in two directions (\<^verbatim>\<open>badBidiRects\<close>) for lines
  with such text only when nothing in them is collapsed.\<close>

theorem buildLineContent_shows_text:
  assumes ok: "markers_ok M d" and ks: "\<forall>k \<in> set ks. k < length (doc_lines d) \<and> line_fine opts M (styles (doc_lines d ! k)) (doc_lines d ! k) \<and>
      classes_ok (vo_regexp opts) (classes (doc_lines d ! k))"
    and ls: "ls = map ((!) (doc_lines d)) ks"
  shows "\<exists>b' maps t. buildLineContent opts M R d styles classes ls b = Some (Inr (b', maps)) \<and> rendered b' = rendered b @ t \<and>
    same_look opts t (concat (map (\<lambda>l. visible M (l_spans l) (l_text l) 0 (length (l_text l))) ls)) \<and> list_all2 (line_map_ok opts M) ls maps"
  using ks unfolding ls
proof (induction ks arbitrary: b)
  case Nil
  then show ?case by (simp add: ret_def)
next
  case (Cons k ks)
  let ?l = "doc_lines d ! k"
  have k: "k < length (doc_lines d)" "line_fine opts M (styles ?l) ?l" "classes_ok (vo_regexp opts) (classes ?l)" using Cons.prems by simp_all
  obtain b1 t1 where b1: "line_content opts M R d ?l (styles ?l) (classes ?l) b = Some (Inr b1)" "rendered b1 = rendered b @ t1"
    "same_look opts t1 (visible M (l_spans ?l) (l_text ?l) 0 (length (l_text ?l)))" "line_map_ok opts M ?l (b_map b1)"
    using line_content_ok [OF ok k(1) refl k(2,3)] by blast
  obtain b2 maps t2 where b2: "buildLineContent opts M R d styles classes (map ((!) (doc_lines d)) ks) b1 = Some (Inr (b2, maps))" "rendered b2 = rendered b1 @ t2"
    "same_look opts t2 (concat (map (\<lambda>l. visible M (l_spans l) (l_text l) 0 (length (l_text l))) (map ((!) (doc_lines d)) ks)))"
    "list_all2 (line_map_ok opts M) (map ((!) (doc_lines d)) ks) maps"
    using Cons.IH [of b1] Cons.prems by auto
  have "buildLineContent opts M R d styles classes (map ((!) (doc_lines d)) (k # ks)) b = Some (Inr (b2, b_map b1 # maps))"
    using b1(1) b2(1) by (simp add: ret_def)
  then show ?case using b1(2,4) b2(2,4) same_look_append [OF b1(3) b2(3)]
    by (intro exI [of _ b2] exI [of _ "b_map b1 # maps"] exI [of _ "t1 @ t2"]) simp
qed

definition example_options :: view_options where
  "example_options = \<lparr>vo_special = (\<lambda>c. c = tab), vo_tabSize = 4, vo_oldIE = False, vo_splitSpaces = True, vo_badBidi = True, vo_regexp = \<lambda>_. None\<rparr>"

definition example_classes :: "line_classes option" where
  "example_classes = Some \<lparr>bgClass = None, textClass = Some (js ''a b'')\<rparr>"

definition no_builder :: builder where
  "no_builder = \<lparr>b_content = [], b_col = 0, b_pos = 0, b_map = [], b_bgClass = [], b_textClass = []\<rparr>"

definition no_render :: render where
  "no_render = \<lparr>r_className = [], r_startStyle = [], r_endStyle = [], r_title = []\<rparr>"

theorem buildLineContent_shows_text_witness:
  "case folded_example of
     Inr d \<Rightarrow>
       (\<exists>b' maps t. buildLineContent example_options folding (\<lambda>_. no_render) d (\<lambda>l. [(length (l_text l), None)]) (\<lambda>_. example_classes)
            (map ((!) (doc_lines d)) [0, 1, 2]) no_builder = Some (Inr (b', maps)) \<and>
          rendered b' = t \<and> same_look example_options t (js ''ae''))
   | Inl e \<Rightarrow> False"
proof -
  let ?st = "\<lambda>l. [(length (l_text l), None)]"
  obtain d where d: "folded_example = Inr d" "markers_ok folding d" "length (doc_lines d) = 3" by (rule folded_example_ok)
  have "case folded_example of
     Inr d \<Rightarrow>
       list_all (\<lambda>l. line_fine example_options folding [(length (l_text l), None)] l) (doc_lines d) \<and>
       concat (map (\<lambda>l. visible folding (l_spans l) (l_text l) 0 (length (l_text l))) (map ((!) (doc_lines d)) [0, 1, 2])) = js ''ae''
   | Inl e \<Rightarrow> False" by code_simp
  then have f: "list_all (\<lambda>l. line_fine example_options folding (?st l) l) (doc_lines d)"
    "concat (map (\<lambda>l. visible folding (l_spans l) (l_text l) 0 (length (l_text l))) (map ((!) (doc_lines d)) [0, 1, 2])) = js ''ae''"
    unfolding d(1) sum.case by (rule conjunct1, rule conjunct2)
  have cls: "classes_ok (vo_regexp example_options) example_classes" by code_simp
  have "\<forall>k \<in> set [0, 1, 2]. k < length (doc_lines d) \<and> line_fine example_options folding (?st (doc_lines d ! k)) (doc_lines d ! k) \<and>
      classes_ok (vo_regexp example_options) example_classes"
    using f(1) d(3) cls by (simp add: list_all_length)
  from buildLineContent_shows_text [OF d(2) this refl, of "\<lambda>_. no_render" no_builder] show ?thesis
    unfolding d(1) sum.case f(2) by (elim exE conjE) (rule exI, rule exI, rule exI, rule conjI, assumption, simp add: rendered_def no_builder_def)
qed

end
