(* ===== verification/Motion.thy ===== *)
theory Motion
  imports Bidi UndoRedo
begin

text \<open>
  Moving the cursor by characters, words and groups and deleting near the selections
  (\<^verbatim>\<open>src/js/codemirror/codemirror.js\<close>, section API UTILITIES and the methods of the editor on them). The
  main results are that logical movement always ends at a position of the text in the right direction, and that
  deleting near the selections removes exactly the characters of the computed ranges.
\<close>

section \<open>Definitions\<close>

subsection \<open>Horizontal movement\<close>

datatype move_unit = ByChar | ByColumn | ByWord | ByGroup

text \<open>The local variables of \<open>findPosH\<close>.\<close>

record 'st cursor =
  cu_line :: int
  cu_ch :: int
  cu_obj :: "'st line"
  cu_possible :: bool

text \<open>
  What word movement reads of the editor: whether a character has different upper and lower case forms, and the
  helper \<^verbatim>\<open>wordChars\<close> of the mode.
\<close>

type_synonym word_env = "(jchar \<Rightarrow> bool) \<times> (bool \<times> (jchar \<Rightarrow> bool)) option"

definition findNextLine :: "('st, 'x) doc_scheme \<Rightarrow> int \<Rightarrow> 'st cursor \<Rightarrow> doc_exn + (bool \<times> 'st cursor)" where
  "findNextLine d dir s =
     (let l = cu_line s + dir
      in if l < d_first d \<or> l \<ge> d_first d + d_size d then Inr (False, s\<lparr>cu_possible := False\<rparr>)
         else rbind (getLine d l) (\<lambda>obj. Inr (True, s\<lparr>cu_line := l, cu_obj := obj\<rparr>)))"

definition moveOnce :: "('st, 'x) doc_scheme \<Rightarrow> bool \<Rightarrow> bool \<Rightarrow> int \<Rightarrow> 'st cursor \<Rightarrow> (bool \<times> 'st cursor) comp" where
  "moveOnce d visually boundToLine dir s =
     pbind ((if visually then moveVisually else moveLogically) (cu_obj s) (cu_ch s) dir True) (\<lambda>next.
       case next of
         Some ch \<Rightarrow> ret (True, s\<lparr>cu_ch := ch\<rparr>)
       | None \<Rightarrow>
           if boundToLine then ret (False, s\<lparr>cu_possible := False\<rparr>)
           else pbind (Some (findNextLine d dir s)) (\<lambda>(ok, s').
                  if ok
                  then ret (True, s'\<lparr>cu_ch := (if visually then (if dir < 0 then lineRight else lineLeft) (cu_obj s')
                                              else if dir < 0 then int (length (l_text (cu_obj s'))) else 0)\<rparr>)
                  else ret (False, s'\<lparr>cu_possible := False\<rparr>)))"

text \<open>The types of characters, \<^verbatim>\<open>"w"\<close>, \<^verbatim>\<open>"n"\<close>, \<^verbatim>\<open>"p"\<close> and \<^verbatim>\<open>"s"\<close>; the character behind the end of a line is a line feed.\<close>

datatype char_type = WordType | NewlineType | PunctType | SpaceType

definition char_type_at :: "word_env \<Rightarrow> bool \<Rightarrow> bool \<Rightarrow> 'st cursor \<Rightarrow> char_type option" where
  "char_type_at we grp first s =
     (let cur = (case js_at (l_text (cu_obj s)) (cu_ch s) of Some c \<Rightarrow> c | None \<Rightarrow> 10);
          ty = (if isWordChar (fst we) cur (snd we) then Some WordType
                else if grp \<and> cur = 10 then Some NewlineType
                else if \<not> grp \<or> is_space cur then None
                else Some PunctType)
      in if grp \<and> \<not> first \<and> ty = None then Some SpaceType else ty)"

text \<open>
  One round of the loop for words and groups, from the values of \<open>first\<close>, \<open>sawType\<close> and the cursor: the next
  values, or the cursor at the end.
\<close>

definition word_step ::
  "('st, 'x) doc_scheme \<Rightarrow> word_env \<Rightarrow> bool \<Rightarrow> bool \<Rightarrow> int \<Rightarrow> bool \<times> char_type option \<times> 'st cursor \<Rightarrow>
   ((bool \<times> char_type option \<times> 'st cursor) + 'st cursor) comp" where
  "word_step d we visually grp dir st =
     (case st of (first, sawType, s) \<Rightarrow>
        pbind (if dir < 0 then moveOnce d visually (\<not> first) dir s else ret (True, s)) (\<lambda>(ok, s1).
          if \<not> ok then ret (Inr s1)
          else let ty = char_type_at we grp first s1
               in if sawType \<noteq> None \<and> sawType \<noteq> ty
                  then if dir < 0 then pbind (moveOnce d visually False 1 s1) (\<lambda>(ok, s2). ret (Inr s2)) else ret (Inr s1)
                  else pbind (if dir > 0 then moveOnce d visually (\<not> first) dir s1 else ret (True, s1)) (\<lambda>(ok, s2).
                         if \<not> ok then ret (Inr s2)
                         else ret (Inl (False, if ty \<noteq> None then ty else sawType, s2)))))"

text \<open>The loop; moving visually it may not end.\<close>

partial_function (option) word_loop ::
  "('st, 'x) doc_scheme \<Rightarrow> word_env \<Rightarrow> bool \<Rightarrow> bool \<Rightarrow> int \<Rightarrow> bool \<times> char_type option \<times> 'st cursor \<Rightarrow> 'st cursor comp" where
  "word_loop d we visually grp dir st =
     (case word_step d we visually grp dir st of
        None \<Rightarrow> None
      | Some (Inl e) \<Rightarrow> Some (Inl e)
      | Some (Inr (Inl st')) \<Rightarrow> word_loop d we visually grp dir st'
      | Some (Inr (Inr s)) \<Rightarrow> Some (Inr s))"

declare word_loop.simps [code]

text \<open>The result is the position with its property \<^verbatim>\<open>hitSide\<close>.\<close>

definition findPosH ::
  "word_env \<Rightarrow> ('st, 'x) hdoc_scheme \<Rightarrow> pos \<Rightarrow> int \<Rightarrow> move_unit \<Rightarrow> bool \<Rightarrow> (('st, 'x) hdoc_scheme \<times> pos \<times> bool) comp" where
  "findPosH we d p dir un visually =
     pbind (Some (getLine d (pline p))) (\<lambda>obj.
       let s = \<lparr>cu_line = pline p, cu_ch = pch p, cu_obj = obj, cu_possible = True\<rparr>
       in pbind (case un of
                   ByChar \<Rightarrow> pbind (moveOnce d visually False dir s) (\<lambda>(ok, s'). ret s')
                 | ByColumn \<Rightarrow> pbind (moveOnce d visually True dir s) (\<lambda>(ok, s'). ret s')
                 | ByWord \<Rightarrow> word_loop d we visually False dir (True, None, s)
                 | ByGroup \<Rightarrow> word_loop d we visually True dir (True, None, s)) (\<lambda>s'.
            pbind (skipAtomic d (Pos (cu_line s') (cu_ch s')) (Some dir) True) (\<lambda>(d', q, same).
              ret (d', q, \<not> cu_possible s'))))"

text \<open>The method of the editor moves several times.\<close>

fun repeat_findPosH ::
  "word_env \<Rightarrow> move_unit \<Rightarrow> bool \<Rightarrow> int \<Rightarrow> nat \<Rightarrow> ('st, 'x) hdoc_scheme \<Rightarrow> pos \<Rightarrow> (('st, 'x) hdoc_scheme \<times> pos \<times> bool) comp" where
  "repeat_findPosH we un visually dir 0 d p = ret (d, p, False)"
| "repeat_findPosH we un visually dir (Suc n) d p =
     pbind (findPosH we d p dir un visually) (\<lambda>(d', q, hit).
       if hit then ret (d', q, True) else repeat_findPosH we un visually dir n d' q)"

definition cm_findPosH ::
  "word_env \<Rightarrow> ('st, 'x) hdoc_scheme \<Rightarrow> pos \<Rightarrow> int \<Rightarrow> move_unit \<Rightarrow> bool \<Rightarrow> (('st, 'x) hdoc_scheme \<times> pos \<times> bool) comp" where
  "cm_findPosH we d start amount un visually =
     pbind (Some (clipPos d (pline start) (Some (pch start)))) (\<lambda>p.
       repeat_findPosH we un visually (if amount < 0 then -1 else 1) (nat \<bar>amount\<bar>) d p)"

subsection \<open>The word at a position\<close>

fun extend_left :: "(jchar \<Rightarrow> bool) \<Rightarrow> jsstring \<Rightarrow> nat \<Rightarrow> nat" where
  "extend_left check s 0 = 0"
| "extend_left check s (Suc i) = (if i < length s \<and> check (s ! i) then extend_left check s i else Suc i)"

function extend_right :: "(jchar \<Rightarrow> bool) \<Rightarrow> jsstring \<Rightarrow> nat \<Rightarrow> nat" where
  "extend_right check s i = (if i < length s \<and> check (s ! i) then extend_right check s (Suc i) else i)"
  by pat_completeness auto
termination by (relation "measure (\<lambda>(check, s, i). length s - i)") auto

declare extend_right.simps [simp del]

definition word_check :: "word_env \<Rightarrow> jchar \<Rightarrow> jchar \<Rightarrow> bool" where
  "word_check we c =
     (if isWordChar (fst we) c (snd we) then (\<lambda>ch. isWordChar (fst we) ch (snd we))
      else if is_space c then is_space
      else (\<lambda>ch. \<not> is_space ch \<and> \<not> isWordChar (fst we) ch None))"

text \<open>\<open>left\<close> is the condition that \<^verbatim>\<open>pos.xRel\<close> is negative; the column must lie in the line.\<close>

definition findWordAt :: "word_env \<Rightarrow> ('st, 'x) doc_scheme \<Rightarrow> pos \<Rightarrow> bool \<Rightarrow> doc_exn + range" where
  "findWordAt we d p left =
     rbind (getLine d (pline p)) (\<lambda>l.
       let line = l_text l; ch = nat (pch p)
       in Inr (if line = [] then Range p p
               else let before = ((left \<or> ch = length line) \<and> ch \<noteq> 0);
                        start = (if before then ch - 1 else ch); e = (if before then ch else ch + 1);
                        check = word_check we (line ! start)
                    in Range (Pos (pline p) (int (extend_left check line start)))
                         (Pos (pline p) (int (extend_right check line e)))))"

subsection \<open>Deleting near the selections\<close>

text \<open>The array \<^verbatim>\<open>kill\<close> with its last element first.\<close>

fun kill_pop :: "(pos \<times> pos) list \<Rightarrow> pos \<times> pos \<Rightarrow> (pos \<times> pos) list" where
  "kill_pop [] k = [k]"
| "kill_pop (r # rs) k =
     (if cmp (fst k) (snd r) \<le> 0
      then if cmp (fst r) (fst k) < 0 then (fst r, snd k) # rs else kill_pop rs k
      else k # r # rs)"

fun kill_ranges ::
  "(range \<Rightarrow> ('st, 'x) hdoc_scheme \<Rightarrow> ((pos \<times> pos) \<times> ('st, 'x) hdoc_scheme) comp) \<Rightarrow> range list \<Rightarrow> (pos \<times> pos) list \<Rightarrow>
   ('st, 'x) hdoc_scheme \<Rightarrow> ((pos \<times> pos) list \<times> ('st, 'x) hdoc_scheme) comp" where
  "kill_ranges compute [] kill d = ret (kill, d)"
| "kill_ranges compute (r # rs) kill d = pbind (compute r d) (\<lambda>(k, d'). kill_ranges compute rs (kill_pop kill k) d')"

fun delete_ranges :: "'st env \<Rightarrow> (pos \<times> pos) list \<Rightarrow> ('st, 'x) hdoc_scheme \<Rightarrow> ('st, 'x) hdoc_scheme comp" where
  "delete_ranges env [] d = ret d"
| "delete_ranges env (k # kill) d =
     pbind (replaceRange env d [[]] (fst k) (Some (snd k)) (Some (js ''+delete''))) (\<lambda>d'. delete_ranges env kill d')"

definition deleteNearSelection ::
  "'st env \<Rightarrow> ('st, 'x) hdoc_scheme \<Rightarrow> (range \<Rightarrow> ('st, 'x) hdoc_scheme \<Rightarrow> ((pos \<times> pos) \<times> ('st, 'x) hdoc_scheme) comp) \<Rightarrow>
   ('st, 'x) hdoc_scheme comp" where
  "deleteNearSelection env d compute =
     pbind (kill_ranges compute (ranges (d_sel d)) [] d) (\<lambda>(kill, d'). delete_ranges env kill d')"

section \<open>Logical movement\<close>

definition cursor_pos :: "'st cursor \<Rightarrow> pos" where
  "cursor_pos s = Pos (cu_line s) (cu_ch s)"

definition cursor_ok :: "('st, 'x) doc_scheme \<Rightarrow> 'st cursor \<Rightarrow> bool" where
  "cursor_ok d s \<longleftrightarrow>
     (\<exists>k < length (doc_lines d). cu_line s = d_first d + int k \<and> cu_obj s = doc_lines d ! k) \<and>
     0 \<le> cu_ch s \<and> cu_ch s \<le> int (length (l_text (cu_obj s)))"

text \<open>Before a character that does not extend the one before it.\<close>

definition at_boundary :: "'st cursor \<Rightarrow> bool" where
  "at_boundary s \<longleftrightarrow> \<not> (cu_ch s > 0 \<and> extending_at (l_text (cu_obj s)) (cu_ch s))"

text \<open>The last (or first) position of the document.\<close>

definition at_edge :: "('st, 'x) doc_scheme \<Rightarrow> int \<Rightarrow> 'st cursor \<Rightarrow> bool" where
  "at_edge d dir s \<longleftrightarrow>
     (if dir < 0 then cursor_pos s = Pos (d_first d) 0
      else cursor_pos s = Pos (d_first d + d_size d - 1) (int (length (l_text (cu_obj s)))))"

definition ahead :: "int \<Rightarrow> 'st cursor \<Rightarrow> 'st cursor \<Rightarrow> bool" where
  "ahead dir s s' \<longleftrightarrow> (if dir < 0 then cursor_pos s' < cursor_pos s else cursor_pos s < cursor_pos s')"

lemma ahead_trans: "ahead dir a b \<Longrightarrow> ahead dir b c \<Longrightarrow> ahead dir a c"
  by (auto simp: ahead_def split: if_splits)

lemma moveOnce_ok:
  assumes d: "doc_ok d" and s: "cursor_ok d s" and dir: "dir = 1 \<or> dir = -1"
  obtains ok s' where "moveOnce d False b dir s = Some (Inr (ok, s'))" "cursor_ok d s'" "cu_possible s' = (ok \<and> cu_possible s)"
    "ok \<Longrightarrow> ahead dir s s' \<and> at_boundary s'" "b \<Longrightarrow> cu_line s' = cu_line s \<and> cu_obj s' = cu_obj s"
    "\<not> ok \<Longrightarrow> cursor_pos s' = cursor_pos s \<and> (b \<or> at_edge d dir s)"
proof -
  obtain k where k: "k < length (doc_lines d)" "cu_line s = d_first d + int k" "cu_obj s = doc_lines d ! k"
    "0 \<le> cu_ch s" "cu_ch s \<le> int (length (l_text (cu_obj s)))" using s by (auto simp: cursor_ok_def)
  obtain q where q: "unit_loop (l_text (cu_obj s)) (cu_ch s) dir = Some q" "if dir = 1 then cu_ch s < q else q < cu_ch s"
    "\<not> (q > 0 \<and> extending_at (l_text (cu_obj s)) q)"
    "dir = -1 \<longrightarrow> cu_ch s > 0 \<longrightarrow> q \<ge> 0"
    "dir = 1 \<longrightarrow> (\<forall>r. cu_ch s < r \<and> r < q \<longrightarrow> r > 0 \<and> extending_at (l_text (cu_obj s)) r)"
    using dir unit_right [of "l_text (cu_obj s)" "cu_ch s"] unit_left [of "l_text (cu_obj s)" "cu_ch s"] by auto
  have m: "moveLogically (cu_obj s) (cu_ch s) dir True =
      Some (Inr (if q < 0 \<or> q > int (length (l_text (cu_obj s))) then None else Some q))"
    using q(1) by (simp add: moveLogically_def moveInLine_def ret_def)
  have size: "d_size d = int (length (doc_lines d))" by (rule d_size_ok [OF d])
  consider (inside) "0 \<le> q" "q \<le> int (length (l_text (cu_obj s)))" | (stop) "q < 0 \<or> q > int (length (l_text (cu_obj s)))" "b"
    | (edge) "q < 0 \<or> q > int (length (l_text (cu_obj s)))" "\<not> b" "cu_line s + dir < d_first d \<or> cu_line s + dir \<ge> d_first d + d_size d"
    | (cross) "q < 0 \<or> q > int (length (l_text (cu_obj s)))" "\<not> b" "\<not> (cu_line s + dir < d_first d \<or> cu_line s + dir \<ge> d_first d + d_size d)"
    by force
  then show ?thesis
  proof cases
    case inside
    show ?thesis
      by (rule that [of True "s\<lparr>cu_ch := q\<rparr>"])
        (use inside m q(2,3) k dir in \<open>auto simp: moveOnce_def ret_def cursor_ok_def ahead_def cursor_pos_def at_boundary_def less_pos_def\<close>)
  next
    case stop
    show ?thesis
      by (rule that [of False "s\<lparr>cu_possible := False\<rparr>"])
        (use stop m s in \<open>auto simp: moveOnce_def ret_def cursor_ok_def cursor_pos_def\<close>)
  next
    case edge
    have "at_edge d dir s"
    proof (cases "dir = 1")
      case True
      have "cu_ch s = int (length (l_text (cu_obj s)))"
      proof (rule ccontr)
        assume "cu_ch s \<noteq> int (length (l_text (cu_obj s)))"
        then have "int (length (l_text (cu_obj s))) > 0 \<and> extending_at (l_text (cu_obj s)) (int (length (l_text (cu_obj s))))"
          using q(2,5) edge(1) True k(4,5) by auto
        then show False using extending_at_inside by fastforce
      qed
      then show ?thesis using True edge(3) k(1,2) size by (simp add: at_edge_def cursor_pos_def)
    next
      case False
      have "cu_ch s = 0" using q(2,4) edge(1) False dir k(4,5) by auto
      then show ?thesis using False dir edge(3) k(1,2) size by (simp add: at_edge_def cursor_pos_def)
    qed
    then show ?thesis
      by (intro that [of False "s\<lparr>cu_possible := False\<rparr>"])
        (use edge m s in \<open>auto simp: moveOnce_def findNextLine_def ret_def cursor_ok_def cursor_pos_def Let_def\<close>)
  next
    case cross
    define k' where "k' = nat (int k + dir)"
    have k': "k' < length (doc_lines d)" "cu_line s + dir = d_first d + int k'" using cross(3) k(1,2) size by (auto simp: k'_def)
    have g: "getLine d (cu_line s + dir) = Inr (doc_lines d ! k')" unfolding k'(2) by (rule getLine_ok [OF d k'(1)])
    show ?thesis
      by (rule that [of True "s\<lparr>cu_line := cu_line s + dir, cu_obj := doc_lines d ! k',
            cu_ch := (if dir < 0 then int (length (l_text (doc_lines d ! k'))) else 0)\<rparr>"])
        (use cross m g k k' dir in \<open>auto simp: moveOnce_def findNextLine_def ret_def cursor_ok_def ahead_def cursor_pos_def at_boundary_def less_pos_def Let_def
          dest: extending_at_inside\<close>)
  qed
qed

text \<open>Moving right from a position before a boundary does not pass the boundary.\<close>

lemma moveOnce_back:
  assumes "0 \<le> cu_ch s1" "cu_ch s1 < cu_ch s" "cu_ch s \<le> int (length (l_text (cu_obj s)))" "cu_obj s1 = cu_obj s" "at_boundary s"
  obtains q where "moveOnce d False b 1 s1 = Some (Inr (True, s1\<lparr>cu_ch := q\<rparr>))" "cu_ch s1 < q" "q \<le> cu_ch s"
proof -
  obtain q where q: "unit_loop (l_text (cu_obj s)) (cu_ch s1) 1 = Some q" "cu_ch s1 < q"
    "\<forall>r. cu_ch s1 < r \<and> r < q \<longrightarrow> r > 0 \<and> extending_at (l_text (cu_obj s)) r" using unit_right by blast
  have "q \<le> cu_ch s" using q(3) assms(2,5) by (auto simp: at_boundary_def not_less [symmetric])
  moreover have "moveOnce d False b 1 s1 = Some (Inr (True, s1\<lparr>cu_ch := q\<rparr>))"
    using q(1,2) \<open>q \<le> cu_ch s\<close> assms(1,3,4) by (simp add: moveOnce_def moveLogically_def moveInLine_def ret_def)
  ultimately show ?thesis using q(2) by (intro that)
qed

lemma word_forward:
  assumes d: "doc_ok d"
  shows "cursor_ok d s \<Longrightarrow>
    \<exists>s'. word_loop d we False grp 1 (False, saw, s) = Some (Inr s') \<and> cursor_ok d s' \<and> (ahead 1 s s' \<or> cursor_pos s' = cursor_pos s)"
proof (induction "nat (int (length (l_text (cu_obj s))) - cu_ch s)" arbitrary: saw s rule: less_induct)
  case less
  define ty where "ty = char_type_at we grp False s"
  show ?case
  proof (cases "saw \<noteq> None \<and> saw \<noteq> ty")
    case True
    then show ?thesis using less.prems by (subst word_loop.simps) (simp add: word_step_def ret_def ty_def Let_def)
  next
    case False
    obtain ok s1 where m: "moveOnce d False True 1 s = Some (Inr (ok, s1))" "cursor_ok d s1" "ok \<Longrightarrow> ahead 1 s s1 \<and> at_boundary s1"
      "cu_line s1 = cu_line s \<and> cu_obj s1 = cu_obj s" "\<not> ok \<Longrightarrow> cursor_pos s1 = cursor_pos s"
      by (rule moveOnce_ok [OF d less.prems, of 1 True]) auto
    have step: "word_step d we False grp 1 (False, saw, s) =
        Some (Inr (if ok then Inl (False, if ty \<noteq> None then ty else saw, s1) else Inr s1))"
      using False m(1) by (auto simp: word_step_def ret_def ty_def Let_def)
    show ?thesis
    proof (cases ok)
      case True
      then have "ahead 1 s s1" using m(3) by simp
      then have "cu_ch s < cu_ch s1" using m(4) by (simp add: ahead_def cursor_pos_def less_pos_def)
      then have "nat (int (length (l_text (cu_obj s1))) - cu_ch s1) < nat (int (length (l_text (cu_obj s))) - cu_ch s)"
        using m(2,4) by (simp add: cursor_ok_def)
      from less.hyps [OF this m(2), of "if ty \<noteq> None then ty else saw"] obtain s' where
        "word_loop d we False grp 1 (False, if ty \<noteq> None then ty else saw, s1) = Some (Inr s')" "cursor_ok d s'"
        "ahead 1 s1 s' \<or> cursor_pos s' = cursor_pos s1" by blast
      then show ?thesis using True step ahead_trans [OF \<open>ahead 1 s s1\<close>, of s'] \<open>ahead 1 s s1\<close>
        by (subst word_loop.simps) (auto simp: ahead_def)
    next
      case False
      then show ?thesis using step m(2,5) by (subst word_loop.simps) simp
    qed
  qed
qed

lemma word_backward:
  assumes d: "doc_ok d"
  shows "cursor_ok d s \<Longrightarrow> at_boundary s \<Longrightarrow>
    \<exists>s'. word_loop d we False grp (-1) (False, saw, s) = Some (Inr s') \<and> cursor_ok d s' \<and> (ahead (-1) s s' \<or> cursor_pos s' = cursor_pos s)"
proof (induction "nat (cu_ch s)" arbitrary: saw s rule: less_induct)
  case less
  obtain ok s1 where m: "moveOnce d False True (-1) s = Some (Inr (ok, s1))" "cursor_ok d s1" "ok \<Longrightarrow> ahead (-1) s s1 \<and> at_boundary s1"
    "cu_line s1 = cu_line s \<and> cu_obj s1 = cu_obj s" "\<not> ok \<Longrightarrow> cursor_pos s1 = cursor_pos s"
    by (rule moveOnce_ok [OF d less.prems(1), of "-1" True]) auto
  define ty where "ty = char_type_at we grp False s1"
  show ?case
  proof (cases ok)
    case False
    then have "word_step d we False grp (-1) (False, saw, s) = Some (Inr (Inr s1))"
      using m(1) by (simp add: word_step_def ret_def)
    then show ?thesis using m(2,5) False by (subst word_loop.simps) simp
  next
    case True
    then have a: "ahead (-1) s s1" "at_boundary s1" using m(3) by simp_all
    then have ch: "cu_ch s1 < cu_ch s" using m(4) by (simp add: ahead_def cursor_pos_def less_pos_def)
    have in_line: "0 \<le> cu_ch s1" "cu_ch s \<le> int (length (l_text (cu_obj s)))" using m(2) less.prems(1) by (simp_all add: cursor_ok_def)
    show ?thesis
    proof (cases "saw \<noteq> None \<and> saw \<noteq> ty")
      case stop: True
      obtain q where q: "moveOnce d False False 1 s1 = Some (Inr (True, s1\<lparr>cu_ch := q\<rparr>))" "cu_ch s1 < q" "q \<le> cu_ch s"
        by (rule moveOnce_back [OF in_line(1) ch in_line(2) conjunct2 [OF m(4)] less.prems(2)])
      have "word_step d we False grp (-1) (False, saw, s) = Some (Inr (Inr (s1\<lparr>cu_ch := q\<rparr>)))"
        using True stop m(1) q(1) by (auto simp: word_step_def ret_def ty_def Let_def)
      then show ?thesis using q(2,3) m(2,4) in_line
        by (subst word_loop.simps) (auto simp: ahead_def cursor_pos_def cursor_ok_def less_pos_def)
    next
      case False
      have step: "word_step d we False grp (-1) (False, saw, s) = Some (Inr (Inl (False, if ty \<noteq> None then ty else saw, s1)))"
        using False True m(1) by (auto simp: word_step_def ret_def ty_def Let_def)
      have "nat (cu_ch s1) < nat (cu_ch s)" using ch in_line by simp
      from less.hyps [OF this m(2) a(2), of "if ty \<noteq> None then ty else saw"] obtain s' where
        "word_loop d we False grp (-1) (False, if ty \<noteq> None then ty else saw, s1) = Some (Inr s')" "cursor_ok d s'"
        "ahead (-1) s1 s' \<or> cursor_pos s' = cursor_pos s1" by blast
      then show ?thesis using step ahead_trans [OF a(1), of s'] a(1) by (subst word_loop.simps) (auto simp: ahead_def)
    qed
  qed
qed

text \<open>The movement as a whole; the first round may cross a line.\<close>

lemma word_loop_ok:
  assumes d: "doc_ok d" and s: "cursor_ok d s" and dir: "dir = 1 \<or> dir = -1"
  obtains s' where "word_loop d we False grp dir (True, None, s) = Some (Inr s')" "cursor_ok d s'"
    "ahead dir s s' \<or> cursor_pos s' = cursor_pos s \<and> \<not> cu_possible s' \<and> at_edge d dir s"
proof -
  obtain ok s1 where m: "moveOnce d False False dir s = Some (Inr (ok, s1))" "cursor_ok d s1" "cu_possible s1 = (ok \<and> cu_possible s)"
    "ok \<Longrightarrow> ahead dir s s1 \<and> at_boundary s1" "\<not> ok \<Longrightarrow> cursor_pos s1 = cursor_pos s \<and> at_edge d dir s"
    by (rule moveOnce_ok [OF d s dir, of False]) auto
  define ty where "ty = char_type_at we grp True (if dir = 1 then s else s1)"
  have step: "word_step d we False grp dir (True, None, s) = Some (Inr (if ok then Inl (False, ty, s1) else Inr s1))"
    using m(1) dir by (auto simp: word_step_def ret_def ty_def Let_def)
  show ?thesis
  proof (cases ok)
    case True
    have "\<exists>s'. word_loop d we False grp dir (False, ty, s1) = Some (Inr s') \<and> cursor_ok d s' \<and> (ahead dir s1 s' \<or> cursor_pos s' = cursor_pos s1)"
      using dir word_forward [OF d m(2), of we grp ty] word_backward [OF d m(2), of we grp ty] m(4) [OF True] by blast
    then obtain s' where s': "word_loop d we False grp dir (False, ty, s1) = Some (Inr s')" "cursor_ok d s'"
      "ahead dir s1 s' \<or> cursor_pos s' = cursor_pos s1" by blast
    have "ahead dir s s'" using s'(3) m(4) [OF True] ahead_trans [of dir s s1 s'] by (auto simp: ahead_def)
    moreover have "word_loop d we False grp dir (True, None, s) = Some (Inr s')"
      using True step s'(1) by (subst word_loop.simps) simp
    ultimately show ?thesis using s'(2) by (intro that) auto
  next
    case False
    have "word_loop d we False grp dir (True, None, s) = Some (Inr s1)" using False step by (subst word_loop.simps) simp
    then show ?thesis using False m(2,3,5) by (intro that) auto
  qed
qed

lemma findPosH_lands:
  assumes "doc_ok d" and "tpos_ok (d_first d) (doc_text d) p" and "dir = 1 \<or> dir = -1"
  shows "\<exists>q hit. findPosH we d p dir un False = pbind (skipAtomic d q (Some dir) True) (\<lambda>(d', r, same). ret (d', r, hit)) \<and>
    tpos_ok (d_first d) (doc_text d) q \<and> (if dir = 1 then p \<le> q else q \<le> p) \<and> (p = q \<longrightarrow> hit) \<and> (un = ByColumn \<longrightarrow> pline q = pline p) \<and>
    (un \<noteq> ByColumn \<and> p = q \<longrightarrow> p = (if dir = 1 then Pos (d_first d + d_size d - 1) (int (length (last (doc_text d)))) else Pos (d_first d) 0))"
proof -
  obtain k c where k: "p = Pos (d_first d + int k) (int c)" "k < length (doc_lines d)" "c \<le> length (l_text (doc_lines d ! k))"
    using assms(2) by (auto simp: doc_text_def elim: tpos_okE)
  define s where "s = \<lparr>cu_line = pline p, cu_ch = pch p, cu_obj = doc_lines d ! k, cu_possible = True\<rparr>"
  have g: "getLine d (pline p) = Inr (doc_lines d ! k)" using getLine_ok [OF assms(1) k(2)] k(1) by simp
  have s: "cursor_ok d s" "cursor_pos s = p" using k by (auto simp: s_def cursor_ok_def cursor_pos_def)
  define run where "run = (case un of
      ByChar \<Rightarrow> pbind (moveOnce d False False dir s) (\<lambda>(ok, s'). ret s')
    | ByColumn \<Rightarrow> pbind (moveOnce d False True dir s) (\<lambda>(ok, s'). ret s')
    | ByWord \<Rightarrow> word_loop d we False False dir (True, None, s)
    | ByGroup \<Rightarrow> word_loop d we False True dir (True, None, s))"
  have edge: "at_edge d dir s \<Longrightarrow> p = (if dir = 1 then Pos (d_first d + d_size d - 1) (int (length (last (doc_text d)))) else Pos (d_first d) 0)"
  proof -
    assume e: "at_edge d dir s"
    have "k = length (doc_lines d) - 1" if "dir = 1" using e that s(2) k(1,2) d_size_ok [OF assms(1)] by (auto simp: at_edge_def)
    then have "last (doc_text d) = l_text (doc_lines d ! k)" if "dir = 1" using that k(2) by (cases "doc_lines d = []") (auto simp: doc_text_def last_conv_nth)
    then show ?thesis using e s(2) assms(3) by (auto simp: at_edge_def s_def)
  qed
  have "\<exists>s'. run = Some (Inr s') \<and> cursor_ok d s' \<and> (un = ByColumn \<longrightarrow> cu_line s' = cu_line s) \<and>
      (ahead dir s s' \<or> cursor_pos s' = cursor_pos s \<and> \<not> cu_possible s' \<and> (un = ByColumn \<or> at_edge d dir s))"
  proof (cases "un = ByChar \<or> un = ByColumn")
    case True
    obtain ok s' where m: "moveOnce d False (un = ByColumn) dir s = Some (Inr (ok, s'))" "cursor_ok d s'" "cu_possible s' = (ok \<and> cu_possible s)"
      "ok \<Longrightarrow> ahead dir s s' \<and> at_boundary s'" "un = ByColumn \<Longrightarrow> cu_line s' = cu_line s \<and> cu_obj s' = cu_obj s"
      "\<not> ok \<Longrightarrow> cursor_pos s' = cursor_pos s \<and> (un = ByColumn \<or> at_edge d dir s)"
      by (rule moveOnce_ok [OF assms(1) s(1) assms(3), of "un = ByColumn"]) auto
    have "run = Some (Inr s')" using True m(1) by (auto simp: run_def ret_def)
    then show ?thesis using m(2-6) by (cases ok) auto
  next
    case False
    obtain s' where "word_loop d we False (un = ByGroup) dir (True, None, s) = Some (Inr s')" "cursor_ok d s'"
      "ahead dir s s' \<or> cursor_pos s' = cursor_pos s \<and> \<not> cu_possible s' \<and> at_edge d dir s"
      by (rule word_loop_ok [OF assms(1) s(1) assms(3)])
    then show ?thesis using False by (cases un) (auto simp: run_def)
  qed
  then obtain s' where s': "run = Some (Inr s')" "cursor_ok d s'" "un = ByColumn \<longrightarrow> cu_line s' = cu_line s"
    "ahead dir s s' \<or> cursor_pos s' = cursor_pos s \<and> \<not> cu_possible s' \<and> (un = ByColumn \<or> at_edge d dir s)" by blast
  have q: "tpos_ok (d_first d) (doc_text d) (cursor_pos s')"
    using s'(2) by (auto simp: cursor_ok_def cursor_pos_def tpos_ok_def doc_text_def)
  have "findPosH we d p dir un False = pbind run (\<lambda>s'. pbind (skipAtomic d (Pos (cu_line s') (cu_ch s')) (Some dir) True)
      (\<lambda>(d', q, same). ret (d', q, \<not> cu_possible s')))"
    unfolding findPosH_def g run_def s_def Let_def by simp
  then have "findPosH we d p dir un False = pbind (skipAtomic d (cursor_pos s') (Some dir) True) (\<lambda>(d', r, same). ret (d', r, \<not> cu_possible s'))"
    using s'(1) by (simp add: cursor_pos_def)
  moreover have "if dir = 1 then p \<le> cursor_pos s' else cursor_pos s' \<le> p" using s'(4) s(2) assms(3) by (auto simp: ahead_def)
  moreover have "p = cursor_pos s' \<longrightarrow> \<not> cu_possible s' \<and> (un = ByColumn \<or> at_edge d dir s)" using s'(4) s(2) by (auto simp: ahead_def split: if_splits)
  moreover have "un = ByColumn \<longrightarrow> pline (cursor_pos s') = pline p" using s'(3) by (simp add: cursor_pos_def s_def)
  ultimately show ?thesis using q edge by blast
qed

text \<open>Where no marker interferes, this is the result.\<close>

lemma findPosH_ok:
  assumes "doc_ok d" and "calm d" and "tpos_ok (d_first d) (doc_text d) p" and "dir = 1 \<or> dir = -1"
  shows "\<exists>q hit. findPosH we d p dir un False = Some (Inr (d\<lparr>d_cantEdit := False\<rparr>, q, hit)) \<and> tpos_ok (d_first d) (doc_text d) q \<and>
    (if dir = 1 then p \<le> q else q \<le> p)"
proof -
  obtain q hit where "findPosH we d p dir un False = pbind (skipAtomic d q (Some dir) True) (\<lambda>(d', r, same). ret (d', r, hit))"
    "tpos_ok (d_first d) (doc_text d) q" "if dir = 1 then p \<le> q else q \<le> p" using findPosH_lands [OF assms(1,3,4), of we un] by blast
  then show ?thesis using skipAtomic_calm [OF assms(1,2)] by (auto simp: ret_def)
qed

text \<open>C23: Moving logically by a character, a column, a word or a group always ends, at a position of the text, to which \<open>skipAtomic\<close> is
  then applied. Up to there it moves in the given direction unless it reports having hit a side; moving by
  columns stays on the line, and moving by anything else fails to move only at the edge of the document. In a document
  without atomic, cleared and clear-on-enter markers this position is the result and the document stays as it
  is, apart from the flag \<^verbatim>\<open>cantEdit\<close>, which is reset; with such markers, \<open>skipAtomic\<close> may move on, move back or clear markers.\<close>

theorem findPosH_moves:
  assumes "doc_ok d" and "tpos_ok (d_first d) (doc_text d) p" and "dir = 1 \<or> dir = -1"
  shows "\<exists>q hit. findPosH we d p dir un False = pbind (skipAtomic d q (Some dir) True) (\<lambda>(d', r, same). ret (d', r, hit)) \<and>
    (calm d \<longrightarrow> findPosH we d p dir un False = Some (Inr (d\<lparr>d_cantEdit := False\<rparr>, q, hit))) \<and>
    tpos_ok (d_first d) (doc_text d) q \<and> (if dir = 1 then p \<le> q else q \<le> p) \<and> (p = q \<longrightarrow> hit) \<and> (un = ByColumn \<longrightarrow> pline q = pline p) \<and>
    (un \<noteq> ByColumn \<and> p = q \<longrightarrow> p = (if dir = 1 then Pos (d_first d + d_size d - 1) (int (length (last (doc_text d)))) else Pos (d_first d) 0))"
proof -
  obtain q hit where q: "findPosH we d p dir un False = pbind (skipAtomic d q (Some dir) True) (\<lambda>(d', r, same). ret (d', r, hit))"
    "tpos_ok (d_first d) (doc_text d) q" "if dir = 1 then p \<le> q else q \<le> p" "p = q \<longrightarrow> hit" "un = ByColumn \<longrightarrow> pline q = pline p"
    "un \<noteq> ByColumn \<and> p = q \<longrightarrow> p = (if dir = 1 then Pos (d_first d + d_size d - 1) (int (length (last (doc_text d)))) else Pos (d_first d) 0)"
    using findPosH_lands [OF assms, of we un] by blast
  have "calm d \<longrightarrow> findPosH we d p dir un False = Some (Inr (d\<lparr>d_cantEdit := False\<rparr>, q, hit))"
    unfolding q(1) using skipAtomic_calm [OF assms(1) _ q(2)] by (simp add: ret_def)
  then show ?thesis using q by (intro exI [of _ q] exI [of _ hit] conjI)
qed

text \<open>Only the lines of the document matter for the movement.\<close>

lemma word_loop_step:
  assumes "\<And>st. word_step d we v g dir st = word_step d' we v g dir st" and "word_loop d we v g dir st = Some y"
  shows "word_loop d' we v g dir st = Some y"
proof -
  let ?P = "\<lambda>e we' v' g' dir' st y. (e, we', v', g', dir') = (d, we, v, g, dir) \<longrightarrow> word_loop d' we v g dir st = Some y"
  have "?P d we v g dir st y"
  proof (rule word_loop.raw_induct [where P = ?P, OF _ assms(2)], rule impI)
    fix loop e we' v' g' dir' st y
    assume ih: "\<And>e we' v' g' dir' st y. loop e we' v' g' dir' st = Some y \<Longrightarrow> ?P e we' v' g' dir' st y"
      and b: "(case word_step e we' v' g' dir' st of None \<Rightarrow> None | Some (Inl e) \<Rightarrow> Some (Inl e)
        | Some (Inr (Inl st')) \<Rightarrow> loop e we' v' g' dir' st' | Some (Inr (Inr s)) \<Rightarrow> Some (Inr s)) = Some y"
      and e: "(e, we', v', g', dir') = (d, we, v, g, dir)"
    have eqs: "e = d" "we' = we" "v' = v" "g' = g" "dir' = dir" using e by simp_all
    from b have "(case word_step d' we v g dir st of None \<Rightarrow> None | Some (Inl e) \<Rightarrow> Some (Inl e)
        | Some (Inr (Inl st')) \<Rightarrow> loop d we v g dir st' | Some (Inr (Inr s)) \<Rightarrow> Some (Inr s)) = Some y" unfolding eqs assms(1) .
    then show "word_loop d' we v g dir st = Some y"
      using ih [of d we v g dir] by (subst word_loop.simps) (auto split: option.splits sum.splits)
  qed
  then show ?thesis by simp
qed

lemma lines_cantEdit [simp]: "getLine (d\<lparr>d_cantEdit := b\<rparr>) = getLine d" "d_size (d\<lparr>d_cantEdit := b\<rparr>) = d_size d"
  by (auto simp: getLine_def d_size_def Let_def fun_eq_iff)

lemma moveOnce_cantEdit [simp]: "moveOnce (d\<lparr>d_cantEdit := b\<rparr>) v c dir s = moveOnce d v c dir s"
proof -
  have "findNextLine (d\<lparr>d_cantEdit := b\<rparr>) dir s = findNextLine d dir s" by (auto simp: findNextLine_def Let_def)
  then show ?thesis unfolding moveOnce_def by (simp only:)
qed

lemma word_loop_cantEdit [simp]: "word_loop (d\<lparr>d_cantEdit := b\<rparr>) we v g dir st = word_loop d we v g dir st"
proof -
  have step: "word_step (d\<lparr>d_cantEdit := b\<rparr>) we v g dir st = word_step d we v g dir st" for st
    unfolding word_step_def moveOnce_cantEdit ..
  show ?thesis
    using word_loop_step [of "d\<lparr>d_cantEdit := b\<rparr>" we v g dir d st, OF step] word_loop_step [of d we v g dir "d\<lparr>d_cantEdit := b\<rparr>" st, OF step [symmetric]]
    by (metis not_Some_eq)
qed

lemma findPosH_cantEdit: "findPosH we (d\<lparr>d_cantEdit := b\<rparr>) p dir un v = findPosH we d p dir un v"
  unfolding findPosH_def moveOnce_cantEdit word_loop_cantEdit by (simp add: skipAtomic_def)

definition no_words :: word_env where
  "no_words = (\<lambda>_. False, None)"

theorem findPosH_moves_witness:
  "case Doc plain [js ''ab'', js ''c''] 0 of
     Some (Inr d) \<Rightarrow> \<exists>q hit. findPosH no_words d (Pos 0 2) 1 ByWord False = Some (Inr (d\<lparr>d_cantEdit := False\<rparr>, q, hit)) \<and> Pos 0 2 < q
   | _ \<Rightarrow> False"
proof -
  obtain d where d: "Doc plain [js ''ab'', js ''c''] 0 = Some (Inr d)" "hist_ok d" "d_first d = 0" "doc_text d = [js ''ab'', js ''c'']"
    by (rule Doc_example)
  have ok: "doc_ok d" "calm d" using d(2) by (simp_all add: hist_ok_def)
  have "d_size d = 2" using d_size_ok [OF ok(1)] length_doc_text [of d] d(4) by simp
  moreover have "tpos_ok 0 [js ''ab'', js ''c''] (Pos 0 2)" by (simp add: tpos_ok_def js_def)
  ultimately show ?thesis using findPosH_moves [OF ok(1), of "Pos 0 2" 1 no_words ByWord] ok(2) d(1,3,4) by (auto simp: js_def less_le)
qed

text \<open>
  The comment on \<open>findPosH\<close> says that \<^verbatim>\<open>hitSide\<close> is set when the movement reaches the end of the document. Moving by a word
  over the white space at the end of a line sets it, too, although another line follows.
\<close>

lemma hitSide_inside_document:
  "case Doc plain [js ''a '', js ''b''] 0 of
     Some (Inr d) \<Rightarrow>
       (case findPosH no_words d (Pos 0 1) 1 ByWord False of Some (Inr (d', q, hit)) \<Rightarrow> q = Pos 0 2 \<and> hit | _ \<Rightarrow> False)
   | _ \<Rightarrow> False"
  by code_simp

text \<open>
  Moving visually, \<open>moveVisually\<close> can return the position it is called with, as \<open>cursor_stuck_behind_number\<close> shows. The
  loop for words then never ends: from behind the letter in the text of a right-to-left letter and a digit.
\<close>

lemma word_loop_stuck:
  assumes "moveOnce d visually True 1 s = Some (Inr (True, s))" and "char_type_at we grp False s = Some ty"
  shows "word_loop d we visually grp 1 (False, Some ty, s) = None"
proof -
  have step: "word_step d we visually grp 1 (False, Some ty, s) = Some (Inr (Inl (False, Some ty, s)))"
    using assms by (simp add: word_step_def ret_def)
  let ?P = "\<lambda>d' we' v' g' dir' st y. (d', we', v', g', dir', st) \<noteq> (d, we, visually, grp, 1, (False, Some ty, s))"
  have "?P d' we' v' g' dir' st y" if "word_loop d' we' v' g' dir' st = Some y" for d' we' v' g' dir' st y
  proof (rule word_loop.raw_induct [where P = ?P, OF _ that], rule notI)
    fix loop d' we' v' g' dir' st y
    assume ih: "\<And>d' we' v' g' dir' st y. loop d' we' v' g' dir' st = Some y \<Longrightarrow> ?P d' we' v' g' dir' st y"
      and b: "(case word_step d' we' v' g' dir' st of None \<Rightarrow> None | Some (Inl e) \<Rightarrow> Some (Inl e)
        | Some (Inr (Inl st')) \<Rightarrow> loop d' we' v' g' dir' st' | Some (Inr (Inr s)) \<Rightarrow> Some (Inr s)) = Some y"
      and e: "(d', we', v', g', dir', st) = (d, we, visually, grp, 1, (False, Some ty, s))"
    have "loop d we visually grp 1 (False, Some ty, s) = Some y" using b e step by simp
    from ih [OF this] show False by simp
  qed
  from this [of d we visually grp 1 "(False, Some ty, s)"] show ?thesis by (meson not_Some_eq)
qed

lemma findPosH_hangs:
  "case Doc plain [[1488, 49]] 0 of Some (Inr d) \<Rightarrow> findPosH no_words d (Pos 0 1) 1 ByWord True = None | _ \<Rightarrow> False"
proof -
  obtain d where d: "Doc plain [[1488, 49]] 0 = Some (Inr d)" using Doc_ok [of "[[1488, 49]]" plain 0] by auto
  have "case Doc plain [[1488, 49]] 0 of
      Some (Inr d) \<Rightarrow> (case getLine d 0 of
        Inr l \<Rightarrow> l_text l = [1488, 49] \<and> moveVisually l 1 1 True = Some (Inr (Some 1)) | _ \<Rightarrow> False) | _ \<Rightarrow> False"
    by code_simp
  then obtain l where l: "getLine d 0 = Inr l" "l_text l = [1488, 49]" "moveVisually l 1 1 True = Some (Inr (Some 1))"
    using d by (auto split: sum.splits)
  define s where "s = \<lparr>cu_line = 0, cu_ch = 1, cu_obj = l, cu_possible = True\<rparr>"
  have m: "moveOnce d True b 1 s = Some (Inr (True, s))" for b using l(3) by (simp add: moveOnce_def s_def ret_def)
  have ty: "char_type_at no_words False f s = Some WordType" for f
  proof -
    have "isWordCharBasic (\<lambda>_. False) 49" by code_simp
    then show ?thesis by (simp add: char_type_at_def s_def l(2) js_at_def no_words_def isWordChar_def)
  qed
  have "word_step d no_words True False 1 (True, None, s) = Some (Inr (Inl (False, Some WordType, s)))"
    using m ty by (simp add: word_step_def ret_def)
  then have "word_loop d no_words True False 1 (True, None, s) = None"
    using word_loop_stuck [OF m ty] by (subst word_loop.simps) simp
  then show ?thesis using d l(1) by (simp add: findPosH_def s_def Let_def)
qed

section \<open>Deleting near the selections\<close>

subsection \<open>Merging the ranges\<close>

definition apart_ranges :: "(pos \<times> pos) list \<Rightarrow> bool" where
  "apart_ranges ks \<longleftrightarrow> sorted_wrt (\<lambda>a b. snd b < fst a) ks \<and> (\<forall>k \<in> set ks. fst k \<le> snd k)"

text \<open>The numbers from the image of the start of a range to that of its end.\<close>

definition in_range :: "(pos \<Rightarrow> nat) \<Rightarrow> nat \<Rightarrow> pos \<times> pos \<Rightarrow> bool" where
  "in_range g i k \<longleftrightarrow> g (fst k) \<le> i \<and> i < g (snd k)"

lemma kill_pop_ok:
  assumes k: "fst k \<le> snd k" "V (fst k)" "V (snd k)" and mono: "\<And>a b. V a \<Longrightarrow> V b \<Longrightarrow> a \<le> b \<Longrightarrow> g a \<le> g b"
  shows "apart_ranges ks \<Longrightarrow> \<forall>r \<in> set ks. snd r \<le> snd k \<and> V (fst r) \<and> V (snd r) \<Longrightarrow>
    apart_ranges (kill_pop ks k) \<and> (\<forall>r \<in> set (kill_pop ks k). snd r \<le> snd k \<and> V (fst r) \<and> V (snd r)) \<and>
    (\<forall>i. (\<exists>r \<in> set (kill_pop ks k). in_range g i r) \<longleftrightarrow> (\<exists>r \<in> set (k # ks). in_range g i r))"
proof (induction ks)
  case Nil
  then show ?case using k by (simp add: apart_ranges_def)
next
  case (Cons r rs)
  have r: "apart_ranges rs" "\<forall>r \<in> set rs. snd r \<le> snd k \<and> V (fst r) \<and> V (snd r)" "fst r \<le> snd r" "snd r \<le> snd k" "\<forall>b \<in> set rs. snd b < fst r"
    "V (fst r)" "V (snd r)"
    using Cons.prems by (auto simp: apart_ranges_def)
  consider (far) "snd r < fst k" | (join) "fst k \<le> snd r" "fst r < fst k" | (inside) "fst k \<le> snd r" "fst k \<le> fst r" by force
  then show ?case
  proof cases
    case far
    then show ?thesis using Cons.prems k r by (auto simp: apart_ranges_def)
  next
    case join
    have "g (fst k) \<le> g (snd r)" "g (snd r) \<le> g (snd k)" "g (fst r) \<le> g (fst k)" using join r(4,6,7) k mono by auto
    then have "in_range g i (fst r, snd k) \<longleftrightarrow> in_range g i r \<or> in_range g i k" for i by (auto simp: in_range_def)
    then show ?thesis using join r k by (auto simp: apart_ranges_def)
  next
    case inside
    have "g (fst k) \<le> g (fst r)" "g (snd r) \<le> g (snd k)" using inside r(4,6,7) k mono by auto
    then have "in_range g i r \<Longrightarrow> in_range g i k" for i by (auto simp: in_range_def)
    then show ?thesis using inside Cons.IH [OF r(1,2)] by auto
  qed
qed

subsection \<open>The text as one string\<close>

definition flat :: "jsstring list \<Rightarrow> jsstring" where
  "flat T = js_join [lf] T"

definition toff :: "int \<Rightarrow> jsstring list \<Rightarrow> pos \<Rightarrow> nat" where
  "toff n T p = nat (text_offset T (nat (pline p - n)) (pch p))"

lemma flat_middle: "flat (A @ (x @ y) # B) = flat (A @ [x]) @ flat (y # B)"
proof (induction A)
  case Nil
  then show ?case by (cases B) (simp_all add: flat_def)
next
  case (Cons a A)
  then show ?case by (simp add: flat_def js_join_Cons)
qed

lemma flat_prefix: "c \<le> length (T ! k) \<Longrightarrow> k < length T \<Longrightarrow> int (length (flat (take k T @ [take c (T ! k)]))) = text_offset T k (int c)"
proof (induction T arbitrary: k)
  case (Cons t T)
  then show ?case by (cases k) (simp_all add: flat_def js_join_Cons)
qed simp

lemma flat_split:
  assumes "tpos_ok n T p" and "p = Pos (n + int k) (int c)"
  shows "take (toff n T p) (flat T) = flat (take k T @ [take c (T ! k)])" "drop (toff n T p) (flat T) = flat (drop c (T ! k) # drop (Suc k) T)"
    "toff n T p \<le> length (flat T)"
proof -
  have k: "k < length T" "c \<le> length (T ! k)" using assms by simp_all
  have "T = take k T @ (take c (T ! k) @ drop c (T ! k)) # drop (Suc k) T" using id_take_nth_drop [OF k(1)] by simp
  then have f: "flat T = flat (take k T @ [take c (T ! k)]) @ flat (drop c (T ! k) # drop (Suc k) T)" using flat_middle by metis
  have l: "toff n T p = length (flat (take k T @ [take c (T ! k)]))" using flat_prefix [OF k(2,1)] assms(2) by (simp add: toff_def)
  show "take (toff n T p) (flat T) = flat (take k T @ [take c (T ! k)])" "drop (toff n T p) (flat T) = flat (drop c (T ! k) # drop (Suc k) T)"
    "toff n T p \<le> length (flat T)" unfolding l f by simp_all
qed

lemma toff_less:
  assumes "tpos_ok n T p" and "tpos_ok n T q" and "p < q"
  shows "toff n T p < toff n T q"
proof -
  obtain k c where p: "p = Pos (n + int k) (int c)" "k < length T" "c \<le> length (T ! k)" using assms(1) by (rule tpos_okE)
  obtain k' c' where q: "q = Pos (n + int k') (int c')" "k' < length T" using assms(2) by (rule tpos_okE)
  have "text_offset T k (int c) < text_offset T k' (int c')"
  proof (cases "k = k'")
    case True
    then show ?thesis using assms(3) by (simp add: p(1) q(1) Pos_less_iff text_offset_def)
  next
    case False
    then have kk: "k < k'" using assms(3) by (simp add: p(1) q(1) Pos_less_iff)
    have "take k' T = take k T @ T ! k # take (k' - Suc k) (drop (Suc k) T)"
      using kk p(2) by (metis Cons_nth_drop_Suc Suc_diff_Suc le_add_diff_inverse less_imp_le take_Suc_Cons take_add)
    moreover have "0 \<le> sum_list (map (\<lambda>t. int (length t) + 1) (take (k' - Suc k) (drop (Suc k) T)))" by (intro sum_list_nonneg) auto
    ultimately show ?thesis using p(3) by (simp add: text_offset_def)
  qed
  moreover have "0 \<le> text_offset T k (int c)" by (rule text_offset_nonneg) simp
  ultimately show ?thesis by (simp add: toff_def p(1) q(1))
qed

lemma toff_le: "tpos_ok n T p \<Longrightarrow> tpos_ok n T q \<Longrightarrow> p \<le> q \<Longrightarrow> toff n T p \<le> toff n T q"
  using toff_less [of n T p q] by (cases "p = q") (auto simp: less_le)

lemma delete_flat:
  assumes "tvalid n T f t [[]]"
  shows "flat (trepl n T f t [[]]) = take (toff n T f) (flat T) @ drop (toff n T t) (flat T)"
proof -
  obtain F fc E ec where f: "f = Pos (n + int F) (int fc)" "t = Pos (n + int E) (int ec)" "trepl n T f t [[]] = replace_text T F fc E ec [[]]"
    using assms by (rule tvalidE)
  have ok: "tpos_ok n T f" "tpos_ok n T t" using assms by (simp_all add: tvalid_def)
  show ?thesis unfolding flat_split(1) [OF ok(1) f(1)] flat_split(2) [OF ok(2) f(2)] f(3)
    by (simp add: replace_text_def join_ends_single flat_middle)
qed

lemma before_delete:
  assumes "tvalid n T f t [[]]" and "tpos_ok n T p" and "p \<le> f"
  shows "tpos_ok n (trepl n T f t [[]]) p" "toff n (trepl n T f t [[]]) p = toff n T p"
proof -
  obtain F fc E ec where f: "f = Pos (n + int F) (int fc)" "t = Pos (n + int E) (int ec)" "F \<le> E" "E < length T" "fc \<le> length (T ! F)"
    "trepl n T f t [[]] = replace_text T F fc E ec [[]]" using assms(1) by (rule tvalidE)
  define T' where "T' = replace_text T F fc E ec [[]]"
  note parts = replace_text_parts [OF f(3-5) _ T'_def]
  obtain k c where p: "p = Pos (n + int k) (int c)" "k < length T" "c \<le> length (T ! k)" using assms(2) by (rule tpos_okE)
  have "k < F \<or> k = F \<and> c \<le> fc" using assms(3) by (simp add: p(1) f(1) Pos_le_iff)
  then have "k < length T' \<and> c \<le> length (T' ! k) \<and> take k T' = take k T"
  proof
    assume "k < F"
    then show ?thesis using parts(1,11) p(3) by (metis nth_take less_trans list.distinct(1) min.absorb1 less_imp_le take_take)
  next
    assume "k = F \<and> c \<le> fc"
    then show ?thesis using parts(1,8,11) by simp
  qed
  then show "tpos_ok n (trepl n T f t [[]]) p" "toff n (trepl n T f t [[]]) p = toff n T p"
    by (simp_all add: f(6) T'_def [symmetric] p(1) toff_def text_offset_def)
qed

lemma nths_cong: "(\<And>i. i < length xs \<Longrightarrow> i \<in> A \<longleftrightarrow> i \<in> B) \<Longrightarrow> nths xs A = nths xs B"
  unfolding nths_def by (intro arg_cong [where f = "map fst"] filter_cong) (auto simp: set_zip)

lemma nths_cut:
  assumes "a \<le> b" "b \<le> length xs" "\<And>i. a \<le> i \<Longrightarrow> i \<in> A"
  shows "nths (take a xs @ drop b xs) A = nths xs (A - {a..<b})"
proof -
  have "nths (drop b xs) {j. j + a \<in> A} = drop b xs" "nths (drop b xs) {j. j + b \<in> A - {a..<b}} = drop b xs"
    using assms(1,3) nths_cong [of "drop b xs" _ UNIV] by (simp_all add: nths_all)
  moreover have "nths (take (b - a) (drop a xs)) {j. j + a \<in> A - {a..<b}} = nths (take (b - a) (drop a xs)) {}"
    by (rule nths_cong) auto
  moreover have "nths (take a xs) A = nths (take a xs) (A - {a..<b})" by (rule nths_cong) auto
  moreover have "xs = take a xs @ take (b - a) (drop a xs) @ drop b xs"
    using assms(1) by (metis append_take_drop_id drop_drop le_add_diff_inverse2)
  then have "nths xs (A - {a..<b}) = nths (take a xs @ take (b - a) (drop a xs) @ drop b xs) (A - {a..<b})" by (rule arg_cong)
  ultimately show ?thesis using assms(1,2) by (simp add: nths_append add.assoc add.commute min_def)
qed

lemma delete_ranges_ok:
  assumes env: "plain_env env"
  shows "hist_ok d \<Longrightarrow> apart_ranges ks \<Longrightarrow> \<forall>k \<in> set ks. tpos_ok (d_first d) (doc_text d) (fst k) \<and> tpos_ok (d_first d) (doc_text d) (snd k) \<Longrightarrow>
    \<exists>d'. delete_ranges env ks d = Some (Inr d') \<and> hist_ok d' \<and>
      flat (doc_text d') = nths (flat (doc_text d)) {i. \<forall>k \<in> set ks. \<not> in_range (toff (d_first d) (doc_text d)) i k}"
proof (induction ks arbitrary: d)
  case Nil
  then show ?case by (simp add: ret_def nths_all)
next
  case (Cons k ks)
  let ?n = "d_first d" and ?T = "doc_text d"
  have k: "fst k \<le> snd k" "tpos_ok ?n ?T (fst k)" "tpos_ok ?n ?T (snd k)" "\<forall>r \<in> set ks. fst r \<le> snd r \<and> snd r < fst k" "apart_ranges ks"
    using Cons.prems(2,3) by (auto simp: apart_ranges_def)
  have v: "tvalid ?n ?T (fst k) (snd k) [[]]" using k(1-3) by (simp add: tvalid_def)
  define c where "c = \<lparr>c_from = fst k, c_to = snd k, c_text = [[]], c_origin = Some (js ''+delete''), c_removed = []\<rparr>"
  have rep: "replaceRange env d [[]] (fst k) (Some (snd k)) (Some (js ''+delete'')) = makeChange env d c False"
    using k(1) by (cases k) (auto simp: replaceRange_def c_def not_less [symmetric])
  obtain d1 where d1: "makeChange env d c False = Some (Inr d1)" "hist_ok d1" "d_first d1 = ?n" "doc_text d1 = trepl ?n ?T (fst k) (snd k) [[]]"
    using makeChange_ok [OF Cons.prems(1) env, of c False] v by (auto simp: c_def)
  have before: "tpos_ok ?n (doc_text d1) q \<and> toff ?n (doc_text d1) q = toff ?n ?T q" if "tpos_ok ?n ?T q" "q \<le> fst k" for q
    unfolding d1(4) using before_delete [OF v that] by simp
  have rest: "\<forall>r \<in> set ks. tpos_ok ?n (doc_text d1) (fst r) \<and> tpos_ok ?n (doc_text d1) (snd r) \<and>
      toff ?n (doc_text d1) (fst r) = toff ?n ?T (fst r) \<and> toff ?n (doc_text d1) (snd r) = toff ?n ?T (snd r)"
    using before Cons.prems(3) k(4) by (meson less_imp_le list.set_intros(2) order.trans)
  then obtain d' where d': "delete_ranges env ks d1 = Some (Inr d')" "hist_ok d'"
    "flat (doc_text d') = nths (flat (doc_text d1)) {i. \<forall>r \<in> set ks. \<not> in_range (toff ?n (doc_text d1)) i r}"
    using Cons.IH [OF d1(2) k(5)] d1(3) by auto
  have len: "toff ?n ?T (snd k) \<le> length (flat ?T)" by (rule tpos_okE [OF k(3)]) (rule flat_split(3) [OF k(3)])
  define A where "A = {i. \<forall>r \<in> set ks. \<not> in_range (toff ?n ?T) i r}"
  have "{i. \<forall>r \<in> set ks. \<not> in_range (toff ?n (doc_text d1)) i r} = A" using rest by (auto simp: A_def in_range_def)
  moreover have "i \<in> A" if "toff ?n ?T (fst k) \<le> i" for i
  proof -
    have "toff ?n ?T (snd r) \<le> i" if "r \<in> set ks" for r
      using toff_le [of ?n ?T "snd r" "fst k"] k(2,4) Cons.prems(3) \<open>r \<in> set ks\<close> \<open>toff ?n ?T (fst k) \<le> i\<close> by (meson less_imp_le list.set_intros(2) order.trans)
    then show ?thesis unfolding A_def in_range_def mem_Collect_eq by (meson leD)
  qed
  then have "nths (take (toff ?n ?T (fst k)) (flat ?T) @ drop (toff ?n ?T (snd k)) (flat ?T)) A =
      nths (flat ?T) (A - {toff ?n ?T (fst k)..<toff ?n ?T (snd k)})"
    using nths_cut [of "toff ?n ?T (fst k)" "toff ?n ?T (snd k)" "flat ?T" A] toff_le [OF k(2,3,1)] len by blast
  moreover have "A - {toff ?n ?T (fst k)..<toff ?n ?T (snd k)} = {i. \<forall>r \<in> set (k # ks). \<not> in_range (toff ?n ?T) i r}"
    by (auto simp: A_def in_range_def)
  ultimately have "flat (doc_text d') = nths (flat ?T) {i. \<forall>r \<in> set (k # ks). \<not> in_range (toff ?n ?T) i r}"
    using d'(3) delete_flat [OF v] by (simp add: d1(4))
  then show ?case using rep d1(1) d'(1,2) by simp
qed

text \<open>The computed ranges of all selections, in their order; the document is passed along.\<close>

fun compute_all ::
  "(range \<Rightarrow> ('st, 'x) hdoc_scheme \<Rightarrow> ((pos \<times> pos) \<times> ('st, 'x) hdoc_scheme) comp) \<Rightarrow> range list \<Rightarrow>
   ('st, 'x) hdoc_scheme \<Rightarrow> ((pos \<times> pos) list \<times> ('st, 'x) hdoc_scheme) comp" where
  "compute_all compute [] d = ret ([], d)"
| "compute_all compute (r # rs) d =
     pbind (compute r d) (\<lambda>(k, d1). pbind (compute_all compute rs d1) (\<lambda>(ks, d2). ret (k # ks, d2)))"

lemma kill_ranges_fold:
  "compute_all compute rs d = Some (Inr (ks, e)) \<Longrightarrow> kill_ranges compute rs kill d = Some (Inr (foldl kill_pop kill ks, e))"
proof (induction rs arbitrary: d ks kill)
  case (Cons r rs)
  then obtain k d1 ks' where "compute r d = Some (Inr (k, d1))" "compute_all compute rs d1 = Some (Inr (ks', e))" "ks = k # ks'"
    by (auto simp: pbind_def ret_def split: option.splits sum.splits)
  then show ?case using Cons.IH by simp
qed (simp add: ret_def)

lemma merged_ranges:
  assumes mono: "\<And>a b. V a \<Longrightarrow> V b \<Longrightarrow> a \<le> b \<Longrightarrow> g a \<le> g b"
  shows "\<forall>k \<in> set ks. fst k \<le> snd k \<and> V (fst k) \<and> V (snd k) \<Longrightarrow> sorted (map snd ks) \<Longrightarrow> apart_ranges kill \<Longrightarrow>
    \<forall>r \<in> set kill. (\<forall>k \<in> set ks. snd r \<le> snd k) \<and> V (fst r) \<and> V (snd r) \<Longrightarrow>
    apart_ranges (foldl kill_pop kill ks) \<and> (\<forall>r \<in> set (foldl kill_pop kill ks). V (fst r) \<and> V (snd r)) \<and>
      (\<forall>i. (\<exists>r \<in> set (foldl kill_pop kill ks). in_range g i r) \<longleftrightarrow> (\<exists>r \<in> set kill \<union> set ks. in_range g i r))"
proof (induction ks arbitrary: kill)
  case (Cons k ks)
  have k: "fst k \<le> snd k" "V (fst k)" "V (snd k)" using Cons.prems(1) by auto
  have "apart_ranges (kill_pop kill k) \<and> (\<forall>r \<in> set (kill_pop kill k). snd r \<le> snd k \<and> V (fst r) \<and> V (snd r)) \<and>
    (\<forall>i. (\<exists>r \<in> set (kill_pop kill k). in_range g i r) \<longleftrightarrow> (\<exists>r \<in> set (k # kill). in_range g i r))"
    by (rule kill_pop_ok [OF k mono Cons.prems(3)]) (use Cons.prems(4) in auto)
  then have pop: "apart_ranges (kill_pop kill k)" "\<forall>r \<in> set (kill_pop kill k). snd r \<le> snd k \<and> V (fst r) \<and> V (snd r)"
    "\<And>i. (\<exists>r \<in> set (kill_pop kill k). in_range g i r) \<longleftrightarrow> (\<exists>r \<in> set (k # kill). in_range g i r)" by blast+
  have s: "\<forall>k \<in> set ks. fst k \<le> snd k \<and> V (fst k) \<and> V (snd k)" "sorted (map snd ks)" "\<forall>k' \<in> set ks. snd k \<le> snd k'"
    using Cons.prems(1,2) by auto
  have "\<forall>r \<in> set (kill_pop kill k). (\<forall>k' \<in> set ks. snd r \<le> snd k') \<and> V (fst r) \<and> V (snd r)" using pop(2) s(3) by (meson order.trans)
  from Cons.IH [OF s(1,2) pop(1) this] show ?case by (simp only: foldl_Cons bex_Un pop(3) list.set bex_simps) blast
qed simp

text \<open>Ranges to delete: positions of the text, their ends in the order of the selections.\<close>

definition deletable :: "('st, 'x) hdoc_scheme \<Rightarrow> (pos \<times> pos) list \<Rightarrow> bool" where
  "deletable d ks \<longleftrightarrow>
     (\<forall>k \<in> set ks. fst k \<le> snd k \<and> tpos_ok (d_first d) (doc_text d) (fst k) \<and> tpos_ok (d_first d) (doc_text d) (snd k)) \<and> sorted (map snd ks)"

lemma deleteNearSelection_ok:
  assumes "plain_env env" and all: "compute_all compute (ranges (d_sel d)) d = Some (Inr (ks, e))"
    and e: "hist_ok e" "d_first e = d_first d" "doc_text e = doc_text d" and ks: "deletable d ks"
  shows "\<exists>d'. deleteNearSelection env d compute = Some (Inr d') \<and> hist_ok d' \<and>
    flat (doc_text d') = nths (flat (doc_text d)) {i. \<forall>k \<in> set ks. \<not> in_range (toff (d_first d) (doc_text d)) i k}"
proof -
  let ?V = "tpos_ok (d_first d) (doc_text d)" and ?g = "toff (d_first d) (doc_text d)"
  define kill where "kill = foldl kill_pop [] ks"
  have k: "\<forall>k \<in> set ks. fst k \<le> snd k \<and> ?V (fst k) \<and> ?V (snd k)" "sorted (map snd ks)" using ks by (simp_all add: deletable_def)
  have "apart_ranges kill \<and> (\<forall>r \<in> set kill. ?V (fst r) \<and> ?V (snd r)) \<and>
      (\<forall>i. (\<exists>r \<in> set kill. in_range ?g i r) \<longleftrightarrow> (\<exists>r \<in> set [] \<union> set ks. in_range ?g i r))"
    unfolding kill_def by (rule merged_ranges [OF toff_le k]) (simp_all add: apart_ranges_def)
  then have m: "apart_ranges kill" "\<forall>r \<in> set kill. ?V (fst r) \<and> ?V (snd r)"
    "{i. \<forall>k \<in> set kill. \<not> in_range ?g i k} = {i. \<forall>k \<in> set ks. \<not> in_range ?g i k}" by auto
  show ?thesis using delete_ranges_ok [OF assms(1) e(1) m(1)] m(2,3) kill_ranges_fold [OF all, of "[]"]
    by (simp add: deleteNearSelection_def e(2,3) kill_def)
qed

text \<open>C24: Deleting near the selections removes exactly the characters of the ranges that are computed for the selections,
  each once although the ranges may overlap, when these ranges are positions of the text and their ends are
  in the order of the selections. The history, which is consistent before, stays consistent, so that the
  deletion can be undone. The environment is plain: no handler or filter interferes and nothing is read-only. No marker is atomic or clears itself when entered, and none
  has been cleared.\<close>

theorem deleteNearSelection_removes:
  assumes "plain_env env" and "compute_all compute (ranges (d_sel d)) d = Some (Inr (ks, e))"
    and "hist_ok e" and "d_first e = d_first d" and "doc_text e = doc_text d" and "deletable d ks"
  shows "\<exists>d'. deleteNearSelection env d compute = Some (Inr d') \<and> hist_ok d' \<and>
    flat (doc_text d') = nths (flat (doc_text d)) {i. \<forall>k \<in> set ks. \<not> in_range (toff (d_first d) (doc_text d)) i k}"
  by (rule deleteNearSelection_ok [OF assms])

theorem deleteNearSelection_removes_witness:
  "case Doc plain [js ''ab'', js ''c''] 0 of
     Some (Inr d) \<Rightarrow> \<exists>d'. deleteNearSelection plain d (\<lambda>r e. ret ((Pos 0 1, Pos 1 0), e)) = Some (Inr d') \<and> hist_ok d' \<and> flat (doc_text d') = js ''ac''
   | _ \<Rightarrow> False"
proof -
  obtain d where d: "Doc plain [js ''ab'', js ''c''] 0 = Some (Inr d)" "hist_ok d" "d_first d = 0" "doc_text d = [js ''ab'', js ''c'']"
    by (rule Doc_example)
  have "case Doc plain [js ''ab'', js ''c''] 0 of Some (Inr d) \<Rightarrow> length (ranges (d_sel d)) = 1 | _ \<Rightarrow> False" by code_simp
  then obtain r where r: "ranges (d_sel d) = [r]" using d(1) by (auto simp: length_Suc_conv)
  let ?k = "(Pos 0 1, Pos 1 0)"
  have "compute_all (\<lambda>r e. ret (?k, e)) (ranges (d_sel d)) d = Some (Inr ([?k], d))" by (simp add: r ret_def)
  moreover have "deletable d [?k]" by (simp add: deletable_def d(3,4) tpos_ok_def less_eq_pos_def js_def)
  moreover have "nths (flat [js ''ab'', js ''c'']) {i. \<not> in_range (toff 0 [js ''ab'', js ''c'']) i ?k} = js ''ac''"
    by (simp add: flat_def js_def toff_def in_range_def text_offset_def nths_Cons)
  ultimately show ?thesis using deleteNearSelection_removes [OF plain_env_plain, of "\<lambda>r e. ret (?k, e)" d "[?k]" d] d by simp
qed

text \<open>
  The word at a position: with the character that decides (the one before the position at the end of the line or left
  of the pointer, else the one behind it), the range goes as far as the characters of its kind in both directions.
\<close>

lemma extend_left_ok: "i \<le> length s \<Longrightarrow> extend_left check s i \<le> i \<and> (\<forall>j. extend_left check s i \<le> j \<and> j < i \<longrightarrow> check (s ! j)) \<and>
    (extend_left check s i > 0 \<longrightarrow> \<not> check (s ! (extend_left check s i - 1)))"
proof (induction i)
  case (Suc i)
  show ?case
  proof (cases "check (s ! i)")
    case True
    then have "extend_left check s (Suc i) = extend_left check s i" using Suc.prems by simp
    then show ?thesis using Suc.IH Suc.prems True by (metis Suc_leD le_SucI less_Suc_eq)
  next
    case False
    then show ?thesis using Suc.prems by auto
  qed
qed simp

lemma extend_right_ok: "i \<le> length s \<Longrightarrow> i \<le> extend_right check s i \<and> extend_right check s i \<le> length s \<and>
    (\<forall>j. i \<le> j \<and> j < extend_right check s i \<longrightarrow> check (s ! j)) \<and> (extend_right check s i < length s \<longrightarrow> \<not> check (s ! extend_right check s i))"
proof (induction check s i rule: extend_right.induct)
  case (1 check s i)
  show ?case
  proof (cases "i < length s \<and> check (s ! i)")
    case True
    then have e: "extend_right check s i = extend_right check s (Suc i)" by (subst extend_right.simps) simp
    show ?thesis unfolding e using "1.IH" [OF True] True by (metis Suc_le_eq le_less less_imp_le)
  next
    case False
    then have e: "extend_right check s i = i" by (subst extend_right.simps) auto
    show ?thesis unfolding e using "1.prems" False by auto
  qed
qed

end
