(* ===== verification/ViewTracking.thy ===== *)
theory ViewTracking
  imports History
begin

text \<open>
  The list of visual lines that an editor shows (\<^verbatim>\<open>src/js/codemirror/codemirror.js\<close>, section VIEW TRACKING):
  building it, cutting it when the document changes, and moving it to another range of lines. A line is
  represented by its identity, a node of the page by whether there is one.
\<close>

section \<open>Definitions\<close>

record line_view =
  lv_line :: nat
  lv_rest :: "nat list"
  lv_size :: int
  lv_hidden :: bool
  lv_node :: bool
  lv_changes :: "jsstring list option"

text \<open>
  The fields of the display and of the current operation that are used: \<open>v_externalMeasured\<close> is the line number and
  the size of the line view that is measured outside of the view.
\<close>

record display =
  v_view :: "line_view list"
  v_from :: int
  v_to :: int
  v_offset :: int
  v_updateLineNumbers :: "int option"
  v_externalMeasured :: "(int \<times> int) option"
  v_viewChanged :: bool

text \<open>A line that is in no document has no number, and \<^verbatim>\<open>null\<close> counts as 0.\<close>

definition LineView :: "(nat \<Rightarrow> marker) \<Rightarrow> bool \<Rightarrow> ('st, 'x) doc_scheme \<Rightarrow> 'st line \<Rightarrow> int \<Rightarrow> line_view comp" where
  "LineView M saw d l lineN =
     pbind (visualLineContinued M saw d l) (\<lambda>cont.
     pbind (lineIsHidden M saw d l) (\<lambda>hidden.
       ret \<lparr>lv_line = l_id l, lv_rest = map l_id cont,
            lv_size = (if cont = [] then 1 else (case lineNo d (l_id (last cont)) of Some n \<Rightarrow> n | None \<Rightarrow> 0) - lineN + 1),
            lv_hidden = hidden, lv_node = False, lv_changes = None\<rparr>))"

definition view_at :: "(nat \<Rightarrow> marker) \<Rightarrow> bool \<Rightarrow> ('st, 'x) doc_scheme \<Rightarrow> int \<Rightarrow> line_view comp" where
  "view_at M saw d n = pbind (Some (getLine d n)) (\<lambda>l. LineView M saw d l n)"

partial_function (option) build_loop ::
  "(nat \<Rightarrow> marker) \<Rightarrow> bool \<Rightarrow> ('st, 'x) doc_scheme \<Rightarrow> int \<Rightarrow> int \<Rightarrow> line_view list \<Rightarrow> (doc_exn + line_view list) option" where
  "build_loop M saw d n to arr =
     (if n < to
      then (case view_at M saw d n of
              None \<Rightarrow> None
            | Some (Inl e) \<Rightarrow> Some (Inl e)
            | Some (Inr v) \<Rightarrow> build_loop M saw d (n + lv_size v) to (arr @ [v]))
      else Some (Inr arr))"

declare build_loop.simps [code] visualLine.simps [code] visualLineContinued_loop.simps [code] lineIsHiddenInner.simps [code]

definition buildViewArray ::
  "(nat \<Rightarrow> marker) \<Rightarrow> bool \<Rightarrow> ('st, 'x) doc_scheme \<Rightarrow> int \<Rightarrow> int \<Rightarrow> line_view list comp" where
  "buildViewArray M saw d from to = build_loop M saw d from to []"

definition resetView :: "('st, 'x) doc_scheme \<Rightarrow> display \<Rightarrow> display" where
  "resetView d V = V\<lparr>v_from := d_first d, v_to := d_first d, v_view := [], v_offset := 0\<rparr>"

text \<open>\<open>findViewIndex\<close> gives \<^verbatim>\<open>null\<close>, an index, or \<^verbatim>\<open>undefined\<close> when its loop runs off the view.\<close>

datatype index = Null | Undefined | At nat

fun index_loop :: "line_view list \<Rightarrow> int \<Rightarrow> nat \<Rightarrow> index" where
  "index_loop [] n i = Undefined"
| "index_loop (v # vs) n i = (if n - lv_size v < 0 then At i else index_loop vs (n - lv_size v) (Suc i))"

definition findViewIndex :: "display \<Rightarrow> int \<Rightarrow> index" where
  "findViewIndex V n =
     (if n \<ge> v_to V then Null else if n - v_from V < 0 then Null else index_loop (v_view V) (n - v_from V) 0)"

definition slice_from :: "'a list \<Rightarrow> index \<Rightarrow> 'a list" where
  "slice_from xs i = (case i of At k \<Rightarrow> drop k xs | _ \<Rightarrow> xs)"

definition slice_to :: "'a list \<Rightarrow> index \<Rightarrow> 'a list" where
  "slice_to xs i = (case i of At k \<Rightarrow> take k xs | Null \<Rightarrow> [] | Undefined \<Rightarrow> xs)"

text \<open>
  The loop of \<open>viewCuttingPoint\<close> that looks for the start of a visual line. A number is compared with the
  number that \<open>visualLineNo\<close> gives. Without an index, reading the view raises, but for a \<open>null\<close> that counts
  upwards: it is the number 0 where the view is read and where it is incremented.
\<close>

definition not_start :: "(nat \<Rightarrow> marker) \<Rightarrow> bool \<Rightarrow> ('st, 'x) doc_scheme \<Rightarrow> int \<Rightarrow> bool comp" where
  "not_start M saw d n = pbind (visualLineNo M saw d n) (\<lambda>k. ret (k \<noteq> Some n))"

fun cut_down :: "(nat \<Rightarrow> marker) \<Rightarrow> bool \<Rightarrow> ('st, 'x) doc_scheme \<Rightarrow> line_view list \<Rightarrow> int \<Rightarrow> nat \<Rightarrow> (index \<times> int) option comp" where
  "cut_down M saw d view newN 0 = pbind (not_start M saw d newN) (\<lambda>b. ret (if b then None else Some (At 0, newN)))"
| "cut_down M saw d view newN (Suc i) =
     pbind (not_start M saw d newN) (\<lambda>b.
       if \<not> b then ret (Some (At (Suc i), newN))
       else if i < length view then cut_down M saw d view (newN - lv_size (view ! i)) i
       else Some (Inl TypeErr))"

function cut_up :: "(nat \<Rightarrow> marker) \<Rightarrow> bool \<Rightarrow> ('st, 'x) doc_scheme \<Rightarrow> line_view list \<Rightarrow> int \<Rightarrow> nat \<Rightarrow> (index \<times> int) option comp" where
  "cut_up M saw d view newN i =
     pbind (not_start M saw d newN) (\<lambda>b.
       if \<not> b then ret (Some (At i, newN))
       else if Suc i = length view then ret None
       else if i < length view then cut_up M saw d view (newN + lv_size (view ! i)) (Suc i)
       else Some (Inl TypeErr))"
  by pat_completeness auto
termination by (relation "measure (\<lambda>(M, saw, d, view, newN, i). length view - i)") auto

declare cut_up.simps [simp del]

definition cut_loop ::
  "(nat \<Rightarrow> marker) \<Rightarrow> bool \<Rightarrow> ('st, 'x) doc_scheme \<Rightarrow> line_view list \<Rightarrow> int \<Rightarrow> index \<Rightarrow> bool \<Rightarrow> (index \<times> int) option comp" where
  "cut_loop M saw d view newN i up =
     (case i of
        At k \<Rightarrow> if up then cut_up M saw d view newN k else cut_down M saw d view newN k
      | _ \<Rightarrow>
          pbind (not_start M saw d newN) (\<lambda>b.
            if \<not> b then ret (Some (i, newN))
            else if i = Null \<and> up \<and> view \<noteq> [] then cut_up M saw d view (newN + lv_size (view ! 0)) 1
            else Some (Inl TypeErr)))"

definition sizes :: "line_view list \<Rightarrow> int" where
  "sizes vs = sum_list (map lv_size vs)"

definition viewCuttingPoint ::
  "(nat \<Rightarrow> marker) \<Rightarrow> bool \<Rightarrow> ('st, 'x) doc_scheme \<Rightarrow> display \<Rightarrow> int \<Rightarrow> int \<Rightarrow> bool \<Rightarrow> (index \<times> int) option comp" where
  "viewCuttingPoint M saw d V oldN newN up =
     (let i = findViewIndex V oldN; view = v_view V
      in if \<not> saw \<or> newN = d_first d + d_size d then ret (Some (i, newN))
         else let n = v_from V + (case i of At k \<Rightarrow> sizes (take k view) | _ \<Rightarrow> 0)
              in if n = oldN then cut_loop M saw d view newN i up
                 else if \<not> up then cut_loop M saw d view (newN + (n - oldN)) i up
                 else (case i of
                         At k \<Rightarrow> if Suc k = length view then ret None
                                 else if k < length view then cut_loop M saw d view (newN + (n + lv_size (view ! k) - oldN)) (At (Suc k)) up
                                 else Some (Inl TypeErr)
                       | _ \<Rightarrow> Some (Inl TypeErr)))"

definition number_less :: "int option \<Rightarrow> int \<Rightarrow> bool" where
  "number_less a b \<longleftrightarrow> (case a of Some x \<Rightarrow> x | None \<Rightarrow> 0) < b"

definition cut_view :: "(nat \<Rightarrow> marker) \<Rightarrow> bool \<Rightarrow> ('st, 'x) doc_scheme \<Rightarrow> display \<Rightarrow> int \<Rightarrow> int \<Rightarrow> int \<Rightarrow> display comp" where
  "cut_view M saw d V from to lendiff =
     (if from \<ge> v_to V then
        pbind (if saw then visualLineNo M saw d from else ret (Some (v_to V))) (\<lambda>n.
          ret (if saw \<and> number_less n (v_to V) then resetView d V else V))
      else if to \<le> v_from V then
        pbind (if saw then visualLineEndNo M saw d (to + lendiff) else ret (Some (v_from V))) (\<lambda>n.
          ret (if saw \<and> \<not> number_less n (v_from V + 1) then resetView d V
               else V\<lparr>v_from := v_from V + lendiff, v_to := v_to V + lendiff\<rparr>))
      else if from \<le> v_from V \<and> to \<ge> v_to V then ret (resetView d V)
      else if from \<le> v_from V then
        pbind (viewCuttingPoint M saw d V to (to + lendiff) True) (\<lambda>cut. ret
          (case cut of
             Some (i, n) \<Rightarrow> V\<lparr>v_view := slice_from (v_view V) i, v_from := n, v_to := v_to V + lendiff\<rparr>
           | None \<Rightarrow> resetView d V))
      else if to \<ge> v_to V then
        pbind (viewCuttingPoint M saw d V from from False) (\<lambda>cut. ret
          (case cut of
             Some (i, n) \<Rightarrow> V\<lparr>v_view := slice_to (v_view V) i, v_to := n\<rparr>
           | None \<Rightarrow> resetView d V))
      else
        pbind (viewCuttingPoint M saw d V from from False) (\<lambda>cutTop.
        pbind (viewCuttingPoint M saw d V to (to + lendiff) True) (\<lambda>cutBot.
          case (cutTop, cutBot) of
            (Some (i, a), Some (j, b)) \<Rightarrow>
              pbind (buildViewArray M saw d a b) (\<lambda>mid.
                ret (V\<lparr>v_view := slice_to (v_view V) i @ mid @ slice_from (v_view V) j, v_to := v_to V + lendiff\<rparr>))
          | _ \<Rightarrow> ret (resetView d V))))"

definition shift_external :: "int \<Rightarrow> int \<Rightarrow> int \<Rightarrow> (int \<times> int) option \<Rightarrow> (int \<times> int) option" where
  "shift_external from to lendiff ext =
     (case ext of
        None \<Rightarrow> None
      | Some (n, s) \<Rightarrow> if to < n then Some (n + lendiff, s) else if from < n + s then None else ext)"

definition regChange ::
  "(nat \<Rightarrow> marker) \<Rightarrow> bool \<Rightarrow> ('st, 'x) doc_scheme \<Rightarrow> display \<Rightarrow> int option \<Rightarrow> int option \<Rightarrow> int \<Rightarrow> display comp" where
  "regChange M saw d V from to lendiff =
     (let f = (case from of Some n \<Rightarrow> n | None \<Rightarrow> d_first d); t = (case to of Some n \<Rightarrow> n | None \<Rightarrow> d_first d + d_size d);
          V1 = (if lendiff \<noteq> 0 \<and> t < v_to V \<and> (case v_updateLineNumbers V of None \<Rightarrow> True | Some u \<Rightarrow> u > f)
                then V\<lparr>v_updateLineNumbers := Some f\<rparr> else V)
      in pbind (cut_view M saw d (V1\<lparr>v_viewChanged := True\<rparr>) f t lendiff) (\<lambda>V2.
           ret (V2\<lparr>v_externalMeasured := shift_external f t lendiff (v_externalMeasured V2)\<rparr>)))"

definition regLineChange :: "display \<Rightarrow> int \<Rightarrow> jsstring \<Rightarrow> doc_exn + display" where
  "regLineChange V line ty =
     (let V1 = V\<lparr>v_viewChanged := True,
                 v_externalMeasured := (case v_externalMeasured V of
                     Some (n, s) \<Rightarrow> if line \<ge> n \<and> line < n + s then None else Some (n, s) | None \<Rightarrow> None)\<rparr>
      in if line < v_from V1 \<or> line \<ge> v_to V1 then Inr V1
         else case findViewIndex V1 line of
                At i \<Rightarrow>
                  let v = v_view V1 ! i; arr = (case lv_changes v of Some cs \<Rightarrow> cs | None \<Rightarrow> [])
                  in if \<not> lv_node v then Inr V1
                     else Inr (V1\<lparr>v_view := (v_view V1)[i := v\<lparr>lv_changes := Some (if ty \<in> set arr then arr else arr @ [ty])\<rparr>]\<rparr>)
              | _ \<Rightarrow> Inl TypeErr)"

definition adjustView ::
  "(nat \<Rightarrow> marker) \<Rightarrow> bool \<Rightarrow> ('st, 'x) doc_scheme \<Rightarrow> display \<Rightarrow> int \<Rightarrow> int \<Rightarrow> display comp" where
  "adjustView M saw d V from to =
     (if v_view V = [] \<or> from \<ge> v_to V \<or> to \<le> v_from V then
        pbind (buildViewArray M saw d from to) (\<lambda>vs. ret (V\<lparr>v_view := vs, v_from := from, v_to := to\<rparr>))
      else
        pbind (if v_from V > from then pbind (buildViewArray M saw d from (v_from V)) (\<lambda>vs. ret (vs @ v_view V))
               else ret (if v_from V < from then slice_from (v_view V) (findViewIndex V from) else v_view V)) (\<lambda>vs.
        let V1 = V\<lparr>v_view := vs, v_from := from\<rparr>
        in pbind (if v_to V1 < to then pbind (buildViewArray M saw d (v_to V1) to) (\<lambda>ws. ret (vs @ ws))
                  else ret (if v_to V1 > to then slice_to vs (findViewIndex V1 to) else vs)) (\<lambda>us.
             ret (V1\<lparr>v_view := us, v_to := to\<rparr>))))"

definition countDirtyView :: "display \<Rightarrow> nat" where
  "countDirtyView V = length (filter (\<lambda>v. \<not> lv_hidden v \<and> (\<not> lv_node v \<or> lv_changes v \<noteq> None)) (v_view V))"

section \<open>Starts of visual lines\<close>

definition starts :: "(nat \<Rightarrow> marker) \<Rightarrow> bool \<Rightarrow> ('st, 'x) doc_scheme \<Rightarrow> nat \<Rightarrow> bool" where
  "starts M saw d k \<longleftrightarrow> collapsedSpanAtStart M saw d (doc_lines d ! k) = Inr None"

lemma side_loop_found:
  "collapsed_side_loop M d start sps (Some m0) = Inr r \<Longrightarrow> r \<noteq> None"
  by (induction sps arbitrary: m0) (auto split: if_splits sum.splits simp: rbind_Inr_iff)

lemma side_loop_None:
  "collapsed_side_loop M d start sps None = Inr r \<Longrightarrow>
    r = None \<longleftrightarrow> (\<forall>sp \<in> set sps. \<not> (mk_collapsed (M (sp_marker sp)) \<and> open_at start sp))"
proof (induction sps)
  case (Cons sp sps)
  show ?case
  proof (cases "mk_collapsed (M (sp_marker sp)) \<and> open_at start sp")
    case True
    then show ?thesis using Cons(2) side_loop_found [of M d start sps "sp_marker sp" r] by simp
  next
    case False
    then show ?thesis using Cons unfolding collapsed_side_loop.simps if_not_P [OF False] by auto
  qed
qed simp

lemma side_loop_collapsed:
  "collapsed_side_loop M d start sps found = Inr (Some m) \<Longrightarrow> found = Some m \<or> mk_collapsed (M m)"
proof (induction sps arbitrary: found)
  case (Cons sp sps)
  show ?case
  proof (cases "mk_collapsed (M (sp_marker sp)) \<and> open_at start sp")
    case True
    then show ?thesis using Cons(1) [of "Some (sp_marker sp)"] Cons(1) [of found] Cons(2)
      by (auto simp: rbind_Inr_iff split: option.splits if_splits)
  next
    case False
    then show ?thesis using Cons unfolding collapsed_side_loop.simps if_not_P [OF False] by auto
  qed
qed simp

text \<open>A collapsed range reaches over the end of the line before line \<open>k\<close>.\<close>

definition crossed :: "(nat \<Rightarrow> marker) \<Rightarrow> bool \<Rightarrow> ('st, 'x) doc_scheme \<Rightarrow> nat \<Rightarrow> bool" where
  "crossed M saw d k \<longleftrightarrow> saw \<and> (\<exists>m a b. extent (doc_spans d) m a b \<and> mk_collapsed (M m) \<and> a < k \<and> k \<le> b)"

lemma extent_span_at:
  assumes "extent (doc_spans d) m a b" and "a \<le> k" and "k \<le> b"
  obtains sp where "sp \<in> set (l_spans (doc_lines d ! k))" "sp_marker sp = m" "sp_from sp \<noteq> None \<longleftrightarrow> k = a" "sp_to sp \<noteq> None \<longleftrightarrow> k = b"
proof -
  obtain sp where sp: "getMarkedSpanFor (doc_spans d ! k) m = Some sp" "sp_from sp \<noteq> None \<longleftrightarrow> k = a" "sp_to sp \<noteq> None \<longleftrightarrow> k = b"
    by (rule extent_spans [OF assms])
  have "k < length (doc_lines d)" using extent_order(2) [OF assms(1)] assms(3) by (simp add: doc_spans_def)
  then have "sp \<in> set (l_spans (doc_lines d ! k))" "sp_marker sp = m"
    using getMarkedSpanFor_in [OF sp(1)] by (simp_all add: doc_spans_def)
  with sp show ?thesis by (intro that) simp_all
qed

lemma starts_iff:
  assumes ok: "markers_ok M d" and k: "k < length (doc_lines d)"
  shows "starts M saw d k \<longleftrightarrow> \<not> crossed M saw d k"
proof -
  obtain r where r: "collapsedSpanAtStart M saw d (doc_lines d ! k) = Inr r"
    using collapsedSpanAtSide_returns [OF assms, of saw True] by (auto simp: collapsedSpanAtStart_def)
  then have "starts M saw d k \<longleftrightarrow> \<not> (saw \<and> (\<exists>sp \<in> set (l_spans (doc_lines d ! k)). mk_collapsed (M (sp_marker sp)) \<and> sp_from sp = None))"
    using side_loop_None [of M d True "if saw then l_spans (doc_lines d ! k) else []" r]
    by (auto simp: starts_def collapsedSpanAtStart_def collapsedSpanAtSide_def open_at_def)
  moreover have "(\<exists>sp \<in> set (l_spans (doc_lines d ! k)). mk_collapsed (M (sp_marker sp)) \<and> sp_from sp = None) \<longleftrightarrow>
    (\<exists>m a b. extent (doc_spans d) m a b \<and> mk_collapsed (M m) \<and> a < k \<and> k \<le> b)"
  proof safe
    fix sp assume sp: "sp \<in> set (l_spans (doc_lines d ! k))" "mk_collapsed (M (sp_marker sp))" "sp_from sp = None"
    obtain a b where "extent (doc_spans d) (sp_marker sp) a b" "a \<le> k" "k \<le> b" "sp_from sp \<noteq> None \<longleftrightarrow> k = a"
      by (rule span_extent [OF ok k sp(1)])
    with sp show "\<exists>m a b. extent (doc_spans d) m a b \<and> mk_collapsed (M m) \<and> a < k \<and> k \<le> b"
      by (intro exI [of _ "sp_marker sp"] exI [of _ a] exI [of _ b]) auto
  next
    fix m a b assume m: "extent (doc_spans d) m a b" "mk_collapsed (M m)" "a < k" "k \<le> b"
    obtain sp where "sp \<in> set (l_spans (doc_lines d ! k))" "sp_marker sp = m" "sp_from sp \<noteq> None \<longleftrightarrow> k = a"
      by (rule extent_span_at [OF m(1), of k]) (use m in auto)
    with m show "\<exists>sp \<in> set (l_spans (doc_lines d ! k)). mk_collapsed (M (sp_marker sp)) \<and> sp_from sp = None" by auto
  qed
  ultimately show ?thesis by (simp add: crossed_def)
qed

lemma collapsedSpanAtEnd_cases:
  assumes d: "doc_ok d" and ok: "markers_ok M d" and k: "k < length (doc_lines d)"
  obtains (closed) "collapsedSpanAtEnd M saw d (doc_lines d ! k) = Inr None" "\<not> crossed M saw d (Suc k)"
    | (continued) m b where "collapsedSpanAtEnd M saw d (doc_lines d ! k) = Inr (Some m)"
        "found_line d (marker_find M d m (Some 1)) = Inr (doc_lines d ! b)" "k < b" "b < length (doc_lines d)"
        "\<forall>j. k < j \<and> j \<le> b \<longrightarrow> crossed M saw d j"
proof -
  let ?sps = "if saw then l_spans (doc_lines d ! k) else []"
  consider "collapsedSpanAtEnd M saw d (doc_lines d ! k) = Inr None"
    | m sp where "collapsedSpanAtEnd M saw d (doc_lines d ! k) = Inr (Some m)" "sp \<in> set (l_spans (doc_lines d ! k))"
      "sp_marker sp = m" "sp_to sp = None"
    using collapsedSpanAtSide_returns [OF ok k, of saw False] by (auto simp: collapsedSpanAtEnd_def open_at_def)
  then show ?thesis
  proof cases
    case 1
    have "\<not> crossed M saw d (Suc k)"
    proof
      assume "crossed M saw d (Suc k)"
      then obtain m a b where m: "saw" "extent (doc_spans d) m a b" "mk_collapsed (M m)" "a < Suc k" "Suc k \<le> b" by (auto simp: crossed_def)
      obtain sp where "sp \<in> set (l_spans (doc_lines d ! k))" "sp_marker sp = m" "sp_to sp \<noteq> None \<longleftrightarrow> k = b"
        by (rule extent_span_at [OF m(2), of k]) (use m in auto)
      then show False using side_loop_None [of M d False ?sps None] 1 m by (auto simp: collapsedSpanAtEnd_def collapsedSpanAtSide_def open_at_def)
    qed
    with 1 show ?thesis by (rule closed)
  next
    case 2
    obtain a b where e: "extent (doc_spans d) (sp_marker sp) a b" "a \<le> k" "k \<le> b" "sp_to sp \<noteq> None \<longleftrightarrow> k = b"
      by (rule span_extent [OF ok k 2(2)])
    have "mk_collapsed (M m)" "saw" using side_loop_collapsed [of M d False ?sps None m] 2(1)
      by (auto simp: collapsedSpanAtEnd_def collapsedSpanAtSide_def split: if_splits)
    then have "\<forall>j. k < j \<and> j \<le> b \<longrightarrow> crossed M saw d j" using e 2(3) unfolding crossed_def by (metis le_less_trans)
    then show ?thesis using continued [OF 2(1)] found_line_extent(2) [OF d e(1)] e 2 extent_order(2) [OF e(1)] by (auto simp: doc_spans_def)
  qed
qed

lemma continued_lines:
  assumes d: "doc_ok d" and ok: "markers_ok M d"
  shows "k < length (doc_lines d) \<Longrightarrow>
    \<exists>js. visualLineContinued_loop M saw d (doc_lines d ! k) ls = Some (Inr (ls @ map ((!) (doc_lines d)) js)) \<and>
      last (k # js) < length (doc_lines d) \<and> k \<le> last (k # js) \<and> (js \<noteq> [] \<longrightarrow> saw) \<and>
      (\<forall>j. k < j \<and> j \<le> last (k # js) \<longrightarrow> crossed M saw d j) \<and> \<not> crossed M saw d (Suc (last (k # js)))"
proof (induction "length (doc_lines d) - k" arbitrary: k ls rule: less_induct)
  case less
  show ?case
  proof (rule collapsedSpanAtEnd_cases [OF d ok less.prems, of saw], goal_cases)
    case closed: 1
    then show ?thesis using less.prems by (intro exI [of _ "[]"]) (subst visualLineContinued_loop.simps, auto)
  next
    case continued: (2 m b)
    then have "length (doc_lines d) - b < length (doc_lines d) - k" by simp
    from less.hyps [OF this continued(4), of "ls @ [doc_lines d ! b]"] obtain js where js:
      "visualLineContinued_loop M saw d (doc_lines d ! b) (ls @ [doc_lines d ! b]) = Some (Inr ((ls @ [doc_lines d ! b]) @ map ((!) (doc_lines d)) js))"
      "last (b # js) < length (doc_lines d)" "b \<le> last (b # js)"
      "\<forall>j. b < j \<and> j \<le> last (b # js) \<longrightarrow> crossed M saw d j" "\<not> crossed M saw d (Suc (last (b # js)))" by blast
    have "visualLineContinued_loop M saw d (doc_lines d ! k) ls = Some (Inr (ls @ map ((!) (doc_lines d)) (b # js)))"
      using continued js(1) by (subst visualLineContinued_loop.simps) simp
    moreover have "crossed M saw d j" if "k < j" "j \<le> last (b # js)" for j
      using that continued(5) js(4) by (cases "j \<le> b") auto
    moreover have "saw" using continued(3,5) by (auto simp: crossed_def)
    ultimately show ?thesis using js(2,3,5) continued(3) by (intro exI [of _ "b # js"]) (auto simp del: last.simps simp: last_ConsR)
  qed
qed

lemma lineNo_nth:
  assumes "doc_ok d" and "k < length (doc_lines d)"
  shows "lineNo d (l_id (doc_lines d ! k)) = Some (d_first d + int k)"
proof -
  have ok: "chunk_ok (d_root d)" "distinct (map l_id (doc_lines d))" using assms(1) by (simp_all add: doc_ok_def root_ok_def)
  then show ?thesis using no_chunk_ok(1) [OF ok(1), of "l_id (doc_lines d ! k)"] line_index_nth [OF ok(2) assms(2)]
    by (simp add: lineNo_def doc_lines_def)
qed

lemma visualLineNo_starts:
  assumes d: "doc_ok d" "markers_ok M d" and k: "k < length (doc_lines d)"
  obtains j where "j \<le> k" "visualLineNo M saw d (d_first d + int k) = Some (Inr (Some (d_first d + int j)))" "j = k \<longleftrightarrow> starts M saw d k"
proof -
  obtain j where j: "j \<le> k" "visualLine M saw d (doc_lines d ! k) = Some (Inr (doc_lines d ! j))" "starts M saw d j"
    using visualLine_returns [OF d k, of saw] by (auto simp: starts_def)
  have dist: "distinct (map l_id (doc_lines d))" using d(1) by (simp add: doc_ok_def root_ok_def)
  then have eq: "l_id (doc_lines d ! k) = l_id (doc_lines d ! j) \<longleftrightarrow> k = j" using k j(1) nth_eq_iff_index_eq [OF dist, of k j] by simp
  have "j = k" if "starts M saw d k"
  proof -
    have "visualLine M saw d (doc_lines d ! k) = Some (Inr (doc_lines d ! k))" using that by (subst visualLine.simps) (simp add: starts_def)
    with j(2) eq show ?thesis by simp
  qed
  then have iff: "j = k \<longleftrightarrow> starts M saw d k" using j(3) by blast
  have "lineNo d (l_id (doc_lines d ! j)) = Some (d_first d + int j)" by (rule lineNo_nth [OF d(1)]) (use j(1) k in simp)
  then have "visualLineNo M saw d (d_first d + int k) = Some (Inr (Some (d_first d + int j)))"
    by (simp add: visualLineNo_def getLine_ok [OF d(1) k] j(2) eq)
  with j(1) show ?thesis using iff by (rule that)
qed

lemma not_start_iff:
  assumes d: "doc_ok d" "markers_ok M d" and k: "k < length (doc_lines d)"
  shows "not_start M saw d (d_first d + int k) = Some (Inr (crossed M saw d k))"
proof -
  obtain j where "visualLineNo M saw d (d_first d + int k) = Some (Inr (Some (d_first d + int j)))" "j = k \<longleftrightarrow> starts M saw d k"
    by (rule visualLineNo_starts [OF assms, of saw])
  then show ?thesis by (simp add: not_start_def ret_def starts_iff [OF d(2) k])
qed

lemma view_at_ok:
  assumes d: "doc_ok d" "markers_ok M d" "spans_ok d" and k: "k < length (doc_lines d)"
  obtains v s where "view_at M saw d (d_first d + int k) = Some (Inr v)" "lv_size v = int s" "0 < s" "k + s \<le> length (doc_lines d)" "\<not> saw \<longrightarrow> s = 1"
    "lv_line v = l_id (doc_lines d ! k)" "\<forall>j. k < j \<and> j < k + s \<longrightarrow> crossed M saw d j" "\<not> crossed M saw d (k + s)"
proof -
  obtain js where js: "visualLineContinued M saw d (doc_lines d ! k) = Some (Inr (map ((!) (doc_lines d)) js))"
    "last (k # js) < length (doc_lines d)" "k \<le> last (k # js)" "js \<noteq> [] \<longrightarrow> saw"
    "\<forall>j. k < j \<and> j \<le> last (k # js) \<longrightarrow> crossed M saw d j" "\<not> crossed M saw d (Suc (last (k # js)))"
    using continued_lines [OF d(1,2) k, of saw "[]"] by (auto simp: visualLineContinued_def)
  obtain b where b: "lineIsHidden M saw d (doc_lines d ! k) = Some (Inr b)" using lineIsHidden_returns [OF d k] by blast
  define s where "s = Suc (last (k # js)) - k"
  have s: "0 < s" "k + s = Suc (last (k # js))" using js(3) by (simp_all add: s_def)
  define v where "v = \<lparr>lv_line = l_id (doc_lines d ! k), lv_rest = map l_id (map ((!) (doc_lines d)) js), lv_size = int s,
    lv_hidden = b, lv_node = False, lv_changes = None\<rparr>"
  have "last (map ((!) (doc_lines d)) js) = doc_lines d ! last (k # js)" if "js \<noteq> []" using that by (simp add: last_map)
  then have "view_at M saw d (d_first d + int k) = Some (Inr v)" using getLine_ok [OF d(1) k] js(1,3) b lineNo_nth [OF d(1) js(2)]
    by (auto simp: view_at_def LineView_def ret_def v_def s_def of_nat_diff)
  then show ?thesis using js s by (intro that [of v s]) (auto simp: v_def less_Suc_eq_le)
qed

section \<open>Views that tile a range of lines\<close>

text \<open>A line number at which a visual line starts, or the end of the document.\<close>

definition view_break :: "(nat \<Rightarrow> marker) \<Rightarrow> bool \<Rightarrow> ('st, 'x) doc_scheme \<Rightarrow> int \<Rightarrow> bool" where
  "view_break M saw d n \<longleftrightarrow>
     d_first d \<le> n \<and> n \<le> d_first d + int (length (doc_lines d)) \<and> \<not> crossed M saw d (nat (n - d_first d))"

fun tiles :: "(nat \<Rightarrow> marker) \<Rightarrow> bool \<Rightarrow> ('st, 'x) doc_scheme \<Rightarrow> int \<Rightarrow> line_view list \<Rightarrow> int \<Rightarrow> bool" where
  "tiles M saw d p [] q \<longleftrightarrow> p = q"
| "tiles M saw d p (v # vs) q \<longleftrightarrow>
     (case view_at M saw d p of
        Some (Inr w) \<Rightarrow> lv_line v = lv_line w \<and> lv_rest v = lv_rest w \<and> lv_size v = lv_size w
      | _ \<Rightarrow> False) \<and> tiles M saw d (p + lv_size v) vs q"

lemma view_tiles_append: "tiles M saw d p (xs @ ys) q \<longleftrightarrow> (\<exists>r. tiles M saw d p xs r \<and> tiles M saw d r ys q)"
  by (induction xs arbitrary: p) auto

definition undrawn :: "line_view \<Rightarrow> bool" where
  "undrawn v \<longleftrightarrow> \<not> lv_node v \<and> lv_changes v = None"

lemma view_at_undrawn: "view_at M saw d n = Some (Inr v) \<Longrightarrow> undrawn v"
  by (auto simp: view_at_def LineView_def pbind_def ret_def undrawn_def split: option.splits sum.splits)

lemma no_break_inside:
  assumes "\<forall>j. k < j \<and> j < k + s \<longrightarrow> crossed M saw d j" and "d_first d + int k < n" and "n < d_first d + int k + int s"
  shows "\<not> view_break M saw d n"
proof -
  have "k < nat (n - d_first d)" "nat (n - d_first d) < k + s" using assms(2,3) by simp_all
  then show ?thesis using assms(1) by (simp add: view_break_def)
qed

lemma build_loop_ok:
  assumes d: "doc_ok d" "markers_ok M d" "spans_ok d" and q: "view_break M saw d q"
  shows "d_first d \<le> p \<Longrightarrow> p \<le> q \<Longrightarrow>
    \<exists>vs. build_loop M saw d p q arr = Some (Inr (arr @ vs)) \<and> tiles M saw d p vs q \<and> sizes vs = q - p \<and>
      (\<forall>v \<in> set vs. undrawn v \<and> 1 \<le> lv_size v \<and> (\<not> saw \<longrightarrow> lv_size v = 1))"
proof (induction "nat (q - p)" arbitrary: p arr rule: less_induct)
  case less
  show ?case
  proof (cases "p < q")
    case False
    then have "p = q" using less.prems by simp
    then show ?thesis by (intro exI [of _ "[]"]) (subst build_loop.simps, simp add: sizes_def)
  next
    case True
    define k where "k = nat (p - d_first d)"
    have k: "p = d_first d + int k" "k < length (doc_lines d)" using less.prems(1) True q by (auto simp: k_def view_break_def)
    obtain v s where v: "view_at M saw d p = Some (Inr v)" "lv_size v = int s" "0 < s" "\<not> saw \<longrightarrow> s = 1"
      "\<forall>j. k < j \<and> j < k + s \<longrightarrow> crossed M saw d j"
      unfolding k(1) by (rule view_at_ok [OF d k(2), of saw])
    have "p + int s \<le> q" using no_break_inside [OF v(5), of q] True q k(1) by linarith
    moreover have "nat (q - (p + int s)) < nat (q - p)" using v(3) True by simp
    ultimately obtain vs where vs: "build_loop M saw d (p + int s) q (arr @ [v]) = Some (Inr ((arr @ [v]) @ vs))" "tiles M saw d (p + int s) vs q"
      "sizes vs = q - (p + int s)" "\<forall>v \<in> set vs. undrawn v \<and> 1 \<le> lv_size v \<and> (\<not> saw \<longrightarrow> lv_size v = 1)"
      using less.hyps [of "p + int s" "arr @ [v]"] less.prems(1) by force
    have "build_loop M saw d p q arr = Some (Inr (arr @ v # vs))" using True v vs(1) by (subst build_loop.simps) simp
    moreover have "tiles M saw d p (v # vs) q" "sizes (v # vs) = q - p" using v vs by (simp_all add: sizes_def)
    ultimately show ?thesis using v(2-4) vs(4) view_at_undrawn [OF v(1)] by (intro exI [of _ "v # vs"]) auto
  qed
qed

lemma buildViewArray_ok:
  assumes "doc_ok d" "markers_ok M d" "spans_ok d" and "view_break M saw d q" and "d_first d \<le> p" and "p \<le> q"
  obtains vs where "buildViewArray M saw d p q = Some (Inr vs)" "tiles M saw d p vs q" "sizes vs = q - p"
    "\<forall>v \<in> set vs. undrawn v \<and> 1 \<le> lv_size v \<and> (\<not> saw \<longrightarrow> lv_size v = 1)"
proof -
  have "buildViewArray M saw d p q = build_loop M saw d p q []" by (simp add: buildViewArray_def)
  then show ?thesis using build_loop_ok [OF assms, of "[]"] unfolding append_Nil by (elim exE conjE) (rule that; simp)
qed

lemma index_of_break:
  assumes d: "doc_ok d" "markers_ok M d" "spans_ok d" and n: "view_break M saw d n"
  shows "tiles M saw d p vs q \<Longrightarrow> d_first d \<le> p \<Longrightarrow> p \<le> n \<Longrightarrow> n < q \<Longrightarrow>
    \<exists>i. index_loop vs (n - p) i0 = At (i0 + i) \<and> tiles M saw d p (take i vs) n \<and> tiles M saw d n (drop i vs) q"
proof (induction vs arbitrary: p i0)
  case (Cons v vs)
  define k where "k = nat (p - d_first d)"
  have k: "p = d_first d + int k" using Cons.prems(2) by (simp add: k_def)
  have "p < d_first d + int (length (doc_lines d))"
  proof (rule ccontr)
    assume "\<not> p < d_first d + int (length (doc_lines d))"
    then have "view_at M saw d p = Some (Inl (NoLine p))" using getLine_out [OF d(1), of p] by (simp add: view_at_def)
    then show False using Cons.prems(1) by simp
  qed
  then have "k < length (doc_lines d)" using k by simp
  then obtain w s where w: "view_at M saw d p = Some (Inr w)" "lv_size w = int s" "0 < s"
    "\<forall>j. k < j \<and> j < k + s \<longrightarrow> crossed M saw d j" unfolding k by (rule view_at_ok [OF d, of _ saw])
  have v: "lv_size v = int s" "tiles M saw d (p + int s) vs q" using Cons.prems(1) w by auto
  show ?case
  proof (cases "n < p + int s")
    case True
    have "n = p" using no_break_inside [OF w(4), of n] True n k Cons.prems(3) by linarith
    then show ?thesis using Cons.prems(1) True v by (intro exI [of _ 0]) auto
  next
    case False
    then obtain i where i: "index_loop vs (n - (p + int s)) (Suc i0) = At (Suc i0 + i)" "tiles M saw d (p + int s) (take i vs) n"
      "tiles M saw d n (drop i vs) q" using Cons.IH [OF v(2), of "Suc i0"] Cons.prems(2,4) by auto
    have "index_loop vs (n - p - int s) (Suc i0) = At (Suc i0 + i)" using i(1) by (simp add: algebra_simps)
    then show ?thesis using i(2,3) False v(1) Cons.prems(1) w by (intro exI [of _ "Suc i"]) auto
  qed
qed simp

lemma findViewIndex_break:
  assumes "doc_ok d" "markers_ok M d" "spans_ok d" and "view_break M saw d n"
    and "tiles M saw d (v_from V) (v_view V) (v_to V)" and "d_first d \<le> v_from V" and "v_from V \<le> n" and "n < v_to V"
  obtains i where "findViewIndex V n = At i" "tiles M saw d (v_from V) (take i (v_view V)) n" "tiles M saw d n (drop i (v_view V)) (v_to V)"
proof -
  have "findViewIndex V n = index_loop (v_view V) (n - v_from V) 0" using assms(7,8) by (simp add: findViewIndex_def)
  then show ?thesis using index_of_break [OF assms(1-8), of 0] unfolding add_0 by (elim exE conjE) (rule that; simp)
qed

section \<open>Moving the view\<close>

definition view_ok :: "(nat \<Rightarrow> marker) \<Rightarrow> bool \<Rightarrow> ('st, 'x) doc_scheme \<Rightarrow> display \<Rightarrow> bool" where
  "view_ok M saw d V \<longleftrightarrow> view_break M saw d (v_from V) \<and> tiles M saw d (v_from V) (v_view V) (v_to V)"

lemma adjust_start:
  assumes d: "doc_ok d" "markers_ok M d" "spans_ok d" and V: "view_ok M saw d V"
    and n: "view_break M saw d n" "n < v_to V"
  obtains vs where
    "(if v_from V > n then pbind (buildViewArray M saw d n (v_from V)) (\<lambda>vs. ret (vs @ v_view V))
      else ret (if v_from V < n then slice_from (v_view V) (findViewIndex V n) else v_view V)) = Some (Inr vs)"
    "tiles M saw d n vs (v_to V)" "\<forall>v \<in> set vs. v \<in> set (v_view V) \<or> undrawn v"
proof -
  have V': "view_break M saw d (v_from V)" "tiles M saw d (v_from V) (v_view V) (v_to V)" "d_first d \<le> v_from V" "d_first d \<le> n"
    using V n by (simp_all add: view_ok_def view_break_def)
  consider "n < v_from V" | "n = v_from V" | "v_from V < n" by linarith
  then show ?thesis
  proof cases
    case 1
    obtain vs where "buildViewArray M saw d n (v_from V) = Some (Inr vs)" "tiles M saw d n vs (v_from V)" "\<forall>v \<in> set vs. undrawn v"
      by (rule buildViewArray_ok [OF d V'(1,4)]) (use 1 in auto)
    then show ?thesis using 1 V'(2) by (intro that [of "vs @ v_view V"]) (auto simp: ret_def view_tiles_append)
  next
    case 2
    then show ?thesis using V'(2) by (intro that [of "v_view V"]) (auto simp: ret_def)
  next
    case 3
    obtain i where "findViewIndex V n = At i" "tiles M saw d n (drop i (v_view V)) (v_to V)"
      by (rule findViewIndex_break [OF d n(1) V'(2,3)]) (use 3 n(2) in auto)
    then show ?thesis using 3 by (intro that [of "drop i (v_view V)"]) (auto simp: ret_def slice_from_def dest: in_set_dropD)
  qed
qed

lemma adjust_end:
  assumes d: "doc_ok d" "markers_ok M d" "spans_ok d" and V: "tiles M saw d (v_from V) (v_view V) (v_to V)" "d_first d \<le> v_from V"
    and n: "view_break M saw d n" "v_from V \<le> n" and le: "v_from V \<le> v_to V"
  obtains vs where
    "(if v_to V < n then pbind (buildViewArray M saw d (v_to V) n) (\<lambda>ws. ret (v_view V @ ws))
      else ret (if v_to V > n then slice_to (v_view V) (findViewIndex V n) else v_view V)) = Some (Inr vs)"
    "tiles M saw d (v_from V) vs n" "\<forall>v \<in> set vs. v \<in> set (v_view V) \<or> undrawn v"
proof -
  consider "n < v_to V" | "n = v_to V" | "v_to V < n" by linarith
  then show ?thesis
  proof cases
    case 1
    obtain i where "findViewIndex V n = At i" "tiles M saw d (v_from V) (take i (v_view V)) n"
      by (rule findViewIndex_break [OF d n(1) V n(2) 1])
    then show ?thesis using 1 by (intro that [of "take i (v_view V)"]) (auto simp: ret_def slice_to_def dest: in_set_takeD)
  next
    case 2
    then show ?thesis using V by (intro that [of "v_view V"]) (auto simp: ret_def)
  next
    case 3
    obtain vs where "buildViewArray M saw d (v_to V) n = Some (Inr vs)" "tiles M saw d (v_to V) vs n" "\<forall>v \<in> set vs. undrawn v"
      by (rule buildViewArray_ok [OF d n(1), of "v_to V"]) (use 3 V(2) le in auto)
    then show ?thesis using 3 V(1) by (intro that [of "v_view V @ vs"]) (auto simp: ret_def view_tiles_append)
  qed
qed

text \<open>C18: Moving the view to the lines from one start of a visual line to another always returns, and gives a view that
  consists exactly of the visual lines in that range, each line view with the lines that are joined in it;
  a line view that is not an old one has not been drawn yet.\<close>

theorem adjustView_tiles:
  assumes d: "doc_ok d" "markers_ok M d" "spans_ok d" and V: "v_view V = [] \<or> view_ok M saw d V"
    and n: "view_break M saw d from" "view_break M saw d to" "from \<le> to"
  shows "\<exists>V'. adjustView M saw d V from to = Some (Inr V') \<and> v_from V' = from \<and> v_to V' = to \<and> view_ok M saw d V' \<and>
    (\<forall>v \<in> set (v_view V'). v \<in> set (v_view V) \<or> undrawn v)"
proof (cases "v_view V = [] \<or> from \<ge> v_to V \<or> to \<le> v_from V")
  case True
  have "d_first d \<le> from" using n(1) by (simp add: view_break_def)
  then obtain vs where "buildViewArray M saw d from to = Some (Inr vs)" "tiles M saw d from vs to" "\<forall>v \<in> set vs. undrawn v"
    by (rule buildViewArray_ok [OF d n(2) _ n(3)]) blast
  then show ?thesis using True n(1) by (simp add: adjustView_def ret_def view_ok_def)
next
  case False
  then have ok: "view_ok M saw d V" and f: "from < v_to V" using V by auto
  obtain vs where vs: "(if v_from V > from then pbind (buildViewArray M saw d from (v_from V)) (\<lambda>vs. ret (vs @ v_view V))
      else ret (if v_from V < from then slice_from (v_view V) (findViewIndex V from) else v_view V)) = Some (Inr vs)"
    "tiles M saw d from vs (v_to V)" "\<forall>v \<in> set vs. v \<in> set (v_view V) \<or> undrawn v"
    by (rule adjust_start [OF d ok n(1) f])
  define V1 where "V1 = V\<lparr>v_view := vs, v_from := from\<rparr>"
  have V1: "tiles M saw d (v_from V1) (v_view V1) (v_to V1)" "d_first d \<le> v_from V1" "v_from V1 \<le> to" "v_from V1 \<le> v_to V1"
    using vs(2) n f by (simp_all add: V1_def view_break_def)
  obtain us where us: "(if v_to V1 < to then pbind (buildViewArray M saw d (v_to V1) to) (\<lambda>ws. ret (v_view V1 @ ws))
      else ret (if v_to V1 > to then slice_to (v_view V1) (findViewIndex V1 to) else v_view V1)) = Some (Inr us)"
    "tiles M saw d (v_from V1) us to" "\<forall>v \<in> set us. v \<in> set (v_view V1) \<or> undrawn v"
    by (rule adjust_end [OF d V1(1,2) n(2) V1(3,4)])
  have vv: "v_view V1 = vs" by (simp add: V1_def)
  have "adjustView M saw d V from to = Some (Inr (V1\<lparr>v_view := us, v_to := to\<rparr>))"
    unfolding adjustView_def if_not_P [OF False] vs(1) pbind_simps Let_def V1_def [symmetric] us(1) [unfolded vv] by (simp add: ret_def)
  moreover have "\<forall>v \<in> set us. v \<in> set (v_view V) \<or> undrawn v" using us(3) vs(3) by (auto simp: V1_def)
  ultimately show ?thesis using us(2) n(1) by (simp add: view_ok_def V1_def)
qed

section \<open>Changes and the view\<close>

text \<open>
  The line views have positive sizes, which add up to the number of lines in the view. Without collapsed
  ranges all sizes are 1.
\<close>

definition sizes_ok :: "bool \<Rightarrow> line_view list \<Rightarrow> bool" where
  "sizes_ok saw vs \<longleftrightarrow> (\<forall>v \<in> set vs. 1 \<le> lv_size v \<and> (\<not> saw \<longrightarrow> lv_size v = 1))"

definition view_fits :: "bool \<Rightarrow> int \<Rightarrow> int \<Rightarrow> display \<Rightarrow> bool" where
  "view_fits saw lo hi V \<longleftrightarrow>
     lo \<le> v_from V \<and> v_to V \<le> hi \<and> sizes_ok saw (v_view V) \<and> v_from V + sizes (v_view V) = v_to V"

lemma sizes_simps [simp]: "sizes [] = 0" "sizes (v # vs) = lv_size v + sizes vs" "sizes (xs @ ys) = sizes xs + sizes ys"
  by (simp_all add: sizes_def)

lemma sizes_ok_simps [simp]:
  "sizes_ok saw []" "sizes_ok saw (v # vs) \<longleftrightarrow> 1 \<le> lv_size v \<and> (\<not> saw \<longrightarrow> lv_size v = 1) \<and> sizes_ok saw vs"
  "sizes_ok saw (xs @ ys) \<longleftrightarrow> sizes_ok saw xs \<and> sizes_ok saw ys"
  by (auto simp: sizes_ok_def)

lemma sizes_ok_parts: "sizes_ok saw vs \<Longrightarrow> sizes_ok saw (take i vs)" "sizes_ok saw vs \<Longrightarrow> sizes_ok saw (drop i vs)"
  by (auto simp: sizes_ok_def dest: in_set_takeD in_set_dropD)

lemma sizes_nonneg: "sizes_ok saw vs \<Longrightarrow> 0 \<le> sizes vs"
  by (induction vs) auto

lemma sizes_take_drop: "sizes (take i vs) + sizes (drop i vs) = sizes vs"
  by (simp flip: sizes_simps(3))

lemma sizes_take_Suc: "i < length vs \<Longrightarrow> sizes (take (Suc i) vs) = sizes (take i vs) + lv_size (vs ! i)"
  by (simp add: take_Suc_conv_app_nth)

lemma sizes_ok_nth: "sizes_ok saw vs \<Longrightarrow> i < length vs \<Longrightarrow> 1 \<le> lv_size (vs ! i)"
  by (simp add: sizes_ok_def)

lemma sizes_drop_pos: "sizes_ok saw vs \<Longrightarrow> i < length vs \<Longrightarrow> 0 < sizes (drop i vs)"
  using sizes_nonneg [OF sizes_ok_parts(2), of saw vs "Suc i"] sizes_ok_nth [of saw vs i] by (simp add: Cons_nth_drop_Suc [symmetric])

lemma index_in_view:
  "sizes_ok saw vs \<Longrightarrow> 0 \<le> n \<Longrightarrow> n < sizes vs \<Longrightarrow>
    \<exists>i < length vs. index_loop vs n i0 = At (i0 + i) \<and> sizes (take i vs) \<le> n \<and> n < sizes (take i vs) + lv_size (vs ! i)"
proof (induction vs arbitrary: n i0)
  case (Cons v vs)
  show ?case
  proof (cases "n < lv_size v")
    case True
    then show ?thesis using Cons.prems by (intro exI [of _ 0]) simp
  next
    case False
    then have "\<exists>i < length vs. index_loop vs (n - lv_size v) (Suc i0) = At (Suc i0 + i) \<and> sizes (take i vs) \<le> n - lv_size v \<and>
      n - lv_size v < sizes (take i vs) + lv_size (vs ! i)" using Cons.prems by (intro Cons.IH) simp_all
    then obtain i where "i < length vs" "index_loop vs (n - lv_size v) (Suc i0) = At (Suc i0 + i)" "sizes (take i vs) \<le> n - lv_size v"
      "n - lv_size v < sizes (take i vs) + lv_size (vs ! i)" by blast
    then show ?thesis using False by (intro exI [of _ "Suc i"]) simp
  qed
qed simp

lemma findViewIndex_in_view:
  assumes "view_fits saw lo hi V" and "v_from V \<le> n" and "n < v_to V"
  obtains i where "findViewIndex V n = At i" "i < length (v_view V)" "v_from V + sizes (take i (v_view V)) \<le> n"
    "n < v_from V + sizes (take i (v_view V)) + lv_size (v_view V ! i)" "\<not> saw \<longrightarrow> v_from V + sizes (take i (v_view V)) = n"
proof -
  have V: "sizes_ok saw (v_view V)" "v_from V + sizes (v_view V) = v_to V" using assms(1) by (simp_all add: view_fits_def)
  obtain i where i: "i < length (v_view V)" "index_loop (v_view V) (n - v_from V) 0 = At i" "sizes (take i (v_view V)) \<le> n - v_from V"
    "n - v_from V < sizes (take i (v_view V)) + lv_size (v_view V ! i)"
    using index_in_view [OF V(1), of "n - v_from V" 0] assms(2,3) V(2) by auto
  then have "\<not> saw \<longrightarrow> lv_size (v_view V ! i) = 1" using V(1) by (simp add: sizes_ok_def)
  then show ?thesis using i assms(2,3) by (intro that [of i]) (auto simp: findViewIndex_def)
qed

text \<open>What a cut of the view has to satisfy, for lines that move by \<open>k\<close>.\<close>

definition good_cut :: "(nat \<Rightarrow> marker) \<Rightarrow> bool \<Rightarrow> ('st, 'x) doc_scheme \<Rightarrow> display \<Rightarrow> int \<Rightarrow> index \<Rightarrow> int \<Rightarrow> bool" where
  "good_cut M saw d V k i n \<longleftrightarrow>
     (\<exists>j. i = At j \<and> j \<le> length (v_view V) \<and> n = v_from V + sizes (take j (v_view V)) + k \<and>
        d_first d \<le> n \<and> n \<le> d_first d + int (length (doc_lines d)) \<and> \<not> crossed M saw d (nat (n - d_first d)))"

lemma not_start_at:
  assumes "doc_ok d" "markers_ok M d" and "d_first d \<le> n" and "n < d_first d + int (length (doc_lines d))"
  shows "not_start M saw d n = Some (Inr (crossed M saw d (nat (n - d_first d))))"
  using not_start_iff [OF assms(1,2), of "nat (n - d_first d)" saw] assms(3,4) by simp

lemma cut_up_ok:
  assumes d: "doc_ok d" "markers_ok M d" and V: "view_fits saw lo (d_first d + int (length (doc_lines d)) - k) V"
  shows "i < length (v_view V) \<Longrightarrow> newN = v_from V + sizes (take i (v_view V)) + k \<Longrightarrow> d_first d \<le> newN \<Longrightarrow>
    \<exists>r. cut_up M saw d (v_view V) newN i = Some (Inr r) \<and> (\<forall>j n. r = Some (j, n) \<longrightarrow> good_cut M saw d V k j n \<and> newN \<le> n)"
proof (induction "length (v_view V) - i" arbitrary: i newN rule: less_induct)
  case less
  let ?vs = "v_view V" and ?c = "crossed M saw d (nat (newN - d_first d))"
  have fits: "sizes_ok saw ?vs" "v_from V + sizes ?vs = v_to V" "v_to V + k \<le> d_first d + int (length (doc_lines d))"
    using V by (simp_all add: view_fits_def)
  have in_doc: "newN < d_first d + int (length (doc_lines d))"
    using sizes_drop_pos [OF fits(1) less.prems(1)] sizes_take_drop [of i ?vs] fits(2,3) less.prems(2) by linarith
  note b = not_start_at [OF d less.prems(3) in_doc, of saw]
  show ?case
  proof (cases ?c)
    case False
    then show ?thesis using b less.prems in_doc by (subst cut_up.simps) (auto simp: ret_def good_cut_def)
  next
    case True
    show ?thesis
    proof (cases "Suc i = length ?vs")
      case True
      then show ?thesis using b \<open>?c\<close> by (subst cut_up.simps) (simp add: ret_def)
    next
      case False
      let ?n = "newN + lv_size (?vs ! i)"
      have "1 \<le> lv_size (?vs ! i)" using fits(1) less.prems(1) by (simp add: sizes_ok_def)
      then have "\<exists>r. cut_up M saw d ?vs ?n (Suc i) = Some (Inr r) \<and> (\<forall>j n. r = Some (j, n) \<longrightarrow> good_cut M saw d V k j n \<and> ?n \<le> n)"
        using False less.prems by (intro less.hyps) (simp_all add: sizes_take_Suc)
      moreover have "cut_up M saw d ?vs newN i = cut_up M saw d ?vs ?n (Suc i)"
        using b \<open>?c\<close> False less.prems(1) by (subst cut_up.simps) simp
      ultimately show ?thesis using \<open>1 \<le> lv_size (?vs ! i)\<close> by force
    qed
  qed
qed

lemma cut_down_ok:
  assumes d: "doc_ok d" "markers_ok M d" and V: "view_fits saw (d_first d) hi V"
  shows "i \<le> length (v_view V) \<Longrightarrow> newN = v_from V + sizes (take i (v_view V)) \<Longrightarrow> newN < d_first d + int (length (doc_lines d)) \<Longrightarrow>
    \<exists>r. cut_down M saw d (v_view V) newN i = Some (Inr r) \<and> (\<forall>j n. r = Some (j, n) \<longrightarrow> good_cut M saw d V 0 j n \<and> n \<le> newN)"
proof (induction i arbitrary: newN)
  let ?vs = "v_view V"
  have fits: "sizes_ok saw ?vs" "d_first d \<le> v_from V" using V by (simp_all add: view_fits_def)
  have lo: "d_first d \<le> v_from V + sizes (take i ?vs)" for i using sizes_nonneg [OF sizes_ok_parts(1) [OF fits(1)], of i] fits(2) by simp
  {
    case 0
    then show ?case using not_start_at [OF d, of newN saw] lo [of 0] by (auto simp: ret_def good_cut_def)
  next
    case (Suc i)
    have lo': "d_first d \<le> newN" using Suc.prems(2) lo [of "Suc i"] by simp
    show ?case
    proof (cases "crossed M saw d (nat (newN - d_first d))")
      case False
      then show ?thesis using not_start_at [OF d lo' Suc.prems(3), of saw] Suc.prems lo' by (auto simp: ret_def good_cut_def)
    next
      case True
      have i: "i < length ?vs" using Suc.prems(1) by simp
      then have p: "1 \<le> lv_size (?vs ! i)" using fits(1) by (simp add: sizes_ok_def)
      have "\<exists>r. cut_down M saw d ?vs (newN - lv_size (?vs ! i)) i = Some (Inr r) \<and>
          (\<forall>j n. r = Some (j, n) \<longrightarrow> good_cut M saw d V 0 j n \<and> n \<le> newN - lv_size (?vs ! i))"
        using Suc.prems p i by (intro Suc.IH) (simp_all add: sizes_take_Suc)
      moreover have "cut_down M saw d ?vs newN (Suc i) = cut_down M saw d ?vs (newN - lv_size (?vs ! i)) i"
        using True i not_start_at [OF d lo' Suc.prems(3), of saw] by simp
      ultimately show ?thesis using p by force
    qed
  }
qed

lemma cut_below:
  assumes d: "doc_ok d" "markers_ok M d" and V: "view_fits saw lo (d_first d + int (length (doc_lines d)) - k) V"
    and n: "v_from V \<le> n" "n < v_to V" "d_first d \<le> n + k"
  obtains r where "viewCuttingPoint M saw d V n (n + k) True = Some (Inr r)" "\<forall>j m. r = Some (j, m) \<longrightarrow> good_cut M saw d V k j m \<and> n + k \<le> m"
proof -
  let ?vs = "v_view V"
  have hi: "v_to V + k \<le> d_first d + int (length (doc_lines d))" and so: "sizes_ok saw ?vs" using V by (simp_all add: view_fits_def)
  have size: "d_size d = int (length (doc_lines d))" using d(1) by (rule d_size_ok)
  obtain i where i: "findViewIndex V n = At i" "i < length ?vs" "v_from V + sizes (take i ?vs) \<le> n"
    "n < v_from V + sizes (take i ?vs) + lv_size (?vs ! i)" "\<not> saw \<longrightarrow> v_from V + sizes (take i ?vs) = n"
    by (rule findViewIndex_in_view [OF V n(1,2)])
  have not_end: "n + k \<noteq> d_first d + d_size d" using n(2) hi size by simp
  let ?n = "v_from V + sizes (take i ?vs)"
  consider "\<not> saw" | "saw" "?n = n" | "saw" "?n \<noteq> n" "Suc i = length ?vs" | "saw" "?n \<noteq> n" "Suc i < length ?vs" using i(2) by linarith
  then show ?thesis
  proof cases
    case 1
    then have "good_cut M saw d V k (At i) (n + k)" using i n(2,3) hi by (auto simp: good_cut_def crossed_def)
    then show ?thesis using 1 i(1) by (intro that [of "Some (At i, n + k)"]) (auto simp: viewCuttingPoint_def ret_def Let_def)
  next
    case 2
    then have "viewCuttingPoint M saw d V n (n + k) True = cut_up M saw d ?vs (n + k) i"
      using i(1) not_end by (simp add: viewCuttingPoint_def cut_loop_def Let_def)
    with cut_up_ok [OF d V i(2), of "n + k"] 2 n(3) show ?thesis using that by auto
  next
    case 3
    then show ?thesis using i(1) not_end by (intro that [of None]) (auto simp: viewCuttingPoint_def ret_def Let_def)
  next
    case 4
    let ?m = "n + k + (?n + lv_size (?vs ! i) - n)"
    have m: "?m = v_from V + sizes (take (Suc i) ?vs) + k" "n + k \<le> ?m" using i(2,4) by (simp_all add: sizes_take_Suc)
    have "viewCuttingPoint M saw d V n (n + k) True = cut_up M saw d ?vs ?m (Suc i)"
      using 4 i(1) not_end by (simp add: viewCuttingPoint_def cut_loop_def Let_def)
    moreover obtain r where "cut_up M saw d ?vs ?m (Suc i) = Some (Inr r)" "\<forall>j x. r = Some (j, x) \<longrightarrow> good_cut M saw d V k j x \<and> ?m \<le> x"
      using cut_up_ok [OF d V 4(3) m(1)] m(2) n(3) by auto
    ultimately show ?thesis using m(2) by (intro that [of r]) (auto intro: order_trans)
  qed
qed

lemma cut_above:
  assumes d: "doc_ok d" "markers_ok M d" and V: "view_fits saw (d_first d) hi V"
    and n: "v_from V \<le> n" "n < v_to V" "n < d_first d + int (length (doc_lines d))"
  obtains r where "viewCuttingPoint M saw d V n n False = Some (Inr r)" "\<forall>j m. r = Some (j, m) \<longrightarrow> good_cut M saw d V 0 j m \<and> m \<le> n"
proof -
  let ?vs = "v_view V"
  have lo: "d_first d \<le> v_from V" using V by (simp add: view_fits_def)
  have size: "d_size d = int (length (doc_lines d))" using d(1) by (rule d_size_ok)
  obtain i where i: "findViewIndex V n = At i" "i < length ?vs" "v_from V + sizes (take i ?vs) \<le> n"
    "\<not> saw \<longrightarrow> v_from V + sizes (take i ?vs) = n"
    by (rule findViewIndex_in_view [OF V n(1,2)])
  have not_end: "n \<noteq> d_first d + d_size d" using n(3) size by simp
  let ?n = "v_from V + sizes (take i ?vs)"
  show ?thesis
  proof (cases saw)
    case False
    then have "good_cut M saw d V 0 (At i) n" using i n(1,3) lo by (auto simp: good_cut_def crossed_def)
    then show ?thesis using False i(1) by (intro that [of "Some (At i, n)"]) (auto simp: viewCuttingPoint_def ret_def Let_def)
  next
    case True
    have "viewCuttingPoint M saw d V n n False = cut_down M saw d ?vs ?n i"
      using True i(1) not_end by (simp add: viewCuttingPoint_def cut_loop_def Let_def)
    moreover obtain r where "cut_down M saw d ?vs ?n i = Some (Inr r)" "\<forall>j x. r = Some (j, x) \<longrightarrow> good_cut M saw d V 0 j x \<and> x \<le> ?n"
      using cut_down_ok [OF d V, of i ?n] i(2,3) n(3) by auto
    ultimately show ?thesis using i(3) by (intro that [of r]) (auto intro: order_trans)
  qed
qed

lemma reset_fits: "view_fits saw (d_first d) (d_first d + int (length (doc_lines d))) (resetView d V)"
  by (simp add: view_fits_def resetView_def)

lemma visualLineEndNo_returns:
  assumes d: "doc_ok d" "markers_ok M d" "spans_ok d" and n: "d_first d \<le> n"
  shows "\<exists>r. visualLineEndNo M saw d n = Some (Inr r)"
proof (cases "n > lastLine d")
  case True
  then show ?thesis by (simp add: visualLineEndNo_def)
next
  case False
  define k where "k = nat (n - d_first d)"
  have k: "n = d_first d + int k" "k < length (doc_lines d)"
    using n False d_size_ok [OF d(1)] by (simp_all add: k_def lastLine_def)
  obtain b where b: "lineIsHidden M saw d (doc_lines d ! k) = Some (Inr b)" using lineIsHidden_returns [OF d k(2)] by blast
  obtain ls where "visualLineContinued_loop M saw d (doc_lines d ! k) [doc_lines d ! k] = Some (Inr ls)"
    using continued_lines [OF d(1,2) k(2), of saw "[doc_lines d ! k]"] by blast
  then show ?thesis using False b getLine_ok [OF d(1) k(2)] by (simp add: visualLineEndNo_def k(1))
qed

lemma slice_from_fits:
  assumes "view_fits saw lo (hi - k) V" and "good_cut M saw d V k i n" and "hi = d_first d + int (length (doc_lines d))"
  shows "view_fits saw (d_first d) hi (V\<lparr>v_view := slice_from (v_view V) i, v_from := n, v_to := v_to V + k\<rparr>)"
proof -
  obtain j where "i = At j" "n = v_from V + sizes (take j (v_view V)) + k" "d_first d \<le> n" using assms(2) by (auto simp: good_cut_def)
  then show ?thesis using assms(1) sizes_take_drop [of j "v_view V"] sizes_ok_parts(2)
    by (auto simp: view_fits_def slice_from_def)
qed

lemma slice_to_fits:
  assumes "view_fits saw (d_first d) hi' V" and "good_cut M saw d V 0 i n" and "hi = d_first d + int (length (doc_lines d))"
  shows "view_fits saw (d_first d) hi (V\<lparr>v_view := slice_to (v_view V) i, v_to := n\<rparr>)"
proof -
  obtain j where "i = At j" "n = v_from V + sizes (take j (v_view V))" "n \<le> hi" using assms(2,3) by (auto simp: good_cut_def)
  then show ?thesis using assms(1) sizes_ok_parts(1) by (auto simp: view_fits_def slice_to_def)
qed

lemma middle_fits:
  assumes V: "view_fits saw (d_first d) (hi - k) V" and i: "good_cut M saw d V 0 i a" and j: "good_cut M saw d V k j b"
    and mid: "sizes mid = b - a" "sizes_ok saw mid"
  shows "view_fits saw (d_first d) hi (V\<lparr>v_view := slice_to (v_view V) i @ mid @ slice_from (v_view V) j, v_to := v_to V + k\<rparr>)"
proof -
  obtain i' where "i = At i'" "a = v_from V + sizes (take i' (v_view V))" using i by (auto simp: good_cut_def)
  moreover obtain j' where "j = At j'" "b = v_from V + sizes (take j' (v_view V)) + k" using j by (auto simp: good_cut_def)
  ultimately show ?thesis using V mid sizes_take_drop [of j' "v_view V"] sizes_ok_parts by (auto simp: view_fits_def slice_from_def slice_to_def)
qed

lemma cut_view_fits:
  fixes d :: "('st, 'x) doc_scheme"
  assumes d: "doc_ok d" "markers_ok M d" "spans_ok d"
    and hi: "hi = d_first d + int (length (doc_lines d))" and V: "view_fits saw (d_first d) (hi - k) V"
    and c: "d_first d \<le> f" "f < t" "f \<le> t + k" "f < hi"
  shows "\<exists>V'. cut_view M saw d V f t k = Some (Inr V') \<and> view_fits saw (d_first d) hi V'"
proof -
  have fits: "d_first d \<le> v_from V" "v_to V \<le> hi - k" using V by (simp_all add: view_fits_def)
  note reset = reset_fits [of saw d V, folded hi]
  consider (after) "f \<ge> v_to V" | (before) "f < v_to V" "t \<le> v_from V" | (all) "f < v_to V" "t > v_from V" "f \<le> v_from V" "t \<ge> v_to V"
    | (top) "f < v_to V" "t > v_from V" "f \<le> v_from V" "t < v_to V"
    | (bottom) "f < v_to V" "t > v_from V" "f > v_from V" "t \<ge> v_to V" | (middle) "f > v_from V" "t < v_to V" "f < v_to V" "t > v_from V"
    using c(2) by linarith
  then show ?thesis
  proof cases
    case after
    have "nat (f - d_first d) < length (doc_lines d)" "d_first d + int (nat (f - d_first d)) = f" using c(1,4) hi by simp_all
    then obtain n where n: "visualLineNo M saw d f = Some (Inr n)"
      using visualLineNo_starts [OF d(1,2), of "nat (f - d_first d)" saw] by metis
    have "view_fits saw (d_first d) hi V" using V after c(4) by (simp add: view_fits_def)
    then show ?thesis using after reset n by (cases saw) (simp_all add: cut_view_def ret_def)
  next
    case before
    obtain n where n: "visualLineEndNo M saw d (t + k) = Some (Inr n)" using visualLineEndNo_returns [OF d, of "t + k" saw] c(1,3) by auto
    have "view_fits saw (d_first d) hi (V\<lparr>v_from := v_from V + k, v_to := v_to V + k\<rparr>)" using V before c by (simp add: view_fits_def)
    then show ?thesis using before reset n by (cases saw) (simp_all add: cut_view_def ret_def)
  next
    case all
    then show ?thesis using reset by (simp add: cut_view_def ret_def)
  next
    case top
    obtain r where r: "viewCuttingPoint M saw d V t (t + k) True = Some (Inr r)" "\<forall>j m. r = Some (j, m) \<longrightarrow> good_cut M saw d V k j m \<and> t + k \<le> m"
      by (rule cut_below [OF d(1,2) V [unfolded hi], of t]) (use top c in auto)
    then show ?thesis using top reset slice_from_fits [OF V _ hi]
      by (cases r) (auto simp: cut_view_def ret_def)
  next
    case bottom
    obtain r where r: "viewCuttingPoint M saw d V f f False = Some (Inr r)" "\<forall>j m. r = Some (j, m) \<longrightarrow> good_cut M saw d V 0 j m \<and> m \<le> f"
      by (rule cut_above [OF d(1,2) V, of f]) (use bottom c hi in auto)
    then show ?thesis using bottom reset slice_to_fits [OF V _ hi]
      by (cases r) (auto simp: cut_view_def ret_def)
  next
    case middle
    obtain r where r: "viewCuttingPoint M saw d V f f False = Some (Inr r)" "\<forall>j m. r = Some (j, m) \<longrightarrow> good_cut M saw d V 0 j m \<and> m \<le> f"
      by (rule cut_above [OF d(1,2) V, of f]) (use middle c hi in auto)
    obtain r' where r': "viewCuttingPoint M saw d V t (t + k) True = Some (Inr r')" "\<forall>j m. r' = Some (j, m) \<longrightarrow> good_cut M saw d V k j m \<and> t + k \<le> m"
      by (rule cut_below [OF d(1,2) V [unfolded hi], of t]) (use middle c in auto)
    show ?thesis
    proof (cases "r = None \<or> r' = None")
      case True
      then show ?thesis using middle reset r(1) r'(1) by (cases r; cases r') (simp_all add: cut_view_def ret_def)
    next
      case False
      then obtain i a j b where ij: "r = Some (i, a)" "r' = Some (j, b)" by auto
      have g: "good_cut M saw d V 0 i a" "a \<le> f" "good_cut M saw d V k j b" "t + k \<le> b" using r(2) r'(2) ij by simp_all
      then have ab: "view_break M saw d b" "d_first d \<le> a" "a \<le> b" using c(3) by (auto simp: good_cut_def view_break_def)
      obtain mid where mid: "buildViewArray M saw d a b = Some (Inr mid)" "sizes mid = b - a" "sizes_ok saw mid"
        by (rule buildViewArray_ok [OF d ab]) (simp add: sizes_ok_def)
      show ?thesis using middle_fits [OF V g(1,3) mid(2,3)] middle r(1) r'(1) ij mid(1) by (simp add: cut_view_def ret_def)
    qed
  qed
qed

text \<open>C19: Registering a change of lines keeps the view consistent: for a change of the lines \<open>f\<close> to \<open>t\<close> after which \<open>k\<close>
  lines more are there, \<open>regChange\<close> returns without an exception, and the sizes of the line views again
  add up to the length of the range of lines that is shown, which lies within the changed document.\<close>

theorem regChange_keeps_view:
  assumes "doc_ok d" "markers_ok M d" "spans_ok d"
    and "view_fits saw (d_first d) (d_first d + int (length (doc_lines d)) - k) V"
    and "d_first d \<le> f" "f < t" "f \<le> t + k" "f < d_first d + int (length (doc_lines d))"
  shows "\<exists>V'. regChange M saw d V (Some f) (Some t) k = Some (Inr V') \<and>
    view_fits saw (d_first d) (d_first d + int (length (doc_lines d))) V'"
proof -
  have "view_fits saw (d_first d) (d_first d + int (length (doc_lines d)) - k) (V\<lparr>v_updateLineNumbers := u, v_viewChanged := True\<rparr>)" for u
    using assms(4) by (simp add: view_fits_def)
  from cut_view_fits [OF assms(1-3) refl this assms(5-8)]
  have "\<exists>V'. cut_view M saw d (V\<lparr>v_updateLineNumbers := u, v_viewChanged := True\<rparr>) f t k = Some (Inr V') \<and>
    view_fits saw (d_first d) (d_first d + int (length (doc_lines d))) V'" for u .
  from this [of "Some f"] this [of "v_updateLineNumbers V"] show ?thesis
    by (auto simp: regChange_def Let_def ret_def view_fits_def)
qed

section \<open>Which lines the view shows\<close>

definition sub :: "'a list \<Rightarrow> nat \<Rightarrow> nat \<Rightarrow> 'a list" where
  "sub xs a b = take (b - a) (drop a xs)"

lemma sub_append: "a \<le> b \<Longrightarrow> b \<le> c \<Longrightarrow> sub xs a b @ sub xs b c = sub xs a c"
proof -
  assume "a \<le> b" "b \<le> c"
  then have "c - a = (b - a) + (c - b)" "b - a + a = b" by simp_all
  then show ?thesis unfolding sub_def by (simp only: take_add drop_drop)
qed

lemma take_sub: "j \<le> b - a \<Longrightarrow> take j (sub xs a b) = sub xs a (a + j)"
  by (simp add: sub_def min_absorb1)

lemma drop_sub: "drop j (sub xs a b) = sub xs (a + j) b"
  by (simp add: sub_def drop_take add.commute)

text \<open>The lines \<open>F\<close> to \<open>T\<close> of the list \<open>xs\<close> replaced by \<open>ys\<close>.\<close>

lemma sub_before: "F \<le> length xs \<Longrightarrow> b \<le> F \<Longrightarrow> sub (take F xs @ ys @ drop T xs) a b = sub xs a b"
  by (cases "a \<le> b") (simp_all add: sub_def drop_take min_absorb1)

lemma sub_new: "F \<le> length xs \<Longrightarrow> sub (take F xs @ ys @ drop T xs) F (F + length ys) = ys"
  by (simp add: sub_def)

lemma sub_behind:
  "F \<le> length xs \<Longrightarrow> T \<le> a \<Longrightarrow> T \<le> b \<Longrightarrow> sub (take F xs @ ys @ drop T xs) (a - T + (F + length ys)) (b - T + (F + length ys)) = sub xs a b"
  by (simp add: sub_def add.commute)

definition shows_lines :: "display \<Rightarrow> int \<Rightarrow> nat list \<Rightarrow> bool" where
  "shows_lines V n ids \<longleftrightarrow> map lv_line (v_view V) = sub ids (nat (v_from V - n)) (nat (v_to V - n))"

lemma sizes_plain: "sizes_ok False vs \<Longrightarrow> sizes vs = int (length vs)"
  by (induction vs) auto

lemma plain_index:
  assumes V: "view_fits False lo hi V" and n: "v_from V \<le> n" "n < v_to V"
  shows "findViewIndex V n = At (nat (n - v_from V))"
proof -
  obtain i where i: "findViewIndex V n = At i" "i < length (v_view V)" "v_from V + sizes (take i (v_view V)) = n"
    using findViewIndex_in_view [OF assms] by blast
  have "sizes (take i (v_view V)) = int i" using sizes_plain [OF sizes_ok_parts(1), of "v_view V" i] V i(2) by (simp add: view_fits_def)
  then have "nat (n - v_from V) = i" using i(3) by simp
  with i(1) show ?thesis by simp
qed

lemma tiles_sizes: "tiles M saw d p vs q \<Longrightarrow> q = p + sizes vs"
proof (induction vs arbitrary: p)
  case (Cons v vs)
  then have "q = p + lv_size v + sizes vs" by simp
  then show ?case by simp
qed simp

lemma tiles_plain:
  assumes d: "doc_ok d" "markers_ok M d" "spans_ok d"
  shows "tiles M False d (d_first d + int a) vs (d_first d + int b) \<Longrightarrow> b \<le> length (doc_lines d) \<Longrightarrow> sizes_ok False vs \<Longrightarrow>
    map lv_line vs = sub (map l_id (doc_lines d)) a b"
proof (induction vs arbitrary: a)
  case Nil
  then show ?case by (simp add: sub_def)
next
  case (Cons v vs)
  have ab: "a < b" using tiles_sizes [OF Cons.prems(1)] sizes_plain [OF Cons.prems(3)] by simp
  then have a: "a < length (doc_lines d)" using Cons.prems(2) by simp
  obtain w s where w: "view_at M False d (d_first d + int a) = Some (Inr w)" "lv_size w = int s" "s = 1" "lv_line w = l_id (doc_lines d ! a)"
    using view_at_ok [OF d a, of False] by blast
  then have v: "lv_size v = 1" "lv_line v = l_id (doc_lines d ! a)" using Cons.prems(1) by simp_all
  have "tiles M False d (d_first d + int a + lv_size v) vs (d_first d + int b)" using Cons.prems(1) by simp
  then have "tiles M False d (d_first d + int (Suc a)) vs (d_first d + int b)" unfolding v(1) by (simp add: ac_simps)
  then have "map lv_line vs = sub (map l_id (doc_lines d)) (Suc a) b" using Cons.IH Cons.prems(2,3) by simp
  moreover have "b - a = Suc (b - Suc a)" using ab by simp
  then have "sub (map l_id (doc_lines d)) a b = l_id (doc_lines d ! a) # sub (map l_id (doc_lines d)) (Suc a) b"
    using a by (simp add: sub_def Cons_nth_drop_Suc [symmetric])
  ultimately show ?case using v(2) by simp
qed

lemma plain_build:
  assumes d: "doc_ok d" "markers_ok M d" "spans_ok d" and ab: "a \<le> b" "b \<le> length (doc_lines d)"
  obtains mid where "buildViewArray M False d (d_first d + int a) (d_first d + int b) = Some (Inr mid)"
    "map lv_line mid = sub (map l_id (doc_lines d)) a b" "sizes mid = int b - int a" "sizes_ok False mid"
proof -
  have "view_break M False d (d_first d + int b)" using ab by (simp add: view_break_def crossed_def)
  then obtain mid where mid: "buildViewArray M False d (d_first d + int a) (d_first d + int b) = Some (Inr mid)"
    "tiles M False d (d_first d + int a) mid (d_first d + int b)" "sizes mid = int b - int a" "sizes_ok False mid"
    by (rule buildViewArray_ok [OF d, of False _ "d_first d + int a"]) (use ab in \<open>simp_all add: sizes_ok_def\<close>)
  show ?thesis using that [OF mid(1) tiles_plain [OF d mid(2) ab(2) mid(4)] mid(3,4)] .
qed

lemma shows_update [simp]:
  "shows_lines (V\<lparr>v_updateLineNumbers := u\<rparr>) n ids = shows_lines V n ids" "shows_lines (V\<lparr>v_viewChanged := c\<rparr>) n ids = shows_lines V n ids"
  "shows_lines (V\<lparr>v_externalMeasured := e\<rparr>) n ids = shows_lines V n ids" "shows_lines (resetView d V) (d_first d) ids"
  by (simp_all add: shows_lines_def resetView_def sub_def)

lemma fits_update [simp]:
  "view_fits saw lo hi (V\<lparr>v_updateLineNumbers := u\<rparr>) = view_fits saw lo hi V"
  "view_fits saw lo hi (V\<lparr>v_viewChanged := c\<rparr>) = view_fits saw lo hi V" "view_fits saw lo hi (V\<lparr>v_externalMeasured := e\<rparr>) = view_fits saw lo hi V"
  by (simp_all add: view_fits_def)

lemma cut_view_shows:
  assumes d: "doc_ok d" "markers_ok M d" "spans_ok d"
    and new: "map l_id (doc_lines d) = take F ids @ N @ drop T ids" "F < T" "T \<le> length ids"
    and V: "view_fits False (d_first d) (d_first d + int (length ids)) V" "shows_lines V (d_first d) ids"
    and ft: "f = d_first d + int F" "t = d_first d + int T" "k = int (F + length N) - int T"
    and V': "cut_view M False d V f t k = Some (Inr V')"
  shows "shows_lines V' (d_first d) (map l_id (doc_lines d))"
proof -
  define L where "L = take F ids @ N @ drop T ids"
  have len: "length (doc_lines d) = length L" "F \<le> length ids" "F + length N \<le> length L"
    using arg_cong [OF new(1), of length] new(2,3) by (simp_all add: L_def)
  have fits: "d_first d \<le> v_from V" "v_from V \<le> v_to V" "v_to V \<le> d_first d + int (length ids)"
    using V(1) sizes_nonneg [of False "v_view V"] by (auto simp: view_fits_def)
  define p q where "p = nat (v_from V - d_first d)" and "q = nat (v_to V - d_first d)"
  have pq: "v_from V = d_first d + int p" "v_to V = d_first d + int q" "p \<le> q" "q \<le> length ids" using fits by (simp_all add: p_def q_def)
  have vw: "map lv_line (v_view V) = sub ids p q" using V(2) by (simp add: shows_lines_def p_def q_def)
  have tk: "t + k = d_first d + int (F + length N)" by (simp add: ft)
  note behind = sub_behind [OF len(2), of T _ _ N, folded L_def] and before = sub_before [OF len(2), of _ N T, folded L_def]
    and mid = sub_new [OF len(2), of N T, folded L_def]
  consider (after) "F \<ge> q" | (before) "F < q" "T \<le> p" | (all) "F < q" "T > p" "F \<le> p" "T \<ge> q"
    | (top) "F < q" "T > p" "F \<le> p" "T < q" | (bottom) "F < q" "T > p" "F > p" "T \<ge> q" | (middle) "F > p" "T < q" "F < q" "T > p"
    using new(2) by linarith
  then have "shows_lines V' (d_first d) L"
  proof cases
    case after
    then have "V' = V" using V' by (simp add: cut_view_def pq ft ret_def)
    then show ?thesis using after vw before by (simp add: shows_lines_def pq)
  next
    case before
    then have "V' = V\<lparr>v_from := v_from V + k, v_to := v_to V + k\<rparr>" using V' by (simp add: cut_view_def pq ft ret_def)
    moreover have "nat (v_from V + k - d_first d) = p - T + (F + length N)" "nat (v_to V + k - d_first d) = q - T + (F + length N)"
      using before pq ft by simp_all
    ultimately show ?thesis using vw behind [of p q] before pq(3) by (simp add: shows_lines_def)
  next
    case all
    then have "V' = resetView d V" using V' by (simp add: cut_view_def pq ft ret_def)
    then show ?thesis by simp
  next
    case top
    have "findViewIndex V t = At (T - p)" using plain_index [OF V(1), of t] top pq ft by (simp add: nat_diff_distrib')
    then have "V' = V\<lparr>v_view := drop (T - p) (v_view V), v_from := t + k, v_to := v_to V + k\<rparr>"
      using V' top by (simp add: cut_view_def pq ft ret_def viewCuttingPoint_def Let_def slice_from_def)
    moreover have "nat (t + k - d_first d) = T - T + (F + length N)" "nat (v_to V + k - d_first d) = q - T + (F + length N)"
      using top pq ft by simp_all
    moreover have "map lv_line (drop (T - p) (v_view V)) = sub ids T q" using top vw by (simp add: drop_map [symmetric] drop_sub)
    ultimately show ?thesis using behind [of T q] top by (simp add: shows_lines_def)
  next
    case bottom
    have "findViewIndex V f = At (F - p)" using plain_index [OF V(1), of f] bottom pq ft by (simp add: nat_diff_distrib')
    then have "V' = V\<lparr>v_view := take (F - p) (v_view V), v_to := f\<rparr>"
      using V' bottom by (simp add: cut_view_def pq ft ret_def viewCuttingPoint_def Let_def slice_to_def)
    moreover have "map lv_line (take (F - p) (v_view V)) = sub ids p F" using bottom vw by (simp add: take_map [symmetric] take_sub)
    ultimately show ?thesis using before [of F p] bottom by (simp add: shows_lines_def pq ft)
  next
    case middle
    have i: "findViewIndex V f = At (F - p)" "findViewIndex V t = At (T - p)"
      using plain_index [OF V(1), of f] plain_index [OF V(1), of t] middle pq ft by (simp_all add: nat_diff_distrib')
    obtain us where us: "buildViewArray M False d (d_first d + int F) (d_first d + int (F + length N)) = Some (Inr us)"
      "map lv_line us = sub (map l_id (doc_lines d)) F (F + length N)" using plain_build [OF d, of F "F + length N"] len(1,3) by auto
    have "V' = V\<lparr>v_view := take (F - p) (v_view V) @ us @ drop (T - p) (v_view V), v_to := v_to V + k\<rparr>"
      using V' middle i us(1) unfolding cut_view_def viewCuttingPoint_def tk
      by (simp add: pq ft ret_def Let_def slice_to_def slice_from_def)
    moreover have "map lv_line (take (F - p) (v_view V)) = sub ids p F" using middle vw by (simp add: take_map [symmetric] take_sub)
    moreover have "map lv_line (drop (T - p) (v_view V)) = sub ids T q" using middle vw by (simp add: drop_map [symmetric] drop_sub)
    moreover have "map lv_line us = N" using us(2) mid by (simp add: new(1) L_def)
    moreover have "nat (v_to V + k - d_first d) = q - T + (F + length N)" using middle pq ft by simp
    moreover have "sub L p F @ sub L F (F + length N) @ sub L (F + length N) (q - T + (F + length N)) = sub L p (q - T + (F + length N))"
      using middle by (simp add: sub_append)
    ultimately show ?thesis using before [of F p] mid behind [of T q] middle by (simp add: shows_lines_def pq(1))
  qed
  then show ?thesis by (simp add: new(1) L_def)
qed

text \<open>C17: Without collapsed ranges the view follows the text: when the lines \<open>F\<close> to \<open>T\<close> of the document were replaced by
  the lines \<open>N\<close>, and the view showed a range of the old lines, then after \<open>regChange\<close> it shows a range of the
  new lines, line by line.\<close>

theorem regChange_shows_lines:
  assumes d: "doc_ok d" "markers_ok M d" "spans_ok d"
    and new: "map l_id (doc_lines d) = take F ids @ N @ drop T ids" "F < T" "T \<le> length ids" "N \<noteq> []"
    and V: "view_fits False (d_first d) (d_first d + int (length ids)) V" "shows_lines V (d_first d) ids"
  shows "\<exists>V'. regChange M False d V (Some (d_first d + int F)) (Some (d_first d + int T)) (int (F + length N) - int T) = Some (Inr V') \<and>
    shows_lines V' (d_first d) (map l_id (doc_lines d))"
proof -
  let ?f = "d_first d + int F" and ?t = "d_first d + int T" and ?k = "int (F + length N) - int T"
  have len: "int (length (doc_lines d)) = int (length ids) + ?k" using arg_cong [OF new(1), of length] new(2,3) by simp
  have "0 < length N" using new(4) by simp
  have "\<exists>V'. cut_view M False d (V\<lparr>v_updateLineNumbers := u, v_viewChanged := True\<rparr>) ?f ?t ?k = Some (Inr V') \<and>
    shows_lines V' (d_first d) (map l_id (doc_lines d))" for u
  proof -
    let ?V = "V\<lparr>v_updateLineNumbers := u, v_viewChanged := True\<rparr>"
    have "view_fits False (d_first d) (d_first d + int (length (doc_lines d)) - ?k) ?V" using V(1) len by simp
    then obtain V' where V': "cut_view M False d ?V ?f ?t ?k = Some (Inr V')"
      using cut_view_fits [OF d refl, of False ?k ?V ?f ?t] new \<open>0 < length N\<close> len by auto
    moreover have "shows_lines V' (d_first d) (map l_id (doc_lines d))"
      by (rule cut_view_shows [OF d new(1-3) _ _ refl refl refl V']) (use V in simp_all)
    ultimately show ?thesis by blast
  qed
  from this [of "Some ?f"] this [of "v_updateLineNumbers V"] show ?thesis
    by (auto simp: regChange_def Let_def ret_def)
qed

section \<open>Examples\<close>

definition no_view :: display where
  "no_view = \<lparr>v_view = [], v_from = 0, v_to = 0, v_offset = 0, v_updateLineNumbers = None, v_externalMeasured = None, v_viewChanged = False\<rparr>"

theorem adjustView_tiles_witness:
  "case folded_example of
     Inr d \<Rightarrow> \<exists>V'. adjustView folding True d no_view 0 3 = Some (Inr V') \<and> view_ok folding True d V' \<and> v_to V' = 3
   | Inl e \<Rightarrow> False"
proof -
  obtain d where d: "folded_example = Inr d" "doc_ok d" "markers_ok folding d" "spans_ok d" "d_first d = 0" "length (doc_lines d) = 3"
    by (rule folded_example_ok)
  have "view_break folding True d 0" "view_break folding True d 3"
    using d by (auto simp: view_break_def crossed_def doc_spans_def dest: extent_order)
  then show ?thesis using adjustView_tiles [OF d(2-4), of no_view True 0 3] unfolding d(1) sum.case by (auto simp: no_view_def)
qed

text \<open>The three lines of the example are joined in one line view.\<close>

lemma folded_view:
  "case folded_example of
     Inr d \<Rightarrow> (case adjustView folding True d no_view 0 3 of Some (Inr V) \<Rightarrow> map lv_size (v_view V) = [3] | _ \<Rightarrow> False)
   | Inl e \<Rightarrow> False"
  by code_simp

theorem regChange_keeps_view_witness:
  "case folded_example of
     Inr d \<Rightarrow>
       (case adjustView folding True d no_view 0 3 of
          Some (Inr V) \<Rightarrow>
            map lv_size (v_view V) = [3] \<and>
            (\<exists>V'. regChange folding True d V (Some 1) (Some 2) 0 = Some (Inr V') \<and> view_fits True 0 3 V')
        | _ \<Rightarrow> False)
   | Inl e \<Rightarrow> False"
proof -
  obtain d where d: "folded_example = Inr d" "doc_ok d" "markers_ok folding d" "spans_ok d" "d_first d = 0" "length (doc_lines d) = 3"
    by (rule folded_example_ok)
  have "case folded_example of
     Inr d \<Rightarrow>
       (case adjustView folding True d no_view 0 3 of
          Some (Inr V) \<Rightarrow> map lv_size (v_view V) = [3] \<and> view_fits True 0 3 V | _ \<Rightarrow> False)
   | Inl e \<Rightarrow> False" by code_simp
  then obtain V where V: "adjustView folding True d no_view 0 3 = Some (Inr V)" "map lv_size (v_view V) = [3]" "view_fits True 0 3 V"
    unfolding d(1) sum.case by (auto split: option.splits sum.splits)
  then show ?thesis using d regChange_keeps_view [OF d(2-4), of True 0 V 1 2] unfolding d(1) sum.case by simp
qed

theorem regChange_shows_lines_witness:
  "case folded_example of
     Inr d \<Rightarrow>
       (case adjustView folding False d no_view 0 3 of
          Some (Inr V) \<Rightarrow>
            (\<exists>V'. regChange folding False d V (Some 1) (Some 2) 0 = Some (Inr V') \<and> shows_lines V' 0 (map l_id (doc_lines d)))
        | _ \<Rightarrow> False)
   | Inl e \<Rightarrow> False"
proof -
  obtain d where d: "folded_example = Inr d" "doc_ok d" "markers_ok folding d" "spans_ok d" "d_first d = 0" "length (doc_lines d) = 3"
    by (rule folded_example_ok)
  have "case folded_example of
     Inr d \<Rightarrow>
       (case adjustView folding False d no_view 0 3 of
          Some (Inr V) \<Rightarrow> view_fits False 0 3 V \<and> shows_lines V 0 (map l_id (doc_lines d)) | _ \<Rightarrow> False)
   | Inl e \<Rightarrow> False" by code_simp
  then obtain V where V: "adjustView folding False d no_view 0 3 = Some (Inr V)" "view_fits False 0 3 V" "shows_lines V 0 (map l_id (doc_lines d))"
    unfolding d(1) sum.case by (auto split: option.splits sum.splits)
  have "map l_id (doc_lines d) = take 1 (map l_id (doc_lines d)) @ [l_id (doc_lines d ! 1)] @ drop 2 (map l_id (doc_lines d))"
    using d(6) by (auto simp: numeral_3_eq_3 numeral_2_eq_2 length_Suc_conv)
  from regChange_shows_lines [OF d(2-4) this, of V] V d(5,6)
  have "\<exists>V'. regChange folding False d V (Some 1) (Some 2) 0 = Some (Inr V') \<and> shows_lines V' 0 (map l_id (doc_lines d))" by simp
  then show ?thesis unfolding d(1) sum.case V(1) option.case .
qed

end
