(* ===== verification/HighlightState.thy ===== *)
theory HighlightState
  imports Highlight ViewTracking
begin

text \<open>
  The states of the mode that are kept with the lines (\<^verbatim>\<open>src/js/codemirror/codemirror.js\<close>, section HIGHLIGHT WORKER): where
  to start parsing, the state before a line, the styles of a line, and the worker that highlights lines in
  the background. The main result is that the states of all lines before \<^verbatim>\<open>doc.frontier\<close> are those of parsing
  the document from its start.
\<close>

section \<open>Definitions\<close>

text \<open>
  The exceptions of the document and of the mode; \<open>NoStartLine\<close> is not an exception of the code: there
  \<^verbatim>\<open>findStartLine\<close> returns \<^verbatim>\<open>undefined\<close>, and the numbers that the code goes on with are not numbers of lines.
\<close>

datatype hl_exn = InDoc doc_exn | InMode mode_exn | NoStartLine

type_synonym 'a hl = "(hl_exn + 'a) option"

definition hbind :: "'a hl \<Rightarrow> ('a \<Rightarrow> 'b hl) \<Rightarrow> 'b hl" where
  "hbind m f = (case m of None \<Rightarrow> None | Some (Inl e) \<Rightarrow> Some (Inl e) | Some (Inr a) \<Rightarrow> f a)"

definition lift_doc :: "doc_exn + 'a \<Rightarrow> 'a hl" where
  "lift_doc m = Some (case m of Inl e \<Rightarrow> Inl (InDoc e) | Inr a \<Rightarrow> Inr a)"

definition lift_mode :: "(mode_exn + 'a) option \<Rightarrow> 'a hl" where
  "lift_mode m = map_option (\<lambda>x. case x of Inl e \<Rightarrow> Inl (InMode e) | Inr a \<Rightarrow> Inr a) m"

lemma hl_simps [simp]:
  "hbind None f = None" "hbind (Some (Inl e)) f = Some (Inl e)" "hbind (Some (Inr a)) f = f a"
  "lift_doc (Inr a) = Some (Inr a)" "lift_doc (Inl x) = Some (Inl (InDoc x))"
  "lift_mode (Some (Inr a)) = Some (Inr a)" "lift_mode (Some (Inl y)) = Some (Inl (InMode y))" "lift_mode None = None"
  by (simp_all add: hbind_def lift_doc_def lift_mode_def)

text \<open>A mode with a start state, the options and overlays of the editor, and \<^verbatim>\<open>cm.state.modeGen\<close>.\<close>

record 'st hl_env =
  he_mode :: "'st mode"
  he_start :: 'st
  he_opts :: hl_options
  he_overlays :: "(bool mode \<times> bool) list"
  he_gen :: int

text \<open>
  The document with its frontier and the view; the classes of a line and the generation of its styles are
  kept by the identity of the line.
\<close>

record ('st, 'x) hl_state =
  hs_doc :: "('st, 'x) doc_scheme"
  hs_frontier :: int
  hs_display :: display
  hs_classes :: "nat \<Rightarrow> line_classes option"
  hs_gens :: "nat \<Rightarrow> int"

subsection \<open>The state before a line\<close>

definition parse_from :: "bool \<Rightarrow> int \<Rightarrow> int \<Rightarrow> 'st line \<Rightarrow> bool" where
  "parse_from precise frontier n l \<longleftrightarrow> l_stateAfter l \<noteq> None \<and> (\<not> precise \<or> n \<le> frontier)"

definition less_indented :: "'st hl_env \<Rightarrow> 'st line \<Rightarrow> int \<Rightarrow> (int \<times> int) option \<Rightarrow> (int \<times> int) option" where
  "less_indented env l n best =
     (let indented = countColumn (l_text l) None (o_tabSize (he_opts env)) 0 0
      in case best of None \<Rightarrow> Some (n, indented) | Some (minline, minindent) \<Rightarrow> if minindent > indented then Some (n, indented) else best)"

function find_start_loop ::
  "'st hl_env \<Rightarrow> ('st, 'x) doc_scheme \<Rightarrow> int \<Rightarrow> bool \<Rightarrow> int \<Rightarrow> int \<Rightarrow> (int \<times> int) option \<Rightarrow> doc_exn + int option" where
  "find_start_loop env d frontier precise lim search best =
     (if search > lim
      then if search \<le> d_first d then Inr (Some (d_first d))
           else rbind (getLine d (search - 1)) (\<lambda>l.
                  if parse_from precise frontier search l then Inr (Some search)
                  else find_start_loop env d frontier precise lim (search - 1) (less_indented env l (search - 1) best))
      else Inr (map_option fst best))"
  by pat_completeness auto
termination by (relation "measure (\<lambda>(env, d, frontier, precise, lim, search, best). nat (search - lim))") auto

declare find_start_loop.simps [simp del]

definition findStartLine :: "'st hl_env \<Rightarrow> ('st, 'x) doc_scheme \<Rightarrow> int \<Rightarrow> int \<Rightarrow> bool \<Rightarrow> doc_exn + int option" where
  "findStartLine env d frontier n precise =
     find_start_loop env d frontier precise
       (if precise then -1 else n - (if m_innerMode (he_mode env) \<noteq> None then 1000 else 100)) n None"

definition saved :: "display \<Rightarrow> int \<Rightarrow> int \<Rightarrow> bool" where
  "saved V n p \<longleftrightarrow> p = n - 1 \<or> p mod 5 = 0 \<or> p \<ge> v_from V \<and> p < v_to V"

definition set_stateAfter :: "('st, 'x) doc_scheme \<Rightarrow> nat \<Rightarrow> 'st option \<Rightarrow> ('st, 'x) doc_scheme" where
  "set_stateAfter d i s = doc_update d i (\<lambda>l. l\<lparr>l_stateAfter := s\<rparr>)"

definition lines_of :: "('st, 'x) doc_scheme \<Rightarrow> int \<Rightarrow> int \<Rightarrow> 'st line list" where
  "lines_of d a b = doc_iter d a b (\<lambda>l out. (False, out @ [l])) []"

fun process_lines ::
  "'st hl_env \<Rightarrow> display \<Rightarrow> int \<Rightarrow> int \<Rightarrow> 'st line list \<Rightarrow> 'st \<Rightarrow> ('st, 'x) doc_scheme \<Rightarrow> ('st \<times> ('st, 'x) doc_scheme) hl" where
  "process_lines env V n p [] state d = Some (Inr (state, d))"
| "process_lines env V n p (l # ls) state d =
     hbind (lift_mode (processLine (he_opts env) (he_mode env) (l_text l) state 0)) (\<lambda>(st, state').
       process_lines env V n (p + 1) ls state' (set_stateAfter d (l_id l) (if saved V n p then Some state' else None)))"

text \<open>The state from which parsing starts at line \<open>p\<close>.\<close>

definition state_at :: "'st hl_env \<Rightarrow> ('st, 'x) doc_scheme \<Rightarrow> int \<Rightarrow> doc_exn + 'st" where
  "state_at env d p =
     (if p > d_first d
      then rbind (getLine d (p - 1)) (\<lambda>l. Inr (case l_stateAfter l of Some s \<Rightarrow> s | None \<Rightarrow> he_start env))
      else Inr (he_start env))"

definition getStateBefore :: "'st hl_env \<Rightarrow> ('st, 'x) hl_state \<Rightarrow> int \<Rightarrow> bool \<Rightarrow> ('st \<times> ('st, 'x) hl_state) hl" where
  "getStateBefore env S n precise =
     hbind (lift_doc (findStartLine env (hs_doc S) (hs_frontier S) n precise)) (\<lambda>found.
       case found of
         None \<Rightarrow> Some (Inl NoStartLine)
       | Some p \<Rightarrow>
           hbind (lift_doc (state_at env (hs_doc S) p)) (\<lambda>s0.
           hbind (process_lines env (hs_display S) n p (lines_of (hs_doc S) p n) s0 (hs_doc S)) (\<lambda>(state, d').
             Some (Inr (state, S\<lparr>hs_doc := d',
               hs_frontier := (if precise then p + int (length (lines_of (hs_doc S) p n)) else hs_frontier S)\<rparr>)))))"

subsection \<open>The styles of a line\<close>

text \<open>The state is an object that highlighting changes, so the line is left with the state behind it.\<close>

definition set_styles :: "'st hl_env \<Rightarrow> nat \<Rightarrow> (nat \<times> style) list \<Rightarrow> line_classes option \<Rightarrow> 'st \<Rightarrow> ('st, 'x) hl_state \<Rightarrow> ('st, 'x) hl_state" where
  "set_styles env i styles classes state S =
     S\<lparr>hs_doc := doc_update (hs_doc S) i (\<lambda>l. l\<lparr>l_styles := Some styles, l_stateAfter := Some state\<rparr>),
       hs_gens := (hs_gens S)(i := he_gen env), hs_classes := (hs_classes S)(i := classes)\<rparr>"

definition new_styles :: "'st hl_env \<Rightarrow> ('st, 'x) hl_state \<Rightarrow> 'st line \<Rightarrow> ((nat \<times> style) list \<times> ('st, 'x) hl_state) hl" where
  "new_styles env S l =
     hbind (getStateBefore env S (case lineNo (hs_doc S) (l_id l) of Some n \<Rightarrow> n | None \<Rightarrow> 0) False) (\<lambda>(s0, S1).
     hbind (lift_mode (highlightLine (he_opts env) (he_mode env) (he_overlays env) (l_text l) s0 False)) (\<lambda>(styles, classes, state).
       Some (Inr (styles, set_styles env (l_id l) styles classes state S1))))"

definition getLineStyles :: "'st hl_env \<Rightarrow> ('st, 'x) hl_state \<Rightarrow> 'st line \<Rightarrow> ((nat \<times> style) list \<times> ('st, 'x) hl_state) hl" where
  "getLineStyles env S l =
     (case l_styles l of
        Some styles \<Rightarrow> if hs_gens S (l_id l) = he_gen env then Some (Inr (styles, S)) else new_styles env S l
      | None \<Rightarrow> new_styles env S l)"

subsection \<open>The worker\<close>

text \<open>Old and new styles are compared with the generation in front of them, classes by their fields.\<close>

definition styles_change :: "'st hl_env \<Rightarrow> ('st, 'x) hl_state \<Rightarrow> 'st line \<Rightarrow> (nat \<times> style) list \<Rightarrow> line_classes option \<Rightarrow> bool" where
  "styles_change env S l styles newCls \<longleftrightarrow>
     l_styles l \<noteq> Some styles \<or> hs_gens S (l_id l) \<noteq> he_gen env \<or>
     (case (hs_classes S (l_id l), newCls) of
        (None, None) \<Rightarrow> False
      | (Some a, Some b) \<Rightarrow> bgClass a \<noteq> bgClass b \<or> textClass a \<noteq> textClass b
      | _ \<Rightarrow> True)"

definition worker_line :: "'st hl_env \<Rightarrow> 'st line \<Rightarrow> 'st \<Rightarrow> ('st, 'x) hl_state \<Rightarrow> ('st \<times> ('st, 'x) hl_state) hl" where
  "worker_line env l state S =
     (if hs_frontier S \<ge> v_from (hs_display S)
      then hbind (lift_mode (highlightLine (he_opts env) (he_mode env) (he_overlays env) (l_text l) state True)) (\<lambda>(styles, classes, state').
           hbind (lift_doc (if styles_change env S l styles classes then regLineChange (hs_display S) (hs_frontier S) (js ''text'')
                            else Inr (hs_display S))) (\<lambda>V.
             Some (Inr (state', (set_styles env (l_id l) styles classes state' S)\<lparr>hs_display := V, hs_frontier := hs_frontier S + 1\<rparr>))))
      else hbind (lift_mode (processLine (he_opts env) (he_mode env) (l_text l) state 0)) (\<lambda>(st, state').
             Some (Inr (state', S\<lparr>hs_doc := set_stateAfter (hs_doc S) (l_id l) (if hs_frontier S mod 5 = 0 then Some state' else None),
                                hs_frontier := hs_frontier S + 1\<rparr>))))"

text \<open>The clock says after which lines the time is up; then the worker schedules itself again.\<close>

fun worker_loop :: "'st hl_env \<Rightarrow> (int \<Rightarrow> bool) \<Rightarrow> 'st line list \<Rightarrow> 'st \<Rightarrow> ('st, 'x) hl_state \<Rightarrow> ('st, 'x) hl_state hl" where
  "worker_loop env late [] state S = Some (Inr S)"
| "worker_loop env late (l # ls) state S =
     hbind (worker_line env l state S) (\<lambda>(state', S').
       if late (hs_frontier S') then Some (Inr S') else worker_loop env late ls state' S')"

definition highlightWorker :: "'st hl_env \<Rightarrow> (int \<Rightarrow> bool) \<Rightarrow> ('st, 'x) hl_state \<Rightarrow> ('st, 'x) hl_state hl" where
  "highlightWorker env late S =
     (let S1 = (if hs_frontier S < d_first (hs_doc S) then S\<lparr>hs_frontier := d_first (hs_doc S)\<rparr> else S)
      in if hs_frontier S1 \<ge> v_to (hs_display S1) then Some (Inr S1)
         else hbind (getStateBefore env S1 (hs_frontier S1) False) (\<lambda>(state, S2).
                worker_loop env late
                  (lines_of (hs_doc S2) (hs_frontier S2) (min (d_first (hs_doc S2) + d_size (hs_doc S2)) (v_to (hs_display S2) + 500))) state S2))"

section \<open>The state after a line\<close>

definition after :: "'st hl_env \<Rightarrow> 'st \<Rightarrow> jsstring \<Rightarrow> 'st" where
  "after env s t = (case processLine (he_opts env) (he_mode env) t s 0 of Some (Inr (st, s')) \<Rightarrow> s' | _ \<Rightarrow> s)"

text \<open>The state before line number \<open>k\<close> of the list, parsing all lines before it.\<close>

definition exact :: "'st hl_env \<Rightarrow> ('st, 'x) doc_scheme \<Rightarrow> nat \<Rightarrow> 'st" where
  "exact env d k = foldl (after env) (he_start env) (take k (doc_text d))"

lemma exact_Suc: "k < length (doc_lines d) \<Longrightarrow> exact env d (Suc k) = after env (exact env d k) (l_text (doc_lines d ! k))"
  by (simp add: exact_def take_Suc_conv_app_nth doc_text_def)

text \<open>Lines that only differ in what is kept for highlighting.\<close>

definition same_text :: "('st, 'x) doc_scheme \<Rightarrow> ('st, 'x) doc_scheme \<Rightarrow> bool" where
  "same_text d d' \<longleftrightarrow> doc_ok d' \<and> d_first d' = d_first d \<and> doc_text d' = doc_text d \<and> map l_id (doc_lines d') = map l_id (doc_lines d)"

lemma same_text_length: "same_text d d' \<Longrightarrow> length (doc_lines d') = length (doc_lines d)"
  unfolding same_text_def by (metis length_doc_text)

lemma exact_same_text: "same_text d d' \<Longrightarrow> exact env d' k = exact env d k"
  by (simp add: same_text_def exact_def)

lemma same_text_trans: "same_text a b \<Longrightarrow> same_text b c \<Longrightarrow> same_text a c"
  by (simp add: same_text_def)

lemma update_same_text:
  assumes d: "doc_ok d" "k < length (doc_lines d)" and f: "\<And>l. l_text (f l) = l_text l" "\<And>l. l_id (f l) = l_id l"
  shows "same_text d (doc_update d (l_id (doc_lines d ! k)) f)"
    "doc_lines (doc_update d (l_id (doc_lines d ! k)) f) = (doc_lines d)[k := f (doc_lines d ! k)]"
  using doc_update_ok [OF d refl, of f] f d(2) by (simp_all add: same_text_def doc_text_def map_update_same)

section \<open>Highlighting and processing a line\<close>

text \<open>Highlighting a line leaves the mode in the state in which processing it without styles leaves it.\<close>

context styled_mode
begin

lemma run_loop_state:
  "inv (r_state r) \<Longrightarrow> stream_ok (r_stream r) \<Longrightarrow> s_start (r_stream r) = s_pos (r_stream r) \<Longrightarrow>
    \<exists>r' st'. run_loop opts md force r = Some (Inr r') \<and> process_loop opts md (r_stream r) (r_state r) = Some (Inr (st', r_state r'))"
proof (induction "length (s_string (r_stream r)) - s_pos (r_stream r)" arbitrary: r rule: less_induct)
  case less
  let ?st = "r_stream r"
  show ?case
  proof (cases "eol ?st")
    case True
    then show ?thesis by (subst run_loop.simps, subst process_loop.simps) simp
  next
    case False
    show ?thesis
    proof (cases "s_pos ?st \<le> o_maxHighlightLength opts")
      case True
      obtain sty st' s' where r: "readToken md ?st (r_state r) = Inr (sty, st', s')" "s_string st' = s_string ?st"
        "s_start st' = s_start ?st" "s_pos ?st < s_pos st'" "s_pos st' \<le> length (s_string ?st)" "inv s'"
        using readToken_advances [OF less(2,3) False] by blast
      obtain sty' cls where x: "extractLineClasses (o_regexp opts) sty (r_classes r) = Inr (sty', cls)"
        using readToken_styles [OF less(2,3) False r(1)] by blast
      define r1 where "r1 = run_emit (mode_class opts md s' sty') (r\<lparr>r_stream := st', r_state := s', r_classes := cls\<rparr>)"
      have step: "run_step opts md force r = Some (Inr r1)"
        using True r(1) x by (simp add: run_step_def run_token_def r1_def)
      have r1: "r_stream r1 = st'\<lparr>s_start := s_pos st'\<rparr>" "r_state r1 = s'" by (simp_all add: r1_def run_emit_def Let_def)
      have "\<exists>r' st''. run_loop opts md force r1 = Some (Inr r') \<and> process_loop opts md (r_stream r1) (r_state r1) = Some (Inr (st'', r_state r'))"
        by (rule less(1)) (use r False in \<open>simp_all add: r1 eol_def stream_ok_def\<close>)
      moreover have "run_loop opts md force r = run_loop opts md force r1" using False step by (subst run_loop.simps) simp
      moreover have "process_loop opts md ?st (r_state r) = process_loop opts md (r_stream r1) (r_state r1)"
        using False True r(1) by (subst process_loop.simps) (simp add: r1)
      ultimately show ?thesis by simp
    next
      case long: False
      have p: "process_loop opts md st s = Some (Inr (st, s))" if "s_pos st = s_pos ?st" for st s
        using that long by (subst process_loop.simps) simp
      have "s_string ?st \<noteq> []" using False less(3) by (auto simp: eol_def stream_ok_def)
      then have "processLine opts md (s_string ?st) (r_state r) (s_pos ?st) = Some (Inr ((StringStream (s_string ?st) (o_tabSize opts))
          \<lparr>s_start := s_pos ?st, s_pos := s_pos ?st\<rparr>, r_state r))" by (simp add: processLine_def p)
      then obtain r1 where r1: "run_token opts md force r = Some (Inr (None, r1))" "r_state r1 = r_state r" "r_stream r1 = ?st\<lparr>s_pos := length (s_string ?st)\<rparr>"
        using long by (cases force) (simp_all add: run_token_def Let_def)
      define r2 where "r2 = run_emit (mode_class opts md (r_state r1) None) r1"
      have "eol (r_stream r2)" "r_state r2 = r_state r" using r1 by (simp_all add: r2_def run_emit_def Let_def eol_def)
      moreover have "run_loop opts md force r = run_loop opts md force r2"
        using False r1(1) by (subst run_loop.simps) (simp add: run_step_def r2_def)
      moreover have "run_loop opts md force r2 = Some (Inr r2)" using \<open>eol (r_stream r2)\<close> by (subst run_loop.simps) simp
      ultimately show ?thesis using p [OF refl, of "r_state r"] by simp
    qed
  qed
qed

lemma runMode_state:
  assumes "inv s" and "runMode opts text md s classes force = Some (Inr (calls, classes', s'))"
  shows "\<exists>st. processLine opts md text s 0 = Some (Inr (st, s'))"
proof -
  define s0 where "s0 = (if text = [] then snd (callBlankLine md s) else s)"
  obtain c0 where c0: "(if text = [] then rbind (extractLineClasses (o_regexp opts) (fst (callBlankLine md s)) classes) (\<lambda>(_, cls). Inr cls)
      else Inr classes) = Inr c0"
    using extractLineClasses_ok [OF blank_styles [OF assms(1)], of classes] by (cases "text = []") auto
  define r0 where "r0 = \<lparr>r_stream = StringStream text (o_tabSize opts), r_state = s0,
    r_flatten = (case m_flattenSpans md of Some b \<Rightarrow> b | None \<Rightarrow> o_flattenSpans opts), r_curStart = 0, r_curStyle = None,
    r_classes = c0, r_calls = []\<rparr>"
  have "inv (r_state r0)" "stream_ok (r_stream r0)" "s_start (r_stream r0) = s_pos (r_stream r0)"
    using assms(1) blank_keeps by (simp_all add: r0_def s0_def StringStream_def stream_ok_def)
  from run_loop_state [OF this, of force] obtain r' st' where r': "run_loop opts md force r0 = Some (Inr r')"
    "process_loop opts md (r_stream r0) (r_state r0) = Some (Inr (st', r_state r'))" by blast
  have "r_state r' = s'" using assms(2) r'(1) c0
    by (cases "callBlankLine md s") (auto simp: runMode_def Let_def r0_def s0_def split: if_splits)
  then show ?thesis using r'(2) by (simp add: processLine_def r0_def s0_def StringStream_def)
qed

end

context advancing_mode
begin

lemma after_ok:
  assumes "he_mode env = md" and "inv s"
  obtains st where "processLine (he_opts env) (he_mode env) t s 0 = Some (Inr (st, after env s t))" "inv (after env s t)"
  using processLine_ends [OF assms(2), of 0 t "he_opts env"] assms(1) by (auto simp: after_def)

lemma exact_inv: "he_mode env = md \<Longrightarrow> inv (he_start env) \<Longrightarrow> inv (exact env d k)"
proof -
  assume env: "he_mode env = md" "inv (he_start env)"
  have "inv s \<Longrightarrow> inv (foldl (after env) s ts)" for s ts
  proof (induction ts arbitrary: s)
    case (Cons t ts)
    have "inv (after env s t)" by (rule after_ok [OF env(1) Cons.prems])
    then show ?case using Cons.IH by simp
  qed simp
  then show ?thesis using env(2) by (simp add: exact_def)
qed

lemma process_lines_ok:
  fixes d :: "('st, 'x) doc_scheme"
  assumes env: "he_mode env = md" "inv (he_start env)"
  shows "doc_ok d \<Longrightarrow> k + length ls \<le> length (doc_lines d) \<Longrightarrow>
    \<forall>i < length ls. l_id (ls ! i) = l_id (doc_lines d ! (k + i)) \<and> l_text (ls ! i) = l_text (doc_lines d ! (k + i)) \<Longrightarrow>
    \<exists>d'. process_lines env V n (d_first d + int k) ls (exact env d k) d = Some (Inr (exact env d (k + length ls), d')) \<and> same_text d d' \<and>
      (\<forall>i < length (doc_lines d). l_stateAfter (doc_lines d' ! i) =
         (if k \<le> i \<and> i < k + length ls then (if saved V n (d_first d + int i) then Some (exact env d (Suc i)) else None)
          else l_stateAfter (doc_lines d ! i)))"
proof (induction ls arbitrary: k d)
  case Nil
  then show ?case by (auto simp: same_text_def)
next
  case (Cons l ls)
  have k: "k < length (doc_lines d)" "l_id l = l_id (doc_lines d ! k)" "l_text l = l_text (doc_lines d ! k)" using Cons.prems(2,3) by auto
  obtain st where st: "processLine (he_opts env) (he_mode env) (l_text l) (exact env d k) 0 = Some (Inr (st, exact env d (Suc k)))"
    using after_ok [OF env(1) exact_inv [OF env], of "l_text l"] unfolding exact_Suc [OF k(1)] k(3) by blast
  define s' where "s' = (if saved V n (d_first d + int k) then Some (exact env d (Suc k)) else None)"
  define d1 where "d1 = set_stateAfter d (l_id l) s'"
  have d1: "same_text d d1" "doc_lines d1 = (doc_lines d)[k := (doc_lines d ! k)\<lparr>l_stateAfter := s'\<rparr>]"
    using update_same_text [OF Cons.prems(1) k(1), of "\<lambda>l. l\<lparr>l_stateAfter := s'\<rparr>"] by (simp_all add: d1_def set_stateAfter_def k(2))
  have f: "doc_ok d1" "d_first d1 = d_first d" using d1(1) by (simp_all add: same_text_def)
  have ex: "exact env d1 j = exact env d j" for j by (rule exact_same_text [OF d1(1)])
  have rest: "\<forall>i < length ls. l_id (ls ! i) = l_id (doc_lines d1 ! (Suc k + i)) \<and> l_text (ls ! i) = l_text (doc_lines d1 ! (Suc k + i))"
    using Cons.prems(3) by (auto simp: d1(2))
  have "\<exists>d'. process_lines env V n (d_first d1 + int (Suc k)) ls (exact env d1 (Suc k)) d1 = Some (Inr (exact env d1 (Suc k + length ls), d')) \<and> same_text d1 d' \<and>
      (\<forall>i < length (doc_lines d1). l_stateAfter (doc_lines d' ! i) =
         (if Suc k \<le> i \<and> i < Suc k + length ls then (if saved V n (d_first d1 + int i) then Some (exact env d1 (Suc i)) else None)
          else l_stateAfter (doc_lines d1 ! i)))"
    using Cons.prems(2) same_text_length [OF d1(1)] by (intro Cons.IH [OF f(1) _ rest]) simp
  then obtain d' where d': "process_lines env V n (d_first d + int (Suc k)) ls (exact env d (Suc k)) d1 = Some (Inr (exact env d (Suc k + length ls), d'))"
    "same_text d1 d'" "\<And>i. i < length (doc_lines d) \<Longrightarrow> l_stateAfter (doc_lines d' ! i) =
         (if Suc k \<le> i \<and> i < Suc k + length ls then (if saved V n (d_first d + int i) then Some (exact env d (Suc i)) else None)
          else l_stateAfter (doc_lines d1 ! i))"
    unfolding f(2) ex same_text_length [OF d1(1)] by blast
  have "d_first d + int k + 1 = d_first d + int (Suc k)" by simp
  then have "process_lines env V n (d_first d + int k) (l # ls) (exact env d k) d = Some (Inr (exact env d (k + length (l # ls)), d'))"
    using st d'(1) by (simp add: s'_def [symmetric] d1_def [symmetric] ac_simps)
  moreover have "l_stateAfter (doc_lines d' ! i) = (if k \<le> i \<and> i < k + length (l # ls) then (if saved V n (d_first d + int i) then Some (exact env d (Suc i)) else None)
          else l_stateAfter (doc_lines d ! i))" if "i < length (doc_lines d)" for i
    using d'(3) [OF that] k(1) by (cases "i = k") (auto simp: d1(2) s'_def)
  ultimately show ?case using same_text_trans [OF d1(1) d'(2)] by blast
qed

end

section \<open>Exact states\<close>

text \<open>
  The invariant of the frontier: a state that is kept with a line before the frontier is the state of parsing from
  the start, and every fifth line has one.
\<close>

definition states_ok :: "'st hl_env \<Rightarrow> ('st, 'x) doc_scheme \<Rightarrow> int \<Rightarrow> bool" where
  "states_ok env d frontier \<longleftrightarrow>
     (\<forall>i < length (doc_lines d). d_first d + int i < frontier \<longrightarrow>
        (case l_stateAfter (doc_lines d ! i) of Some s \<Rightarrow> s = exact env d (Suc i) | None \<Rightarrow> (d_first d + int i) mod 5 \<noteq> 0))"

text \<open>A line before which parsing can start with an exact state.\<close>

definition good_start :: "('st, 'x) doc_scheme \<Rightarrow> int \<Rightarrow> nat \<Rightarrow> bool" where
  "good_start d frontier k \<longleftrightarrow>
     k = 0 \<or> (d_first d + int k \<le> frontier \<and> k \<le> length (doc_lines d) \<and> l_stateAfter (doc_lines d ! (k - 1)) \<noteq> None)"

lemma state_at_exact:
  assumes "doc_ok d" and "states_ok env d frontier" and "good_start d frontier k"
  shows "state_at env d (d_first d + int k) = Inr (exact env d k)"
proof (cases k)
  case 0
  then show ?thesis by (simp add: state_at_def exact_def)
next
  case (Suc i)
  then have i: "i < length (doc_lines d)" "d_first d + int i < frontier" "l_stateAfter (doc_lines d ! i) \<noteq> None"
    using assms(3) by (auto simp: good_start_def)
  have "getLine d (d_first d + int k - 1) = Inr (doc_lines d ! i)" using getLine_ok [OF assms(1) i(1)] Suc by simp
  then show ?thesis using i assms(2) Suc by (auto simp: state_at_def states_ok_def split: option.splits)
qed

lemma find_start_step:
  assumes d: "doc_ok d" and m: "m < length (doc_lines d)" and lim: "lim < d_first d + int (Suc m)"
  shows "find_start_loop env d frontier precise lim (d_first d + int (Suc m)) best =
    (if parse_from precise frontier (d_first d + int (Suc m)) (doc_lines d ! m) then Inr (Some (d_first d + int (Suc m)))
     else find_start_loop env d frontier precise lim (d_first d + int m) (less_indented env (doc_lines d ! m) (d_first d + int m) best))"
  using getLine_ok [OF d m] lim by (subst find_start_loop.simps) simp

lemma find_start_first: "lim < d_first d \<Longrightarrow> find_start_loop env d frontier precise lim (d_first d) best = Inr (Some (d_first d))"
  by (subst find_start_loop.simps) simp

lemma find_precise:
  assumes d: "doc_ok d" "0 \<le> d_first d"
  shows "m \<le> length (doc_lines d) \<Longrightarrow>
    \<exists>k \<le> m. find_start_loop env d frontier True (-1) (d_first d + int m) best = Inr (Some (d_first d + int k)) \<and> good_start d frontier k"
proof (induction m arbitrary: best)
  case 0
  then show ?case using find_start_first [of "-1" d] d(2) by (simp add: good_start_def)
next
  case (Suc m)
  have "-1 < d_first d + int (Suc m)" using d(2) by simp
  note step = find_start_step [OF d(1), of m "-1" env frontier True best, OF _ this]
  show ?case
  proof (cases "parse_from True frontier (d_first d + int (Suc m)) (doc_lines d ! m)")
    case True
    then show ?thesis using step Suc.prems by (intro exI [of _ "Suc m"]) (simp add: good_start_def parse_from_def)
  next
    case False
    from Suc.IH [of "less_indented env (doc_lines d ! m) (d_first d + int m) best"] Suc.prems obtain k where
      "k \<le> m" "find_start_loop env d frontier True (-1) (d_first d + int m) (less_indented env (doc_lines d ! m) (d_first d + int m) best) =
        Inr (Some (d_first d + int k))" "good_start d frontier k" by auto
    then show ?thesis using False step Suc.prems by (intro exI [of _ k]) simp
  qed
qed

lemma find_near:
  assumes d: "doc_ok d" "states_ok env d frontier" and q: "lim \<le> q" "q mod 5 = 0"
  shows "m \<le> length (doc_lines d) \<Longrightarrow> q < d_first d + int m \<Longrightarrow> d_first d + int m \<le> frontier \<Longrightarrow>
    \<exists>k \<le> m. find_start_loop env d frontier False lim (d_first d + int m) best = Inr (Some (d_first d + int k)) \<and> good_start d frontier k"
proof (induction m arbitrary: best)
  case 0
  then show ?case using find_start_first [of lim d] q(1) by (simp add: good_start_def)
next
  case (Suc m)
  have "lim < d_first d + int (Suc m)" using Suc.prems(2) q(1) by simp
  note step = find_start_step [OF d(1), of m lim env frontier False best, OF _ this]
  show ?case
  proof (cases "parse_from False frontier (d_first d + int (Suc m)) (doc_lines d ! m)")
    case True
    then show ?thesis using step Suc.prems by (intro exI [of _ "Suc m"]) (simp add: good_start_def parse_from_def)
  next
    case False
    then have "l_stateAfter (doc_lines d ! m) = None" by (simp add: parse_from_def)
    then have "(d_first d + int m) mod 5 \<noteq> 0" using d(2) Suc.prems(1,3) by (auto simp: states_ok_def dest!: spec [of _ m])
    then have "q < d_first d + int m" using Suc.prems(2) q(2) by (cases "q = d_first d + int m") auto
    from Suc.IH [OF _ this, of "less_indented env (doc_lines d ! m) (d_first d + int m) best"] Suc.prems obtain k where
      "k \<le> m" "find_start_loop env d frontier False lim (d_first d + int m) (less_indented env (doc_lines d ! m) (d_first d + int m) best) =
        Inr (Some (d_first d + int k))" "good_start d frontier k" by auto
    then show ?thesis using False step Suc.prems by (intro exI [of _ k]) simp
  qed
qed

lemma findStartLine_ok:
  assumes d: "doc_ok d" "states_ok env d frontier" "0 \<le> d_first d" and m: "m \<le> length (doc_lines d)"
    and n: "precise \<or> d_first d + int m \<le> frontier"
  obtains k where "k \<le> m" "findStartLine env d frontier (d_first d + int m) precise = Inr (Some (d_first d + int k))" "good_start d frontier k"
proof (cases precise)
  case True
  then show ?thesis using find_precise [OF d(1,3) m, of env frontier None] that by (auto simp: findStartLine_def)
next
  case False
  let ?n = "d_first d + int m"
  define lim where "lim = ?n - (if m_innerMode (he_mode env) \<noteq> None then 1000 else 100)"
  define q where "q = (?n - 1) - (?n - 1) mod 5"
  have "q mod 5 = 0" by (simp add: q_def minus_mod_eq_mult_div)
  moreover have "(?n - 1) mod 5 < 5" "0 \<le> (?n - 1) mod 5" "lim \<le> ?n - 100" by (simp_all add: lim_def)
  then have "lim \<le> q" "q < ?n" unfolding q_def by linarith+
  moreover have "findStartLine env d frontier ?n precise = find_start_loop env d frontier False lim ?n None"
    using False by (simp add: findStartLine_def lim_def)
  moreover have "?n \<le> frontier" using n False by simp
  ultimately show ?thesis using find_near [OF d(1,2), of lim q m None] m that by auto
qed

lemma lines_of_ok:
  "doc_ok d \<Longrightarrow> F \<le> E \<Longrightarrow> E \<le> length (doc_lines d) \<Longrightarrow> lines_of d (d_first d + int F) (d_first d + int E) = take (E - F) (drop F (doc_lines d))"
  using doc_iter_ok [of d F E "\<lambda>l out. (False, out @ [l])" "[]"] by (simp add: lines_of_def iter_collect)

context advancing_mode
begin

lemma getStateBefore_ok:
  assumes env: "he_mode env = md" "inv (he_start env)" and d: "d = hs_doc S" "doc_ok d" "0 \<le> d_first d" "states_ok env d (hs_frontier S)"
    and m: "m \<le> length (doc_lines d)" and n: "n = d_first d + int m" "precise \<or> n \<le> hs_frontier S"
  obtains d' where
    "getStateBefore env S n precise = Some (Inr (exact env d m, S\<lparr>hs_doc := d', hs_frontier := if precise then n else hs_frontier S\<rparr>))"
    "same_text d d'" "states_ok env d' (if precise then n else hs_frontier S)"
proof -
  obtain k where k: "k \<le> m" "findStartLine env d (hs_frontier S) n precise = Inr (Some (d_first d + int k))" "good_start d (hs_frontier S) k"
    unfolding n(1) by (rule findStartLine_ok [OF d(2,4,3) m n(2) [unfolded n(1)]])
  have s0: "state_at env d (d_first d + int k) = Inr (exact env d k)" by (rule state_at_exact [OF d(2,4) k(3)])
  define ls where "ls = take (m - k) (drop k (doc_lines d))"
  have ls: "lines_of d (d_first d + int k) n = ls" "length ls = m - k" using lines_of_ok [OF d(2) k(1) m] m k(1) by (simp_all add: ls_def n(1))
  have "\<forall>i < length ls. l_id (ls ! i) = l_id (doc_lines d ! (k + i)) \<and> l_text (ls ! i) = l_text (doc_lines d ! (k + i))"
    using m k(1) by (simp add: ls_def)
  from process_lines_ok [OF env d(2) _ this, of "hs_display S" n] obtain d' where
    d': "process_lines env (hs_display S) n (d_first d + int k) ls (exact env d k) d = Some (Inr (exact env d m, d'))" "same_text d d'"
      "\<And>i. i < length (doc_lines d) \<Longrightarrow> l_stateAfter (doc_lines d' ! i) =
         (if k \<le> i \<and> i < m then (if saved (hs_display S) n (d_first d + int i) then Some (exact env d (Suc i)) else None)
          else l_stateAfter (doc_lines d ! i))"
    using m k(1) ls(2) by auto
  have "d_first d + int k + int (length ls) = n" using ls(2) k(1) by (simp add: n(1))
  then have "getStateBefore env S n precise = Some (Inr (exact env d m, S\<lparr>hs_doc := d', hs_frontier := if precise then n else hs_frontier S\<rparr>))"
    using k(2) s0 ls(1) d'(1) by (simp add: getStateBefore_def d(1) [symmetric])
  moreover have "states_ok env d' (if precise then n else hs_frontier S)"
    unfolding states_ok_def
  proof (intro allI impI)
    fix i assume i: "i < length (doc_lines d')" "d_first d' + int i < (if precise then n else hs_frontier S)"
    have f: "d_first d' = d_first d" "i < length (doc_lines d)" using d'(2) same_text_length [OF d'(2)] i(1) by (simp_all add: same_text_def)
    have old: "k \<le> i \<and> i < m \<or> d_first d + int i < hs_frontier S" using i(2) f(1) k(3) n by (auto simp: good_start_def split: if_splits)
    show "case l_stateAfter (doc_lines d' ! i) of Some s \<Rightarrow> s = exact env d' (Suc i) | None \<Rightarrow> (d_first d' + int i) mod 5 \<noteq> 0"
    proof (cases "k \<le> i \<and> i < m")
      case True
      then show ?thesis using d'(3) [OF f(2)] by (simp add: f(1) exact_same_text [OF d'(2)] saved_def)
    next
      case False
      then have "d_first d + int i < hs_frontier S" using old by blast
      then show ?thesis using d(4) f(2) d'(3) [OF f(2)] False
        by (cases "l_stateAfter (doc_lines d ! i)") (auto simp: states_ok_def f(1) exact_same_text [OF d'(2)])
    qed
  qed
  ultimately show ?thesis using d'(2) by (intro that)
qed

end

text \<open>
  A state that need not be precise is found for every line, from whatever states are kept with the lines: within a
  hundred (or a thousand) lines the line that is indented least is taken to start from the start state.
\<close>

definition kept_states :: "('st \<Rightarrow> bool) \<Rightarrow> ('st, 'x) doc_scheme \<Rightarrow> bool" where
  "kept_states good d \<longleftrightarrow> list_all (\<lambda>l. case l_stateAfter l of Some s \<Rightarrow> good s | None \<Rightarrow> True) (doc_lines d)"

lemma find_start_returns:
  assumes d: "doc_ok d"
  shows "m \<le> M \<Longrightarrow> M \<le> length (doc_lines d) \<Longrightarrow> \<forall>p i. best = Some (p, i) \<longrightarrow> (\<exists>j \<le> M. p = d_first d + int j) \<Longrightarrow>
    lim < d_first d + int m \<or> best \<noteq> None \<Longrightarrow>
    \<exists>k \<le> M. find_start_loop env d frontier precise lim (d_first d + int m) best = Inr (Some (d_first d + int k))"
proof (induction m arbitrary: best)
  case 0
  show ?case
  proof (cases "lim < d_first d")
    case True
    then show ?thesis using find_start_first [of lim d] by (intro exI [of _ 0]) simp
  next
    case False
    then show ?thesis using 0 by (subst find_start_loop.simps) auto
  qed
next
  case (Suc m)
  show ?case
  proof (cases "lim < d_first d + int (Suc m)")
    case True
    let ?best = "less_indented env (doc_lines d ! m) (d_first d + int m) best"
    have m: "m < length (doc_lines d)" using Suc.prems(1,2) by simp
    have "\<forall>p i. ?best = Some (p, i) \<longrightarrow> (\<exists>j \<le> M. p = d_first d + int j)" "?best \<noteq> None"
      using Suc.prems(1,3) by (auto simp: less_indented_def Let_def split: option.splits if_splits intro!: exI [of _ m])
    then have "\<exists>k \<le> M. find_start_loop env d frontier precise lim (d_first d + int m) ?best = Inr (Some (d_first d + int k))"
      using Suc.IH [of ?best] Suc.prems(1,2) by simp
    then show ?thesis using Suc.prems(1) unfolding find_start_step [OF d m True] by auto
  next
    case False
    then show ?thesis using Suc.prems(3,4) by (subst find_start_loop.simps) auto
  qed
qed

context advancing_mode
begin

lemma process_lines_returns:
  "he_mode env = md \<Longrightarrow> inv s \<Longrightarrow> \<exists>s' d'. process_lines env V n p ls s d = Some (Inr (s', d')) \<and> inv s'"
proof (induction ls arbitrary: p s d)
  case (Cons l ls)
  obtain st where st: "processLine (he_opts env) (he_mode env) (l_text l) s 0 = Some (Inr (st, after env s (l_text l)))" "inv (after env s (l_text l))"
    by (rule after_ok [OF Cons.prems])
  then show ?case using Cons.IH [OF Cons.prems(1) st(2)] by simp
qed simp

lemma getStateBefore_returns:
  assumes env: "he_mode env = md" "inv (he_start env)" and d: "doc_ok (hs_doc S)" "kept_states inv (hs_doc S)"
    and m: "m \<le> length (doc_lines (hs_doc S))"
  shows "\<exists>s S1. getStateBefore env S (d_first (hs_doc S) + int m) False = Some (Inr (s, S1)) \<and> inv s"
proof -
  let ?d = "hs_doc S" and ?n = "d_first (hs_doc S) + int m"
  define lim where "lim = ?n - (if m_innerMode (he_mode env) \<noteq> None then 1000 else 100)"
  have "lim < ?n" by (simp add: lim_def)
  then obtain k where k: "k \<le> m" "findStartLine env ?d (hs_frontier S) ?n False = Inr (Some (d_first ?d + int k))"
    using find_start_returns [OF d(1) order_refl m, of None lim env "hs_frontier S" False] by (auto simp: findStartLine_def lim_def)
  have "\<exists>s0. state_at env ?d (d_first ?d + int k) = Inr s0 \<and> inv s0"
  proof (cases k)
    case (Suc i)
    then have i: "i < length (doc_lines ?d)" using k(1) m by simp
    then have "case l_stateAfter (doc_lines ?d ! i) of Some s \<Rightarrow> inv s | None \<Rightarrow> True" using d(2) by (simp add: kept_states_def list_all_length)
    then show ?thesis using getLine_ok [OF d(1) i] Suc env(2) by (auto simp: state_at_def split: option.splits)
  qed (simp add: state_at_def env(2))
  then obtain s0 where s0: "state_at env ?d (d_first ?d + int k) = Inr s0" "inv s0" by blast
  obtain s d' where "process_lines env (hs_display S) ?n (d_first ?d + int k) (lines_of ?d (d_first ?d + int k) ?n) s0 ?d = Some (Inr (s, d'))" "inv s"
    using process_lines_returns [OF env(1) s0(2)] by blast
  then show ?thesis using k(2) s0(1) by (simp add: getStateBefore_def)
qed

end

text \<open>C21: The state that \<open>getStateBefore\<close> returns is the state of parsing the document from its start, whenever the caller asks for a
  precise one or the line is not behind the frontier; parsing always ends, no text changes, and the states
  that are kept with the lines before the frontier stay exact. The mode advances and does not throw, and the
  number of the first line of the document is not negative.\<close>

theorem getStateBefore_exact:
  assumes "advancing_mode (he_mode env) good" and "good (he_start env)" and "doc_ok (hs_doc S)" and "0 \<le> d_first (hs_doc S)"
    and "states_ok env (hs_doc S) (hs_frontier S)" and "m \<le> length (doc_lines (hs_doc S))"
    and "precise \<or> d_first (hs_doc S) + int m \<le> hs_frontier S"
  shows "\<exists>S'. getStateBefore env S (d_first (hs_doc S) + int m) precise =
      Some (Inr (foldl (after env) (he_start env) (take m (doc_text (hs_doc S))), S')) \<and>
    same_text (hs_doc S) (hs_doc S') \<and> states_ok env (hs_doc S') (hs_frontier S') \<and>
    hs_frontier S' = (if precise then d_first (hs_doc S) + int m else hs_frontier S)"
proof -
  obtain d' where "getStateBefore env S (d_first (hs_doc S) + int m) precise =
      Some (Inr (exact env (hs_doc S) m, S\<lparr>hs_doc := d', hs_frontier := if precise then d_first (hs_doc S) + int m else hs_frontier S\<rparr>))"
    "same_text (hs_doc S) d'" "states_ok env d' (if precise then d_first (hs_doc S) + int m else hs_frontier S)"
    by (rule advancing_mode.getStateBefore_ok [OF assms(1) refl assms(2) refl assms(3-6) refl assms(7)])
  then show ?thesis by (simp add: exact_def)
qed

section \<open>The worker\<close>

lemma regLineChange_ok:
  assumes "view_fits saw lo hi V"
  shows "\<exists>V'. regLineChange V n ty = Inr V' \<and> view_fits saw lo hi V'"
proof -
  define V1 where "V1 = V\<lparr>v_viewChanged := True, v_externalMeasured := (case v_externalMeasured V of
      Some (k, s) \<Rightarrow> if n \<ge> k \<and> n < k + s then None else Some (k, s) | None \<Rightarrow> None)\<rparr>"
  have V1: "view_fits saw lo hi V1" using assms by (simp add: V1_def)
  show ?thesis
  proof (cases "n < v_from V1 \<or> n \<ge> v_to V1")
    case True
    then show ?thesis using V1 by (simp add: regLineChange_def V1_def [symmetric])
  next
    case False
    then obtain i where i: "findViewIndex V1 n = At i" "i < length (v_view V1)" using findViewIndex_in_view [OF V1, of n] by auto
    have "view_fits saw lo hi (V1\<lparr>v_view := (v_view V1)[i := (v_view V1 ! i)\<lparr>lv_changes := c\<rparr>]\<rparr>)" for c
    proof -
      have m: "map lv_size ((v_view V1)[i := (v_view V1 ! i)\<lparr>lv_changes := c\<rparr>]) = map lv_size (v_view V1)" using i(2) by (simp add: map_update_same)
      have "sizes_ok saw us" if "map lv_size us = map lv_size vs" "sizes_ok saw vs" for us vs
        using that by (simp add: sizes_ok_def) (metis (no_types, lifting) in_set_conv_nth length_map nth_map nth_mem)
      then show ?thesis using V1 m by (simp add: view_fits_def sizes_def)
    qed
    then show ?thesis using False i(1) V1 by (auto simp: regLineChange_def V1_def [symmetric] Let_def)
  qed
qed

lemma states_ok_next:
  assumes ok: "states_ok env d (d_first d + int k)" and k: "k < length (doc_lines d)" and d': "same_text d d'"
    and others: "\<And>i. i < length (doc_lines d) \<Longrightarrow> i \<noteq> k \<Longrightarrow> l_stateAfter (doc_lines d' ! i) = l_stateAfter (doc_lines d ! i)"
    and this_line: "case l_stateAfter (doc_lines d' ! k) of Some s \<Rightarrow> s = exact env d (Suc k) | None \<Rightarrow> (d_first d + int k) mod 5 \<noteq> 0"
  shows "states_ok env d' (d_first d + int (Suc k))"
  unfolding states_ok_def
proof (intro allI impI)
  fix i assume i: "i < length (doc_lines d')" "d_first d' + int i < d_first d + int (Suc k)"
  have f: "d_first d' = d_first d" "i < length (doc_lines d)" "i \<le> k" using d' same_text_length [OF d'] i by (simp_all add: same_text_def)
  show "case l_stateAfter (doc_lines d' ! i) of Some s \<Rightarrow> s = exact env d' (Suc i) | None \<Rightarrow> (d_first d' + int i) mod 5 \<noteq> 0"
  proof (cases "i = k")
    case True
    then show ?thesis using this_line by (cases "l_stateAfter (doc_lines d' ! k)") (simp_all add: f(1) exact_same_text [OF d'])
  next
    case False
    then show ?thesis using ok f(2,3) others [OF f(2) False]
      by (cases "l_stateAfter (doc_lines d ! i)") (auto simp: states_ok_def f(1) exact_same_text [OF d'])
  qed
qed

context styled_mode
begin

lemma highlight_ok:
  assumes env: "he_mode env = md" "he_opts env = opts" and s: "inv s" and ov: "\<forall>(m, opq) \<in> set (he_overlays env). styled_mode m (\<lambda>_. True) opts"
  obtains styles classes where
    "highlightLine (he_opts env) (he_mode env) (he_overlays env) t s force = Some (Inr (styles, classes, after env s t))"
proof -
  obtain calls cls s' where r: "runMode opts t md s no_classes force = Some (Inr (calls, cls, s'))" "tiling 0 calls (length t)"
    using runMode_tiles [OF s] by blast
  obtain st where st: "processLine opts md t s 0 = Some (Inr (st, s'))" using runMode_state [OF s r(1)] by blast
  then have "after env s t = s'" by (simp add: after_def env)
  moreover obtain styles cls' where "run_overlays opts t (he_overlays env) calls cls = Some (Inr (styles, cls'))"
    using run_overlays_tiles [OF ov r(2)] by blast
  ultimately show ?thesis using r(1) by (intro that) (simp add: highlightLine_def env)
qed

lemma worker_line_ok:
  assumes env: "he_mode env = md" "inv (he_start env)" "\<forall>(m, opq) \<in> set (he_overlays env). styled_mode m (\<lambda>_. True) opts" "he_opts env = opts"
    and d: "d = hs_doc S" "doc_ok d" "hs_frontier S = d_first d + int k" "k < length (doc_lines d)" "states_ok env d (hs_frontier S)"
    and V: "view_fits saw lo hi (hs_display S)" and l: "l_id l = l_id (doc_lines d ! k)" "l_text l = l_text (doc_lines d ! k)"
  shows "\<exists>S'. worker_line env l (exact env d k) S = Some (Inr (exact env d (Suc k), S')) \<and> same_text d (hs_doc S') \<and>
    hs_frontier S' = d_first d + int (Suc k) \<and> states_ok env (hs_doc S') (d_first d + int (Suc k)) \<and> view_fits saw lo hi (hs_display S')"
proof -
  have ex: "after env (exact env d k) (l_text l) = exact env d (Suc k)" by (simp add: exact_Suc [OF d(4)] l(2))
  have keep: "same_text d d'" "states_ok env d' (d_first d + int (Suc k))"
    if f: "\<And>l. l_text (f l) = l_text l" "\<And>l. l_id (f l) = l_id l"
      "\<And>l. case l_stateAfter (f l) of Some s \<Rightarrow> s = exact env d (Suc k) | None \<Rightarrow> (d_first d + int k) mod 5 \<noteq> 0"
      and d': "d' = doc_update d (l_id l) f" for f d'
  proof -
    note up = update_same_text [OF d(2,4), of f, OF f(1,2), folded l(1), folded d']
    show "same_text d d'" by (rule up(1))
    show "states_ok env d' (d_first d + int (Suc k))"
      by (rule states_ok_next [OF d(5) [unfolded d(3)] d(4) up(1)]) (use f(3) d(4) in \<open>simp_all add: up(2)\<close>)
  qed
  show ?thesis
  proof (cases "hs_frontier S \<ge> v_from (hs_display S)")
    case True
    obtain styles classes where h: "highlightLine (he_opts env) (he_mode env) (he_overlays env) (l_text l) (exact env d k) True =
        Some (Inr (styles, classes, exact env d (Suc k)))"
      using highlight_ok [OF env(1,4) exact_inv [OF env(1,2), of d k] env(3), where t = "l_text l" and force = True] unfolding ex by blast
    obtain V' where V': "(if styles_change env S l styles classes then regLineChange (hs_display S) (hs_frontier S) (js ''text'') else Inr (hs_display S)) = Inr V'"
      "view_fits saw lo hi V'" using regLineChange_ok [OF V, of "hs_frontier S" "js ''text''"] V by (cases "styles_change env S l styles classes") auto
    define d' where "d' = doc_update d (l_id l) (\<lambda>l. l\<lparr>l_styles := Some styles, l_stateAfter := Some (exact env d (Suc k))\<rparr>)"
    have "same_text d d'" "states_ok env d' (d_first d + int (Suc k))" by (rule keep [OF _ _ _ d'_def]; simp)+
    then show ?thesis using True h V' by (simp add: worker_line_def set_styles_def d(1) [symmetric] d'_def [symmetric] d(3))
  next
    case False
    obtain st where st: "processLine (he_opts env) (he_mode env) (l_text l) (exact env d k) 0 = Some (Inr (st, exact env d (Suc k)))"
      using after_ok [OF env(1) exact_inv [OF env(1,2), of d k], where t = "l_text l"] unfolding ex by blast
    define s' where "s' = (if (d_first d + int k) mod 5 = 0 then Some (exact env d (Suc k)) else None)"
    define d' where "d' = doc_update d (l_id l) (\<lambda>l. l\<lparr>l_stateAfter := s'\<rparr>)"
    have "same_text d d'" "states_ok env d' (d_first d + int (Suc k))" by (rule keep [OF _ _ _ d'_def]; simp add: s'_def)+
    then show ?thesis using False st V by (simp add: worker_line_def set_stateAfter_def d(1) [symmetric] s'_def [symmetric] d'_def [symmetric] d(3))
  qed
qed

lemma worker_loop_ok:
  assumes env: "he_mode env = md" "inv (he_start env)" "\<forall>(m, opq) \<in> set (he_overlays env). styled_mode m (\<lambda>_. True) opts" "he_opts env = opts"
  shows "doc_ok (hs_doc S) \<Longrightarrow> hs_frontier S = d_first (hs_doc S) + int k \<Longrightarrow> states_ok env (hs_doc S) (hs_frontier S) \<Longrightarrow>
    view_fits saw lo hi (hs_display S) \<Longrightarrow> k + length ls \<le> length (doc_lines (hs_doc S)) \<Longrightarrow>
    \<forall>i < length ls. l_id (ls ! i) = l_id (doc_lines (hs_doc S) ! (k + i)) \<and> l_text (ls ! i) = l_text (doc_lines (hs_doc S) ! (k + i)) \<Longrightarrow>
    \<exists>S'. worker_loop env late ls (exact env (hs_doc S) k) S = Some (Inr S') \<and> same_text (hs_doc S) (hs_doc S') \<and>
      states_ok env (hs_doc S') (hs_frontier S') \<and> view_fits saw lo hi (hs_display S') \<and>
      hs_frontier S' \<le> hs_frontier S + int (length ls) \<and>
      (hs_frontier S' = hs_frontier S + int (length ls) \<or> hs_frontier S < hs_frontier S' \<and> late (hs_frontier S'))"
proof (induction ls arbitrary: k S)
  case Nil
  then show ?case by (auto simp: same_text_def)
next
  case (Cons l ls)
  let ?d = "hs_doc S"
  have k: "k < length (doc_lines ?d)" "l_id l = l_id (doc_lines ?d ! k)" "l_text l = l_text (doc_lines ?d ! k)" using Cons.prems(5,6) by auto
  from worker_line_ok [OF env refl Cons.prems(1,2) k(1) Cons.prems(3,4) k(2,3)]
  obtain S1 where S1: "worker_line env l (exact env ?d k) S = Some (Inr (exact env ?d (Suc k), S1))" "same_text ?d (hs_doc S1)"
    "hs_frontier S1 = d_first ?d + int (Suc k)" "states_ok env (hs_doc S1) (hs_frontier S1)" "view_fits saw lo hi (hs_display S1)" by force
  have f: "doc_ok (hs_doc S1)" "d_first (hs_doc S1) = d_first ?d" "hs_frontier S1 = hs_frontier S + 1"
    using S1(2,3) Cons.prems(2) by (simp_all add: same_text_def)
  show ?case
  proof (cases "late (hs_frontier S1)")
    case True
    then show ?thesis using S1(1,2,4,5) f(3) by (intro exI [of _ S1]) simp
  next
    case False
    have same: "l_id (doc_lines (hs_doc S1) ! i) = l_id (doc_lines ?d ! i) \<and> l_text (doc_lines (hs_doc S1) ! i) = l_text (doc_lines ?d ! i)"
      if "i < length (doc_lines ?d)" for i
      using S1(2) same_text_length [OF S1(2)] that unfolding same_text_def doc_text_def by (metis nth_map)
    have "\<exists>S'. worker_loop env late ls (exact env (hs_doc S1) (Suc k)) S1 = Some (Inr S') \<and> same_text (hs_doc S1) (hs_doc S') \<and>
      states_ok env (hs_doc S') (hs_frontier S') \<and> view_fits saw lo hi (hs_display S') \<and>
      hs_frontier S' \<le> hs_frontier S1 + int (length ls) \<and>
      (hs_frontier S' = hs_frontier S1 + int (length ls) \<or> hs_frontier S1 < hs_frontier S' \<and> late (hs_frontier S'))"
      using S1(3) Cons.prems(5,6) same_text_length [OF S1(2)]
      by (intro Cons.IH f(1) S1(4,5)) (auto simp: f(2) same)
    then obtain S' where S': "worker_loop env late ls (exact env ?d (Suc k)) S1 = Some (Inr S')" "same_text (hs_doc S1) (hs_doc S')"
      "states_ok env (hs_doc S') (hs_frontier S')" "view_fits saw lo hi (hs_display S')" "hs_frontier S' \<le> hs_frontier S1 + int (length ls)"
      "hs_frontier S' = hs_frontier S1 + int (length ls) \<or> hs_frontier S1 < hs_frontier S' \<and> late (hs_frontier S')"
      unfolding exact_same_text [OF S1(2)] by (elim exE conjE) (rule that; assumption)
    show ?thesis
      by (rule exI [of _ S'], intro conjI same_text_trans [OF S1(2) S'(2)] S'(3,4)) (use False S1(1) S'(1,5,6) f(3) in auto)
  qed
qed

end

text \<open>C20: The worker always ends, changes no text, never moves the frontier back and keeps the invariant: the states kept with
  the lines before the new frontier are those of parsing the document from its start. It stops only when
  its time is up, or when all lines of the view (as far as the document has them) lie before the frontier. The mode and
  the overlays advance, and \<^verbatim>\<open>RegExp\<close> accepts the line classes in their styles; the number of the first line is not negative.\<close>

theorem highlightWorker_exact:
  assumes mode: "styled_mode (he_mode env) good (he_opts env)" "good (he_start env)"
    and over: "\<forall>(m, opq) \<in> set (he_overlays env). styled_mode m (\<lambda>_. True) (he_opts env)"
    and d: "doc_ok (hs_doc S)" "0 \<le> d_first (hs_doc S)" and ok: "states_ok env (hs_doc S) (hs_frontier S)"
    and fr: "hs_frontier S \<le> d_first (hs_doc S) + d_size (hs_doc S)" and V: "view_fits saw lo hi (hs_display S)"
  shows "\<exists>S'. highlightWorker env late S = Some (Inr S') \<and> same_text (hs_doc S) (hs_doc S') \<and>
    states_ok env (hs_doc S') (hs_frontier S') \<and> hs_frontier S \<le> hs_frontier S' \<and>
    (late (hs_frontier S') \<or> min (v_to (hs_display S)) (d_first (hs_doc S) + d_size (hs_doc S)) \<le> hs_frontier S')"
proof -
  let ?d = "hs_doc S" and ?V = "hs_display S"
  define S1 where "S1 = (if hs_frontier S < d_first ?d then S\<lparr>hs_frontier := d_first ?d\<rparr> else S)"
  have S1: "hs_doc S1 = ?d" "hs_display S1 = ?V" "hs_frontier S \<le> hs_frontier S1" "d_first ?d \<le> hs_frontier S1" "states_ok env ?d (hs_frontier S1)"
    using ok by (auto simp: S1_def states_ok_def)
  define k where "k = nat (hs_frontier S1 - d_first ?d)"
  have len: "d_size ?d = int (length (doc_lines ?d))" by (rule d_size_ok [OF d(1)])
  have k: "hs_frontier S1 = d_first ?d + int k" "k \<le> length (doc_lines ?d)" using S1(4) fr len by (auto simp: k_def S1_def)
  show ?thesis
  proof (cases "hs_frontier S1 \<ge> v_to ?V")
    case True
    then have "highlightWorker env late S = Some (Inr S1)" by (simp add: highlightWorker_def S1_def [symmetric] S1(2) Let_def)
    then show ?thesis using True S1 d(1) by (intro exI [of _ S1]) (auto simp: same_text_def)
  next
    case False
    obtain d' where g: "getStateBefore env S1 (hs_frontier S1) False = Some (Inr (exact env ?d k, S1\<lparr>hs_doc := d', hs_frontier := if False then hs_frontier S1 else hs_frontier S1\<rparr>))"
      "same_text ?d d'" "states_ok env d' (if False then hs_frontier S1 else hs_frontier S1)"
      by (rule advancing_mode.getStateBefore_ok [OF styled_mode.axioms(1) [OF mode(1)] refl mode(2) S1(1) [symmetric] d S1(5) k(2,1)]) simp
    define S2 where "S2 = S1\<lparr>hs_doc := d'\<rparr>"
    have f: "doc_ok d'" "d_first d' = d_first ?d" "length (doc_lines d') = length (doc_lines ?d)" using g(2) same_text_length [OF g(2)] by (simp_all add: same_text_def)
    then have size: "d_size d' = int (length (doc_lines ?d))" using d_size_ok [OF f(1)] by simp
    define E where "E = nat (min (int (length (doc_lines ?d))) (v_to ?V + 500 - d_first ?d))"
    have E: "k \<le> E" "E \<le> length (doc_lines d')" "min (d_first d' + d_size d') (v_to ?V + 500) = d_first d' + int E"
      using False k f(3) by (auto simp: E_def f(2) size k(1))
    define ls where "ls = take (E - k) (drop k (doc_lines d'))"
    have ls: "lines_of d' (hs_frontier S1) (min (d_first d' + d_size d') (v_to ?V + 500)) = ls" "length ls = E - k"
      unfolding E(3) k(1) f(2) [symmetric] using lines_of_ok [OF f(1) E(1,2)] E(1,2) by (simp_all add: ls_def)
    have same: "\<forall>i < length ls. l_id (ls ! i) = l_id (doc_lines (hs_doc S2) ! (k + i)) \<and> l_text (ls ! i) = l_text (doc_lines (hs_doc S2) ! (k + i))"
      using E(1,2) by (simp add: ls_def S2_def)
    obtain S' where S': "worker_loop env late ls (exact env (hs_doc S2) k) S2 = Some (Inr S')" "same_text (hs_doc S2) (hs_doc S')"
      "states_ok env (hs_doc S') (hs_frontier S')"
      "hs_frontier S' = hs_frontier S2 + int (length ls) \<or> hs_frontier S2 < hs_frontier S' \<and> late (hs_frontier S')"
      using styled_mode.worker_loop_ok [OF mode(1) refl mode(2) over refl, of S2 k saw lo hi ls late, OF _ _ _ _ _ same] g(3) f E(1,2) ls(2) k(1) V
      by (auto simp: S2_def S1(2))
    have "highlightWorker env late S = Some (Inr S')"
      using False g(1) ls(1) S'(1) by (simp add: highlightWorker_def S1_def [symmetric] Let_def S1(1,2) S2_def exact_same_text [OF g(2)])
    moreover have "hs_frontier S \<le> hs_frontier S' \<and> (late (hs_frontier S') \<or> min (v_to ?V) (d_first ?d + d_size ?d) \<le> hs_frontier S')"
      using S'(4) S1(3) ls(2) E k(1) f(2) size len by (auto simp: S2_def)
    ultimately show ?thesis using S'(3) same_text_trans [OF g(2)] S'(2) by (auto simp: S2_def)
  qed
qed

section \<open>Witnesses\<close>

definition example_env :: "sml_state hl_env" where
  "example_env = \<lparr>he_mode = smlMode, he_start = startState,
     he_opts = example_opts, he_overlays = [(plain_overlay, False)], he_gen = 0\<rparr>"

definition example_state :: "sml_state doc \<Rightarrow> (sml_state, unit) hl_state" where
  "example_state d = \<lparr>hs_doc = d, hs_frontier = 0, hs_display = no_view\<lparr>v_view := [\<lparr>lv_line = 0, lv_rest = [], lv_size = 1, lv_hidden = False, lv_node = False, lv_changes = None\<rparr>], v_to := 1\<rparr>,
     hs_classes = (\<lambda>_. None), hs_gens = (\<lambda>_. 0)\<rparr>"

definition example_lines :: "jsstring list" where
  "example_lines = [js ''val x = (* a'', js ''b *) 1'']"

lemma example_ok:
  obtains d :: "sml_state doc" where "docWithLines example_lines 0 () = Inr d" "doc_ok d" "d_first d = 0" "doc_text d = example_lines"
    "length (doc_lines d) = 2"
proof -
  obtain d :: "sml_state doc" where d: "docWithLines example_lines 0 () = Inr d" "doc_ok d" "d_first d = 0" "doc_text d = example_lines"
    using docWithLines_ok [of example_lines 0 "()"] by (auto simp: example_lines_def)
  then have "length (doc_lines d) = 2" using length_doc_text [of d] by (simp add: example_lines_def)
  with d show ?thesis by (rule that)
qed

lemma example_env_ok: "advancing_mode (he_mode example_env) sml_ok" "sml_ok (he_start example_env)"
  "styled_mode (he_mode example_env) sml_ok (he_opts example_env)"
  "\<forall>(m, opq) \<in> set (he_overlays example_env). styled_mode m (\<lambda>_. True) (he_opts example_env)"
  using sml.advancing_mode_axioms sml_styled.styled_mode_axioms startState_ok plain_overlay_styled by (simp_all add: example_env_def)

text \<open>The state before the second line is that of being inside of a comment.\<close>

lemma example_after: "foldl (after example_env) (he_start example_env) (take 1 example_lines) = \<lparr>tokenize = TokComment, commentDepth = 1\<rparr>"
  by code_simp

theorem getStateBefore_exact_witness:
  "\<exists>d S'. docWithLines example_lines 0 () = Inr d \<and>
     getStateBefore example_env (example_state d) 1 True = Some (Inr (\<lparr>tokenize = TokComment, commentDepth = 1\<rparr>, S')) \<and> hs_frontier S' = 1"
proof -
  obtain d :: "sml_state doc" where d: "docWithLines example_lines 0 () = Inr d" "doc_ok d" "d_first d = 0" "doc_text d = example_lines"
    "length (doc_lines d) = 2" by (rule example_ok)
  have "states_ok example_env (hs_doc (example_state d)) (hs_frontier (example_state d))" by (simp add: states_ok_def example_state_def d(3))
  then show ?thesis using getStateBefore_exact [OF example_env_ok(1,2), of "example_state d" 1 True] d example_after
    by (simp add: example_state_def) blast
qed

theorem highlightWorker_exact_witness:
  "\<exists>d S'. docWithLines example_lines 0 () = Inr d \<and> highlightWorker example_env (\<lambda>_. False) (example_state d) = Some (Inr S') \<and>
     states_ok example_env (hs_doc S') (hs_frontier S') \<and> 1 \<le> hs_frontier S'"
proof -
  obtain d :: "sml_state doc" where d: "docWithLines example_lines 0 () = Inr d" "doc_ok d" "d_first d = 0" "doc_text d = example_lines"
    "length (doc_lines d) = 2" by (rule example_ok)
  have "states_ok example_env (hs_doc (example_state d)) (hs_frontier (example_state d))" by (simp add: states_ok_def example_state_def d(3))
  moreover have "view_fits True 0 1 (hs_display (example_state d))" by (simp add: view_fits_def example_state_def no_view_def)
  ultimately show ?thesis using highlightWorker_exact [OF example_env_ok(3,2,4), of "example_state d" True 0 1 "\<lambda>_. False"] d d_size_ok [OF d(2)]
    by (simp add: example_state_def no_view_def) blast
qed

end
