(* ===== verification/Indent.thy ===== *)
theory Indent
  imports HighlightState UndoRedo
begin

text \<open>
  Indentation of lines (\<^verbatim>\<open>src/js/codemirror/codemirror.js\<close>, \<open>indentLine\<close> and the methods of the editor on it). The main
  result is that a line gets white space that ends in the wanted column, and that nothing else changes.

  After a change the editor also lowers \<^verbatim>\<open>doc.frontier\<close> and updates its view (\<open>makeChangeSingleDocInEditor\<close>); this is not
  part of the state here, and indentation does not read it: it asks for a state that need not be precise.
\<close>

section \<open>Definitions\<close>

datatype indent_how = Smart | Prev | Add | Subtract | By int

text \<open>
  What indentation reads of the editor: the \<^verbatim>\<open>indent\<close> method of the mode, which gives a column or \<^verbatim>\<open>Pass\<close> (\<open>None\<close>), the
  options, whether \<^verbatim>\<open>split\<close> drops empty strings, and the environments of changes and of highlighting.
\<close>

record 'st indent_env =
  ie_env :: "'st env"
  ie_hl :: "'st hl_env"
  ie_indent :: "('st \<Rightarrow> jsstring \<Rightarrow> jsstring \<Rightarrow> int option) option"
  ie_indentUnit :: int
  ie_indentWithTabs :: bool
  ie_smartIndent :: bool
  ie_broken_split :: bool

definition prev_column :: "'st indent_env \<Rightarrow> ('st, 'x) doc_scheme \<Rightarrow> int \<Rightarrow> doc_exn + int" where
  "prev_column ie d n =
     (if n > d_first d
      then rbind (getLine d (n - 1)) (\<lambda>l. Inr (countColumn (l_text l) None (o_tabSize (he_opts (ie_hl ie))) 0 0))
      else Inr 0)"

text \<open>The new column of the line, or nothing when the mode passes; \<open>state\<close> exists when the mode indents.\<close>

definition indentation ::
  "'st indent_env \<Rightarrow> ('st, 'x) doc_scheme \<Rightarrow> int \<Rightarrow> indent_how \<Rightarrow> bool \<Rightarrow> 'st option \<Rightarrow> jsstring \<Rightarrow> doc_exn + int option" where
  "indentation ie d n how aggressive state line =
     (let curSpace = countColumn line None (o_tabSize (he_opts (ie_hl ie))) 0 0
      in if \<not> aggressive \<and> list_all is_space line then Inr (Some 0)
         else case how of
                Smart \<Rightarrow>
                  (case (ie_indent ie, state) of
                     (Some f, Some s) \<Rightarrow>
                       (case f s (dropWhile is_space line) line of
                          Some k \<Rightarrow> Inr (Some k)
                        | None \<Rightarrow> if \<not> aggressive then Inr None else rbind (prev_column ie d n) (\<lambda>k. Inr (Some k)))
                   | _ \<Rightarrow> rbind (prev_column ie d n) (\<lambda>k. Inr (Some k)))
              | Prev \<Rightarrow> rbind (prev_column ie d n) (\<lambda>k. Inr (Some k))
              | Add \<Rightarrow> Inr (Some (curSpace + ie_indentUnit ie))
              | Subtract \<Rightarrow> Inr (Some (curSpace - ie_indentUnit ie))
              | By k \<Rightarrow> Inr (Some (curSpace + k)))"

text \<open>The white space for a column; the tab size is positive. The cache of \<open>spaceStr\<close> is passed along.\<close>

definition indent_string :: "bool \<Rightarrow> nat \<Rightarrow> nat \<Rightarrow> jsstring list \<Rightarrow> jsstring \<times> jsstring list" where
  "indent_string tabs tabSize n cache =
     (let i = (if tabs then n div tabSize else 0); pos = i * tabSize
      in if pos < n then (let (spaces, cache') = spaceStr (n - pos) cache in (replicate i tab @ spaces, cache'))
         else (replicate i tab, cache))"

text \<open>The first selection whose head is in the white space at the start of the line moves behind it.\<close>

fun move_head :: "'st env \<Rightarrow> int \<Rightarrow> int \<Rightarrow> range list \<Rightarrow> nat \<Rightarrow> ('st, 'x) hdoc_scheme \<Rightarrow> ('st, 'x) hdoc_scheme comp" where
  "move_head env n ch [] i d = ret d"
| "move_head env n ch (r # rs) i d =
     (if pline (head r) = n \<and> pch (head r) < ch
      then replaceOneSelection env d i (Range (Pos n ch) (Pos n ch)) None
      else move_head env n ch rs (i + 1) d)"

text \<open>The changes to the document once the column is known.\<close>

definition indent_doc ::
  "'st indent_env \<Rightarrow> int \<Rightarrow> jsstring \<Rightarrow> jsstring \<Rightarrow> ('st, 'x) hdoc_scheme \<Rightarrow> ('st, 'x) hdoc_scheme comp" where
  "indent_doc ie n indentString curSpaceString d =
     (if indentString \<noteq> curSpaceString
      then replaceRange (ie_env ie) d (splitLines (ie_broken_split ie) indentString) (Pos n 0)
             (Some (Pos n (int (length curSpaceString)))) (Some (js ''+input''))
      else move_head (ie_env ie) n (int (length curSpaceString)) (ranges (d_sel d)) 0 d)"

definition lift_comp :: "'a comp \<Rightarrow> 'a hl" where
  "lift_comp m = map_option (\<lambda>x. case x of Inl e \<Rightarrow> Inl (InDoc e) | Inr a \<Rightarrow> Inr a) m"

type_synonym ('st, 'x) editor = "('st, 'x hdoc_ext) hl_state \<times> jsstring list"

definition indentLine :: "'st indent_env \<Rightarrow> ('st, 'x) editor \<Rightarrow> int \<Rightarrow> indent_how \<Rightarrow> bool \<Rightarrow> ('st, 'x) editor hl" where
  "indentLine ie ed n how aggressive =
     (case ed of (S, cache) \<Rightarrow>
        hbind (if how = Smart \<and> ie_indent ie \<noteq> None
               then hbind (getStateBefore (ie_hl ie) S n False) (\<lambda>(s, S1). Some (Inr (Some s, S1)))
               else Some (Inr (None, S))) (\<lambda>(state, S1).
        hbind (lift_doc (getLine (hs_doc S1) n)) (\<lambda>l.
          let d1 = set_stateAfter (hs_doc S1) (l_id l) None;
              curSpaceString = takeWhile is_space (l_text l)
          in hbind (lift_doc (indentation ie d1 n how aggressive state (l_text l))) (\<lambda>goal.
               case goal of
                 None \<Rightarrow> Some (Inr (S1\<lparr>hs_doc := d1\<rparr>, cache))
               | Some k \<Rightarrow>
                   let (indentString, cache') = indent_string (ie_indentWithTabs ie) (o_tabSize (he_opts (ie_hl ie))) (nat (max 0 k)) cache
                   in hbind (lift_comp (indent_doc ie n indentString curSpaceString d1)) (\<lambda>d2.
                        Some (Inr (S1\<lparr>hs_doc := set_stateAfter d2 (l_id l) None\<rparr>, cache')))))))"

text \<open>The methods of the editor: the direction may be absent or a truth value.\<close>

datatype indent_dir = NoDir | Truth bool | How indent_how

definition cm_indentLine :: "'st indent_env \<Rightarrow> ('st, 'x) editor \<Rightarrow> int \<Rightarrow> indent_dir \<Rightarrow> bool \<Rightarrow> ('st, 'x) editor hl" where
  "cm_indentLine ie ed n dir aggressive =
     (let how = (case dir of
                   NoDir \<Rightarrow> if ie_smartIndent ie then Smart else Prev
                 | Truth b \<Rightarrow> if b then Add else Subtract
                 | How h \<Rightarrow> h)
      in if isLine (hs_doc (fst ed)) n then indentLine ie ed n how aggressive else Some (Inr ed))"

fun indent_lines :: "'st indent_env \<Rightarrow> indent_how \<Rightarrow> int list \<Rightarrow> ('st, 'x) editor \<Rightarrow> ('st, 'x) editor hl" where
  "indent_lines ie how [] ed = Some (Inr ed)"
| "indent_lines ie how (n # ns) ed = hbind (indentLine ie ed n how False) (\<lambda>ed'. indent_lines ie how ns ed')"

fun indent_ranges :: "'st indent_env \<Rightarrow> indent_how \<Rightarrow> range list \<Rightarrow> int \<Rightarrow> ('st, 'x) editor \<Rightarrow> ('st, 'x) editor hl" where
  "indent_ranges ie how [] e ed = Some (Inr ed)"
| "indent_ranges ie how (r # rs) e ed =
     (if \<not> range_empty r
      then let start = max e (pline (range_from r)); to = range_to r;
               e' = min (lastLine (hs_doc (fst ed))) (pline to - (if pch to \<noteq> 0 then 0 else 1)) + 1
           in hbind (indent_lines ie how [start..e' - 1] ed) (\<lambda>ed'. indent_ranges ie how rs e' ed')
      else if pline (head r) > e
      then hbind (indentLine ie ed (pline (head r)) how True) (\<lambda>ed'. indent_ranges ie how rs (pline (head r)) ed')
      else indent_ranges ie how rs e ed)"

definition indentSelection :: "'st indent_env \<Rightarrow> ('st, 'x) editor \<Rightarrow> indent_how \<Rightarrow> ('st, 'x) editor hl" where
  "indentSelection ie ed how = indent_ranges ie how (ranges (d_sel (hs_doc (fst ed)))) (-1) ed"

section \<open>The column of the new white space\<close>

lemma tabs_column: "0 < ts \<Longrightarrow> foldl (col_step ts) (k * ts) (replicate i tab) = (k + i) * ts"
proof (induction i arbitrary: k)
  case (Suc i)
  have "col_step ts (k * ts) tab = Suc k * ts" using Suc.prems by (simp add: col_step_def)
  then show ?case using Suc.IH [of "Suc k"] Suc.prems by simp
qed simp

lemma indent_string_ok:
  assumes "space_cache cache" and "0 < ts" and "indent_string tabs ts n cache = (s, cache')"
  shows "column_of ts s = n" "set s \<subseteq> {tab, 32}" "space_cache cache'"
proof -
  define i where "i = (if tabs then n div ts else 0)"
  have i: "i * ts \<le> n" by (simp add: i_def)
  have s: "s = replicate i tab @ replicate (n - i * ts) 32" "space_cache cache'"
    using assms(3) i spaceStr_correct [OF assms(1), of "n - i * ts"] assms(1)
    by (auto simp: indent_string_def i_def [symmetric] Let_def split: if_splits prod.splits)
  have "tab \<notin> set (replicate (n - i * ts) (32 :: jchar))" by (simp add: tab_def)
  then have "foldl (col_step ts) (i * ts) (replicate (n - i * ts) 32) = n" using foldl_col_step_no_tab i by simp
  then show "column_of ts s = n" using tabs_column [OF assms(2), of 0 i] by (simp add: s(1) column_of_def)
  show "set s \<subseteq> {tab, 32}" by (auto simp: s(1))
  show "space_cache cache'" by (rule s(2))
qed

lemma splitLines_white: "set s \<subseteq> {tab, 32} \<Longrightarrow> splitLines b s = [s]"
proof -
  assume "set s \<subseteq> {tab, 32}"
  then have p: "TextLines.plain s" by (auto simp: TextLines.plain_def tab_def lf_def cr_def)
  then have "s = [] \<or> last s \<noteq> cr" by (metis last_in_set TextLines.plain_def)
  then show ?thesis using split_regex_plain [OF p] split_loop_spec [of 0 s] by (simp add: splitLines_def splitLines_loop_def)
qed

section \<open>Indenting a line\<close>

lemma stateAfter_cases:
  assumes "doc_ok d"
  shows "set_stateAfter d i s = d \<or> same_text d (set_stateAfter d i s)"
proof (cases "\<exists>k < length (doc_lines d). i = l_id (doc_lines d ! k)")
  case True
  then show ?thesis using update_same_text(1) [OF assms, of _ "\<lambda>l. l\<lparr>l_stateAfter := s\<rparr>"] by (auto simp: set_stateAfter_def)
next
  case False
  have "update_lines i f ls = None" if "\<forall>l \<in> set ls. l_id l \<noteq> i" for f :: "'a line \<Rightarrow> 'a line" and ls
    using that by (induction ls) auto
  moreover have "\<forall>l \<in> set (collapse (d_root d)). l_id l \<noteq> i" using False by (auto simp: doc_lines_def in_set_conv_nth)
  ultimately have "update_lines i (\<lambda>l. l\<lparr>l_stateAfter := s\<rparr>) (collapse (d_root d)) = None" by blast
  then show ?thesis using update_chunk_ok(1) [of "d_root d" i "\<lambda>l. l\<lparr>l_stateAfter := s\<rparr>"] assms
    by (simp add: set_stateAfter_def doc_update_def doc_ok_def root_ok_def)
qed

lemma stateAfter_fields:
  "d_sel (set_stateAfter d i s) = d_sel d" "d_hist (set_stateAfter d i s) = d_hist d" "d_markers (set_stateAfter d i s) = d_markers d"
  by (simp_all add: set_stateAfter_def doc_update_def split: option.split)

lemma hist_ok_stateAfter:
  assumes "hist_ok d"
  shows "hist_ok (set_stateAfter d i s)" "doc_text (set_stateAfter d i s) = doc_text d" "d_first (set_stateAfter d i s) = d_first d"
proof -
  have "doc_ok d" using assms by (simp add: hist_ok_def)
  then have t: "doc_ok (set_stateAfter d i s)" "doc_text (set_stateAfter d i s) = doc_text d" "d_first (set_stateAfter d i s) = d_first d"
    using stateAfter_cases [of d i s] by (auto simp: same_text_def)
  then show "hist_ok (set_stateAfter d i s)" "doc_text (set_stateAfter d i s) = doc_text d" "d_first (set_stateAfter d i s) = d_first d"
    using assms by (simp_all add: hist_ok_def calm_def stateAfter_fields)
qed

lemma process_lines_keeps:
  "process_lines env V n p ls s d = Some (Inr (s', d')) \<Longrightarrow> hist_ok d \<Longrightarrow>
    hist_ok d' \<and> doc_text d' = doc_text d \<and> d_first d' = d_first d \<and> d_hist d' = d_hist d"
proof (induction ls arbitrary: p s d)
  case (Cons l ls)
  obtain st s1 where "processLine (he_opts env) (he_mode env) (l_text l) s 0 = Some (Inr (st, s1))"
    using Cons.prems(1) by (auto simp: hbind_def lift_mode_def split: option.splits sum.splits)
  then show ?case
    using Cons.prems(1) Cons.IH [of "p + 1" s1] hist_ok_stateAfter [OF Cons.prems(2), of "l_id l"] by (simp add: stateAfter_fields)
qed simp

lemma getStateBefore_keeps:
  assumes "getStateBefore env S n precise = Some (Inr (s, S1))" and "hist_ok (hs_doc S)"
  shows "hist_ok (hs_doc S1)" "doc_text (hs_doc S1) = doc_text (hs_doc S)" "d_first (hs_doc S1) = d_first (hs_doc S)"
    "d_hist (hs_doc S1) = d_hist (hs_doc S)"
proof -
  obtain p s0 d' where "process_lines env (hs_display S) n p (lines_of (hs_doc S) p n) s0 (hs_doc S) = Some (Inr (s, d'))" "hs_doc S1 = d'"
    using assms(1) by (auto simp: getStateBefore_def hbind_def split: option.splits sum.splits)
  then show "hist_ok (hs_doc S1)" "doc_text (hs_doc S1) = doc_text (hs_doc S)" "d_first (hs_doc S1) = d_first (hs_doc S)"
    "d_hist (hs_doc S1) = d_hist (hs_doc S)" using process_lines_keeps [OF _ assms(2)] by auto
qed

text \<open>The column that is wanted, or nothing when the mode passes; for a mode that indents, \<open>state\<close> is its state before the line.\<close>

definition new_column :: "'st indent_env \<Rightarrow> jsstring list \<Rightarrow> nat \<Rightarrow> indent_how \<Rightarrow> bool \<Rightarrow> 'st option \<Rightarrow> int option" where
  "new_column ie T k how aggressive state =
     (let col = (\<lambda>t. int (column_of (o_tabSize (he_opts (ie_hl ie))) (takeWhile is_space t)));
          prev = (if k = 0 then 0 else col (T ! (k - 1)))
      in if \<not> aggressive \<and> list_all is_space (T ! k) then Some 0
         else case how of
                Add \<Rightarrow> Some (col (T ! k) + ie_indentUnit ie)
              | Subtract \<Rightarrow> Some (col (T ! k) - ie_indentUnit ie)
              | By j \<Rightarrow> Some (col (T ! k) + j)
              | Prev \<Rightarrow> Some prev
              | Smart \<Rightarrow>
                  (case (ie_indent ie, state) of
                     (Some f, Some s) \<Rightarrow>
                       (case f s (dropWhile is_space (T ! k)) (T ! k) of
                          Some j \<Rightarrow> Some j
                        | None \<Rightarrow> if aggressive then Some prev else None)
                   | _ \<Rightarrow> Some prev))"

lemma indentation_ok:
  assumes "doc_ok d" and "k < length (doc_text d)"
  shows "indentation ie d (d_first d + int k) how aggressive state (doc_text d ! k) = Inr (new_column ie (doc_text d) k how aggressive state)"
proof -
  define n prev where "n = d_first d + int k"
    and "prev = (if k = 0 then 0 else int (column_of (o_tabSize (he_opts (ie_hl ie))) (takeWhile is_space (doc_text d ! (k - 1)))))"
  have "prev_column ie d n = Inr prev"
  proof (cases k)
    case (Suc j)
    then show ?thesis using getLine_ok [OF assms(1), of j] assms(2) by (simp add: prev_column_def countColumn_white doc_text_def n_def prev_def)
  qed (simp add: prev_column_def n_def prev_def)
  then show ?thesis unfolding new_column_def n_def [symmetric] Let_def prev_def [symmetric]
    by (cases how; cases "ie_indent ie"; cases state) (simp_all add: indentation_def Let_def countColumn_white split: option.split)
qed

text \<open>The state that smart indentation needs is found.\<close>

lemma smart_state:
  assumes h: "hist_ok (hs_doc S)" and k: "k \<le> length (doc_lines (hs_doc S))"
    and smart: "how = Smart \<and> ie_indent ie \<noteq> None \<longrightarrow> advancing_mode (he_mode (ie_hl ie)) good \<and> good (he_start (ie_hl ie)) \<and> kept_states good (hs_doc S)"
  obtains st S1 where
    "(if how = Smart \<and> ie_indent ie \<noteq> None
      then hbind (getStateBefore (ie_hl ie) S (d_first (hs_doc S) + int k) False) (\<lambda>(s, S1). Some (Inr (Some s, S1)))
      else Some (Inr (None, S))) = Some (Inr (st, S1))"
    "hist_ok (hs_doc S1)" "doc_text (hs_doc S1) = doc_text (hs_doc S)" "d_first (hs_doc S1) = d_first (hs_doc S)" "d_hist (hs_doc S1) = d_hist (hs_doc S)"
    "how = Smart \<and> ie_indent ie \<noteq> None \<longrightarrow>
      (\<exists>s. st = Some s \<and> getStateBefore (ie_hl ie) S (d_first (hs_doc S) + int k) False = Some (Inr (s, S1)))"
proof (cases "how = Smart \<and> ie_indent ie \<noteq> None")
  case True
  have "doc_ok (hs_doc S)" using h by (simp add: hist_ok_def)
  with True smart obtain s S1 where g: "getStateBefore (ie_hl ie) S (d_first (hs_doc S) + int k) False = Some (Inr (s, S1))"
    using advancing_mode.getStateBefore_returns [of _ good "ie_hl ie" S k] k by blast
  then show ?thesis using True getStateBefore_keeps [OF g h] by (intro that [of "Some s" S1]) simp_all
next
  case False
  then show ?thesis using h by (intro that [of None S]) auto
qed

lemma move_head_ok:
  assumes "hist_ok d" and "plain_env env" and "\<not> replaces_change env (d_hist d) None" and "tpos_ok (d_first d) (doc_text d) (Pos n ch)"
  shows "i + length rs = length (ranges (d_sel d)) \<Longrightarrow>
    \<exists>d'. move_head env n ch rs i d = Some (Inr d') \<and> hist_ok d' \<and> doc_text d' = doc_text d \<and> d_first d' = d_first d \<and>
      \<not> replaces_change env (d_hist d') None"
proof (induction rs arbitrary: i)
  case Nil
  then show ?case using assms(1,3) by (simp add: ret_def)
next
  case (Cons r rs)
  show ?case
  proof (cases "pline (head r) = n \<and> pch (head r) < ch")
    case True
    let ?rs = "(ranges (d_sel d))[i := Range (Pos n ch) (Pos n ch)]"
    have sel: "sel_ok (d_first d) (doc_text d) (d_sel d)" using assms(1) by (simp add: hist_ok_def)
    have "\<forall>r \<in> set ?rs. tpos_ok (d_first d) (doc_text d) (anchor r) \<and> tpos_ok (d_first d) (doc_text d) (head r)"
      using sel assms(4) set_update_subset_insert [of "ranges (d_sel d)" i] by (fastforce simp: sel_ok_def)
    then have "sel_ok (d_first d) (doc_text d) (normalizeSelection ?rs (nat (primIndex (d_sel d))))"
      using sel by (intro normalize_sel_ok) (auto simp: sel_ok_def)
    then obtain d' where d': "replaceOneSelection env d i (Range (Pos n ch) (Pos n ch)) None = Some (Inr d')" "hist_ok d'"
      "doc_text d' = doc_text d" "d_first d' = d_first d" "\<not> last_is_change (d_hist d')"
      using setSelection_ok [OF assms(1,2) _ assms(3), of _] setSelection_last Cons.prems by (fastforce simp: replaceOneSelection_def)
    then show ?thesis using True by (simp add: replaces_change_def)
  next
    case False
    then show ?thesis using Cons.IH [of "i + 1"] Cons.prems by auto
  qed
qed

lemma indent_doc_ok:
  assumes d: "hist_ok d" and env: "plain_env (ie_env ie)" "\<not> replaces_change (ie_env ie) (d_hist d) None"
    and w: "set w \<subseteq> {tab, 32}" and k: "k < length (doc_text d)"
  shows "\<exists>d2. indent_doc ie (d_first d + int k) w (takeWhile is_space (doc_text d ! k)) d = Some (Inr d2) \<and> hist_ok d2 \<and>
    doc_text d2 = (doc_text d)[k := w @ dropWhile is_space (doc_text d ! k)] \<and> d_first d2 = d_first d \<and>
    \<not> replaces_change (ie_env ie) (d_hist d2) None"
proof -
  let ?T = "doc_text d" and ?n = "d_first d + int k"
  define c where "c = length (takeWhile is_space (?T ! k))"
  have c: "c \<le> length (?T ! k)" "drop c (?T ! k) = dropWhile is_space (?T ! k)"
    by (simp_all add: c_def length_takeWhile_le dropWhile_eq_drop)
  have pos: "tpos_ok (d_first d) ?T (Pos ?n 0)" "tpos_ok (d_first d) ?T (Pos ?n (int c))"
    using k c(1) by (simp_all add: tpos_ok_def)
  show ?thesis
  proof (cases "w = takeWhile is_space (?T ! k)")
    case True
    have "\<exists>d2. move_head (ie_env ie) ?n (int c) (ranges (d_sel d)) 0 d = Some (Inr d2) \<and> hist_ok d2 \<and> doc_text d2 = ?T \<and> d_first d2 = d_first d \<and>
        \<not> replaces_change (ie_env ie) (d_hist d2) None"
      using env(2) by (intro move_head_ok [OF d env(1) _ pos(2)]) simp_all
    moreover have "?T[k := w @ dropWhile is_space (?T ! k)] = ?T" using True by (simp only: takeWhile_dropWhile_id list_update_id)
    ultimately show ?thesis using True by (auto simp: indent_doc_def c_def)
  next
    case False
    define ch where "ch = \<lparr>c_from = Pos ?n 0, c_to = Pos ?n (int c), c_text = [w], c_origin = Some (js ''+input''), c_removed = []\<rparr>"
    have v: "tvalid (d_first d) ?T (Pos ?n 0) (Pos ?n (int c)) [w]" using pos by (simp add: tvalid_def less_eq_pos_def)
    have "indent_doc ie ?n w (takeWhile is_space (?T ! k)) d = makeChange (ie_env ie) d ch False"
      using False splitLines_white [OF w] by (simp add: indent_doc_def replaceRange_def ch_def c_def less_pos_def)
    moreover have "trepl (d_first d) ?T (Pos ?n 0) (Pos ?n (int c)) [w] = ?T[k := w @ dropWhile is_space (?T ! k)]"
      using k by (simp add: trepl_def replace_text_def c(2) upd_conv_take_nth_drop)
    moreover have "\<not> ([w] = [[]] \<and> Pos ?n 0 = Pos ?n (int c))" using False by (auto simp: c_def)
    ultimately show ?thesis using makeChange_ok [OF d env(1), of ch False] v by (auto simp: ch_def replaces_change_def)
  qed
qed

text \<open>C26: Indenting a line, in whatever way, always ends and replaces nothing but the white space at its start: the new white
  space consists of tabs and blanks and ends in the wanted column, or at the left margin when the wanted column lies
  before it. Smart indentation wants the column that the mode computes from its state before the line; when the mode
  passes, a line that is not indented aggressively stays as it is. The history, which is consistent before, stays consistent,
  so that the indentation can be undone. The environment is plain; no marker is atomic or clears itself when entered, and none
  has been cleared; the tab size is positive; a mode that indents advances, and the states kept with the lines fulfil
  its invariant. Setting a selection must not overwrite a change event, which it does when the last event is a change, as it is
  right after a redo, and belongs to the same operation; this condition holds again after the line is indented, and so for all lines
  that are indented one after the other.\<close>

theorem indentLine_correct:
  assumes h: "hist_ok (hs_doc S)" and env: "plain_env (ie_env ie)" "\<not> replaces_change (ie_env ie) (d_hist (hs_doc S)) None"
    and cache: "space_cache cache" and ts: "0 < o_tabSize (he_opts (ie_hl ie))" and k: "k < length (doc_text (hs_doc S))"
    and smart: "how = Smart \<and> ie_indent ie \<noteq> None \<longrightarrow> advancing_mode (he_mode (ie_hl ie)) good \<and> good (he_start (ie_hl ie)) \<and> kept_states good (hs_doc S)"
  shows "\<exists>S' cache' st. indentLine ie (S, cache) (d_first (hs_doc S) + int k) how aggressive = Some (Inr (S', cache')) \<and>
    hist_ok (hs_doc S') \<and> d_first (hs_doc S') = d_first (hs_doc S) \<and> \<not> replaces_change (ie_env ie) (d_hist (hs_doc S')) None \<and> space_cache cache' \<and>
    (how = Smart \<and> ie_indent ie \<noteq> None \<longrightarrow>
      (\<exists>s S1. st = Some s \<and> getStateBefore (ie_hl ie) S (d_first (hs_doc S) + int k) False = Some (Inr (s, S1)))) \<and>
    (case new_column ie (doc_text (hs_doc S)) k how aggressive st of
       None \<Rightarrow> doc_text (hs_doc S') = doc_text (hs_doc S)
     | Some c \<Rightarrow>
         \<exists>w. set w \<subseteq> {tab, 32} \<and> int (column_of (o_tabSize (he_opts (ie_hl ie))) w) = max 0 c \<and>
           doc_text (hs_doc S') = (doc_text (hs_doc S))[k := w @ dropWhile is_space (doc_text (hs_doc S) ! k)])"
proof -
  let ?ts = "o_tabSize (he_opts (ie_hl ie))"
  define T where "T = doc_text (hs_doc S)"
  define n where "n = d_first (hs_doc S) + int k"
  have kl: "k < length (doc_lines (hs_doc S))" using k by (simp add: length_doc_text)
  obtain st S1 where st: "(if how = Smart \<and> ie_indent ie \<noteq> None
      then hbind (getStateBefore (ie_hl ie) S n False) (\<lambda>(s, S1). Some (Inr (Some s, S1))) else Some (Inr (None, S))) = Some (Inr (st, S1))"
    and S1: "hist_ok (hs_doc S1)" "doc_text (hs_doc S1) = T" "d_first (hs_doc S1) = d_first (hs_doc S)" "d_hist (hs_doc S1) = d_hist (hs_doc S)"
    and state: "how = Smart \<and> ie_indent ie \<noteq> None \<longrightarrow> (\<exists>s. st = Some s \<and> getStateBefore (ie_hl ie) S n False = Some (Inr (s, S1)))"
    unfolding n_def T_def by (rule smart_state [OF h less_imp_le [OF kl] smart])
  let ?d = "hs_doc S1"
  define l where "l = doc_lines ?d ! k"
  have d: "doc_ok ?d" using S1(1) by (simp add: hist_ok_def)
  have kT: "k < length T" using k by (simp add: T_def)
  have kd: "k < length (doc_lines ?d)" using kT length_doc_text [of ?d] S1(2) by simp
  have l: "getLine ?d n = Inr l" "l_text l = T ! k"
    using getLine_ok [OF d kd] kd unfolding S1(2) [symmetric] S1(3) n_def [symmetric] by (simp_all add: l_def doc_text_def)
  define d1 where "d1 = set_stateAfter ?d (l_id l) None"
  have d1: "hist_ok d1" "doc_text d1 = T" "d_first d1 = d_first (hs_doc S)" "d_hist d1 = d_hist (hs_doc S)"
    using hist_ok_stateAfter [OF S1(1), of "l_id l" None] S1 by (simp_all add: d1_def stateAfter_fields)
  have goal: "indentation ie d1 n how aggressive st (T ! k) = Inr (new_column ie T k how aggressive st)"
    using indentation_ok [of d1 k ie how aggressive st] d1 kT by (simp add: hist_ok_def n_def)
  show ?thesis
  proof (cases "new_column ie T k how aggressive st")
    case None
    have "indentLine ie (S, cache) n how aggressive = Some (Inr (S1\<lparr>hs_doc := d1\<rparr>, cache))"
      unfolding indentLine_def prod.case st hl_simps l goal [unfolded None] Let_def d1_def [symmetric] by simp
    then show ?thesis using None d1 state env(2) cache unfolding n_def [symmetric] T_def [symmetric]
      by (intro exI [of _ "S1\<lparr>hs_doc := d1\<rparr>"] exI [of _ cache] exI [of _ st]) auto
  next
    case (Some c)
    obtain w cache' where w: "indent_string (ie_indentWithTabs ie) ?ts (nat (max 0 c)) cache = (w, cache')" by fastforce
    have ws: "column_of ?ts w = nat (max 0 c)" "set w \<subseteq> {tab, 32}" "space_cache cache'" using indent_string_ok [OF cache ts w] by auto
    have "\<exists>d2. indent_doc ie (d_first d1 + int k) w (takeWhile is_space (doc_text d1 ! k)) d1 = Some (Inr d2) \<and> hist_ok d2 \<and>
        doc_text d2 = (doc_text d1)[k := w @ dropWhile is_space (doc_text d1 ! k)] \<and> d_first d2 = d_first d1 \<and>
        \<not> replaces_change (ie_env ie) (d_hist d2) None"
      using env(2) kT by (intro indent_doc_ok [OF d1(1) env(1) _ ws(2)]) (simp_all add: d1(2,4))
    then obtain d2 where d2: "indent_doc ie n w (takeWhile is_space (T ! k)) d1 = Some (Inr d2)" "hist_ok d2"
      "doc_text d2 = T[k := w @ dropWhile is_space (T ! k)]" "d_first d2 = d_first (hs_doc S)" "\<not> replaces_change (ie_env ie) (d_hist d2) None"
      unfolding d1(2,3) n_def [symmetric] by blast
    let ?S = "S1\<lparr>hs_doc := set_stateAfter d2 (l_id l) None\<rparr>"
    have "indentLine ie (S, cache) n how aggressive = Some (Inr (?S, cache'))"
      unfolding indentLine_def prod.case st hl_simps l goal [unfolded Some] Let_def d1_def [symmetric] option.case w d2(1) lift_comp_def by simp
    moreover have S: "hist_ok (hs_doc ?S)" "doc_text (hs_doc ?S) = T[k := w @ dropWhile is_space (T ! k)]"
      "d_first (hs_doc ?S) = d_first (hs_doc S)" "d_hist (hs_doc ?S) = d_hist d2"
      using hist_ok_stateAfter [OF d2(2), of "l_id l" None] d2(3,4) by (simp_all add: stateAfter_fields)
    moreover have "\<exists>w. set w \<subseteq> {tab, 32} \<and> int (column_of ?ts w) = max 0 c \<and> doc_text (hs_doc ?S) = T[k := w @ dropWhile is_space (T ! k)]"
      using ws(1,2) S(2) by (intro exI [of _ w]) simp
    moreover have "\<not> replaces_change (ie_env ie) (d_hist (hs_doc ?S)) None" using d2(5) S(4) by simp
    ultimately show ?thesis using ws(3) state unfolding n_def [symmetric] T_def [symmetric]
      by (intro exI [of _ ?S] exI [of _ cache'] exI [of _ st]) (unfold Some option.case, blast)
  qed
qed

section \<open>Witness\<close>

text \<open>Everything happens in one operation.\<close>

definition one_op :: "sml_state env" where
  "one_op = \<lparr>e_inEditor = False, e_opId = Some 1, e_time = 0, e_delay = 0, e_suppressEdits = False, e_beforeChange = None,
     e_beforeSel = None, e_height = (\<lambda>_. 1), e_wholeLine = True, e_sawReadOnly = False\<rparr>"

text \<open>The SML mode with a method that indents by the depth of comments.\<close>

definition indent_example :: "sml_state indent_env" where
  "indent_example = \<lparr>ie_env = one_op, ie_hl = example_env, ie_indent = Some (\<lambda>s after line. Some (6 * commentDepth s)),
     ie_indentUnit = 2, ie_indentWithTabs = True, ie_smartIndent = True, ie_broken_split = False\<rparr>"

definition indent_state :: "sml_state hdoc \<Rightarrow> (sml_state, unit hdoc_ext) hl_state" where
  "indent_state d = \<lparr>hs_doc = d, hs_frontier = 0, hs_display = no_view, hs_classes = (\<lambda>_. None), hs_gens = (\<lambda>_. 0)\<rparr>"

theorem indentLine_correct_witness:
  "case Doc one_op [js ''(* a'', js ''b''] 0 of
     Some (Inr d) \<Rightarrow> (\<exists>S' cache' w. indentLine indent_example (indent_state d, [[]]) 1 Smart False = Some (Inr (S', cache')) \<and>
       doc_text (hs_doc S') = [js ''(* a'', w @ js ''b''] \<and> set w \<subseteq> {tab, 32} \<and> column_of 4 w = 6)
   | _ \<Rightarrow> False"
proof -
  obtain d :: "sml_state hdoc" where d: "Doc one_op [js ''(* a'', js ''b''] 0 = Some (Inr d)" "hist_ok d" "d_first d = 0" "doc_text d = [js ''(* a'', js ''b'']"
    using Doc_ok [of "[js ''(* a'', js ''b'']" one_op 0] by (auto simp: plain_env_def one_op_def)
  have "case Doc one_op [js ''(* a'', js ''b''] 0 of
     Some (Inr d) \<Rightarrow> kept_states sml_ok d \<and> \<not> replaces_change one_op (d_hist d) None \<and>
       (case getStateBefore example_env (indent_state d) 1 False of
          Some (Inr (s, S1)) \<Rightarrow> s = \<lparr>tokenize = TokComment, commentDepth = 1\<rparr> | _ \<Rightarrow> False)
   | _ \<Rightarrow> False" by code_simp
  then have e: "kept_states sml_ok d" "\<not> replaces_change one_op (d_hist d) None"
    "\<And>s S1. getStateBefore example_env (indent_state d) 1 False = Some (Inr (s, S1)) \<Longrightarrow> s = \<lparr>tokenize = TokComment, commentDepth = 1\<rparr>"
    by (simp_all add: d(1))
  have "new_column indent_example [js ''(* a'', js ''b''] 1 Smart False (Some \<lparr>tokenize = TokComment, commentDepth = 1\<rparr>) = Some 6"
    "dropWhile is_space (js ''b'') = js ''b''" "o_tabSize (he_opts example_env) = 4" by code_simp+
  then show ?thesis
    using indentLine_correct [of "indent_state d" indent_example "[[]]" 1 Smart sml_ok False] d e example_env_ok(1,2)
    by (auto simp: indent_state_def indent_example_def plain_env_def one_op_def space_cache_def)
qed

end
