(* ===== verification/Commands.thy ===== *)
theory Commands
  imports Motion Indent
begin

text \<open>
  The commands that keys are bound to (\<^verbatim>\<open>src/js/codemirror/codemirror.js\<close>, section STANDARD COMMANDS, with the methods
  \<open>moveH\<close> and \<open>deleteH\<close> of the editor), as far as they work on the document. The main result is that deleting by a
  unit of movement removes exactly the text between every cursor and the position that the movement reaches.
\<close>

section \<open>Definitions\<close>

subsection \<open>Moving\<close>

definition no_scroll :: sel_options where
  "no_scroll = \<lparr>o_bias = None, o_origin = None, o_clearRedo = None\<rparr>"

definition sel_move :: sel_options where
  "sel_move = \<lparr>o_bias = None, o_origin = Some (js ''+move''), o_clearRedo = None\<rparr>"

text \<open>The new head of every selection; the document is passed along.\<close>

fun new_heads ::
  "(range \<Rightarrow> ('st, 'x) hdoc_scheme \<Rightarrow> (pos \<times> ('st, 'x) hdoc_scheme) comp) \<Rightarrow> range list \<Rightarrow> ('st, 'x) hdoc_scheme \<Rightarrow>
   (pos list \<times> ('st, 'x) hdoc_scheme) comp" where
  "new_heads f [] d = ret ([], d)"
| "new_heads f (r # rs) d = pbind (f r d) (\<lambda>(p, d1). pbind (new_heads f rs d1) (\<lambda>(ps, d2). ret (p # ps, d2)))"

definition extendSelectionsBy ::
  "'st env \<Rightarrow> bool \<Rightarrow> ('st, 'x) hdoc_scheme \<Rightarrow> (range \<Rightarrow> ('st, 'x) hdoc_scheme \<Rightarrow> (pos \<times> ('st, 'x) hdoc_scheme) comp) \<Rightarrow>
   sel_options option \<Rightarrow> ('st, 'x) hdoc_scheme comp" where
  "extendSelectionsBy env shift d f options =
     pbind (new_heads f (ranges (d_sel d)) d) (\<lambda>(heads, d'). extendSelections env shift d' heads options)"

definition moveH ::
  "'st env \<Rightarrow> word_env \<Rightarrow> bool \<Rightarrow> bool \<Rightarrow> ('st, 'x) hdoc_scheme \<Rightarrow> int \<Rightarrow> move_unit \<Rightarrow> ('st, 'x) hdoc_scheme comp" where
  "moveH env we shift rtlMoveVisually d dir un =
     extendSelectionsBy env shift d
       (\<lambda>r d. if shift \<or> d_extend d \<or> range_empty r
              then pbind (findPosH we d (head r) dir un rtlMoveVisually) (\<lambda>(d', q, hit). ret (q, d'))
              else ret (if dir < 0 then range_from r else range_to r, d))
       (Some sel_move)"

definition selectAll :: "'st env \<Rightarrow> ('st, 'x) hdoc_scheme \<Rightarrow> ('st, 'x) hdoc_scheme comp" where
  "selectAll env d =
     pbind (Some (clipPos d (d_first d) (Some 0))) (\<lambda>a.
     pbind (Some (clipPos d (lastLine d) None)) (\<lambda>h. setSimpleSelection env d a (Some h) (Some no_scroll)))"

definition singleSelection :: "'st env \<Rightarrow> ('st, 'x) hdoc_scheme \<Rightarrow> ('st, 'x) hdoc_scheme comp" where
  "singleSelection env d =
     (case (getCursor d Anchor, getCursor d Head) of
        (Some a, Some h) \<Rightarrow> doc_setSelection env d a (Some h) (Some no_scroll)
      | _ \<Rightarrow> Some (Inl TypeErr))"

definition goDocStart :: "'st env \<Rightarrow> bool \<Rightarrow> ('st, 'x) hdoc_scheme \<Rightarrow> ('st, 'x) hdoc_scheme comp" where
  "goDocStart env shift d = doc_extendSelection env shift d (Pos (d_first d) 0) None None"

definition goDocEnd :: "'st env \<Rightarrow> bool \<Rightarrow> ('st, 'x) hdoc_scheme \<Rightarrow> ('st, 'x) hdoc_scheme comp" where
  "goDocEnd env shift d = pbind (Some (clipPos d (lastLine d) None)) (\<lambda>h. extendSelection env shift d h None None)"

definition goLineStart :: "'st env \<Rightarrow> bool \<Rightarrow> bool \<Rightarrow> ('st, 'x) hdoc_scheme \<Rightarrow> ('st, 'x) hdoc_scheme comp" where
  "goLineStart env saw shift d =
     extendSelectionsBy env shift d (\<lambda>r d. pbind (lineStart saw d (pline (head r))) (\<lambda>p. ret (p, d)))
       (Some (sel_move\<lparr>o_bias := Some 1\<rparr>))"

definition smart_start :: "pos \<Rightarrow> pos \<Rightarrow> 'st line \<Rightarrow> pos" where
  "smart_start h start l =
     (if (case order_of l of None \<Rightarrow> True | Some order \<Rightarrow> bs_level (hd order) = 0)
      then let firstNonWS = (if list_all is_space (l_text l) then 0 else int (length (takeWhile is_space (l_text l))));
               inWS = (pline h = pline start \<and> pch h \<le> firstNonWS \<and> pch h \<noteq> 0)
           in Pos (pline start) (if inWS then 0 else firstNonWS)
      else start)"

definition goLineStartSmart :: "'st env \<Rightarrow> bool \<Rightarrow> bool \<Rightarrow> ('st, 'x) hdoc_scheme \<Rightarrow> ('st, 'x) hdoc_scheme comp" where
  "goLineStartSmart env saw shift d =
     extendSelectionsBy env shift d
       (\<lambda>r d. pbind (lineStart saw d (pline (head r))) (\<lambda>start.
              pbind (Some (getLine d (pline start))) (\<lambda>l. ret (smart_start (head r) start l, d))))
       (Some (sel_move\<lparr>o_bias := Some 1\<rparr>))"

definition goLineEnd :: "'st env \<Rightarrow> bool \<Rightarrow> bool \<Rightarrow> ('st, 'x) hdoc_scheme \<Rightarrow> ('st, 'x) hdoc_scheme comp" where
  "goLineEnd env saw shift d =
     extendSelectionsBy env shift d (\<lambda>r d. pbind (lineEnd saw d (pline (head r))) (\<lambda>p. ret (p, d)))
       (Some (sel_move\<lparr>o_bias := Some (-1)\<rparr>))"

subsection \<open>Deleting\<close>

definition delete_from :: "word_env \<Rightarrow> int \<Rightarrow> move_unit \<Rightarrow> range \<Rightarrow> ('st, 'x) hdoc_scheme \<Rightarrow> ((pos \<times> pos) \<times> ('st, 'x) hdoc_scheme) comp" where
  "delete_from we dir un r d =
     pbind (findPosH we d (head r) dir un False) (\<lambda>(d', other, hit).
       ret (if dir < 0 then (other, head r) else (head r, other), d'))"

definition deleteH :: "'st env \<Rightarrow> word_env \<Rightarrow> bool \<Rightarrow> ('st, 'x) hdoc_scheme \<Rightarrow> int \<Rightarrow> move_unit \<Rightarrow> ('st, 'x) hdoc_scheme comp" where
  "deleteH env we broken_split d dir un =
     (if somethingSelected (d_sel d) then replaceSelection env broken_split d [] CollapseEnd (Some (js ''+delete''))
      else deleteNearSelection env d (delete_from we dir un))"

definition kill_line :: "range \<Rightarrow> ('st, 'x) hdoc_scheme \<Rightarrow> ((pos \<times> pos) \<times> ('st, 'x) hdoc_scheme) comp" where
  "kill_line r d =
     (if range_empty r
      then pbind (Some (getLine d (pline (head r)))) (\<lambda>l.
             let len = int (length (l_text l))
             in ret (if pch (head r) = len \<and> pline (head r) < lastLine d then (head r, Pos (pline (head r) + 1) 0)
                     else (head r, Pos (pline (head r)) len), d))
      else ret ((range_from r, range_to r), d))"

definition killLine :: "'st env \<Rightarrow> ('st, 'x) hdoc_scheme \<Rightarrow> ('st, 'x) hdoc_scheme comp" where
  "killLine env d = deleteNearSelection env d kill_line"

definition deleteLine :: "'st env \<Rightarrow> ('st, 'x) hdoc_scheme \<Rightarrow> ('st, 'x) hdoc_scheme comp" where
  "deleteLine env d =
     deleteNearSelection env d (\<lambda>r d.
       pbind (Some (clipPos d (pline (range_to r) + 1) (Some 0))) (\<lambda>t. ret ((Pos (pline (range_from r)) 0, t), d)))"

definition delLineLeft :: "'st env \<Rightarrow> ('st, 'x) hdoc_scheme \<Rightarrow> ('st, 'x) hdoc_scheme comp" where
  "delLineLeft env d = deleteNearSelection env d (\<lambda>r d. ret ((Pos (pline (range_from r)) 0, range_from r), d))"

subsection \<open>Inserting\<close>

definition insertTab :: "'st env \<Rightarrow> bool \<Rightarrow> ('st, 'x) hdoc_scheme \<Rightarrow> ('st, 'x) hdoc_scheme comp" where
  "insertTab env broken_split d = replaceSelection env broken_split d [tab] CollapseEnd None"

fun soft_tabs :: "nat \<Rightarrow> ('st, 'x) doc_scheme \<Rightarrow> range list \<Rightarrow> doc_exn + jsstring list" where
  "soft_tabs tabSize d [] = Inr []"
| "soft_tabs tabSize d (r # rs) =
     rbind (getLine d (pline (range_from r))) (\<lambda>l.
       let col = countColumn (l_text l) (Some (nat (pch (range_from r)))) tabSize 0 0
       in rbind (soft_tabs tabSize d rs) (\<lambda>spaces. Inr (replicate (nat (int tabSize - col mod int tabSize)) 32 # spaces)))"

definition insertSoftTab :: "'st env \<Rightarrow> bool \<Rightarrow> nat \<Rightarrow> ('st, 'x) hdoc_scheme \<Rightarrow> ('st, 'x) hdoc_scheme comp" where
  "insertSoftTab env broken_split tabSize d =
     pbind (Some (soft_tabs tabSize d (ranges (d_sel d)))) (\<lambda>spaces. replaceSelections env broken_split d spaces CollapseEnd None)"

definition char_at :: "jsstring \<Rightarrow> int \<Rightarrow> jsstring" where
  "char_at s i = (case js_at s i of Some c \<Rightarrow> [c] | None \<Rightarrow> [])"

definition transpose_at :: "'st env \<Rightarrow> bool \<Rightarrow> pos \<Rightarrow> ('st, 'x) hdoc_scheme \<Rightarrow> (pos \<times> ('st, 'x) hdoc_scheme) comp" where
  "transpose_at env broken_split cur d =
     pbind (Some (getLine d (pline cur))) (\<lambda>l.
       let line = l_text l
       in if line = [] then ret (cur, d)
          else let cur = (if pch cur = int (length line) then Pos (pline cur) (pch cur - 1) else cur)
               in if pch cur > 0
                  then let cur = Pos (pline cur) (pch cur + 1)
                       in pbind (doc_replaceRange env broken_split d (char_at line (pch cur - 1) @ char_at line (pch cur - 2))
                                   (Pos (pline cur) (pch cur - 2)) (Some cur) (Some (js ''+transpose''))) (\<lambda>d'. ret (cur, d'))
                  else if pline cur > d_first d
                  then pbind (Some (getLine d (pline cur - 1))) (\<lambda>pl.
                         let prev = l_text pl
                         in if prev = [] then ret (cur, d)
                            else pbind (doc_replaceRange env broken_split d
                                   (char_at line 0 @ [lf] @ char_at prev (int (length prev) - 1))
                                   (Pos (pline cur - 1) (int (length prev) - 1)) (Some (Pos (pline cur) 1))
                                   (Some (js ''+transpose''))) (\<lambda>d'. ret (cur, d')))
                  else ret (cur, d))"

fun transpose_loop :: "'st env \<Rightarrow> bool \<Rightarrow> range list \<Rightarrow> range list \<Rightarrow> ('st, 'x) hdoc_scheme \<Rightarrow> (range list \<times> ('st, 'x) hdoc_scheme) comp" where
  "transpose_loop env broken_split [] newSel d = ret (newSel, d)"
| "transpose_loop env broken_split (r # rs) newSel d =
     pbind (transpose_at env broken_split (head r) d) (\<lambda>(cur, d').
       transpose_loop env broken_split rs (newSel @ [Range cur cur]) d')"

definition transposeChars :: "'st env \<Rightarrow> bool \<Rightarrow> ('st, 'x) hdoc_scheme \<Rightarrow> ('st, 'x) hdoc_scheme comp" where
  "transposeChars env broken_split d =
     pbind (transpose_loop env broken_split (ranges (d_sel d)) [] d) (\<lambda>(newSel, d'). setSelections env d' newSel None None)"

text \<open>The selections are read again in every round, since the insertion moves them.\<close>

fun newline_loop :: "'st indent_env \<Rightarrow> nat list \<Rightarrow> ('st, 'x) editor \<Rightarrow> ('st, 'x) editor hl" where
  "newline_loop ie [] ed = Some (Inr ed)"
| "newline_loop ie (i # is) ed =
     (let d = hs_doc (fst ed)
      in if i < length (ranges (d_sel d))
         then let r = ranges (d_sel d) ! i
              in hbind (lift_comp (doc_replaceRange (ie_env ie) (ie_broken_split ie) d [lf] (anchor r) (Some (head r)) (Some (js ''+input'')))) (\<lambda>d'.
                 hbind (cm_indentLine ie ((fst ed)\<lparr>hs_doc := d'\<rparr>, snd ed) (pline (range_from r) + 1) NoDir True) (\<lambda>ed'.
                   newline_loop ie is ed'))
         else Some (Inl (InDoc TypeErr)))"

definition newlineAndIndent :: "'st indent_env \<Rightarrow> ('st, 'x) editor \<Rightarrow> ('st, 'x) editor hl" where
  "newlineAndIndent ie ed = newline_loop ie [0..<length (ranges (d_sel (hs_doc (fst ed))))] ed"

definition defaultTab :: "'st indent_env \<Rightarrow> ('st, 'x) editor \<Rightarrow> ('st, 'x) editor hl" where
  "defaultTab ie ed =
     (if somethingSelected (d_sel (hs_doc (fst ed))) then indentSelection ie ed Add
      else hbind (lift_comp (insertTab (ie_env ie) (ie_broken_split ie) (hs_doc (fst ed)))) (\<lambda>d'. Some (Inr ((fst ed)\<lparr>hs_doc := d'\<rparr>, snd ed))))"

text \<open>The commands that only call \<open>moveH\<close>, \<open>deleteH\<close> or \<open>indentSelection\<close>, with the arguments.\<close>

definition move_commands :: "(string \<times> int \<times> move_unit) list" where
  "move_commands =
     [(''goCharLeft'', -1, ByChar), (''goCharRight'', 1, ByChar), (''goColumnLeft'', -1, ByColumn), (''goColumnRight'', 1, ByColumn),
      (''goWordLeft'', -1, ByWord), (''goGroupRight'', 1, ByGroup), (''goGroupLeft'', -1, ByGroup), (''goWordRight'', 1, ByWord)]"

definition delete_commands :: "(string \<times> int \<times> move_unit) list" where
  "delete_commands =
     [(''delCharBefore'', -1, ByChar), (''delCharAfter'', 1, ByChar), (''delWordBefore'', -1, ByWord), (''delWordAfter'', 1, ByWord),
      (''delGroupBefore'', -1, ByGroup), (''delGroupAfter'', 1, ByGroup)]"

definition indent_commands :: "(string \<times> indent_how) list" where
  "indent_commands = [(''indentAuto'', Smart), (''indentMore'', Add), (''indentLess'', Subtract)]"

section \<open>Soft tabs\<close>

text \<open>The spaces inserted at a selection end at the next tab stop.\<close>

lemma soft_tabs_reach_stop:
  assumes "0 < tabSize"
  shows "soft_tabs tabSize d rs = Inr ss \<Longrightarrow>
    list_all2 (\<lambda>r s. \<exists>l. getLine d (pline (range_from r)) = Inr l \<and> s = replicate (length s) 32 \<and> 0 < length s \<and> length s \<le> tabSize \<and>
      int tabSize dvd countColumn (l_text l) (Some (nat (pch (range_from r)))) tabSize 0 0 + int (length s)) rs ss"
proof (induction rs arbitrary: ss)
  case (Cons r rs)
  obtain l ss' where l: "getLine d (pline (range_from r)) = Inr l" "soft_tabs tabSize d rs = Inr ss'"
    using Cons.prems by (cases "getLine d (pline (range_from r))"; cases "soft_tabs tabSize d rs") (simp_all add: Let_def)
  define col where "col = countColumn (l_text l) (Some (nat (pch (range_from r)))) tabSize 0 0"
  define k where "k = nat (int tabSize - col mod int tabSize)"
  have ss: "ss = replicate k 32 # ss'" using Cons.prems by (simp add: l Let_def col_def k_def)
  have "0 \<le> col mod int tabSize \<and> col mod int tabSize < int tabSize" using assms by simp
  then have k: "int k = int tabSize - col mod int tabSize" "0 < k" "k \<le> tabSize" by (auto simp: k_def)
  have "col + int k = int tabSize * (col div int tabSize) + int tabSize"
    using k(1) mult_div_mod_eq [of "int tabSize" col] by linarith
  then have "int tabSize dvd col + int k" by simp
  then show ?case using Cons.IH [OF l(2)] l(1) k(2,3) by (simp add: ss col_def)
qed simp

section \<open>Deleting by a unit of movement\<close>

lemma hist_ok_cantEdit: "hist_ok d \<Longrightarrow> hist_ok (d\<lparr>d_cantEdit := b\<rparr>)"
  by (simp add: hist_ok_def)

text \<open>The range that is deleted at a cursor.\<close>

definition deleted_range :: "word_env \<Rightarrow> ('st, 'x) hdoc_scheme \<Rightarrow> int \<Rightarrow> move_unit \<Rightarrow> range \<Rightarrow> pos \<times> pos" where
  "deleted_range we d dir un r =
     (case findPosH we d (head r) dir un False of
        Some (Inr (d', q, hit)) \<Rightarrow> if dir < 0 then (q, head r) else (head r, q)
      | _ \<Rightarrow> (head r, head r))"

lemma deleted_range_ok:
  assumes d: "hist_ok d" and dir: "dir = 1 \<or> dir = -1" and r: "tpos_ok (d_first d) (doc_text d) (head r)"
  shows "delete_from we dir un r (d\<lparr>d_cantEdit := b\<rparr>) = Some (Inr (deleted_range we d dir un r, d\<lparr>d_cantEdit := False\<rparr>))"
    "fst (deleted_range we d dir un r) \<le> snd (deleted_range we d dir un r)"
    "tpos_ok (d_first d) (doc_text d) (fst (deleted_range we d dir un r))"
    "tpos_ok (d_first d) (doc_text d) (snd (deleted_range we d dir un r))"
proof -
  have "doc_ok d" "calm d" using d by (simp_all add: hist_ok_def)
  from findPosH_ok [OF this r dir, of we un] obtain q hit where
    q: "findPosH we d (head r) dir un False = Some (Inr (d\<lparr>d_cantEdit := False\<rparr>, q, hit))" "tpos_ok (d_first d) (doc_text d) q"
    "if dir = 1 then head r \<le> q else q \<le> head r" by blast
  show "delete_from we dir un r (d\<lparr>d_cantEdit := b\<rparr>) = Some (Inr (deleted_range we d dir un r, d\<lparr>d_cantEdit := False\<rparr>))"
    using q(1) by (simp add: delete_from_def findPosH_cantEdit deleted_range_def ret_def)
  show "fst (deleted_range we d dir un r) \<le> snd (deleted_range we d dir un r)"
    "tpos_ok (d_first d) (doc_text d) (fst (deleted_range we d dir un r))"
    "tpos_ok (d_first d) (doc_text d) (snd (deleted_range we d dir un r))"
    using q r dir by (auto simp: deleted_range_def)
qed

lemma compute_deleted:
  assumes d: "hist_ok d" and dir: "dir = 1 \<or> dir = -1"
  shows "\<forall>r \<in> set rs. tpos_ok (d_first d) (doc_text d) (head r) \<Longrightarrow>
    \<exists>b'. compute_all (delete_from we dir un) rs (d\<lparr>d_cantEdit := b\<rparr>) = Some (Inr (map (deleted_range we d dir un) rs, d\<lparr>d_cantEdit := b'\<rparr>))"
proof (induction rs arbitrary: b)
  case Nil
  then show ?case by (auto simp: ret_def)
next
  case (Cons r rs)
  then obtain b' where "compute_all (delete_from we dir un) rs (d\<lparr>d_cantEdit := False\<rparr>) =
      Some (Inr (map (deleted_range we d dir un) rs, d\<lparr>d_cantEdit := b'\<rparr>))" by fastforce
  then show ?case using deleted_range_ok(1) [OF d dir, of r we un b] Cons.prems by (auto simp: ret_def)
qed

text \<open>Cursors that are apart are in order.\<close>

lemma cursors_sorted:
  assumes "separated rs" and "\<forall>r \<in> set rs. range_empty r"
  shows "sorted (map head rs)"
proof -
  have "range_to r = head r \<and> range_from r = head r" if "range_empty r" for r
    using that by (cases r) (auto simp: range_empty_def range_ends min_def max_def intro: pos.expand)
  then have "sorted_wrt (\<lambda>a b. head a \<le> head b) rs"
    using assms by (intro sorted_wrt_mono_rel [OF _ assms(1) [unfolded separated_def]]) (metis less_imp_le)
  then show ?thesis by (simp add: sorted_map)
qed

text \<open>C25: When nothing is selected, deleting by a character, a column, a word or a group removes exactly the text between the cursors
  and the positions that the movement reaches from them: backwards for any number of cursors, forwards for
  one. It always ends, and the history, which is consistent before, stays consistent. The environment is plain: no
  handler or filter interferes and nothing is read-only. No marker is atomic or clears itself when entered, and none
  has been cleared.\<close>

theorem deleteH_removes:
  assumes d: "hist_ok d" and env: "plain_env env" and sel: "separated (ranges (d_sel d))" "\<not> somethingSelected (d_sel d)"
    and dir: "dir = -1 \<or> dir = 1 \<and> length (ranges (d_sel d)) = 1"
  shows "\<exists>d'. deleteH env we broken_split d dir un = Some (Inr d') \<and> hist_ok d' \<and>
    flat (doc_text d') = nths (flat (doc_text d))
      {i. \<forall>r \<in> set (ranges (d_sel d)). \<not> in_range (toff (d_first d) (doc_text d)) i (deleted_range we d dir un r)}"
proof -
  let ?rs = "ranges (d_sel d)" and ?D = "deleted_range we d dir un"
  have dir': "dir = 1 \<or> dir = -1" using dir by auto
  have empty: "\<forall>r \<in> set ?rs. range_empty r" using sel(2) by (simp add: somethingSelected_def list_ex_iff)
  have r: "\<forall>r \<in> set ?rs. tpos_ok (d_first d) (doc_text d) (head r)" using d by (simp add: hist_ok_def sel_ok_def)
  obtain b where b: "compute_all (delete_from we dir un) ?rs (d\<lparr>d_cantEdit := d_cantEdit d\<rparr>) = Some (Inr (map ?D ?rs, d\<lparr>d_cantEdit := b\<rparr>))"
    using compute_deleted [OF d dir' r] by blast
  have "sorted (map snd (map ?D ?rs))"
  proof (cases "dir = -1")
    case True
    then have "snd (?D r) = head r" for r by (auto simp: deleted_range_def split: option.splits sum.splits)
    then show ?thesis using cursors_sorted [OF sel(1) empty] by (simp add: comp_def)
  next
    case False
    then show ?thesis using dir by (auto simp: length_Suc_conv)
  qed
  then have "deletable d (map ?D ?rs)" using deleted_range_ok(2-4) [OF d dir'] r by (auto simp: deletable_def)
  from deleteNearSelection_ok [OF env b [simplified] hist_ok_cantEdit [OF d] _ _ this] show ?thesis
    using sel(2) by (simp add: deleteH_def)
qed

text \<open>Backspace at the start of the second line joins the two lines.\<close>

theorem deleteH_removes_witness:
  "case Doc plain [js ''ab'', js ''c''] 0 of
     Some (Inr d) \<Rightarrow> \<exists>d'. deleteH plain no_words False (d\<lparr>d_sel := Selection [Range (Pos 1 0) (Pos 1 0)] 0\<rparr>) (-1) ByChar = Some (Inr d') \<and>
                       hist_ok d' \<and> flat (doc_text d') = js ''abc''
   | _ \<Rightarrow> False"
proof -
  obtain d where d: "Doc plain [js ''ab'', js ''c''] 0 = Some (Inr d)" "hist_ok d" "d_first d = 0" "doc_text d = [js ''ab'', js ''c'']"
    by (rule Doc_example)
  let ?r = "Range (Pos 1 0) (Pos 1 0)"
  let ?e = "d\<lparr>d_sel := Selection [?r] 0\<rparr>"
  have "case Doc plain [js ''ab'', js ''c''] 0 of
      Some (Inr d) \<Rightarrow> deleted_range no_words (d\<lparr>d_sel := Selection [?r] 0\<rparr>) (-1) ByChar ?r = (Pos 0 2, Pos 1 0) | _ \<Rightarrow> False"
    by code_simp
  then have D: "deleted_range no_words ?e (-1) ByChar ?r = (Pos 0 2, Pos 1 0)" using d(1) by simp
  have e: "hist_ok ?e" using d(2-4) by (simp add: hist_ok_def sel_ok_def tpos_ok_def js_def)
  have "nths (flat [js ''ab'', js ''c'']) {i. \<not> in_range (toff 0 [js ''ab'', js ''c'']) i (Pos 0 2, Pos 1 0)} = js ''abc''"
    by (simp add: flat_def js_def toff_def in_range_def text_offset_def nths_Cons)
  moreover have "separated (ranges (d_sel ?e))" "\<not> somethingSelected (d_sel ?e)"
    by (simp_all add: separated_def somethingSelected_def range_empty_def)
  ultimately show ?thesis using deleteH_removes [OF e plain_env_plain, of "-1" no_words False ByChar] D d by simp
qed

end
