(* ===== verification/KeyMaps.thy ===== *)
theory KeyMaps
  imports JsPrelude
begin

text \<open>
  Key maps (\<^verbatim>\<open>src/js/codemirror/codemirror.js\<close>, sections STANDARD KEYMAPS, KEYMAP DISPATCH, KEY NAMES and the first functions of
  KEY EVENTS): the names of keys, the tables of bindings, the search for a binding through a map and the
  maps it falls through to, and running what is bound. The main results are that the search visits the maps in
  the order of a depth-first walk, and that the standard tables only bind keys that can be pressed and
  commands that exist.

  A key map is a list of bindings (the properties of the object whose names are names of keys), with the
  properties \<^verbatim>\<open>nofallthrough\<close> and \<^verbatim>\<open>fallthrough\<close>. A map can fall through to itself, in which case the search need not end: the
  functions get the number of levels that they may go down and return \<^const>\<open>None\<close> when it is not enough.
  Neither the timer of \<^verbatim>\<open>auto\<close> key maps nor \<^verbatim>\<open>preventDefault\<close> and the signals for a handled key are modelled.
\<close>

section \<open>Definitions\<close>

subsection \<open>The names of keys\<close>

definition digit_str :: "int \<Rightarrow> string" where
  "digit_str i = (if i < 10 then [char_of (48 + i)] else [char_of (48 + i div 10), char_of (48 + i mod 10)])"

text \<open>The table in the order in which its entries are set; a later entry replaces an earlier one.\<close>

definition keyNames_list :: "(int \<times> string) list" where
  "keyNames_list =
     [(3, ''Enter''), (8, ''Backspace''), (9, ''Tab''), (13, ''Enter''), (16, ''Shift''),
      (17, ''Ctrl''), (18, ''Alt''), (19, ''Pause''), (20, ''CapsLock''), (27, ''Esc''),
      (32, ''Space''), (33, ''PageUp''), (34, ''PageDown''), (35, ''End''), (36, ''Home''),
      (37, ''Left''), (38, ''Up''), (39, ''Right''), (40, ''Down''), (44, ''PrintScrn''),
      (45, ''Insert''), (46, ''Delete''), (59, '';''), (61, ''=''), (91, ''Mod''), (92, ''Mod''),
      (93, ''Mod''), (107, ''=''), (109, ''-''), (127, ''Delete''), (173, ''-''), (186, '';''),
      (187, ''=''), (188, '',''), (189, ''-''), (190, ''.''), (191, ''/''), (192, [CHR 0x60]),
      (219, ''[''), (220, [CHR 0x5C]), (221, '']''), (222, [CHR 0x27]), (63232, ''Up''), (63233, ''Down''),
      (63234, ''Left''), (63235, ''Right''), (63272, ''Delete''), (63273, ''Home''),
      (63275, ''End''), (63276, ''PageUp''), (63277, ''PageDown''), (63302, ''Insert'')] @
     concat (map (\<lambda>i. [(i + 96, digit_str i), (i + 48, digit_str i)]) [0..9]) @
     map (\<lambda>i. (i, [char_of i])) [65..90] @
     concat (map (\<lambda>i. [(i + 63235, ''F'' @ digit_str i), (i + 111, ''F'' @ digit_str i)]) [1..12])"

definition keyNames :: "int \<Rightarrow> jsstring option" where
  "keyNames c = map_option js (map_of (rev keyNames_list) c)"

record key_event =
  ev_keyCode :: int
  ev_char :: bool
  ev_altGraphKey :: bool
  ev_altKey :: bool
  ev_ctrlKey :: bool
  ev_metaKey :: bool
  ev_shiftKey :: bool

definition isModifierKey :: "key_event \<Rightarrow> bool" where
  "isModifierKey event =
     (let name = keyNames (ev_keyCode event)
      in name = Some (js ''Ctrl'') \<or> name = Some (js ''Alt'') \<or> name = Some (js ''Shift'') \<or> name = Some (js ''Mod''))"

text \<open>The flags for the browser and the system, computed in the section BROWSER SNIFFING.\<close>

record browser =
  presto :: bool
  flipCtrlCmd :: bool

definition keyName :: "browser \<Rightarrow> key_event \<Rightarrow> bool \<Rightarrow> jsstring option" where
  "keyName br event noShift =
     (if presto br \<and> ev_keyCode event = 34 \<and> ev_char event then None
      else case keyNames (ev_keyCode event) of
        None \<Rightarrow> None
      | Some name \<Rightarrow>
          if ev_altGraphKey event then None
          else let name = (if ev_altKey event then js ''Alt-'' @ name else name);
                   name = (if (if flipCtrlCmd br then ev_metaKey event else ev_ctrlKey event) then js ''Ctrl-'' @ name else name);
                   name = (if (if flipCtrlCmd br then ev_ctrlKey event else ev_metaKey event) then js ''Cmd-'' @ name else name);
                   name = (if \<not> noShift \<and> ev_shiftKey event then js ''Shift-'' @ name else name)
               in Some name)"

subsection \<open>Running what is bound\<close>

datatype key_exn = MapTypeErr | Thrown

text \<open>The part of the editor that the dispatch reads and writes; \<open>'s\<close> is the rest of it.\<close>

record 's key_state =
  ks_shift :: bool
  ks_suppressEdits :: bool
  ks_pollingFast :: bool
  ks_editor :: 's

text \<open>A command throws, or says whether it handled the key (it did not when it returns \<^verbatim>\<open>Pass\<close>).\<close>

type_synonym 's command = "'s key_state \<Rightarrow> (key_exn + bool) \<times> 's key_state"

text \<open>What a key is bound to: \<^verbatim>\<open>false\<close>, the name of a command, or a function with its property \<^verbatim>\<open>motion\<close>.\<close>

datatype 's binding = BoundFalse | BoundName jsstring | BoundFun bool "'s command"

text \<open>The input field and the protection against edits belong to the editor.\<close>

record 's key_env =
  kv_commands :: "jsstring \<Rightarrow> 's command option"
  kv_readInput :: "'s key_state \<Rightarrow> bool \<times> 's key_state"
  kv_isReadOnly :: "'s key_state \<Rightarrow> bool"

definition run_bound :: "'s key_env \<Rightarrow> 's command \<Rightarrow> bool \<Rightarrow> 's command" where
  "run_bound env bound dropShift s =
     (let s1 = (if ks_pollingFast s
                then (case kv_readInput env s of (r, s') \<Rightarrow> if r then s'\<lparr>ks_pollingFast := False\<rparr> else s')
                else s);
          prevShift = ks_shift s1;
          s2 = (if kv_isReadOnly env s1 then s1\<lparr>ks_suppressEdits := True\<rparr> else s1);
          s3 = (if dropShift then s2\<lparr>ks_shift := False\<rparr> else s2)
      in case bound s3 of (r, s4) \<Rightarrow> (r, s4\<lparr>ks_shift := prevShift, ks_suppressEdits := False\<rparr>))"

definition doHandleBinding :: "'s key_env \<Rightarrow> bool \<Rightarrow> 's binding \<Rightarrow> 's command" where
  "doHandleBinding env dropShift b s =
     (case b of
        BoundFalse \<Rightarrow> run_bound env (\<lambda>s. (Inl MapTypeErr, s)) dropShift s
      | BoundName c \<Rightarrow> (case kv_commands env c of None \<Rightarrow> (Inr False, s) | Some f \<Rightarrow> run_bound env f dropShift s)
      | BoundFun motion f \<Rightarrow> run_bound env f dropShift s)"

subsection \<open>Key maps and the search in them\<close>

datatype 's keymap = KeyMap (km_keys: "(jsstring \<times> 's binding) list") (km_nofallthrough: bool) (km_fallthrough: "'s fallthrough")
and 's fallthrough = NoFall | OneMap "'s keyref" | ManyMaps "'s keyref list"
and 's keyref = Named jsstring | Direct "'s keymap"

definition getKeyMap :: "(jsstring \<Rightarrow> 's keymap option) \<Rightarrow> 's keyref \<Rightarrow> 's keymap option" where
  "getKeyMap keyMap val = (case val of Named n \<Rightarrow> keyMap n | Direct m \<Rightarrow> Some m)"

datatype found = NotFound | Handled | Stop

text \<open>The loop over maps, which stops at the first result that is not \<^verbatim>\<open>false\<close>.\<close>

fun first_done ::
  "('s keyref \<Rightarrow> 's key_state \<Rightarrow> ((key_exn + found) \<times> 's key_state) option) \<Rightarrow> 's keyref list \<Rightarrow> 's key_state \<Rightarrow>
   ((key_exn + found) \<times> 's key_state) option" where
  "first_done look [] s = Some (Inr NotFound, s)"
| "first_done look (r # rs) s =
     (case look r s of
        Some (Inr NotFound, s') \<Rightarrow> first_done look rs s'
      | other \<Rightarrow> other)"

primrec lookup ::
  "nat \<Rightarrow> (jsstring \<Rightarrow> 's keymap option) \<Rightarrow> jsstring \<Rightarrow> ('s binding \<Rightarrow> 's command) \<Rightarrow> 's keyref \<Rightarrow> 's key_state \<Rightarrow>
   ((key_exn + found) \<times> 's key_state) option" where
  "lookup 0 keyMap name handle r s = None"
| "lookup (Suc n) keyMap name handle r s =
     (case getKeyMap keyMap r of
        None \<Rightarrow> Some (Inl MapTypeErr, s)
      | Some m \<Rightarrow>
          (case map_of (km_keys m) name of
             Some BoundFalse \<Rightarrow> Some (Inr Stop, s)
           | bound \<Rightarrow>
               (case (case bound of None \<Rightarrow> (Inr False, s) | Some b \<Rightarrow> handle b s) of
                  (Inl e, s') \<Rightarrow> Some (Inl e, s')
                | (Inr True, s') \<Rightarrow> Some (Inr Handled, s')
                | (Inr False, s') \<Rightarrow>
                    if km_nofallthrough m then Some (Inr Stop, s')
                    else (case km_fallthrough m of
                            NoFall \<Rightarrow> Some (Inr NotFound, s')
                          | OneMap r' \<Rightarrow> lookup n keyMap name handle r' s'
                          | ManyMaps rs \<Rightarrow> first_done (lookup n keyMap name handle) rs s'))))"

definition lookupKey ::
  "nat \<Rightarrow> (jsstring \<Rightarrow> 's keymap option) \<Rightarrow> jsstring \<Rightarrow> 's keyref list \<Rightarrow> ('s binding \<Rightarrow> 's command) \<Rightarrow> 's key_state \<Rightarrow>
   ((key_exn + bool) \<times> 's key_state) option" where
  "lookupKey n keyMap name maps handle s =
     map_option (\<lambda>(r, s'). (case r of Inl e \<Rightarrow> Inl e | Inr done \<Rightarrow> Inr (done = Handled), s'))
       (first_done (lookup n keyMap name handle) maps s)"

record 's key_config =
  kc_keyMaps :: "'s keyref list"
  kc_extraKeys :: "'s keyref option"
  kc_keyMap :: "'s keyref"

definition allKeyMaps :: "'s key_config \<Rightarrow> 's keyref list" where
  "allKeyMaps cm = kc_keyMaps cm @ (case kc_extraKeys cm of None \<Rightarrow> [] | Some m \<Rightarrow> [m]) @ [kc_keyMap cm]"

text \<open>The test \<^verbatim>\<open>/^go[A-Z]/\<close>, or the property \<^verbatim>\<open>motion\<close> of a function.\<close>

definition is_motion :: "'s binding \<Rightarrow> bool" where
  "is_motion b =
     (case b of
        BoundFalse \<Rightarrow> False
      | BoundName c \<Rightarrow> take 2 c = js ''go'' \<and> (case drop 2 c of [] \<Rightarrow> False | x # _ \<Rightarrow> 65 \<le> x \<and> x \<le> 90)
      | BoundFun motion f \<Rightarrow> motion)"

definition handleKeyBinding ::
  "nat \<Rightarrow> (jsstring \<Rightarrow> 's keymap option) \<Rightarrow> browser \<Rightarrow> 's key_env \<Rightarrow> 's key_config \<Rightarrow> key_event \<Rightarrow> 's key_state \<Rightarrow>
   ((key_exn + bool) \<times> 's key_state) option" where
  "handleKeyBinding n keyMap br env cm e s =
     (case getKeyMap keyMap (kc_keyMap cm) of
        None \<Rightarrow> Some (Inl MapTypeErr, s)
      | Some startMap \<Rightarrow>
          (case keyName br e True of
             None \<Rightarrow> Some (Inr False, s)
           | Some name \<Rightarrow>
               if ev_shiftKey e
               then (case lookupKey n keyMap (js ''Shift-'' @ name) (allKeyMaps cm) (doHandleBinding env True) s of
                       Some (Inr False, s') \<Rightarrow>
                         lookupKey n keyMap name (allKeyMaps cm)
                           (\<lambda>b s. if is_motion b then doHandleBinding env False b s else (Inr False, s)) s'
                     | other \<Rightarrow> other)
               else lookupKey n keyMap name (allKeyMaps cm) (doHandleBinding env False) s))"

definition handleCharBinding ::
  "nat \<Rightarrow> (jsstring \<Rightarrow> 's keymap option) \<Rightarrow> 's key_env \<Rightarrow> 's key_config \<Rightarrow> jsstring \<Rightarrow> 's key_state \<Rightarrow>
   ((key_exn + bool) \<times> 's key_state) option" where
  "handleCharBinding n keyMap env cm ch s =
     lookupKey n keyMap ([39] @ ch @ [39]) (allKeyMaps cm) (doHandleBinding env True) s"

subsection \<open>The standard key maps\<close>

definition named_keys :: "(string \<times> string) list \<Rightarrow> (jsstring \<times> 's binding) list" where
  "named_keys = map (\<lambda>(k, c). (js k, BoundName (js c)))"

definition basic_keys :: "(string \<times> string) list" where
  "basic_keys =
     [(''Left'', ''goCharLeft''), (''Right'', ''goCharRight''), (''Up'', ''goLineUp''),
      (''Down'', ''goLineDown''), (''End'', ''goLineEnd''), (''Home'', ''goLineStartSmart''),
      (''PageUp'', ''goPageUp''), (''PageDown'', ''goPageDown''), (''Delete'', ''delCharAfter''),
      (''Backspace'', ''delCharBefore''), (''Shift-Backspace'', ''delCharBefore''),
      (''Tab'', ''defaultTab''), (''Shift-Tab'', ''indentAuto''),
      (''Enter'', ''newlineAndIndent''), (''Insert'', ''toggleOverwrite''),
      (''Esc'', ''singleSelection'')]"

definition pcDefault_keys :: "(string \<times> string) list" where
  "pcDefault_keys =
     [(''Ctrl-A'', ''selectAll''), (''Ctrl-D'', ''deleteLine''), (''Ctrl-Z'', ''undo''),
      (''Shift-Ctrl-Z'', ''redo''), (''Ctrl-Y'', ''redo''), (''Ctrl-Home'', ''goDocStart''),
      (''Ctrl-Up'', ''goDocStart''), (''Ctrl-End'', ''goDocEnd''), (''Ctrl-Down'', ''goDocEnd''),
      (''Ctrl-Left'', ''goGroupLeft''), (''Ctrl-Right'', ''goGroupRight''),
      (''Alt-Left'', ''goLineStart''), (''Alt-Right'', ''goLineEnd''),
      (''Ctrl-Backspace'', ''delGroupBefore''), (''Ctrl-Delete'', ''delGroupAfter''),
      (''Ctrl-S'', ''save''), (''Ctrl-F'', ''find''), (''Ctrl-G'', ''findNext''),
      (''Shift-Ctrl-G'', ''findPrev''), (''Shift-Ctrl-F'', ''replace''),
      (''Shift-Ctrl-R'', ''replaceAll''), (''Ctrl-['', ''indentLess''),
      (''Ctrl-]'', ''indentMore''), (''Ctrl-U'', ''undoSelection''),
      (''Shift-Ctrl-U'', ''redoSelection''), (''Alt-U'', ''redoSelection'')]"

definition macDefault_keys :: "(string \<times> string) list" where
  "macDefault_keys =
     [(''Cmd-A'', ''selectAll''), (''Cmd-D'', ''deleteLine''), (''Cmd-Z'', ''undo''),
      (''Shift-Cmd-Z'', ''redo''), (''Cmd-Y'', ''redo''), (''Cmd-Up'', ''goDocStart''),
      (''Cmd-End'', ''goDocEnd''), (''Cmd-Down'', ''goDocEnd''), (''Alt-Left'', ''goGroupLeft''),
      (''Alt-Right'', ''goGroupRight''), (''Cmd-Left'', ''goLineStart''),
      (''Cmd-Right'', ''goLineEnd''), (''Alt-Backspace'', ''delGroupBefore''),
      (''Ctrl-Alt-Backspace'', ''delGroupAfter''), (''Alt-Delete'', ''delGroupAfter''),
      (''Cmd-S'', ''save''), (''Cmd-F'', ''find''), (''Cmd-G'', ''findNext''),
      (''Shift-Cmd-G'', ''findPrev''), (''Cmd-Alt-F'', ''replace''),
      (''Shift-Cmd-Alt-F'', ''replaceAll''), (''Cmd-['', ''indentLess''),
      (''Cmd-]'', ''indentMore''), (''Cmd-Backspace'', ''delLineLeft''),
      (''Cmd-U'', ''undoSelection''), (''Shift-Cmd-U'', ''redoSelection'')]"

definition emacsy_keys :: "(string \<times> string) list" where
  "emacsy_keys =
     [(''Ctrl-F'', ''goCharRight''), (''Ctrl-B'', ''goCharLeft''), (''Ctrl-P'', ''goLineUp''),
      (''Ctrl-N'', ''goLineDown''), (''Alt-F'', ''goWordRight''), (''Alt-B'', ''goWordLeft''),
      (''Ctrl-A'', ''goLineStart''), (''Ctrl-E'', ''goLineEnd''), (''Ctrl-V'', ''goPageDown''),
      (''Shift-Ctrl-V'', ''goPageUp''), (''Ctrl-D'', ''delCharAfter''),
      (''Ctrl-H'', ''delCharBefore''), (''Alt-D'', ''delWordAfter''),
      (''Alt-Backspace'', ''delWordBefore''), (''Ctrl-K'', ''killLine''),
      (''Ctrl-T'', ''transposeChars'')]"

definition standard_keyMap :: "bool \<Rightarrow> jsstring \<Rightarrow> 's keymap option" where
  "standard_keyMap mac n =
     (let pc = KeyMap (named_keys pcDefault_keys) False (OneMap (Named (js ''basic'')));
          macs = KeyMap (named_keys macDefault_keys) False (ManyMaps [Named (js ''basic''), Named (js ''emacsy'')])
      in if n = js ''basic'' then Some (KeyMap (named_keys basic_keys) False NoFall)
         else if n = js ''pcDefault'' then Some pc
         else if n = js ''macDefault'' then Some macs
         else if n = js ''emacsy'' then Some (KeyMap (named_keys emacsy_keys) False NoFall)
         else if n = js ''default'' then Some (if mac then macs else pc)
         else None)"

text \<open>The names of \<^verbatim>\<open>CodeMirror.commands\<close>.\<close>

definition command_names :: "string list" where
  "command_names =
     [''selectAll'', ''singleSelection'', ''killLine'', ''deleteLine'', ''delLineLeft'',
      ''undo'', ''redo'', ''undoSelection'', ''redoSelection'', ''goDocStart'', ''goDocEnd'',
      ''goLineStart'', ''goLineStartSmart'', ''goLineEnd'', ''goLineRight'', ''goLineLeft'',
      ''goLineUp'', ''goLineDown'', ''goPageUp'', ''goPageDown'', ''goCharLeft'',
      ''goCharRight'', ''goColumnLeft'', ''goColumnRight'', ''goWordLeft'', ''goGroupRight'',
      ''goGroupLeft'', ''goWordRight'', ''delCharBefore'', ''delCharAfter'', ''delWordBefore'',
      ''delWordAfter'', ''delGroupBefore'', ''delGroupAfter'', ''indentAuto'', ''indentMore'',
      ''indentLess'', ''insertTab'', ''insertSoftTab'', ''defaultTab'', ''transposeChars'',
      ''newlineAndIndent'', ''toggleOverwrite'']"

section \<open>The order of the search\<close>

text \<open>The maps that a map falls through to, and the maps reached from it, in the order of a depth-first walk.\<close>

definition fall_refs :: "'s keymap \<Rightarrow> 's keyref list" where
  "fall_refs m = (case km_fallthrough m of NoFall \<Rightarrow> [] | OneMap r \<Rightarrow> [r] | ManyMaps rs \<Rightarrow> rs)"

primrec reached :: "nat \<Rightarrow> (jsstring \<Rightarrow> 's keymap option) \<Rightarrow> 's keyref \<Rightarrow> 's keymap list option" where
  "reached 0 keyMap r = None"
| "reached (Suc n) keyMap r =
     (case getKeyMap keyMap r of
        None \<Rightarrow> None
      | Some m \<Rightarrow> map_option (\<lambda>mss. m # concat mss) (those (map (reached n keyMap) (fall_refs m))))"

text \<open>A search through a list of maps, without any falling through.\<close>

fun scan :: "jsstring \<Rightarrow> ('s binding \<Rightarrow> 's command) \<Rightarrow> 's keymap list \<Rightarrow> 's key_state \<Rightarrow> (key_exn + found) \<times> 's key_state" where
  "scan name handle [] s = (Inr NotFound, s)"
| "scan name handle (m # ms) s =
     (case map_of (km_keys m) name of
        Some BoundFalse \<Rightarrow> (Inr Stop, s)
      | bound \<Rightarrow>
          (case (case bound of None \<Rightarrow> (Inr False, s) | Some b \<Rightarrow> handle b s) of
             (Inl e, s') \<Rightarrow> (Inl e, s')
           | (Inr True, s') \<Rightarrow> (Inr Handled, s')
           | (Inr False, s') \<Rightarrow> if km_nofallthrough m then (Inr Stop, s') else scan name handle ms s'))"

lemma scan_append:
  "scan name handle (xs @ ys) s =
     (case scan name handle xs s of (Inr NotFound, s') \<Rightarrow> scan name handle ys s' | other \<Rightarrow> other)"
  by (induction name handle xs s rule: scan.induct)
    (auto split: option.splits binding.splits prod.splits sum.splits bool.splits found.splits)

lemma first_done_scan:
  assumes "\<And>r ms s. r \<in> set rs \<Longrightarrow> f r = Some ms \<Longrightarrow> look r s = Some (scan name handle ms s)"
    and "those (map f rs) = Some mss"
  shows "first_done look rs s = Some (scan name handle (concat mss) s)"
  using assms
proof (induction rs arbitrary: mss s)
  case (Cons r rs)
  then obtain ms mss' where m: "f r = Some ms" "those (map f rs) = Some mss'" "mss = ms # mss'"
    by (auto split: option.splits)
  have "look r s = Some (scan name handle ms s)" using Cons.prems(1) m(1) by simp
  moreover have "first_done look rs t = Some (scan name handle (concat mss') t)" for t
    by (rule Cons.IH [OF _ m(2)]) (simp add: Cons.prems(1))
  ultimately show ?case by (auto simp: m(3) scan_append split: prod.splits sum.splits found.splits)
qed simp

lemma first_done_single: "first_done look [r] s = look r s"
  by (auto split: option.splits prod.splits sum.splits found.splits)

lemma lookup_fall:
  "lookup (Suc n) keyMap name handle r s =
     (case getKeyMap keyMap r of
        None \<Rightarrow> Some (Inl MapTypeErr, s)
      | Some m \<Rightarrow>
          (case scan name handle [m] s of
             (Inr NotFound, s') \<Rightarrow> first_done (lookup n keyMap name handle) (fall_refs m) s'
           | other \<Rightarrow> Some other))"
  by (auto simp: fall_refs_def first_done_single simp del: first_done.simps(2)
      split: option.splits binding.splits prod.splits sum.splits bool.splits found.splits fallthrough.splits)

lemma lookup_scan: "reached n keyMap r = Some ms \<Longrightarrow> lookup n keyMap name handle r s = Some (scan name handle ms s)"
proof (induction n arbitrary: r ms s)
  case (Suc n)
  then obtain m mss where m: "getKeyMap keyMap r = Some m" "those (map (reached n keyMap) (fall_refs m)) = Some mss" "ms = [m] @ concat mss"
    by (auto split: option.splits)
  have "first_done (lookup n keyMap name handle) (fall_refs m) t = Some (scan name handle (concat mss) t)" for t
    by (rule first_done_scan [OF _ m(2)]) (rule Suc.IH)
  then show ?case unfolding lookup_fall m(3) scan_append by (simp add: m(1) del: scan.simps split: prod.splits sum.splits found.splits)
qed simp

text \<open>C38: The search for a key through the active maps is a search through the list of all maps reached from them, each map before the
  maps it falls through to and these in their order: the bindings of the key are tried in this order until one
  is handled or throws, and a binding to \<^verbatim>\<open>false\<close> or a map with \<^verbatim>\<open>nofallthrough\<close> ends the search unhandled. It ends when
  the maps reached are at most \<open>n\<close> levels deep.\<close>

theorem lookupKey_scans:
  assumes "those (map (reached n keyMap) maps) = Some mss"
  shows "lookupKey n keyMap name maps handle s =
    Some (case scan name handle (concat mss) s of (Inl e, s') \<Rightarrow> (Inl e, s') | (Inr found, s') \<Rightarrow> (Inr (found = Handled), s'))"
proof -
  have "first_done (lookup n keyMap name handle) maps s = Some (scan name handle (concat mss) s)"
    by (rule first_done_scan [OF lookup_scan assms])
  then show ?thesis by (simp add: lookupKey_def split: prod.splits sum.splits)
qed

text \<open>Control-F of the default maps on a Mac is found in the second map that is fallen through to.\<close>

lemma js_inject [simp]: "js a = js b \<longleftrightarrow> a = b"
  by (simp add: js_def inj_def)

lemma map_of_named_keys: "map_of (named_keys ks) (js k) = map_option (\<lambda>c. BoundName (js c)) (map_of ks k)"
  by (induction ks) (auto simp: named_keys_def)

theorem lookupKey_scans_witness:
  "lookupKey 2 (standard_keyMap True) (js ''Ctrl-F'') [Named (js ''default'')] (\<lambda>b s. (Inr (is_motion b), s))
     \<lparr>ks_shift = False, ks_suppressEdits = False, ks_pollingFast = False, ks_editor = ()\<rparr> =
   Some (Inr True, \<lparr>ks_shift = False, ks_suppressEdits = False, ks_pollingFast = False, ks_editor = ()\<rparr>)"
proof -
  let ?mac = "KeyMap (named_keys macDefault_keys) False (ManyMaps [Named (js ''basic''), Named (js ''emacsy'')])"
  let ?basic = "KeyMap (named_keys basic_keys) False NoFall" and ?emacsy = "KeyMap (named_keys emacsy_keys) False NoFall"
  have "those (map (reached 2 (standard_keyMap True)) [Named (js ''default'')]) = Some [[?mac, ?basic, ?emacsy]]"
    by (simp add: numeral_2_eq_2 standard_keyMap_def getKeyMap_def fall_refs_def js_def)
  note reached = this
  have "map_of macDefault_keys ''Ctrl-F'' = None" "map_of basic_keys ''Ctrl-F'' = None"
    "map_of emacsy_keys ''Ctrl-F'' = Some ''goCharRight''" by code_simp+
  moreover have "is_motion (BoundName (js ''goCharRight'') :: unit binding)" by (simp add: is_motion_def js_def cc_def)
  ultimately show ?thesis by (subst lookupKey_scans [OF reached]) (simp add: map_of_named_keys)
qed

section \<open>The standard key maps\<close>

text \<open>The event for a name: the prefixes in the order in which \<open>keyName\<close> adds them, then the key.\<close>

definition strip_prefix :: "string \<Rightarrow> string \<Rightarrow> bool \<times> string" where
  "strip_prefix p s = (if take (length p) s = p then (True, drop (length p) s) else (False, s))"

definition key_parts :: "(int \<times> string) list \<Rightarrow> string \<Rightarrow> bool \<times> bool \<times> bool \<times> bool \<times> int" where
  "key_parts table k =
     (let (shift, k1) = strip_prefix ''Shift-'' k;
          (cmd, k2) = strip_prefix ''Cmd-'' k1;
          (ctrl, k3) = strip_prefix ''Ctrl-'' k2;
          (alt, k4) = strip_prefix ''Alt-'' k3
      in (shift, cmd, ctrl, alt, case filter (\<lambda>(c, nm). nm = k4) table of [] \<Rightarrow> 0 | (c, nm) # _ \<Rightarrow> c))"

definition key_string :: "(int \<times> string) list \<Rightarrow> bool \<times> bool \<times> bool \<times> bool \<times> int \<Rightarrow> string option" where
  "key_string table parts =
     (case parts of (shift, cmd, ctrl, alt, c) \<Rightarrow>
        map_option (\<lambda>nm. (if shift then ''Shift-'' else []) @ (if cmd then ''Cmd-'' else []) @ (if ctrl then ''Ctrl-'' else []) @
                         (if alt then ''Alt-'' else []) @ nm) (map_of (rev table) c))"

definition event_of :: "browser \<Rightarrow> bool \<times> bool \<times> bool \<times> bool \<times> int \<Rightarrow> key_event" where
  "event_of br parts =
     (case parts of (shift, cmd, ctrl, alt, c) \<Rightarrow>
        \<lparr>ev_keyCode = c, ev_char = False, ev_altGraphKey = False, ev_altKey = alt,
         ev_ctrlKey = (if flipCtrlCmd br then cmd else ctrl), ev_metaKey = (if flipCtrlCmd br then ctrl else cmd), ev_shiftKey = shift\<rparr>)"

lemma keyName_event_of: "keyName br (event_of br parts) False = map_option js (key_string keyNames_list parts)"
  by (auto simp: keyName_def event_of_def key_string_def keyNames_def js_def Let_def split: prod.splits option.splits)

definition external_commands :: "string list" where
  "external_commands = [''save'', ''find'', ''findNext'', ''findPrev'', ''replace'', ''replaceAll'']"

definition standard_keys :: "(string \<times> string) list" where
  "standard_keys = basic_keys @ pcDefault_keys @ macDefault_keys @ emacsy_keys"

definition key_pressed :: "(int \<times> string) list \<Rightarrow> string \<times> string \<Rightarrow> bool" where
  "key_pressed table b \<longleftrightarrow> key_string table (key_parts table (fst b)) = Some (fst b)"

lemma standard_keys_events: "list_all (key_pressed keyNames_list) standard_keys"
  by code_simp

lemma standard_keys_commands: "list_all (\<lambda>(k, c). List.member (command_names @ external_commands) c) standard_keys"
  by code_simp

text \<open>In every browser each key of the standard maps is the name of some event, so that the modifiers are
  written in the order in which names are built, and is bound to a command of the editor or to one of the commands
  for saving and searching that the comment leaves to addons. The maps fall through at most two levels
  and no map binds a key twice.\<close>

theorem standard_keymaps_valid:
  "list_all (\<lambda>(k, c). (\<exists>e. keyName br e False = Some (js k)) \<and> (c \<in> set command_names \<or> c \<in> set external_commands)) standard_keys \<and>
   those (map (reached 2 (standard_keyMap mac)) [Named (js ''default'')]) \<noteq> None \<and>
   distinct (map fst basic_keys) \<and> distinct (map fst pcDefault_keys) \<and> distinct (map fst macDefault_keys) \<and> distinct (map fst emacsy_keys)"
proof (intro conjI)
  have "\<exists>e. keyName br e False = Some (js k)" if "(k, c) \<in> set standard_keys" for k c
  proof -
    have "key_string keyNames_list (key_parts keyNames_list k) = Some k"
      using that standard_keys_events by (auto simp: list_all_iff key_pressed_def)
    then show ?thesis using keyName_event_of [of br "key_parts keyNames_list k"] by auto
  qed
  then show "list_all (\<lambda>(k, c). (\<exists>e. keyName br e False = Some (js k)) \<and> (c \<in> set command_names \<or> c \<in> set external_commands)) standard_keys"
    using standard_keys_commands by (auto simp: list_all_iff)
  show "those (map (reached 2 (standard_keyMap mac)) [Named (js ''default'')]) \<noteq> None"
    by (simp add: numeral_2_eq_2 standard_keyMap_def getKeyMap_def fall_refs_def js_def)
qed code_simp+

section \<open>Modifiers while a command runs\<close>

text \<open>However the command ends, the shift flag is what it was and edits are no longer suppressed.\<close>

lemma run_bound_restores:
  assumes "\<not> ks_pollingFast s" and "run_bound env f dropShift s = (r, s')"
  shows "ks_shift s' = ks_shift s \<and> \<not> ks_suppressEdits s'"
  using assms by (auto simp: run_bound_def Let_def split: prod.splits)

text \<open>
  The comment on \<open>lookupKey\<close> says that binding a key to \<^verbatim>\<open>false\<close> stops further handling. With shift held, the second search of
  \<open>handleKeyBinding\<close> goes on: with \<^verbatim>\<open>Shift-Left\<close> bound to \<^verbatim>\<open>false\<close>, the command for \<^verbatim>\<open>Left\<close> still runs.
\<close>

lemma shift_binding_false_not_stopped:
  "case handleKeyBinding 2 (standard_keyMap False) \<lparr>presto = False, flipCtrlCmd = False\<rparr>
      \<lparr>kv_commands = (\<lambda>c. if c = js ''goCharLeft'' then Some (\<lambda>s. (Inr True, s\<lparr>ks_editor := 1\<rparr>)) else None),
       kv_readInput = (\<lambda>s. (False, s)), kv_isReadOnly = (\<lambda>s. False)\<rparr>
      \<lparr>kc_keyMaps = [], kc_extraKeys = Some (Direct (KeyMap [(js ''Shift-Left'', BoundFalse)] False NoFall)), kc_keyMap = Named (js ''default'')\<rparr>
      \<lparr>ev_keyCode = 37, ev_char = False, ev_altGraphKey = False, ev_altKey = False, ev_ctrlKey = False, ev_metaKey = False, ev_shiftKey = True\<rparr>
      \<lparr>ks_shift = True, ks_suppressEdits = False, ks_pollingFast = False, ks_editor = (0 :: int)\<rparr> of
     Some (Inr handled, s) \<Rightarrow> handled \<and> ks_editor s = 1
   | _ \<Rightarrow> False"
  by code_simp

end
