(* ===== verification/Scrolling.thy ===== *)
theory Scrolling
  imports Complex_Main
begin

text \<open>
  Scrolling a rectangle into view (\<^verbatim>\<open>src/js/codemirror/codemirror.js\<close>, section SCROLLING THINGS INTO VIEW). The sizes that the
  browser measures are the fields of a record, in pixels. The main result is that the rectangle lies within the
  screen at the position that is computed, when it fits at all.
\<close>

section \<open>Definitions\<close>

record scroll_view =
  sv_textHeight :: real
  sv_curOp_scrollTop :: "real option"
  sv_curOp_scrollLeft :: "real option"
  sv_scrollTop :: real
  sv_scrollLeft :: real
  sv_clientHeight :: real
  sv_clientWidth :: real
  sv_docHeight :: real
  sv_paddingVert :: real
  sv_gutters :: real

definition scrollerCutOff :: real where
  "scrollerCutOff = 30"

definition screentop :: "scroll_view \<Rightarrow> real" where
  "screentop V = (case sv_curOp_scrollTop V of Some t \<Rightarrow> t | None \<Rightarrow> sv_scrollTop V)"

definition screenleft :: "scroll_view \<Rightarrow> real" where
  "screenleft V = (case sv_curOp_scrollLeft V of Some l \<Rightarrow> l | None \<Rightarrow> sv_scrollLeft V)"

definition screen :: "scroll_view \<Rightarrow> real" where
  "screen V = sv_clientHeight V - scrollerCutOff"

definition screenw :: "scroll_view \<Rightarrow> real" where
  "screenw V = sv_clientWidth V - scrollerCutOff"

definition docBottom :: "scroll_view \<Rightarrow> real" where
  "docBottom V = sv_docHeight V + sv_paddingVert V"

text \<open>The two halves of the function: the new \<^verbatim>\<open>scrollTop\<close> and the new \<^verbatim>\<open>scrollLeft\<close>, absent when nothing needs to change.\<close>

definition calculate_top :: "scroll_view \<Rightarrow> real \<Rightarrow> real \<Rightarrow> real option" where
  "calculate_top V y1 y2 =
     (let y1 = (if y1 < 0 then 0 else y1);
          atTop = (y1 < sv_textHeight V);
          atBottom = (y2 > docBottom V - sv_textHeight V)
      in if y1 < screentop V then Some (if atTop then 0 else y1)
         else if y2 > screentop V + screen V
         then let newTop = min y1 ((if atBottom then docBottom V else y2) - screen V)
              in if newTop \<noteq> screentop V then Some newTop else None
         else None)"

definition calculate_left :: "scroll_view \<Rightarrow> real \<Rightarrow> real \<Rightarrow> real option" where
  "calculate_left V x1 x2 =
     (let gutterw = sv_gutters V;
          x1 = x1 + gutterw;
          x2 = x2 + gutterw;
          atLeft = (x1 < gutterw + 10)
      in if x1 < screenleft V + gutterw \<or> atLeft
         then let x1 = (if atLeft then 0 else x1) in Some (max 0 (x1 - 10 - gutterw))
         else if x2 > screenw V + screenleft V - 3 then Some (x2 + 10 - screenw V)
         else None)"

definition calculateScrollPos :: "scroll_view \<Rightarrow> real \<Rightarrow> real \<Rightarrow> real \<Rightarrow> real \<Rightarrow> real option \<times> real option" where
  "calculateScrollPos V x1 y1 x2 y2 = (calculate_top V y1 y2, calculate_left V x1 x2)"

section \<open>The rectangle becomes visible\<close>

definition scrolled :: "real option \<Rightarrow> real \<Rightarrow> real" where
  "scrolled new old = (case new of None \<Rightarrow> old | Some p \<Rightarrow> p)"

lemma calculate_top_shows:
  assumes "y1 \<le> y2" and "y2 \<le> docBottom V" and "y2 - max 0 y1 \<le> screen V" and "max 0 y1 < sv_textHeight V \<longrightarrow> y2 \<le> screen V"
    and "0 \<le> screentop V"
  shows "scrolled (calculate_top V y1 y2) (screentop V) \<le> max 0 y1 \<and> y2 \<le> scrolled (calculate_top V y1 y2) (screentop V) + screen V"
  using assms by (auto simp: calculate_top_def scrolled_def Let_def max_def min_def split: if_splits)

lemma calculate_left_shows:
  assumes "0 \<le> x1" and "x1 \<le> x2" and "0 \<le> sv_gutters V" and "x2 - x1 \<le> screenw V - sv_gutters V - 13"
  shows "scrolled (calculate_left V x1 x2) (screenleft V) \<le> x1 \<and>
    x2 + sv_gutters V \<le> scrolled (calculate_left V x1 x2) (screenleft V) + screenw V"
  using assms by (auto simp: calculate_left_def scrolled_def Let_def max_def split: if_splits)

text \<open>C39: At the scroll position that is computed for a rectangle of the document, the whole rectangle is on the screen: below its top and
  above its bottom, right of the gutters and left of the right edge. The rectangle has to fit into the
  screen with the margins that the code adds, and at the top of the document, where the code scrolls to the
  very start, it has to end within the first screen.\<close>

theorem calculateScrollPos_shows:
  assumes "x1 \<le> x2" "y1 \<le> y2" and "0 \<le> x1" "y2 \<le> docBottom V" "0 \<le> screentop V" "0 \<le> sv_gutters V"
    and "y2 - max 0 y1 \<le> screen V" and "x2 - x1 \<le> screenw V - sv_gutters V - 13"
    and "max 0 y1 < sv_textHeight V \<longrightarrow> y2 \<le> screen V"
    and "calculateScrollPos V x1 y1 x2 y2 = (t, l)"
  shows "scrolled t (screentop V) \<le> max 0 y1 \<and> y2 \<le> scrolled t (screentop V) + screen V \<and>
    scrolled l (screenleft V) \<le> x1 \<and> x2 + sv_gutters V \<le> scrolled l (screenleft V) + screenw V"
  using calculate_top_shows [of y1 y2 V] calculate_left_shows [of x1 x2 V] assms by (auto simp: calculateScrollPos_def)

theorem calculateScrollPos_shows_witness:
  "let V = \<lparr>sv_textHeight = 10, sv_curOp_scrollTop = None, sv_curOp_scrollLeft = Some 5, sv_scrollTop = 40, sv_scrollLeft = 0,
            sv_clientHeight = 130, sv_clientWidth = 230, sv_docHeight = 1000, sv_paddingVert = 8, sv_gutters = 20\<rparr>
   in case calculateScrollPos V 12 300 18 310 of (t, l) \<Rightarrow> scrolled t (screentop V) \<le> 300 \<and> 310 \<le> scrolled t (screentop V) + screen V \<and>
        scrolled l (screenleft V) \<le> 12 \<and> 18 + sv_gutters V \<le> scrolled l (screenleft V) + screenw V"
proof -
  define V where "V = \<lparr>sv_textHeight = 10, sv_curOp_scrollTop = None, sv_curOp_scrollLeft = Some 5, sv_scrollTop = 40, sv_scrollLeft = 0,
            sv_clientHeight = 130, sv_clientWidth = 230, sv_docHeight = 1000, sv_paddingVert = 8, sv_gutters = 20\<rparr>"
  obtain t l where r: "calculateScrollPos V 12 300 18 310 = (t, l)" by (cases "calculateScrollPos V 12 300 18 310")
  have "scrolled t (screentop V) \<le> max 0 300 \<and> 310 \<le> scrolled t (screentop V) + screen V \<and>
        scrolled l (screenleft V) \<le> 12 \<and> 18 + sv_gutters V \<le> scrolled l (screenleft V) + screenw V"
    by (rule calculateScrollPos_shows [OF _ _ _ _ _ _ _ _ _ r])
      (simp_all add: V_def docBottom_def screentop_def screenleft_def screen_def screenw_def scrollerCutOff_def)
  then show ?thesis unfolding V_def [symmetric] Let_def by (simp add: r)
qed

text \<open>Scrolling once is enough: at the new position nothing is left to scroll.\<close>

lemma calculate_top_stable:
  assumes "y1 \<le> y2" and "y2 \<le> docBottom V" and "y2 - max 0 y1 \<le> screen V" and "max 0 y1 < sv_textHeight V \<longrightarrow> y2 \<le> screen V"
    and "0 \<le> screentop V" and "calculate_top V y1 y2 = Some t"
  shows "calculate_top (V\<lparr>sv_curOp_scrollTop := Some t\<rparr>) y1 y2 = None"
proof -
  let ?W = "V\<lparr>sv_curOp_scrollTop := Some t\<rparr>"
  have "t \<le> max 0 y1 \<and> y2 \<le> t + screen V" using calculate_top_shows [OF assms(1-5)] assms(6) by (simp add: scrolled_def)
  moreover have "screentop ?W = t" "screen ?W = screen V" by (simp_all add: screentop_def screen_def)
  ultimately show ?thesis by (auto simp: calculate_top_def Let_def max_def split: if_splits)
qed

end
