(* ===== verification/Spec2Isabelle.thy ===== *)
theory Spec2Isabelle
  imports SmlTime MarkText LineContent Commands KeyMaps Scrolling
begin

text \<open>
  Verification of the JavaScript sources of MLKit.

  \<^bold>\<open>The program.\<close> MLKit compiles Standard ML. One of its back ends, SMLtoJs, produces JavaScript; the sources
  under \<^verbatim>\<open>src/js\<close> are what the compiled programs need in a browser. \<^verbatim>\<open>src/js/prims.js\<close> holds the runtime primitives that
  compiled code calls: checked arithmetic at 31 and 32 bits, words, strings, arrays and the calendar. The
  environment in which SML is edited in the browser is the editor \<^verbatim>\<open>src/js/codemirror/codemirror.js\<close> with the mode
  \<^verbatim>\<open>src/js/codemirror/sml.js\<close> that colours SML. The editor keeps the lines of a document in a tree of chunks;
  positions, selections, markers and the history refer to them; every edit goes through \<open>makeChange\<close> and ends
  in \<open>updateDoc\<close>; the mode is run over lines on demand and by a worker in the background; the display keeps a list
  of visual lines and renders each into tokens; keys are bound to commands through maps.

  \<^bold>\<open>Conventions.\<close> A string is a list of 16-bit words (\<open>jsstring\<close>), a number that the code uses as an integer is an \<open>int\<close>
  with the rounding and the wrapping of the language written out (\<open>JsNumbers\<close>), an object is a record, a thrown
  exception the left injection of a sum. A loop that may run forever is a \<open>partial_function (option)\<close>, so that
  \<^const>\<open>None\<close> is a loop that does not end; the theorems on such loops say that the result is a \<open>Some\<close>. Objects
  that are compared by identity (lines, markers) have a number. Code outside of these sources is a parameter:
  event handlers, the clock, the operation counter and the line height estimate (\<open>env\<close>), the language mode
  (\<open>mode\<close>), the results of browser tests, and what the browser measures. Heights of lines are whole numbers of pixels. The
  constructor \<^verbatim>\<open>RegExp\<close> is a parameter (\<open>regexps\<close>) where the code makes a pattern from a class name with special
  characters, and may throw there; a name without them matches itself.

  \<^bold>\<open>The theories.\<close>

  \<^item> \<open>JsPrelude\<close> and \<open>JsNumbers\<close> model the language: strings, arrays, exceptions, doubles that are integers. They
    show that the floor of a quotient of doubles is exact when the numerator is below \<open>2^53\<close>.

  \<^item> \<open>SmlPrims\<close> and \<open>SmlTime\<close> model \<^verbatim>\<open>prims.js\<close>. Division and modulus are those of SML, with its exceptions, at both
    widths (locale \<open>checked_int\<close>, interpreted at 32 and 31 bits); every arithmetic primitive returns a value of
    its type; words are residues; \<open>mktime\<close> inverts \<open>localtime\<close> on the times that a \<^verbatim>\<open>Date\<close> can hold. Two conversions of words are shown to be wrong.

  \<^item> \<open>Columns\<close>, \<open>TextLines\<close>, \<open>StringStream\<close> model the utilities: columns with tabs, splitting text into lines, the reader
    of the modes. The two implementations of \<open>splitLines\<close> agree except for a carriage return at the end.

  \<^item> \<open>SmlMode\<close> models \<^verbatim>\<open>sml.js\<close>: each token is not empty and stays in the line, and comments nest as counted.

  \<^item> \<open>Highlight\<close> models \<open>readToken\<close>, \<open>runMode\<close>, \<open>highlightLine\<close> and \<open>processLine\<close>: for a mode that advances (locale
    \<open>advancing_mode\<close>) processing a line ends, and when \<^verbatim>\<open>RegExp\<close> accepts the line classes in its styles (locale \<open>styled_mode\<close>)
    highlighting ends and its styles tile the line; both locales are interpreted for the SML mode. Overlays act
    character by character. \<open>HighlightState\<close> models \<open>findStartLine\<close>, \<open>getStateBefore\<close>, \<open>getLineStyles\<close> and
    \<open>highlightWorker\<close>: the states kept before \<^verbatim>\<open>doc.frontier\<close> are those of parsing from the start.

  \<^item> \<open>LineTree\<close> models \<open>LeafChunk\<close> and \<open>BranchChunk\<close>: insertion and removal with splitting and collapsing refine a list
    of lines (locale \<open>line_store\<close>), and sizes, (integral) heights and the shape of every tree that operations reach are right.

  \<^item> \<open>Positions\<close> and \<open>Document\<close> model \<open>Pos\<close>, \<open>Range\<close>, \<open>Selection\<close>, \<open>getLine\<close>, \<open>clipPos\<close>, \<open>updateDoc\<close>, offsets and heights: \<open>updateDoc\<close>
    replaces exactly the text of the change; normalised selections are sorted, apart and cover the same text.

  \<^item> \<open>Spans\<close>, \<open>MarkText\<close> and \<open>VisualLines\<close> model markers: how their spans move with a change, where a marker is found,
    making and clearing one (in a document that is in no editor), read-only ranges, and the visual lines that collapsed ranges make. The loops over
    visual lines end, although they follow markers from line to line.

  \<^item> \<open>History\<close>, \<open>Changes\<close> and \<open>UndoRedo\<close> model selection updates, changes and the history: the history stays consistent with
    the text, undo restores the text before an event, redo reverts undo, undoing everything gives the
    original text. \<open>hist_ok\<close> is the invariant, which includes that no marker is atomic, clears itself when entered or has been
    cleared (\<open>calm\<close>); \<open>plain_env\<close> is an environment whose handlers do not interfere and without read-only text. A selection that
    the code lets overwrite a change event (\<open>replaces_change\<close>, after a redo) loses the event, and is excluded.

  \<^item> \<open>Bidi\<close> models the ordering of bidirectional text and moving through it; the sections tile the line, and
    moving visually stays in the line and returns nothing at its visual end.

  \<^item> \<open>Motion\<close> models \<open>findPosH\<close>, \<open>findWordAt\<close> and \<open>deleteNearSelection\<close>; \<open>Indent\<close> models \<open>indentLine\<close> and \<open>indentSelection\<close>;
    \<open>Commands\<close> models \<open>moveH\<close>, \<open>deleteH\<close> and the commands built on all of these. Movement ends at a position of the text
    in the right direction, deleting removes exactly the text between cursors and targets, and indentation
    reaches the wanted column, which the mode may compute from its state before the line, and changes nothing else.

  \<^item> \<open>ViewTracking\<close> and \<open>LineContent\<close> model \<open>regChange\<close>, \<open>adjustView\<close>, \<open>buildViewArray\<close> and \<open>buildLineContent\<close>: the view is
    always a run of visual lines of the document, and the rendered nodes show the text of the line.

  \<^item> \<open>KeyMaps\<close> models key names, the standard maps and \<open>lookupKey\<close>: the search is a scan of the maps in depth-first
    order, and the standard maps bind pressable keys to existing commands. \<open>Scrolling\<close> models \<open>calculateScrollPos\<close>: a
    rectangle that fits is on the screen afterwards.

  \<^bold>\<open>Bounds.\<close> Only the search in key maps takes a number of levels, since maps may fall through to each other in a
    cycle; two levels are enough for the standard maps (\<open>standard_keymaps_valid\<close>). All other recursion is either
    structural, has a measure, or is a partial function as described.

  \<^bold>\<open>Not modelled.\<close> Drawing, measuring, scroll bars, focus, the polling of the input field, the mouse, the
  clipboard and timers: what these do is decided by the browser. Line widgets, linked documents and shared
  markers: a document is taken alone. The display updates of a change (\<open>makeChangeSingleDocInEditor\<close>), handlers of
  rendering events, and the commands that need the layout of the page. The copies of jQuery under
  \<^verbatim>\<open>src/js/doc\<close> are third-party code; the compiler, its runtime systems and libraries are written in SML and C.
\<close>

end
